(* ===== verification/Ycpp_Prelude.thy ===== *)
theory Ycpp_Prelude
  imports Main "HOL-Library.Word" "HOL-Library.Code_Target_Nat"
begin

unbundle bit_operations_syntax

text \<open>
  Shared vocabulary of the development: the machine types of the C++ code
  (\<open>uint8_t\<close>, \<open>uint64_t\<close>), bytes in memory as lists, the status-or-value results, the
  state-passing operations with the early return of the macro \<open>YCPP_TRY\<close>, and the
  generic facts on lists, words and binary search the components share.

  Conventions used throughout.  A \<open>uint64_t\<close> that takes part in arithmetic (a client id,
  a clock, a length, a hash) is a 64-bit word, so that overflow wraps as in the code.  A
  \<open>size_t\<close> that counts elements of a container or indexes a buffer is a natural number.
  A \<open>ByteView\<close> is the list of the bytes it views.
\<close>

type_synonym u8 = "8 word"
type_synonym u16 = "16 word"
type_synonym u32 = "32 word"
type_synonym u64 = "64 word"
type_synonym bytes = "u8 list"

section \<open>Status codes\<close>

text \<open>
  The enum \<open>Status\<close> of ycpp_status.h.  A fallible function that delivers a value is
  modelled as \<open>'a result\<close>: \<open>Inr x\<close> is the return value \<open>kOk\<close> with the out-parameter
  set to \<open>x\<close>, \<open>Inl e\<close> the return value \<open>e\<close>.
\<close>

datatype status =
    kOk
  | kInvalidArgument
  | kOutOfBounds
  | kCorruptInput
  | kUnsupportedFormat
  | kOutOfMemory
  | kCapacityExceeded
  | kNotFound
  | kAlreadyExists
  | kPendingReference
  | kIntegrationFailed
  | kInternal

type_synonym 'a result = "status + 'a"

definition is_ok :: "status \<Rightarrow> bool" where
  "is_ok s \<longleftrightarrow> s = kOk"

fun status_name :: "status \<Rightarrow> string" where
  "status_name kOk = ''ok''"
| "status_name kInvalidArgument = ''invalid_argument''"
| "status_name kOutOfBounds = ''out_of_bounds''"
| "status_name kCorruptInput = ''corrupt_input''"
| "status_name kUnsupportedFormat = ''unsupported_format''"
| "status_name kOutOfMemory = ''out_of_memory''"
| "status_name kCapacityExceeded = ''capacity_exceeded''"
| "status_name kNotFound = ''not_found''"
| "status_name kAlreadyExists = ''already_exists''"
| "status_name kPendingReference = ''pending_reference''"
| "status_name kIntegrationFailed = ''integration_failed''"
| "status_name kInternal = ''internal''"

lemma status_name_inj: "status_name s = status_name t \<Longrightarrow> s = t"
  by (cases s; cases t) simp_all

section \<open>Operations with a state\<close>

text \<open>
  An operation of a class is a function from the object's state to a result and the new
  state; \<open>ytry\<close> runs an operation and goes on with its value, or returns its status at
  once (the macro \<open>YCPP_TRY\<close>).  The state reached at an early return is kept: what an
  aborted call has already done to its object stays done.
\<close>

type_synonym ('s, 'a) op = "'s \<Rightarrow> 'a result \<times> 's"

definition yreturn :: "'a \<Rightarrow> ('s, 'a) op" where
  "yreturn x s = (Inr x, s)"

definition yfail :: "status \<Rightarrow> ('s, 'a) op" where
  "yfail e s = (Inl e, s)"

definition ytry :: "('s, 'a) op \<Rightarrow> ('a \<Rightarrow> ('s, 'b) op) \<Rightarrow> ('s, 'b) op" where
  "ytry m k s = (case m s of (Inl e, s') \<Rightarrow> (Inl e, s') | (Inr x, s') \<Rightarrow> k x s')"

text \<open>The counted loop \<open>for (i = 0; i < n; ++i)\<close> around a fallible body, collecting its values.\<close>

primrec yrepeat :: "nat \<Rightarrow> ('s, 'a) op \<Rightarrow> ('s, 'a list) op" where
  "yrepeat 0 m = yreturn []"
| "yrepeat (Suc n) m = ytry m (\<lambda>x. ytry (yrepeat n m) (\<lambda>xs. yreturn (x # xs)))"

text \<open>The same loop over the elements of a sequence.\<close>

primrec yforeach :: "('a \<Rightarrow> ('s, unit) op) \<Rightarrow> 'a list \<Rightarrow> ('s, unit) op" where
  "yforeach f [] = yreturn ()"
| "yforeach f (x # xs) = ytry (f x) (\<lambda>_. yforeach f xs)"

named_theorems op_simps "unfolding the plumbing of state-passing operations"

lemma yreturn_apply [op_simps]: "yreturn x s = (Inr x, s)"
  by (simp add: yreturn_def)

lemma yfail_apply [op_simps]: "yfail e s = (Inl e, s)"
  by (simp add: yfail_def)

lemma ytry_apply [op_simps]:
  "ytry m k s = (case m s of (Inl e, s') \<Rightarrow> (Inl e, s') | (Inr x, s') \<Rightarrow> k x s')"
  by (simp add: ytry_def)

lemma ytry_Inr: "m s = (Inr x, s') \<Longrightarrow> ytry m k s = k x s'"
  by (simp add: ytry_def)

lemma ytry_Inl: "m s = (Inl e, s') \<Longrightarrow> ytry m k s = (Inl e, s')"
  by (simp add: ytry_def)

lemma ytry_InrE:
  assumes "ytry m k s = (Inr y, s'')"
  obtains x s' where "m s = (Inr x, s')" and "k x s' = (Inr y, s'')"
  using assms by (auto simp: ytry_def split: prod.splits sum.splits)

text \<open>
  The allocator policy the hot-path classes are templates over: \<open>alloc(n, align)\<close> on the
  allocator's state yields a pointer, or \<open>None\<close> for \<open>nullptr\<close>.
\<close>

type_synonym 'a allocator = "u64 \<Rightarrow> u64 \<Rightarrow> 'a \<Rightarrow> u64 option \<times> 'a"

definition alloc_total :: "'a allocator \<Rightarrow> bool" where
  "alloc_total al \<longleftrightarrow> (\<forall>n align a. fst (al n align a) \<noteq> None)"

lemma alloc_totalD: "alloc_total al \<Longrightarrow> al n align a = (None, a') \<Longrightarrow> P"
  unfolding alloc_total_def by (metis fst_conv)

text \<open>
  The helper every class has for taking ownership of bytes: an empty view needs no memory, any
  other is copied to fresh memory; \<open>None\<close> is the null \<open>data\<close> that the callers test for.
\<close>

definition clone_view :: "'a allocator \<Rightarrow> bytes \<Rightarrow> 'a \<Rightarrow> bytes option \<times> 'a" where
  "clone_view al v a =
     (if length v = 0 then (Some [], a)
      else (case al (of_nat (length v)) 1 a of
              (None, a) \<Rightarrow> (None, a)
            | (Some _, a) \<Rightarrow> (Some v, a)))"

lemma clone_view_Some: "clone_view al v a = (Some w, a') \<Longrightarrow> w = v"
  by (auto simp: clone_view_def split: if_splits option.splits prod.splits)

lemma clone_view_total: "alloc_total al \<Longrightarrow> clone_view al v a = (w, a') \<Longrightarrow> w = Some v"
  by (auto simp: clone_view_def dest: alloc_totalD split: if_splits option.splits prod.splits)

text \<open>
  Running an operation on one component of a pair of states (an object and its allocator,
  a reader and the object it fills), and a loop of a fixed number of rounds.
\<close>

definition yfst :: "('s, 'a) op \<Rightarrow> ('s \<times> 't, 'a) op" where
  "yfst m st = (case m (fst st) of (r, s') \<Rightarrow> (r, s', snd st))"

definition ysnd :: "('t, 'a) op \<Rightarrow> ('s \<times> 't, 'a) op" where
  "ysnd m st = (case m (snd st) of (r, t') \<Rightarrow> (r, fst st, t'))"

primrec yloop :: "nat \<Rightarrow> ('s, unit) op \<Rightarrow> ('s, unit) op" where
  "yloop 0 m = yreturn ()"
| "yloop (Suc n) m = ytry m (\<lambda>_. yloop n m)"

lemma yfst_apply [op_simps]: "yfst m (s, t) = (case m s of (r, s') \<Rightarrow> (r, s', t))"
  by (simp add: yfst_def)

lemma ysnd_apply [op_simps]: "ysnd m (s, t) = (case m t of (r, t') \<Rightarrow> (r, s, t'))"
  by (simp add: ysnd_def)

text \<open>What holds of the state before an operation and survives every step of it.\<close>

definition ykeeps :: "('s \<Rightarrow> bool) \<Rightarrow> ('s, 'a) op \<Rightarrow> bool" where
  "ykeeps P m \<longleftrightarrow> (\<forall>s. P s \<longrightarrow> P (snd (m s)))"

named_theorems ykeeps_intros "operations that keep an invariant"

lemma ykeepsD: "ykeeps P m \<Longrightarrow> P s \<Longrightarrow> m s = (r, s') \<Longrightarrow> P s'"
  by (auto simp: ykeeps_def dest: spec [of _ s])

lemma ykeeps_return [ykeeps_intros]: "ykeeps P (yreturn x)"
  by (simp add: ykeeps_def op_simps)

lemma ykeeps_fail [ykeeps_intros]: "ykeeps P (yfail e)"
  by (simp add: ykeeps_def op_simps)

lemma ykeeps_try [ykeeps_intros]: "ykeeps P m \<Longrightarrow> (\<And>x. ykeeps P (k x)) \<Longrightarrow> ykeeps P (ytry m k)"
  unfolding ykeeps_def ytry_def by (auto split: prod.splits sum.splits)

lemma ykeeps_if [ykeeps_intros]:
  "(b \<Longrightarrow> ykeeps P m) \<Longrightarrow> (\<not> b \<Longrightarrow> ykeeps P m') \<Longrightarrow> ykeeps P (if b then m else m')"
  by simp

lemma ykeeps_loop [ykeeps_intros]: "ykeeps P m \<Longrightarrow> ykeeps P (yloop n m)"
  by (induction n) (auto intro: ykeeps_intros)

lemma ykeeps_foreach [ykeeps_intros]:
  "(\<And>x. x \<in> set xs \<Longrightarrow> ykeeps P (f x)) \<Longrightarrow> ykeeps P (yforeach f xs)"
  by (induction xs) (auto intro: ykeeps_intros)

lemma ykeeps_fst: "ykeeps P m \<Longrightarrow> ykeeps (\<lambda>st. P (fst st) \<and> Q (snd st)) (yfst m)"
  by (auto simp: ykeeps_def yfst_def split: prod.splits)

lemma ykeeps_snd: "ykeeps Q m \<Longrightarrow> ykeeps (\<lambda>st. P (fst st) \<and> Q (snd st)) (ysnd m)"
  by (auto simp: ykeeps_def ysnd_def split: prod.splits)

section \<open>Writing into a buffer\<close>

text \<open>\<open>memcpy(buf + i, ys, n)\<close> for a destination range inside the buffer.\<close>

definition overwrite :: "'a list \<Rightarrow> nat \<Rightarrow> 'a list \<Rightarrow> 'a list" where
  "overwrite xs i ys = take i xs @ ys @ drop (i + length ys) xs"

lemma length_overwrite [simp]:
  "i + length ys \<le> length xs \<Longrightarrow> length (overwrite xs i ys) = length xs"
  by (simp add: overwrite_def)

lemma overwrite_Nil [simp]: "overwrite xs i [] = xs"
  by (simp add: overwrite_def)

lemma overwrite_Cons:
  assumes "i + length (y # ys) \<le> length xs"
  shows "overwrite xs i (y # ys) = overwrite (xs[i := y]) (i + 1) ys"
proof -
  have "i < length xs" using assms by simp
  then have "take (Suc i) (xs[i := y]) = take i xs @ [y]"
    by (simp add: take_Suc_conv_app_nth)
  then show ?thesis by (simp add: overwrite_def)
qed

lemma take_overwrite:
  "i + length ys \<le> length xs \<Longrightarrow> take (i + length ys) (overwrite xs i ys) = take i xs @ ys"
  by (simp add: overwrite_def)

lemma take_overwrite_before: "j \<le> i \<Longrightarrow> i \<le> length xs \<Longrightarrow> take j (overwrite xs i ys) = take j xs"
  by (simp add: overwrite_def min_def)

section \<open>Power-of-two masks\<close>

text \<open>The idiom \<open>x & (cap - 1)\<close> for a capacity that is a power of two.\<close>

lemma and_pred_pow2: "(x :: u64) AND (2 ^ k - 1) = take_bit k x"
  by (simp add: take_bit_eq_mask mask_eq_exp_minus_1)

lemma unat_and_pred_pow2: "unat ((x :: u64) AND (2 ^ k - 1)) = unat x mod 2 ^ k"
  by (simp add: and_pred_pow2 unsigned_take_bit_eq flip: take_bit_eq_mod)

lemma unat_drop_bit: "unat (drop_bit n (x :: u64)) = unat x div 2 ^ n"
  unfolding unat_drop_bit_eq by (rule drop_bit_eq_div)

lemma unat_push_bit:
  assumes "unat (x :: u64) * 2 ^ n < 2 ^ 64"
  shows "unat (push_bit n x) = unat x * 2 ^ n"
proof -
  have "unat (push_bit n x) = take_bit 64 (push_bit n (unat x))"
    by (simp only: unsigned_push_bit_eq) simp
  then show ?thesis using assms by (simp add: push_bit_eq_mult take_bit_nat_eq_self)
qed

text \<open>Or-ing in bits above all set bits of an accumulator adds them.\<close>

lemma unat_or_push_bit:
  assumes a: "unat (a :: u64) < 2 ^ s" and x: "unat x * 2 ^ s < 2 ^ 64"
  shows "unat (a OR push_bit s x) = unat a + unat x * 2 ^ s"
proof -
  have "\<not> bit (unat a) n \<or> \<not> bit (push_bit s (unat x)) n" for n
  proof (cases "n < s")
    case False
    have "take_bit s (unat a) = unat a" using a by (simp add: take_bit_nat_eq_self)
    then have "\<not> bit (unat a) n" using False by (metis bit_take_bit_iff)
    then show ?thesis by simp
  qed (simp add: bit_push_bit_iff)
  then have "unat a + push_bit s (unat x) = unat a OR push_bit s (unat x)"
    by (rule disjunctive_add)
  moreover have "unat (push_bit s x) = push_bit s (unat x)"
    using unat_push_bit [OF x] by (simp add: push_bit_eq_mult)
  ultimately show ?thesis by (simp add: unsigned_or_eq push_bit_eq_mult)
qed

lemma not_bit_64 [simp]: "\<not> bit (x :: u64) 64"
  using bit_imp_le_length [of x 64] by auto

lemma unat_u64: "unat (x :: u64) < 18446744073709551616"
  using unsigned_less [of x] by simp

lemma uint_u64: "uint (x :: u64) < 18446744073709551616"
  using unsigned_less [of x, where ?'a = int] by simp

lemma unat_u8: "unat (b :: u8) < 256"
  using unsigned_less [of b] by simp

lemma unat_of_nat_small: "n < 2 ^ 64 \<Longrightarrow> unat (of_nat n :: u64) = n"
  by (simp add: unat_of_nat take_bit_nat_eq_self)

section \<open>Binary search\<close>

text \<open>
  The loop every sorted vector of the code is searched with:
  \<open>while (lo < hi) { mid = lo + (hi - lo) / 2; if (p(mid)) lo = mid + 1; else hi = mid; }\<close>.
  It returns the length of the prefix on which \<open>p\<close> holds, whenever \<open>p\<close> is monotone.
\<close>

function bsearch :: "(nat \<Rightarrow> bool) \<Rightarrow> nat \<Rightarrow> nat \<Rightarrow> nat" where
  "bsearch p lo hi =
     (if lo < hi
      then (let mid = lo + (hi - lo) div 2
            in if p mid then bsearch p (mid + 1) hi else bsearch p lo mid)
      else lo)"
  by pat_completeness auto
termination
  by (relation "measure (\<lambda>(p, lo, hi). hi - lo)") (auto simp: Let_def)

declare bsearch.simps [simp del]

lemma bsearch_empty [simp]: "hi \<le> lo \<Longrightarrow> bsearch p lo hi = lo"
  by (simp add: bsearch.simps [of p lo hi])

lemma bsearch_bounds: "lo \<le> hi \<Longrightarrow> lo \<le> bsearch p lo hi \<and> bsearch p lo hi \<le> hi"
proof (induction p lo hi rule: bsearch.induct)
  case (1 p lo hi)
  show ?case
  proof (cases "lo < hi")
    case True
    define mid where "mid = lo + (hi - lo) div 2"
    have mid: "lo \<le> mid" "mid < hi" using True by (auto simp: mid_def)
    have "p mid \<Longrightarrow> mid + 1 \<le> bsearch p (mid + 1) hi \<and> bsearch p (mid + 1) hi \<le> hi"
      using "1.IH"(1)[OF True mid_def] mid by simp
    moreover have "\<not> p mid \<Longrightarrow> lo \<le> bsearch p lo mid \<and> bsearch p lo mid \<le> mid"
      using "1.IH"(2)[OF True mid_def] mid by simp
    ultimately show ?thesis
      using True mid by (auto simp: bsearch.simps [of p lo hi] Let_def mid_def [symmetric])
  next
    case False
    with "1.prems" show ?thesis by simp
  qed
qed

lemma bsearch_partition:
  assumes "\<And>i j. i \<le> j \<Longrightarrow> j < n \<Longrightarrow> p j \<Longrightarrow> p i"
    and "lo \<le> hi" and "hi \<le> n"
    and "\<And>i. i < lo \<Longrightarrow> p i" and "\<And>i. hi \<le> i \<Longrightarrow> i < n \<Longrightarrow> \<not> p i"
  shows "(\<forall>i < bsearch p lo hi. p i) \<and> (\<forall>i. bsearch p lo hi \<le> i \<and> i < n \<longrightarrow> \<not> p i)"
  using assms
proof (induction p lo hi rule: bsearch.induct)
  case (1 p lo hi)
  note mono = "1.prems"(1)
  show ?case
  proof (cases "lo < hi")
    case True
    define mid where "mid = lo + (hi - lo) div 2"
    have mid: "lo \<le> mid" "mid < hi" using True by (auto simp: mid_def)
    show ?thesis
    proof (cases "p mid")
      case True': True
      have low: "p i" if "i < mid + 1" for i
        using mono [of i mid] that True' mid "1.prems"(3) by simp
      show ?thesis
        using "1.IH"(1)[OF True mid_def True' mono _ "1.prems"(3) low "1.prems"(5)] mid True True'
        by (simp add: bsearch.simps [of p lo hi] Let_def mid_def [symmetric])
    next
      case False
      have high: "\<not> p i" if "mid \<le> i" "i < n" for i
        using mono [of mid i] that False by blast
      show ?thesis
        using "1.IH"(2)[OF True mid_def False mono _ _ "1.prems"(4) high] mid True False "1.prems"(3)
        by (simp add: bsearch.simps [of p lo hi] Let_def mid_def [symmetric])
    qed
  next
    case False
    with "1.prems" show ?thesis by simp
  qed
qed

lemma bsearch_prefix:
  assumes "\<And>i j. i \<le> j \<Longrightarrow> j < n \<Longrightarrow> p j \<Longrightarrow> p i"
  shows "bsearch p 0 n \<le> n" and "i < bsearch p 0 n \<Longrightarrow> p i"
    and "bsearch p 0 n \<le> i \<Longrightarrow> i < n \<Longrightarrow> \<not> p i"
proof -
  show "bsearch p 0 n \<le> n" using bsearch_bounds [of 0 n p] by simp
  have "(\<forall>i < bsearch p 0 n. p i) \<and> (\<forall>i. bsearch p 0 n \<le> i \<and> i < n \<longrightarrow> \<not> p i)"
    by (rule bsearch_partition [of n p]) (use assms in auto)
  then show "i < bsearch p 0 n \<Longrightarrow> p i" and "bsearch p 0 n \<le> i \<Longrightarrow> i < n \<Longrightarrow> \<not> p i"
    by blast+
qed

end
