(* ===== verification/Ycpp_Varint.thy ===== *)
theory Ycpp_Varint
  imports Ycpp_Prelude
begin

unbundle bit_operations_syntax

text \<open>
  The variable-length integer codec of ycpp_varint.h: the LEB128 encoder, decoder and size
  of unsigned 64-bit values, and the zigzag map of signed ones (an \<open>int64_t\<close> is its
  two's-complement word, read by \<open>sint\<close>).

  Specification: \<open>varint_bytes\<close> is the byte string of a value, \<open>leb128_wf\<close> and
  \<open>leb128_value\<close> the syntax and the mathematical value of a LEB128 string.  The loops of
  the code are shown to write exactly \<open>varint_bytes\<close>, and to accept exactly the strings
  of at most ten bytes whose value fits in 64 bits.
\<close>

section \<open>The code\<close>

definition kMaxVarintBytes :: nat where
  "kMaxVarintBytes = 10"

function varint_encode_loop :: "nat \<Rightarrow> u64 \<Rightarrow> bytes \<Rightarrow> nat \<Rightarrow> nat result \<times> bytes" where
  "varint_encode_loop i v out cap =
     (if i < kMaxVarintBytes then
        let low7 = (ucast (v AND 0x7F) :: u8);
            v' = drop_bit 7 v
        in if v' = 0 then
             (if i \<ge> cap then (Inl kOutOfBounds, out)
              else (Inr (i + 1), out[i := low7]))
           else if i \<ge> cap then (Inl kOutOfBounds, out)
           else varint_encode_loop (i + 1) v' (out[i := low7 OR 0x80]) cap
      else (Inl kInternal, out))"
  by pat_completeness auto
termination
  by (relation "measure (\<lambda>(i, v, out, cap). kMaxVarintBytes - i)") auto

definition varint_encode_u64 :: "u64 \<Rightarrow> bytes \<Rightarrow> nat \<Rightarrow> nat result \<times> bytes" where
  "varint_encode_u64 v out cap = varint_encode_loop 0 v out cap"

function varint_decode_loop :: "nat \<Rightarrow> u64 \<Rightarrow> nat \<Rightarrow> bytes \<Rightarrow> nat \<Rightarrow> (u64 \<times> nat) result" where
  "varint_decode_loop i acc shift inp len =
     (if i < kMaxVarintBytes then
        if i \<ge> len then Inl kOutOfBounds
        else let b = inp ! i in
          if i = kMaxVarintBytes - 1 \<and> b AND 0x7E \<noteq> 0 then Inl kCorruptInput
          else let acc' = acc OR push_bit shift (ucast (b AND 0x7F)) in
            if b AND 0x80 = 0 then Inr (acc', i + 1)
            else varint_decode_loop (i + 1) acc' (shift + 7) inp len
      else Inl kCorruptInput)"
  by pat_completeness auto
termination
  by (relation "measure (\<lambda>(i, acc, shift, inp, len). kMaxVarintBytes - i)") auto

definition varint_decode_u64 :: "bytes \<Rightarrow> nat \<Rightarrow> (u64 \<times> nat) result" where
  "varint_decode_u64 inp len = varint_decode_loop 0 0 0 inp len"

lemma drop7_less: "(v :: u64) \<ge> 0x80 \<Longrightarrow> unat (drop_bit 7 v) < unat v"
  unfolding unat_drop_bit by (simp add: word_le_nat_alt)

function varint_size_loop :: "u64 \<Rightarrow> nat \<Rightarrow> nat" where
  "varint_size_loop v n =
     (if v \<ge> 0x80 then varint_size_loop (drop_bit 7 v) (n + 1) else n)"
  by pat_completeness auto
termination
  by (relation "measure (\<lambda>(v, n). unat v)") (simp_all only: in_measure prod.case drop7_less wf_measure)

definition varint_size_u64 :: "u64 \<Rightarrow> nat" where
  "varint_size_u64 v = varint_size_loop v 1"

definition zigzag_encode_i64 :: "u64 \<Rightarrow> u64" where
  "zigzag_encode_i64 v = push_bit 1 v XOR signed_drop_bit 63 v"

definition zigzag_decode_i64 :: "u64 \<Rightarrow> u64" where
  "zigzag_decode_i64 v = drop_bit 1 v XOR (NOT (v AND 1) + 1)"

definition varint_encode_i64 :: "u64 \<Rightarrow> bytes \<Rightarrow> nat \<Rightarrow> nat result \<times> bytes" where
  "varint_encode_i64 v out cap = varint_encode_u64 (zigzag_encode_i64 v) out cap"

definition varint_decode_i64 :: "bytes \<Rightarrow> nat \<Rightarrow> (u64 \<times> nat) result" where
  "varint_decode_i64 inp len =
     (case varint_decode_u64 inp len of
        Inl s \<Rightarrow> Inl s
      | Inr (u, consumed) \<Rightarrow> Inr (zigzag_decode_i64 u, consumed))"

definition varint_size_i64 :: "u64 \<Rightarrow> nat" where
  "varint_size_i64 v = varint_size_u64 (zigzag_encode_i64 v)"

declare varint_encode_loop.simps [simp del] varint_decode_loop.simps [simp del]
  varint_size_loop.simps [simp del]

section \<open>Zigzag\<close>

lemma sign_mask: "signed_drop_bit 63 (v :: u64) = (if bit v 63 then -1 else 0)"
proof (rule bit_word_eqI)
  fix n show "bit (signed_drop_bit 63 v) n = bit (if bit v 63 then - 1 else 0 :: u64) n" if "n < LENGTH(64)"
    using that by (cases "n = 0") (auto simp: bit_signed_drop_bit_iff bit_minus_1_iff)
qed

lemma low_bit_mask: "NOT ((v :: u64) AND 1) + 1 = (if bit v 0 then -1 else 0)"
  by (simp add: and_one_eq mod_2_eq_odd bit_0)

lemma bit_zigzag_encode:
  "k < 64 \<Longrightarrow> bit (zigzag_encode_i64 v) k \<longleftrightarrow>
     (if k = 0 then bit v 63 else bit v (k - 1) \<noteq> bit v 63)"
  unfolding zigzag_encode_i64_def sign_mask bit_xor_iff bit_push_bit_iff by auto

lemma bit_zigzag_decode:
  "k < 64 \<Longrightarrow> bit (zigzag_decode_i64 v) k \<longleftrightarrow> (bit v (k + 1) \<noteq> bit v 0)"
  unfolding zigzag_decode_i64_def low_bit_mask bit_xor_iff bit_drop_bit_eq by auto

lemma zigzag_decode_encode: "zigzag_decode_i64 (zigzag_encode_i64 v) = v"
proof (rule bit_word_eqI)
  fix n :: nat
  assume "n < LENGTH(64)"
  then show "bit (zigzag_decode_i64 (zigzag_encode_i64 v)) n = bit v n"
    by (cases "n = 63") (auto simp: bit_zigzag_encode bit_zigzag_decode)
qed

lemma zigzag_encode_decode: "zigzag_encode_i64 (zigzag_decode_i64 v) = v"
proof (rule bit_word_eqI)
  fix n :: nat
  assume "n < LENGTH(64)"
  then show "bit (zigzag_encode_i64 (zigzag_decode_i64 v)) n = bit v n"
    by (cases "n = 0") (auto simp: bit_zigzag_encode bit_zigzag_decode)
qed

text \<open>The map sends \<open>0, -1, 1, -2, 2, \<dots>\<close> to \<open>0, 1, 2, 3, 4, \<dots>\<close>.\<close>

lemma bit_63_uint: "bit (v :: u64) 63 \<longleftrightarrow> 2 ^ 63 \<le> uint v"
proof -
  have "bit v 63 \<longleftrightarrow> odd (uint v div 2 ^ 63)"
    by (simp only: bit_uint_iff flip: bit_iff_odd) simp
  moreover have "uint v div 2 ^ 63 = (if uint v < 2 ^ 63 then 0 else 1)"
  proof (cases "uint v < 2 ^ 63")
    case False
    then show ?thesis
      using int_div_pos_eq [of "uint v" "2 ^ 63" 1 "uint v - 2 ^ 63"] uint_u64 [of v] by simp
  qed (simp add: div_pos_pos_trivial)
  ultimately show ?thesis by auto
qed

lemma zigzag_encode_value:
  "uint (zigzag_encode_i64 v) = (if 0 \<le> sint v then 2 * sint v else - 2 * sint v - 1)"
proof -
  have s: "sint v = (if bit v 63 then uint v - 2 ^ 64 else uint v)"
    unfolding sint_uint signed_take_bit_eq_take_bit_minus
    using uint_u64 [of v] by (simp add: bit_uint_iff take_bit_int_eq_self)
  have p: "uint (push_bit 1 v) = (2 * uint v) mod 2 ^ 64"
    unfolding unsigned_push_bit_eq by (simp add: take_bit_eq_mod mult.commute)
  have lt: "uint v < 2 ^ 64" using uint_u64 [of v] by simp
  show ?thesis
  proof (cases "bit v 63")
    case True
    then have "2 ^ 63 \<le> uint v" by (simp only: bit_63_uint)
    then have "(2 * uint v - 2 ^ 64) mod 2 ^ 64 = 2 * uint v - 2 ^ 64"
      using lt by (intro mod_pos_pos_trivial) auto
    then have q: "uint (push_bit 1 v) = 2 * uint v - 2 ^ 64"
      unfolding p by (simp only: minus_mod_self2)
    have "uint (NOT w) = 2 ^ 64 - 1 - uint w" for w :: u64
    proof -
      have "uint (NOT w) = (- uint w - 1) mod 2 ^ 64"
        unfolding unsigned_not_eq by (simp add: take_bit_eq_mod not_eq_complement)
      also have "\<dots> = (2 ^ 64 - 1 - uint w) mod 2 ^ 64"
        using mod_add_self1 [of "2 ^ 64" "- uint w - 1"] by (simp add: algebra_simps)
      also have "\<dots> = 2 ^ 64 - 1 - uint w"
      proof (rule mod_pos_pos_trivial)
        have e: "(2 :: int) ^ 64 = 18446744073709551616" by simp
        show "0 \<le> 2 ^ 64 - 1 - uint w" using uint_u64 [of w] unfolding e by linarith
        show "2 ^ 64 - 1 - uint w < 2 ^ 64" using unsigned_greater_eq [of w, where ?'a = int] unfolding e by linarith
      qed
      finally show ?thesis .
    qed
    moreover have "zigzag_encode_i64 v = NOT (push_bit 1 v)"
      unfolding zigzag_encode_i64_def sign_mask if_P [OF True] by simp
    ultimately have "uint (zigzag_encode_i64 v) = 2 ^ 64 - 1 - uint (push_bit 1 v)" by simp
    then show ?thesis using q s True lt by simp
  next
    case False
    then have "uint v < 2 ^ 63" by (simp only: bit_63_uint not_le)
    then have q: "uint (push_bit 1 v) = 2 * uint v" unfolding p by simp
    have "zigzag_encode_i64 v = push_bit 1 v"
      unfolding zigzag_encode_i64_def sign_mask if_not_P [OF False] by simp
    then show ?thesis using q s False by simp
  qed
qed

section \<open>Specification\<close>

function varint_bytes :: "u64 \<Rightarrow> bytes" where
  "varint_bytes v =
     (if v \<ge> 0x80 then (ucast (v AND 0x7F) OR 0x80) # varint_bytes (drop_bit 7 v)
      else [ucast (v AND 0x7F)])"
  by pat_completeness auto
termination
  by (relation "measure unat") (simp_all only: in_measure drop7_less wf_measure)

declare varint_bytes.simps [simp del]

fun leb128_wf :: "bytes \<Rightarrow> bool" where
  "leb128_wf [] = False"
| "leb128_wf [b] = (unat b < 128)"
| "leb128_wf (b # bs) = (128 \<le> unat b \<and> leb128_wf bs)"

fun leb128_value :: "bytes \<Rightarrow> nat" where
  "leb128_value [] = 0"
| "leb128_value (b # bs) = unat b mod 128 + 128 * leb128_value bs"

section \<open>Facts on the specification\<close>

lemma bit_7_u8: "bit (b :: u8) 7 \<longleftrightarrow> 128 \<le> unat b"
proof -
  have "bit b 7 \<longleftrightarrow> odd (unat b div 2 ^ 7)"
    by (simp only: bit_unsigned_iff flip: bit_iff_odd) simp
  moreover have "unat b div 2 ^ 7 = (if unat b < 128 then 0 else 1)"
    using unat_u8 [of b] by (auto intro: div_nat_eqI)
  ultimately show ?thesis by auto
qed

lemma and_7F: "unat ((b :: u8) AND 0x7F) = unat b mod 128"
proof -
  have "b AND 0x7F = take_bit 7 b" by (simp add: take_bit_eq_mask mask_eq_exp_minus_1)
  then have "unat (b AND 0x7F) = take_bit 7 (unat b)" by (simp only: unsigned_take_bit_eq)
  then show ?thesis by (simp only: take_bit_eq_mod) simp
qed

lemma and_80: "(b :: u8) AND 0x80 = 0 \<longleftrightarrow> unat b < 128"
  using and_exp_eq_0_iff_not_bit [of b 7] by (simp add: bit_7_u8 not_le)

lemma bit_7E: "bit (0x7E :: u8) n \<longleftrightarrow> 1 \<le> n \<and> n < 7"
proof -
  have "bit (0x7E :: u8) n \<longleftrightarrow> n \<in> {1, 2, 3, 4, 5, 6}"
    by (auto simp: bit_numeral_rec bit_1_iff split: nat.splits)
  then show ?thesis by auto
qed

lemma and_7E: "(b :: u8) AND 0x7E = 0 \<longleftrightarrow> unat b mod 128 \<le> 1"
proof -
  have "b AND 0x7E = 0 \<longleftrightarrow> (\<forall>n. \<not> (bit b n \<and> 1 \<le> n \<and> n < 7))"
    unfolding bit_eq_iff bit_and_iff bit_7E by (auto, erule_tac x = n in allE, auto)
  also have "\<dots> \<longleftrightarrow> (\<forall>m. \<not> (bit b (Suc m) \<and> Suc m < 7))"
    by (metis Suc_le_D One_nat_def le_add1 plus_1_eq_Suc)
  also have "\<dots> \<longleftrightarrow> (\<forall>n. \<not> bit (drop_bit 1 (take_bit 7 (unat b))) n)"
    by (auto simp: bit_take_bit_iff bit_drop_bit_eq bit_unsigned_iff)
  also have "\<dots> \<longleftrightarrow> drop_bit 1 (take_bit 7 (unat b)) = 0"
    by (auto simp: bit_eq_iff)
  finally show ?thesis by (auto simp: take_bit_eq_mod drop_bit_Suc)
qed

lemma or_80: "unat (b :: u8) < 128 \<Longrightarrow> unat (b OR 0x80) = unat b + 128"
proof -
  assume "unat b < 128"
  then have "\<not> bit (unat b) 7" by (simp add: bit_unsigned_iff bit_7_u8 not_le)
  then have "unat b + 2 ^ 7 = unat b OR 2 ^ 7"
    by (intro disjunctive_add) (auto simp only: bit_exp_iff)
  then show ?thesis by (simp add: unsigned_or_eq)
qed
lemmas masks = and_7F and_80 and_7E or_80

lemma low7: "unat (ucast ((v :: u64) AND 0x7F) :: u8) = unat v mod 128"
proof -
  have "unat (v AND 0x7F) = unat v mod 128"
    using unat_and_pred_pow2 [of v 7] by simp
  then show ?thesis by (simp add: unsigned_ucast_eq take_bit_nat_eq_self)
qed

lemma leb128_wf_Cons: "leb128_wf (b # bs) \<longleftrightarrow> (if bs = [] then unat b < 128 else 128 \<le> unat b \<and> leb128_wf bs)"
  by (cases bs) auto

lemma varint_bytes_wf: "leb128_wf (varint_bytes v) \<and> leb128_value (varint_bytes v) = unat v"
proof (induction v rule: varint_bytes.induct)
  case (1 v)
  show ?case
  proof (cases "v \<ge> 0x80")
    case True
    have ne: "varint_bytes (drop_bit 7 v) \<noteq> []"
      by (subst varint_bytes.simps) simp
    with True 1 show ?thesis
      unfolding varint_bytes.simps [of v]
      by (simp add: leb128_wf_Cons masks low7 unat_drop_bit [of 7, simplified])
  next
    case False
    then have "unat v < 128" by (simp add: word_less_nat_alt not_le)
    with False show ?thesis
      unfolding varint_bytes.simps [of v] by (simp add: low7)
  qed
qed

lemma length_varint_bytes_le: "unat v < 2 ^ (7 * k) \<Longrightarrow> 0 < k \<Longrightarrow> length (varint_bytes v) \<le> k"
proof (induction k arbitrary: v)
  case (Suc k)
  show ?case
  proof (cases "v \<ge> 0x80")
    case True
    then have "128 \<le> unat v" by (simp add: word_le_nat_alt)
    with Suc.prems have "0 < k" by (cases k) auto
    moreover have "unat (drop_bit 7 v) < 2 ^ (7 * k)"
      unfolding unat_drop_bit using Suc.prems by (simp add: power_add less_mult_imp_div_less mult.commute)
    ultimately show ?thesis
      using Suc.IH True unfolding varint_bytes.simps [of v] by simp
  next
    case False
    then show ?thesis unfolding varint_bytes.simps [of v] by simp
  qed
qed simp

lemma length_varint_bytes: "length (varint_bytes v) \<le> 10"
  by (rule length_varint_bytes_le) (rule less_trans [OF unat_u64 [of v]], simp_all)

lemma varint_size_loop: "varint_size_loop v n + 1 = n + length (varint_bytes v)"
  by (induction v n rule: varint_size_loop.induct)
     (simp add: varint_size_loop.simps varint_bytes.simps)

text \<open>No LEB128 string of the same value is shorter.\<close>

lemma varint_bytes_least: "leb128_wf bs \<Longrightarrow> leb128_value bs = unat v \<Longrightarrow> length (varint_bytes v) \<le> length bs"
proof (induction bs arbitrary: v)
  case (Cons b bs)
  show ?case
  proof (cases "v \<ge> 0x80")
    case True
    then have "128 \<le> unat v" by (simp add: word_le_nat_alt)
    with Cons.prems have ne: "bs \<noteq> []" by auto
    have "leb128_value bs = unat (drop_bit 7 v)"
      unfolding unat_drop_bit using Cons.prems(2) by (simp flip: Cons.prems(2))
    then have "length (varint_bytes (drop_bit 7 v)) \<le> length bs"
      using Cons ne by (simp add: leb128_wf_Cons)
    then show ?thesis using True by (simp add: varint_bytes.simps [of v])
  next
    case False
    then show ?thesis by (simp add: varint_bytes.simps [of v])
  qed
qed simp

section \<open>The loops meet the specification\<close>

lemma leb128_acc_bound:
  assumes "a < 2 ^ (7 * i)" and "m < 128"
  shows "a + m * 2 ^ (7 * i) < (2 :: nat) ^ (7 * (i + 1))"
proof -
  have "m * 2 ^ (7 * i) \<le> 127 * 2 ^ (7 * i)" using assms(2) by simp
  moreover have "(2 :: nat) ^ (7 * (i + 1)) = 128 * 2 ^ (7 * i)" by (simp add: power_add)
  ultimately show ?thesis using assms(1) by linarith
qed

lemma decode_step:
  assumes "i < 10" and "i < len"
  shows "varint_decode_loop i acc s inp len =
    (let b = inp ! i; acc' = acc OR push_bit s (ucast (b AND 0x7F))
     in if i = 9 \<and> 1 < unat b mod 128 then Inl kCorruptInput
        else if unat b < 128 then Inr (acc', i + 1)
        else varint_decode_loop (i + 1) acc' (s + 7) inp len)"
  using assms by (cases "i = 9"; subst varint_decode_loop.simps)
    (simp_all add: kMaxVarintBytes_def masks Let_def not_le)

lemma decode_stop:
  "\<not> (i < 10 \<and> i < len) \<Longrightarrow> varint_decode_loop i acc s inp len =
     Inl (if i < 10 then kOutOfBounds else kCorruptInput)"
  by (subst varint_decode_loop.simps) (auto simp: kMaxVarintBytes_def)

lemma unat_low7: "unat (ucast ((b :: u8) AND 0x7F) :: u64) = unat b mod 128"
  by (simp add: unsigned_ucast_eq take_bit_nat_eq_self masks)

lemma decode_accept:
  assumes "leb128_wf bs" and "inp = pre @ bs @ rest" and "i = length pre"
    and "i + length bs \<le> len" and "len \<le> length inp"
    and "i + length bs \<le> 10" and "unat acc < 2 ^ (7 * i)"
    and "unat acc + 2 ^ (7 * i) * leb128_value bs < 2 ^ 64"
  shows "\<exists>v. varint_decode_loop i acc (7 * i) inp len = Inr (v, i + length bs) \<and>
           unat v = unat acc + 2 ^ (7 * i) * leb128_value bs"
  using assms
proof (induction bs arbitrary: i acc pre)
  case (Cons b bs)
  have b: "inp ! i = b" using Cons.prems by (simp add: nth_append)
  have i: "i < 10" "i < len" using Cons.prems by auto
  let ?acc = "acc OR push_bit (7 * i) (ucast (b AND 0x7F))"
  have bd: "unat (ucast (b AND 0x7F) :: u64) * 2 ^ (7 * i) < 2 ^ 64"
    using Cons.prems(8) unfolding unat_low7 by (simp add: algebra_simps)
  have acc': "unat ?acc = unat acc + unat b mod 128 * 2 ^ (7 * i)"
    using unat_or_push_bit [OF Cons.prems(7) bd] unfolding unat_low7 .
  have "\<not> (i = 9 \<and> 1 < unat b mod 128)"
    using bd unfolding unat_low7 by auto
  note step = decode_step [OF i, of acc "7 * i" inp, unfolded b Let_def if_not_P [OF this]]
  show ?case
  proof (cases "bs = []")
    case True
    then show ?thesis using Cons.prems(1) step acc' by simp
  next
    case False
    have "\<exists>v. varint_decode_loop (i + 1) ?acc (7 * (i + 1)) inp len = Inr (v, (i + 1) + length bs) \<and>
           unat v = unat ?acc + 2 ^ (7 * (i + 1)) * leb128_value bs"
      by (rule Cons.IH [where pre = "pre @ [b]"])
         (use Cons.prems False acc' leb128_acc_bound [OF Cons.prems(7), of "unat b mod 128"]
           in \<open>auto simp: leb128_wf_Cons power_add algebra_simps\<close>)
    moreover have "7 * i + 7 = 7 * (i + 1)" by simp
    ultimately show ?thesis using step Cons.prems(1) False acc'
      by (auto simp: leb128_wf_Cons power_add algebra_simps)
  qed
qed simp

lemma decode_sound:
  assumes "varint_decode_loop i acc shift inp len = Inr (v, n)" and "shift = 7 * i"
    and "len \<le> length inp" and "unat acc < 2 ^ (7 * i)"
  shows "i < n \<and> n \<le> len \<and> n \<le> 10 \<and> leb128_wf (take (n - i) (drop i inp)) \<and>
    unat v = unat acc + 2 ^ (7 * i) * leb128_value (take (n - i) (drop i inp))"
  using assms
proof (induction "10 - i" arbitrary: i acc shift)
  case 0
  then show ?case by (simp add: decode_stop)
next
  case (Suc d)
  define b where "b = inp ! i"
  define acc' where "acc' = acc OR push_bit shift (ucast (b AND 0x7F))"
  have i: "i < 10" "i < len"
    using Suc.prems(1) decode_stop [of i len acc shift inp] by (auto split: if_splits)
  note step = decode_step [OF i, of acc shift inp, folded b_def, unfolded Let_def, folded acc'_def]
  have e9: "\<not> (i = 9 \<and> 1 < unat b mod 128)"
    using Suc.prems(1) step by (auto split: if_splits)
  have "unat b mod 128 * 2 ^ (7 * i) < 2 ^ 64"
  proof (cases "i = 9")
    case True
    then show ?thesis using e9 by (cases "unat b mod 128") auto
  next
    case False
    then have "(2::nat) ^ (7 * i) \<le> 2 ^ 56" using i by (intro power_increasing) auto
    then have "unat b mod 128 * 2 ^ (7 * i) \<le> 127 * 2 ^ 56" by (intro mult_le_mono) auto
    then show ?thesis by simp
  qed
  then have acc': "unat acc' = unat acc + unat b mod 128 * 2 ^ (7 * i)"
    using unat_or_push_bit [OF Suc.prems(4), of "ucast (b AND 0x7F)"] Suc.prems(2)
    unfolding unat_low7 acc'_def by simp
  have drop: "drop i inp = b # drop (i + 1) inp"
    using i Suc.prems(3) by (simp add: b_def Cons_nth_drop_Suc)
  show ?case
  proof (cases "unat b < 128")
    case True
    then have "v = acc'" "n = i + 1" using Suc.prems(1) step e9 by auto
    then show ?thesis using True acc' drop i Suc.prems(3) by (simp add: algebra_simps)
  next
    case False
    have lt: "unat acc' < 2 ^ (7 * (i + 1))"
      using leb128_acc_bound [OF Suc.prems(4), of "unat b mod 128"] acc' by simp
    have "i + 1 < n \<and> n \<le> len \<and> n \<le> 10 \<and> leb128_wf (take (n - (i + 1)) (drop (i + 1) inp)) \<and>
      unat v = unat acc' + 2 ^ (7 * (i + 1)) * leb128_value (take (n - (i + 1)) (drop (i + 1) inp))"
      by (rule Suc.hyps(1) [of "i + 1" acc' "shift + 7"])
         (use Suc.prems Suc.hyps(2) step e9 False lt in auto)
    moreover from this obtain k where k: "n - i = Suc k" "n - (i + 1) = k"
      by (metis Suc_diff_Suc Suc_eq_plus1 Suc_lessD)
    ultimately show ?thesis using drop False acc'
      by (auto simp: leb128_wf_Cons power_add algebra_simps)
  qed
qed

lemma decode_status:
  assumes "varint_decode_loop i acc shift inp len = Inl e" and "i \<le> 10" and "i \<le> len"
    and "\<forall>j < i. 128 \<le> unat (inp ! j)"
  shows "e = (if len < 10 \<and> (\<forall>j < len. 128 \<le> unat (inp ! j)) then kOutOfBounds else kCorruptInput)"
  using assms
proof (induction "10 - i" arbitrary: i acc shift)
  case 0
  then have "i = 10" by simp
  then show ?case using 0 by (auto simp: decode_stop)
next
  case (Suc d)
  show ?case
  proof (cases "i < len")
    case False
    then show ?thesis using Suc.prems Suc.hyps(2) by (auto simp: decode_stop)
  next
    case True
    have i: "i < 10" using Suc.hyps(2) by simp
    note step = decode_step [OF i True, of acc shift inp, unfolded Let_def]
    show ?thesis
    proof (cases "i = 9 \<and> 1 < unat (inp ! i) mod 128")
      case c: True
      then show ?thesis using Suc.prems True step by auto
    next
      case c: False
      then have "128 \<le> unat (inp ! i)" using Suc.prems(1) step by (auto split: if_splits)
      then show ?thesis
        using c step Suc.prems Suc.hyps(2) True
        by (intro Suc.hyps(1) [of "i + 1" "acc OR push_bit shift (ucast (inp ! i AND 0x7F))" "shift + 7"])
           (auto simp: less_Suc_eq)
    qed
  qed
qed

lemma encode_loop:
  assumes "i + length (varint_bytes v) \<le> 10" and "cap \<le> length out" and "i \<le> cap"
  shows "varint_encode_loop i v out cap =
     (if i + length (varint_bytes v) \<le> cap
      then (Inr (i + length (varint_bytes v)), overwrite out i (varint_bytes v))
      else (Inl kOutOfBounds, overwrite out i (take (cap - i) (varint_bytes v))))"
  using assms
proof (induction "length (varint_bytes v)" arbitrary: i v out)
  case 0
  then show ?case by (subst (asm) varint_bytes.simps) (auto split: if_splits)
next
  case (Suc d)
  have small: "drop_bit 7 v = 0 \<longleftrightarrow> \<not> v \<ge> 0x80"
  proof -
    have "drop_bit 7 v = 0 \<longleftrightarrow> unat v div 2 ^ 7 = 0"
      unfolding unat_drop_bit [symmetric] by (simp only: unat_eq_0)
    then show ?thesis by (simp add: word_le_nat_alt div_eq_0_iff not_le)
  qed
  let ?b = "ucast (v AND 0x7F) :: u8"
  have step: "varint_encode_loop i v out cap =
    (if \<not> v \<ge> 0x80 then (if i \<ge> cap then (Inl kOutOfBounds, out) else (Inr (i + 1), out[i := ?b]))
     else if i \<ge> cap then (Inl kOutOfBounds, out)
     else varint_encode_loop (i + 1) (drop_bit 7 v) (out[i := ?b OR 0x80]) cap)"
    using Suc.prems(1) Suc.hyps(2) small
    by (subst varint_encode_loop.simps) (simp add: kMaxVarintBytes_def Let_def)
  show ?case
  proof (cases "v \<ge> 0x80")
    case True
    have bs: "varint_bytes v = (?b OR 0x80) # varint_bytes (drop_bit 7 v)"
      using True by (simp add: varint_bytes.simps [of v])
    show ?thesis
    proof (cases "i < cap")
      case ic: True
      obtain m where m: "cap - i = Suc m" "cap - (i + 1) = m" using ic by (metis Suc_diff_Suc Suc_eq_plus1)
      have "i + 1 + min m (length (varint_bytes (drop_bit 7 v))) \<le> length out"
        using m Suc.prems by auto
      then show ?thesis
        using Suc.hyps(1) [of "drop_bit 7 v" "i + 1" "out[i := ?b OR 0x80]"] Suc.hyps(2) Suc.prems
          True step bs ic m
        by (auto simp: overwrite_Cons)
    next
      case False
      then show ?thesis using Suc.prems True step bs by auto
    qed
  next
    case False
    then have "varint_bytes v = [?b]" by (simp add: varint_bytes.simps [of v])
    then show ?thesis using Suc.prems False step by (auto simp: overwrite_Cons)
  qed
qed

lemma varint_size_eq: "varint_size_u64 v = length (varint_bytes v)"
  using varint_size_loop [of v 1] by (simp add: varint_size_u64_def)

lemma varint_encode_eq:
  assumes "cap \<le> length out"
  shows "varint_encode_u64 v out cap =
     (if length (varint_bytes v) \<le> cap
      then (Inr (length (varint_bytes v)), overwrite out 0 (varint_bytes v))
      else (Inl kOutOfBounds, overwrite out 0 (take cap (varint_bytes v))))"
  using encode_loop [of 0 v cap out] assms length_varint_bytes [of v]
  by (simp add: varint_encode_u64_def)

lemma varint_decode_iff:
  assumes "len \<le> length inp"
  shows "varint_decode_u64 inp len = Inr (v, n) \<longleftrightarrow>
    0 < n \<and> n \<le> len \<and> n \<le> 10 \<and> leb128_wf (take n inp) \<and> unat v = leb128_value (take n inp)"
    (is "?l \<longleftrightarrow> ?r")
proof
  assume ?l
  then show ?r using decode_sound [of 0 0 0 inp len v n] assms by (simp add: varint_decode_u64_def)
next
  assume r: ?r
  then have "leb128_value (take n inp) < 2 ^ 64" using unat_u64 [of v] by simp
  then obtain w where "varint_decode_loop 0 0 (7 * 0) inp len = Inr (w, 0 + length (take n inp))"
    "unat w = unat (0 :: u64) + 2 ^ (7 * 0) * leb128_value (take n inp)"
    using decode_accept [of "take n inp" inp "[]" "drop n inp" 0 len 0] r assms by auto
  then show ?l using r assms by (simp add: varint_decode_u64_def word_unat_eq_iff)
qed

lemma varint_decode_error:
  assumes "varint_decode_u64 inp len = Inl e"
  shows "e = (if len < 10 \<and> (\<forall>j < len. 128 \<le> unat (inp ! j)) then kOutOfBounds else kCorruptInput)"
  using decode_status [of 0 0 0 inp len e] assms by (simp add: varint_decode_u64_def)

lemma varint_decode_bytes:
  assumes "length (varint_bytes v) \<le> len" and "len \<le> length (varint_bytes v @ rest)"
  shows "varint_decode_u64 (varint_bytes v @ rest) len = Inr (v, length (varint_bytes v))"
proof -
  have "0 < length (varint_bytes v)" by (subst varint_bytes.simps) simp
  then show ?thesis
    using varint_decode_iff [OF assms(2)] assms(1) length_varint_bytes [of v] varint_bytes_wf [of v]
    by simp
qed

section \<open>Properties\<close>

text \<open>
C27: The decoder accepts exactly the LEB128 strings of at most ten bytes, with the value they
denote; a value that needs more than 64 bits is never accepted.
\<close>

theorem varint_decode_exact:
  assumes "len \<le> length inp"
  shows "varint_decode_u64 inp len = Inr (v, n) \<longleftrightarrow>
    0 < n \<and> n \<le> len \<and> n \<le> 10 \<and> leb128_wf (take n inp) \<and> unat v = leb128_value (take n inp)"
  using assms by (rule varint_decode_iff)

theorem varint_decode_exact_witness: "varint_decode_u64 [0xAC, 0x02, 0x07] 3 = Inr (300, 2)"
  using varint_decode_exact [of 3 "[0xAC, 0x02, 0x07]" 300 2] by simp

text \<open>
C28: What the encoder writes into a buffer with room is read back as the same value with the
same length, no longer than any other LEB128 string of the value, and the rest of the
buffer is untouched.
\<close>

theorem varint_roundtrip:
  assumes "varint_size_u64 v \<le> cap" and "cap \<le> length out"
  shows "\<exists>out'. varint_encode_u64 v out cap = (Inr (varint_size_u64 v), out') \<and>
    varint_decode_u64 out' (length out) = Inr (v, varint_size_u64 v) \<and>
    length out' = length out \<and> drop (varint_size_u64 v) out' = drop (varint_size_u64 v) out \<and>
    (\<forall>bs. leb128_wf bs \<longrightarrow> leb128_value bs = unat v \<longrightarrow> varint_size_u64 v \<le> length bs)"
proof -
  let ?bs = "varint_bytes v"
  have out: "overwrite out 0 ?bs = ?bs @ drop (length ?bs) out" by (simp add: overwrite_def)
  have len: "length ?bs \<le> length out" using assms by (simp add: varint_size_eq)
  have "varint_decode_u64 (?bs @ drop (length ?bs) out) (length out) = Inr (v, length ?bs)"
    by (rule varint_decode_bytes) (use len in simp_all)
  then show ?thesis
    using assms len varint_bytes_least [of _ v] by (simp add: varint_size_eq varint_encode_eq out)
qed

theorem varint_roundtrip_witness:
  "\<exists>out'. varint_encode_u64 1 [0, 0, 9] 3 = (Inr (varint_size_u64 1), out') \<and>
    varint_decode_u64 out' (length [0, 0, 9 :: u8]) = Inr (1, varint_size_u64 1)"
proof -
  have "varint_size_u64 1 = 1" by (simp add: varint_size_u64_def varint_size_loop.simps word_le_nat_alt)
  then show ?thesis using varint_roundtrip [of 1 3 "[0, 0, 9]"] by auto
qed

text \<open>
A rejected input is classified by its shape alone: the decoder asks for more bytes
(\<open>kOutOfBounds\<close>) exactly when every byte given is a continuation byte and fewer than ten are
given, and reports \<open>kCorruptInput\<close> otherwise.
\<close>

theorem varint_decode_status:
  assumes "varint_decode_u64 inp len = Inl e"
  shows "e = (if len < 10 \<and> (\<forall>j < len. 128 \<le> unat (inp ! j)) then kOutOfBounds else kCorruptInput)"
  using assms by (rule varint_decode_error)

theorem varint_decode_status_witness: "varint_decode_u64 [0x80] 1 = Inl kOutOfBounds"
proof -
  have "varint_decode_u64 [0x80] 1 = Inl kOutOfBounds"
    by (simp add: varint_decode_u64_def varint_decode_loop.simps kMaxVarintBytes_def)
  then have "kOutOfBounds = (if (1 :: nat) < 10 \<and> (\<forall>j < 1. 128 \<le> unat ([0x80 :: u8] ! j)) then kOutOfBounds else kCorruptInput)"
    by (rule varint_decode_status)
  then show ?thesis by (simp add: varint_decode_u64_def varint_decode_loop.simps kMaxVarintBytes_def)
qed

text \<open>
Zigzag is a bijection between the signed and the unsigned 64-bit values that sends
\<open>0, -1, 1, -2, \<dots>\<close> to \<open>0, 1, 2, 3, \<dots>\<close>, at the extremes of the range too.
\<close>

theorem zigzag_bijection:
  "zigzag_decode_i64 (zigzag_encode_i64 v) = v \<and> zigzag_encode_i64 (zigzag_decode_i64 v) = v \<and>
   uint (zigzag_encode_i64 v) = (if 0 \<le> sint v then 2 * sint v else - 2 * sint v - 1)"
  by (intro conjI zigzag_decode_encode zigzag_encode_decode zigzag_encode_value)

end
