(* ===== verification/Ycpp_HashMap.thy ===== *)
theory Ycpp_HashMap
  imports Ycpp_Varint
begin

unbundle bit_operations_syntax

text \<open>
  The open-addressing hash map of ycpp_hashmap.h.  A table is its control bytes, its
  entries (\<open>None\<close> where no object is constructed) and the two counters; the capacity is the
  length of the control bytes, and an \<open>Entry*\<close> is a slot index.  The template parameters
  \<open>Hash\<close> and \<open>A\<close>, and the size and alignment of \<open>Entry\<close>, are the fields of an \<open>hm_env\<close>;
  \<open>Equal\<close> is equality of keys.

  \<open>hm_inv\<close> is the representation invariant, \<open>hm_abs\<close> the finite map a table stands for.
  \<open>needs_grow\<close> compares in \<open>float\<close>; with at most \<open>2 ^ 24\<close> slots every number in it is exact, so
  the comparison is the one of the integers.
\<close>

section \<open>The code\<close>

definition kCtrlEmpty :: u8 where
  "kCtrlEmpty = 0x80"

definition kCtrlTombstone :: u8 where
  "kCtrlTombstone = 0xFE"

definition hash_h2 :: "u64 \<Rightarrow> u8" where
  "hash_h2 full = ucast (drop_bit 57 full AND 0x7F)"

function round_up_loop :: "nat \<Rightarrow> nat \<Rightarrow> nat" where
  "round_up_loop v n = (if 0 < v \<and> v < n then round_up_loop (2 * v) n else v)"
  by pat_completeness auto
termination
  by (relation "measure (\<lambda>(v, n). n - v)") auto

declare round_up_loop.simps [simp del]

definition round_up_pow2 :: "nat \<Rightarrow> nat" where
  "round_up_pow2 n = round_up_loop 1 n"

definition kMinCap :: nat where
  "kMinCap = 16"

definition kMaxCap :: nat where
  "kMaxCap = 2 ^ 24"

record ('k, 'v) hashmap =
  hm_ctrl :: bytes
  hm_entries :: "('k \<times> 'v) option list"
  hm_size :: nat
  hm_tombs :: nat

record ('k, 'a) hm_env =
  he_hash :: "'k \<Rightarrow> u64"
  he_alloc :: "'a allocator"
  he_entry_bytes :: nat
  he_entry_align :: nat

definition hm_empty :: "('k, 'v) hashmap" where
  "hm_empty = \<lparr>hm_ctrl = [], hm_entries = [], hm_size = 0, hm_tombs = 0\<rparr>"

definition hm_cap :: "('k, 'v) hashmap \<Rightarrow> nat" where
  "hm_cap m = length (hm_ctrl m)"

definition hm_home :: "('k, 'a) hm_env \<Rightarrow> nat \<Rightarrow> 'k \<Rightarrow> nat" where
  "hm_home E cap k = unat (he_hash E k) AND (cap - 1)"

definition hm_match :: "('k, 'v) hashmap \<Rightarrow> 'k \<Rightarrow> u8 \<Rightarrow> nat \<Rightarrow> bool" where
  "hm_match m k h2 i \<longleftrightarrow> hm_ctrl m ! i = h2 \<and> map_option fst (hm_entries m ! i) = Some k"

primrec hm_find_loop :: "nat \<Rightarrow> ('k, 'v) hashmap \<Rightarrow> 'k \<Rightarrow> u8 \<Rightarrow> nat \<Rightarrow> nat option" where
  "hm_find_loop 0 m k h2 idx = None"
| "hm_find_loop (Suc n) m k h2 idx =
     (if hm_ctrl m ! idx = kCtrlEmpty then None
      else if hm_match m k h2 idx then Some idx
      else hm_find_loop n m k h2 ((idx + 1) AND (hm_cap m - 1)))"

definition hm_find :: "('k, 'a) hm_env \<Rightarrow> 'k \<Rightarrow> ('k, 'v) hashmap \<Rightarrow> nat option" where
  "hm_find E k m =
     (if hm_cap m = 0 then None
      else hm_find_loop (hm_cap m) m k (hash_h2 (he_hash E k)) (hm_home E (hm_cap m) k))"

text \<open>
  The probe loop of \<open>insert_unchecked\<close>, with the slot it ends at: the key is there, or an
  empty slot was reached (with the first tombstone passed, if any), or the table is full.
\<close>

datatype probe = Hit nat | Vacant nat "nat option" | Full

primrec hm_probe_loop :: "nat \<Rightarrow> ('k, 'v) hashmap \<Rightarrow> 'k \<Rightarrow> u8 \<Rightarrow> nat \<Rightarrow> nat option \<Rightarrow> probe" where
  "hm_probe_loop 0 m k h2 idx first_tomb = Full"
| "hm_probe_loop (Suc n) m k h2 idx first_tomb =
     (let c = hm_ctrl m ! idx; next = (idx + 1) AND (hm_cap m - 1) in
      if c = kCtrlEmpty then Vacant idx first_tomb
      else if c = kCtrlTombstone then
        hm_probe_loop n m k h2 next (if first_tomb = None then Some idx else first_tomb)
      else if hm_match m k h2 idx then Hit idx
      else hm_probe_loop n m k h2 next first_tomb)"

definition hm_insert_unchecked ::
    "('k, 'a) hm_env \<Rightarrow> 'k \<Rightarrow> 'v \<Rightarrow> ('k, 'v) hashmap \<Rightarrow> (nat \<times> bool) option \<times> ('k, 'v) hashmap" where
  "hm_insert_unchecked E k v m =
     (let h2 = hash_h2 (he_hash E k) in
      case hm_probe_loop (hm_cap m) m k h2 (hm_home E (hm_cap m) k) None of
        Vacant idx first_tomb \<Rightarrow>
          (let target = (case first_tomb of Some t \<Rightarrow> t | None \<Rightarrow> idx)
           in (Some (target, True),
               \<lparr>hm_ctrl = (hm_ctrl m)[target := h2],
                hm_entries = (hm_entries m)[target := Some (k, v)],
                hm_size = hm_size m + 1,
                hm_tombs = (if target = idx then hm_tombs m else hm_tombs m - 1)\<rparr>))
      | Hit idx \<Rightarrow> (Some (idx, False), m)
      | Full \<Rightarrow> (None, m))"

definition hm_live_ctrl :: "u8 \<Rightarrow> bool" where
  "hm_live_ctrl c \<longleftrightarrow> c \<noteq> kCtrlEmpty \<and> c \<noteq> kCtrlTombstone"

text \<open>The live entries in slot order, which is what \<open>for_each\<close> walks.\<close>

definition hm_items :: "('k, 'v) hashmap \<Rightarrow> ('k \<times> 'v) list" where
  "hm_items m = List.map_filter (\<lambda>(c, e). if hm_live_ctrl c then e else None)
     (zip (hm_ctrl m) (hm_entries m))"

definition hm_for_each :: "('k \<times> 'v \<Rightarrow> 's \<Rightarrow> 's) \<Rightarrow> ('k, 'v) hashmap \<Rightarrow> 's \<Rightarrow> 's" where
  "hm_for_each f m s = fold f (hm_items m) s"

definition hm_blank :: "nat \<Rightarrow> ('k, 'v) hashmap" where
  "hm_blank cap = \<lparr>hm_ctrl = replicate cap kCtrlEmpty, hm_entries = replicate cap None,
     hm_size = 0, hm_tombs = 0\<rparr>"

definition hm_rehash_to ::
    "('k, 'a) hm_env \<Rightarrow> nat \<Rightarrow> ('k, 'v) hashmap \<times> 'a \<Rightarrow> bool \<times> ('k, 'v) hashmap \<times> 'a" where
  "hm_rehash_to E new_cap s =
     (let (m, a) = s in
      if new_cap > kMaxCap then (False, m, a)
      else
        let (new_ctrl, a) = he_alloc E (of_nat new_cap) 1 a;
            (new_entries, a) = he_alloc E (of_nat (he_entry_bytes E * new_cap)) (of_nat (he_entry_align E)) a
        in if new_ctrl = None \<or> new_entries = None then (False, m, a)
           else (True, fold (\<lambda>(k, v) m'. snd (hm_insert_unchecked E k v m')) (hm_items m) (hm_blank new_cap), a))"

definition hm_reserve ::
    "('k, 'a) hm_env \<Rightarrow> nat \<Rightarrow> ('k, 'v) hashmap \<times> 'a \<Rightarrow> bool \<times> ('k, 'v) hashmap \<times> 'a" where
  "hm_reserve E want s =
     (if want \<le> hm_cap (fst s) then (True, s)
      else let target = round_up_pow2 (if want < kMinCap then kMinCap else want)
           in if target > kMaxCap then (False, s) else hm_rehash_to E target s)"

definition hm_needs_grow :: "('k, 'v) hashmap \<Rightarrow> bool" where
  "hm_needs_grow m \<longleftrightarrow> 4 * (hm_size m + hm_tombs m) > 3 * hm_cap m"

definition hm_insert ::
    "('k, 'a) hm_env \<Rightarrow> 'k \<Rightarrow> 'v \<Rightarrow> ('k, 'v) hashmap \<times> 'a \<Rightarrow>
     (nat \<times> bool) option \<times> ('k, 'v) hashmap \<times> 'a" where
  "hm_insert E k v s =
     (let (ok, m, a) = (if hm_cap (fst s) = 0 then hm_rehash_to E kMinCap s else (True, s)) in
      if \<not> ok then (None, m, a)
      else
        let (ok, m, a) = (if hm_needs_grow m then hm_rehash_to E (hm_cap m * 2) (m, a) else (True, m, a)) in
        if \<not> ok then (None, m, a)
        else let (r, m) = hm_insert_unchecked E k v m in (r, m, a))"

definition hm_erase :: "('k, 'a) hm_env \<Rightarrow> 'k \<Rightarrow> ('k, 'v) hashmap \<Rightarrow> bool \<times> ('k, 'v) hashmap" where
  "hm_erase E k m =
     (case hm_find E k m of
        None \<Rightarrow> (False, m)
      | Some idx \<Rightarrow>
          (True, m\<lparr>hm_ctrl := (hm_ctrl m)[idx := kCtrlTombstone],
                   hm_entries := (hm_entries m)[idx := None],
                   hm_size := hm_size m - 1, hm_tombs := hm_tombs m + 1\<rparr>))"

text \<open>What the callers do with an \<open>Entry*\<close>: read \<open>e->value\<close>, and assign to it.\<close>

definition hm_value :: "('k, 'v) hashmap \<Rightarrow> nat \<Rightarrow> 'v" where
  "hm_value m i = snd (the (hm_entries m ! i))"

definition hm_set_value :: "nat \<Rightarrow> 'v \<Rightarrow> ('k, 'v) hashmap \<Rightarrow> ('k, 'v) hashmap" where
  "hm_set_value i v m =
     m\<lparr>hm_entries := (hm_entries m)[i := map_option (\<lambda>(k, _). (k, v)) (hm_entries m ! i)]\<rparr>"

definition hm_get :: "('k, 'a) hm_env \<Rightarrow> 'k \<Rightarrow> ('k, 'v) hashmap \<Rightarrow> 'v option" where
  "hm_get E k m = map_option (hm_value m) (hm_find E k m)"

section \<open>Arithmetic of probing\<close>

definition hm_slot :: "nat \<Rightarrow> nat \<Rightarrow> nat \<Rightarrow> nat" where
  "hm_slot cap h d = (h + d) mod cap"

lemma hm_slot_0 [simp]: "h < cap \<Longrightarrow> hm_slot cap h 0 = h"
  by (simp add: hm_slot_def)

lemma hm_slot_less [simp]: "0 < cap \<Longrightarrow> hm_slot cap h d < cap"
  by (simp add: hm_slot_def)

lemma hm_slot_Suc: "hm_slot cap ((h + 1) mod cap) d = hm_slot cap h (Suc d)"
  by (simp add: hm_slot_def mod_simps)

lemma and_mask_nat: "cap = 2 ^ n \<Longrightarrow> (i :: nat) AND (cap - 1) = i mod cap"
  by (simp add: take_bit_eq_mask mask_eq_exp_minus_1 flip: take_bit_eq_mod)

lemma hm_slot_surj: "i < cap \<Longrightarrow> h < cap \<Longrightarrow> \<exists>d < cap. i = hm_slot cap h d"
proof (rule exI [of _ "(i + cap - h) mod cap"])
  assume "i < cap" "h < cap"
  then have "(h + (i + cap - h) mod cap) mod cap = (i + cap) mod cap" by (simp add: mod_simps)
  with \<open>i < cap\<close> show "(i + cap - h) mod cap < cap \<and> i = hm_slot cap h ((i + cap - h) mod cap)"
    by (simp add: hm_slot_def)
qed

lemma hash_h2_live: "hm_live_ctrl (hash_h2 h)"
proof -
  have "unat (hash_h2 h) < 128"
    using low7 [of "drop_bit 57 h"] by (simp add: hash_h2_def)
  then show ?thesis by (auto simp: hm_live_ctrl_def kCtrlEmpty_def kCtrlTombstone_def)
qed

lemma hash_h2_neq [simp]: "hash_h2 h \<noteq> kCtrlEmpty" "hash_h2 h \<noteq> kCtrlTombstone"
  using hash_h2_live by (auto simp: hm_live_ctrl_def)

section \<open>Invariant and abstraction\<close>

definition hm_reach :: "('k, 'a) hm_env \<Rightarrow> ('k, 'v) hashmap \<Rightarrow> 'k \<Rightarrow> nat \<Rightarrow> bool" where
  "hm_reach E m k i \<longleftrightarrow> (\<exists>d < hm_cap m. i = hm_slot (hm_cap m) (hm_home E (hm_cap m) k) d \<and>
     (\<forall>e < d. hm_ctrl m ! hm_slot (hm_cap m) (hm_home E (hm_cap m) k) e \<noteq> kCtrlEmpty))"

definition hm_live :: "('k, 'v) hashmap \<Rightarrow> nat \<Rightarrow> bool" where
  "hm_live m i \<longleftrightarrow> i < hm_cap m \<and> hm_live_ctrl (hm_ctrl m ! i)"

definition hm_core :: "('k, 'a) hm_env \<Rightarrow> ('k, 'v) hashmap \<Rightarrow> bool" where
  "hm_core E m \<longleftrightarrow>
     length (hm_entries m) = hm_cap m \<and>
     (hm_cap m = 0 \<or> (\<exists>n. hm_cap m = 2 ^ n)) \<and>
     (\<forall>i. hm_live m i \<longrightarrow> (\<exists>k v. hm_entries m ! i = Some (k, v) \<and>
        hm_ctrl m ! i = hash_h2 (he_hash E k) \<and> hm_reach E m k i)) \<and>
     (\<forall>i j. hm_live m i \<longrightarrow> hm_live m j \<longrightarrow>
        map_option fst (hm_entries m ! i) = map_option fst (hm_entries m ! j) \<longrightarrow> i = j) \<and>
     hm_size m = length (filter hm_live_ctrl (hm_ctrl m)) \<and>
     hm_tombs m = length (filter (\<lambda>c. c = kCtrlTombstone) (hm_ctrl m))"

definition hm_inv :: "('k, 'a) hm_env \<Rightarrow> ('k, 'v) hashmap \<Rightarrow> bool" where
  "hm_inv E m \<longleftrightarrow> hm_core E m \<and> hm_cap m \<le> kMaxCap \<and> (hm_cap m = 0 \<or> kMinCap \<le> hm_cap m) \<and>
     (0 < hm_cap m \<longrightarrow> 4 * (hm_size m + hm_tombs m) \<le> 3 * hm_cap m + 4)"

definition hm_abs :: "('k, 'v) hashmap \<Rightarrow> 'k \<Rightarrow> 'v option" where
  "hm_abs m = map_of (hm_items m)"

lemma hm_inv_core: "hm_inv E m \<Longrightarrow> hm_core E m"
  by (simp add: hm_inv_def)

lemma hm_coreD:
  assumes "hm_core E m"
  shows "length (hm_entries m) = hm_cap m"
    and "hm_live m i \<Longrightarrow> \<exists>k v. hm_entries m ! i = Some (k, v) \<and>
        hm_ctrl m ! i = hash_h2 (he_hash E k) \<and> hm_reach E m k i"
    and "hm_live m i \<Longrightarrow> hm_live m j \<Longrightarrow> hm_entries m ! i = Some (k, v) \<Longrightarrow>
        hm_entries m ! j = Some (k, v') \<Longrightarrow> i = j"
    and "hm_size m = length (filter hm_live_ctrl (hm_ctrl m))"
    and "hm_tombs m = length (filter (\<lambda>c. c = kCtrlTombstone) (hm_ctrl m))"
  using assms by (auto simp: hm_core_def)

lemma hm_core_mask:
  assumes "hm_core E m" and "0 < hm_cap m"
  shows "(i :: nat) AND (hm_cap m - 1) = i mod hm_cap m" and "hm_home E (hm_cap m) k < hm_cap m"
proof -
  obtain n where n: "hm_cap m = 2 ^ n" using assms by (auto simp: hm_core_def)
  show "i AND (hm_cap m - 1) = i mod hm_cap m" for i by (rule and_mask_nat [OF n])
  then show "hm_home E (hm_cap m) k < hm_cap m" using assms(2) by (simp add: hm_home_def)
qed

lemma set_map_filter_nth: "y \<in> set (List.map_filter f xs) \<longleftrightarrow> (\<exists>i < length xs. f (xs ! i) = Some y)"
  by (force simp: map_filter_def in_set_conv_nth image_iff)

lemma hm_items_set:
  assumes "length (hm_entries m) = hm_cap m"
  shows "(k, v) \<in> set (hm_items m) \<longleftrightarrow> (\<exists>i. hm_live m i \<and> hm_entries m ! i = Some (k, v))"
  using assms by (auto simp: hm_items_def set_map_filter_nth hm_live_def hm_cap_def split: if_splits)

lemma distinct_keys_map_filter:
  assumes "\<And>i j a b. i < length xs \<Longrightarrow> j < length xs \<Longrightarrow> f (xs ! i) = Some a \<Longrightarrow> f (xs ! j) = Some b \<Longrightarrow>
    fst a = fst b \<Longrightarrow> i = j"
  shows "distinct (map fst (List.map_filter f xs))"
  using assms
proof (induction xs)
  case Nil
  then show ?case by (simp add: map_filter_def)
next
  case (Cons x xs)
  have "distinct (map fst (List.map_filter f xs))"
    by (rule Cons.IH) (use Cons.prems [of "Suc _" "Suc _"] in auto)
  moreover have "fst a \<notin> set (map fst (List.map_filter f xs))" if "f x = Some a" for a
    using Cons.prems [of 0 "Suc _"] that by (fastforce simp: map_filter_def in_set_conv_nth)
  ultimately show ?case by (auto simp: map_filter_def split: option.splits)
qed

lemma hm_items_distinct:
  assumes "hm_core E m"
  shows "distinct (map fst (hm_items m))"
  unfolding hm_items_def
proof (rule distinct_keys_map_filter)
  fix i j a b
  assume "i < length (zip (hm_ctrl m) (hm_entries m))" "j < length (zip (hm_ctrl m) (hm_entries m))"
    "(case zip (hm_ctrl m) (hm_entries m) ! i of (c, e) \<Rightarrow> if hm_live_ctrl c then e else None) = Some a"
    "(case zip (hm_ctrl m) (hm_entries m) ! j of (c, e) \<Rightarrow> if hm_live_ctrl c then e else None) = Some b"
    "fst a = fst b"
  then have "hm_live m i" "hm_entries m ! i = Some (fst a, snd a)"
      "hm_live m j" "hm_entries m ! j = Some (fst a, snd b)"
    by (cases a; cases b; auto simp: hm_live_def hm_cap_def split: if_splits)+
  then show "i = j" using hm_coreD(3) [OF assms] by blast
qed

lemma hm_abs_iff:
  "hm_core E m \<Longrightarrow> hm_abs m k = Some v \<longleftrightarrow> (\<exists>i. hm_live m i \<and> hm_entries m ! i = Some (k, v))"
  using hm_items_distinct [of E m] hm_coreD(1) [of E m]
  by (simp add: hm_abs_def hm_items_set)

lemma length_items_aux:
  assumes "length cs = length es" and "\<forall>i < length cs. P (cs ! i) \<longrightarrow> es ! i \<noteq> None"
  shows "length (List.map_filter (\<lambda>(c, e). if P c then e else None) (zip cs es)) = length (filter P cs)"
  using assms
proof (induction cs es rule: list_induct2)
  case (Cons c cs e es)
  then have "\<forall>i < length cs. P (cs ! i) \<longrightarrow> es ! i \<noteq> None" by force
  moreover have "P c \<longrightarrow> e \<noteq> None" using Cons.prems by force
  ultimately show ?case using Cons.IH by (auto simp: map_filter_def)
qed (simp add: map_filter_def)

lemma hm_size_items: "hm_core E m \<Longrightarrow> hm_size m = length (hm_items m)"
proof -
  assume core: "hm_core E m"
  have "\<forall>i < length (hm_ctrl m). hm_live_ctrl (hm_ctrl m ! i) \<longrightarrow> hm_entries m ! i \<noteq> None"
    using hm_coreD(2) [OF core] by (fastforce simp: hm_live_def hm_cap_def)
  then show ?thesis
    using length_items_aux [of "hm_ctrl m" "hm_entries m" hm_live_ctrl] hm_coreD(1,4) [OF core]
    by (simp add: hm_items_def hm_cap_def)
qed

lemma hm_abs_finite: "finite (dom (hm_abs m))"
  by (simp add: hm_abs_def finite_dom_map_of)

lemma hm_size_card:
  assumes "hm_core E m"
  shows "hm_size m = card (dom (hm_abs m))"
proof -
  have "dom (hm_abs m) = set (map fst (hm_items m))" by (auto simp: hm_abs_def dom_map_of_conv_image_fst)
  then show ?thesis using hm_size_items [OF assms] hm_items_distinct [OF assms] by (metis distinct_card length_map)
qed

section \<open>The probe loops\<close>

lemma hm_find_loop_Some:
  "hm_find_loop n m k h2 idx = Some i \<Longrightarrow> idx < hm_cap m \<Longrightarrow> \<forall>j. j AND (hm_cap m - 1) = j mod hm_cap m \<Longrightarrow>
    i < hm_cap m \<and> hm_match m k h2 i"
  by (induction n arbitrary: idx) (auto split: if_splits)

lemma hm_find_loop_None:
  "hm_find_loop n m k h2 idx = None \<Longrightarrow> idx < hm_cap m \<Longrightarrow> \<forall>j. j AND (hm_cap m - 1) = j mod hm_cap m \<Longrightarrow>
    d < n \<Longrightarrow> \<forall>e < d. hm_ctrl m ! hm_slot (hm_cap m) idx e \<noteq> kCtrlEmpty \<Longrightarrow>
    hm_ctrl m ! hm_slot (hm_cap m) idx d = kCtrlEmpty \<or> \<not> hm_match m k h2 (hm_slot (hm_cap m) idx d)"
proof (induction n arbitrary: idx d)
  case (Suc n)
  show ?case
  proof (cases d)
    case 0
    then show ?thesis using Suc.prems by (auto split: if_splits)
  next
    case (Suc d')
    have ne: "hm_ctrl m ! idx \<noteq> kCtrlEmpty" using Suc.prems(2,5) Suc by (auto dest: spec [of _ 0])
    show ?thesis
      unfolding Suc hm_slot_Suc [symmetric]
    proof (rule Suc.IH)
      show "hm_find_loop n m k h2 ((idx + 1) mod hm_cap m) = None"
        using Suc.prems(1,3) ne by (auto split: if_splits)
      show "\<forall>e < d'. hm_ctrl m ! hm_slot (hm_cap m) ((idx + 1) mod hm_cap m) e \<noteq> kCtrlEmpty"
        using Suc.prems(5) Suc unfolding hm_slot_Suc by simp
    qed (use Suc.prems Suc in auto)
  qed
qed simp

lemma hm_find_iff:
  assumes "hm_core E m"
  shows "hm_find E k m = Some i \<longleftrightarrow> hm_live m i \<and> map_option fst (hm_entries m ! i) = Some k"
proof (cases "hm_cap m = 0")
  case True
  then show ?thesis by (simp add: hm_find_def hm_live_def)
next
  case False
  let ?h2 = "hash_h2 (he_hash E k)" and ?h = "hm_home E (hm_cap m) k"
  note mask = hm_core_mask [OF assms]
  have h: "?h < hm_cap m" using mask(2) False by simp
  have and_mod: "\<forall>j. j AND (hm_cap m - 1) = j mod hm_cap m" using mask(1) False by blast
  have sound: "hm_live m j \<and> map_option fst (hm_entries m ! j) = Some k" if "hm_find E k m = Some j" for j
    using hm_find_loop_Some [of "hm_cap m" m k ?h2 ?h j] that False h and_mod hash_h2_live
    by (auto simp: hm_find_def hm_match_def hm_live_def)
  have complete: "hm_find E k m \<noteq> None" if live: "hm_live m i" and key: "map_option fst (hm_entries m ! i) = Some k"
  proof
    assume None: "hm_find E k m = None"
    obtain v where v: "hm_entries m ! i = Some (k, v)" using key by auto
    then have c: "hm_ctrl m ! i = ?h2" and "hm_reach E m k i"
      using hm_coreD(2) [OF assms live] by auto
    then obtain d where "d < hm_cap m" "i = hm_slot (hm_cap m) ?h d"
        "\<forall>e < d. hm_ctrl m ! hm_slot (hm_cap m) ?h e \<noteq> kCtrlEmpty"
      by (auto simp: hm_reach_def)
    then have "hm_ctrl m ! i = kCtrlEmpty \<or> \<not> hm_match m k ?h2 i"
      using hm_find_loop_None [of "hm_cap m" m k ?h2 ?h d] None False h and_mod
      by (auto simp: hm_find_def)
    then show False using c v by (auto simp: hm_match_def)
  qed
  show ?thesis
  proof
    assume r: "hm_live m i \<and> map_option fst (hm_entries m ! i) = Some k"
    then obtain j where j: "hm_find E k m = Some j" using complete by blast
    moreover have "j = i"
      using sound [OF j] r hm_coreD(3) [OF assms, of j i k] by auto
    ultimately show "hm_find E k m = Some i" by simp
  qed (rule sound)
qed

lemma hm_probe_Hit:
  "hm_probe_loop n m k h2 idx ft = Hit i \<Longrightarrow> idx < hm_cap m \<Longrightarrow> \<forall>j. j AND (hm_cap m - 1) = j mod hm_cap m \<Longrightarrow>
    i < hm_cap m \<and> hm_match m k h2 i"
  by (induction n arbitrary: idx ft) (auto simp: Let_def split: if_splits)

lemma hm_probe_Full:
  "hm_probe_loop n m k h2 idx ft = Full \<Longrightarrow> idx < hm_cap m \<Longrightarrow> \<forall>j. j AND (hm_cap m - 1) = j mod hm_cap m \<Longrightarrow>
    d < n \<Longrightarrow> hm_ctrl m ! hm_slot (hm_cap m) idx d \<noteq> kCtrlEmpty"
proof (induction n arbitrary: idx ft d)
  case (Suc n)
  have ne: "hm_ctrl m ! idx \<noteq> kCtrlEmpty" using Suc.prems(1) by (auto simp: Let_def)
  have rest: "\<exists>ft'. hm_probe_loop n m k h2 ((idx + 1) mod hm_cap m) ft' = Full"
    using Suc.prems(1,3) by (auto simp: Let_def split: if_splits)
  show ?case
  proof (cases d)
    case 0
    then show ?thesis using ne Suc.prems(2) by simp
  next
    case d: (Suc d')
    obtain ft' where "hm_probe_loop n m k h2 ((idx + 1) mod hm_cap m) ft' = Full" using rest by blast
    then show ?thesis
      unfolding d hm_slot_Suc [symmetric] by (rule Suc.IH) (use Suc.prems d in auto)
  qed
qed simp

lemma hm_probe_Vacant:
  assumes "hm_probe_loop n m k h2 idx ft = Vacant j t" and "idx < hm_cap m"
    and "\<forall>j. j AND (hm_cap m - 1) = j mod hm_cap m" and "h2 \<noteq> kCtrlTombstone"
  shows "\<exists>d < n. j = hm_slot (hm_cap m) idx d \<and> hm_ctrl m ! j = kCtrlEmpty \<and>
    (\<forall>e < d. hm_ctrl m ! hm_slot (hm_cap m) idx e \<noteq> kCtrlEmpty \<and> \<not> hm_match m k h2 (hm_slot (hm_cap m) idx e)) \<and>
    (if ft \<noteq> None then t = ft
     else t = None \<or> (\<exists>e < d. t = Some (hm_slot (hm_cap m) idx e) \<and> hm_ctrl m ! hm_slot (hm_cap m) idx e = kCtrlTombstone))"
    (is "\<exists>d < n. ?P d idx ft")
  using assms
proof (induction n arbitrary: idx ft)
  case (Suc n)
  let ?nx = "(idx + 1) mod hm_cap m"
  show ?case
  proof (cases "hm_ctrl m ! idx = kCtrlEmpty")
    case True
    then show ?thesis using Suc.prems by (intro exI [of _ 0]) (auto simp: Let_def)
  next
    case ne: False
    define ft' where "ft' = (if hm_ctrl m ! idx = kCtrlTombstone \<and> ft = None then Some idx else ft)"
    have nomatch: "\<not> hm_match m k h2 idx"
      using Suc.prems ne by (auto simp: Let_def hm_match_def split: if_splits)
    then have loop: "hm_probe_loop n m k h2 ?nx ft' = Vacant j t"
      using Suc.prems ne by (auto simp: Let_def ft'_def split: if_splits)
    have "?nx < hm_cap m" using Suc.prems(2) by simp
    from Suc.IH [OF loop this Suc.prems(3,4)] obtain d where d: "d < n"
      "j = hm_slot (hm_cap m) ?nx d" "hm_ctrl m ! j = kCtrlEmpty"
      "\<And>e. e < d \<Longrightarrow> hm_ctrl m ! hm_slot (hm_cap m) ?nx e \<noteq> kCtrlEmpty \<and> \<not> hm_match m k h2 (hm_slot (hm_cap m) ?nx e)"
      "if ft' \<noteq> None then t = ft' else t = None \<or>
        (\<exists>e < d. t = Some (hm_slot (hm_cap m) ?nx e) \<and> hm_ctrl m ! hm_slot (hm_cap m) ?nx e = kCtrlTombstone)"
      by blast
    have path: "hm_ctrl m ! hm_slot (hm_cap m) idx e \<noteq> kCtrlEmpty \<and> \<not> hm_match m k h2 (hm_slot (hm_cap m) idx e)"
      if "e < Suc d" for e
      using that d(4) [of "e - 1"] ne nomatch Suc.prems(2) unfolding hm_slot_Suc by (cases e) auto
    have tomb: "if ft \<noteq> None then t = ft else t = None \<or> (\<exists>e < Suc d. t = Some (hm_slot (hm_cap m) idx e) \<and>
        hm_ctrl m ! hm_slot (hm_cap m) idx e = kCtrlTombstone)"
    proof (cases "ft = None \<and> hm_ctrl m ! idx = kCtrlTombstone")
      case True
      then have "t = Some (hm_slot (hm_cap m) idx 0) \<and> hm_ctrl m ! hm_slot (hm_cap m) idx 0 = kCtrlTombstone"
        using d(5) Suc.prems(2) by (simp add: ft'_def)
      then show ?thesis using True by auto
    next
      case False
      then have "ft' = ft" by (auto simp: ft'_def)
      then show ?thesis using d(5) unfolding hm_slot_Suc by auto
    qed
    have "?P (Suc d) idx ft"
      using d(2,3) path tomb unfolding hm_slot_Suc by blast
    then show ?thesis using d(1) by blast
  qed
qed simp

section \<open>Insertion into a table with room\<close>

lemma length_filter_update:
  "i < length xs \<Longrightarrow> length (filter P (xs[i := y])) + (if P (xs ! i) then 1 else 0) =
    length (filter P xs) + (if P y then 1 else 0)"
proof (induction xs arbitrary: i)
  case (Cons x xs)
  show ?case
  proof (cases i)
    case (Suc j)
    then show ?thesis using Cons.IH [of j] Cons.prems by (auto split: if_splits)
  qed simp
qed simp

lemma hm_counts:
  assumes "hm_core E m"
  shows "hm_size m + hm_tombs m + length (filter (\<lambda>c. c = kCtrlEmpty) (hm_ctrl m)) = hm_cap m"
proof -
  have "length (filter hm_live_ctrl cs) + length (filter (\<lambda>c. c = kCtrlTombstone) cs) +
      length (filter (\<lambda>c. c = kCtrlEmpty) cs) = length cs" for cs
    by (induction cs) (auto simp: hm_live_ctrl_def kCtrlEmpty_def kCtrlTombstone_def)
  then show ?thesis using hm_coreD(4,5) [OF assms] by (simp add: hm_cap_def)
qed

text \<open>Constructing an entry at a dead slot that the probe sequence of its key reaches.\<close>

definition hm_place :: "('k, 'a) hm_env \<Rightarrow> nat \<Rightarrow> 'k \<Rightarrow> 'v \<Rightarrow> ('k, 'v) hashmap \<Rightarrow> ('k, 'v) hashmap" where
  "hm_place E t k v m =
     \<lparr>hm_ctrl = (hm_ctrl m)[t := hash_h2 (he_hash E k)],
      hm_entries = (hm_entries m)[t := Some (k, v)],
      hm_size = hm_size m + 1,
      hm_tombs = (if hm_ctrl m ! t = kCtrlTombstone then hm_tombs m - 1 else hm_tombs m)\<rparr>"

lemma hm_cap_place [simp]: "hm_cap (hm_place E t k v m) = hm_cap m"
  by (simp add: hm_place_def hm_cap_def)

lemma hm_live_place:
  "t < hm_cap m \<Longrightarrow> hm_live (hm_place E t k v m) i \<longleftrightarrow> i = t \<or> hm_live m i"
  by (auto simp: hm_live_def hm_place_def hm_cap_def nth_list_update hash_h2_live)

lemma hm_reach_place: "hm_reach E m k' i \<Longrightarrow> hm_reach E (hm_place E t k v m) k' i"
proof -
  have ne: "hm_ctrl m ! j \<noteq> kCtrlEmpty \<Longrightarrow> hm_ctrl (hm_place E t k v m) ! j \<noteq> kCtrlEmpty" for j
    by (cases "j = t \<and> t < length (hm_ctrl m)") (auto simp: hm_place_def nth_list_update not_less list_update_beyond)
  show "hm_reach E m k' i \<Longrightarrow> ?thesis"
    unfolding hm_reach_def hm_cap_place using ne by blast
qed

lemma hm_place_core:
  assumes core: "hm_core E m" and t: "t < hm_cap m" and dead: "\<not> hm_live m t"
    and reach: "hm_reach E m k t" and fresh: "hm_abs m k = None"
  shows "hm_core E (hm_place E t k v m)" and "hm_abs (hm_place E t k v m) = (hm_abs m)(k \<mapsto> v)"
    and "hm_size (hm_place E t k v m) = hm_size m + 1"
    and "hm_size (hm_place E t k v m) + hm_tombs (hm_place E t k v m) \<le> hm_size m + hm_tombs m + 1"
proof -
  let ?m = "hm_place E t k v m"
  have len: "t < length (hm_ctrl m)" "t < length (hm_entries m)"
    using t hm_coreD(1) [OF core] by (simp_all add: hm_cap_def)
  have entries: "hm_entries ?m ! i = (if i = t then Some (k, v) else hm_entries m ! i)" for i
    using len by (simp add: hm_place_def nth_list_update)
  have ctrl: "hm_ctrl ?m ! i = (if i = t then hash_h2 (he_hash E k) else hm_ctrl m ! i)" for i
    using len by (simp add: hm_place_def nth_list_update)
  note live = hm_live_place [OF t]
  have other: "\<exists>k' v'. hm_entries m ! i = Some (k', v') \<and> k' \<noteq> k \<and>
      hm_ctrl m ! i = hash_h2 (he_hash E k') \<and> hm_reach E m k' i" if "hm_live m i" for i
  proof -
    obtain k' v' where *: "hm_entries m ! i = Some (k', v')" "hm_ctrl m ! i = hash_h2 (he_hash E k')"
        "hm_reach E m k' i"
      using hm_coreD(2) [OF core \<open>hm_live m i\<close>] by blast
    moreover have "k' \<noteq> k"
    proof
      assume "k' = k"
      then have "hm_abs m k = Some v'" using * that hm_abs_iff [OF core] by blast
      then show False using fresh by simp
    qed
    ultimately show ?thesis by blast
  qed
  have dead': "\<not> hm_live_ctrl (hm_ctrl m ! t)" using dead t by (simp add: hm_live_def)
  have sz: "hm_size ?m = length (filter hm_live_ctrl (hm_ctrl ?m))"
    using length_filter_update [OF len(1), of hm_live_ctrl "hash_h2 (he_hash E k)"] dead' hm_coreD(4) [OF core]
    by (simp add: hm_place_def hash_h2_live)
  have tb: "hm_tombs ?m = length (filter (\<lambda>c. c = kCtrlTombstone) (hm_ctrl ?m))"
    using length_filter_update [OF len(1), of "\<lambda>c. c = kCtrlTombstone" "hash_h2 (he_hash E k)"] hm_coreD(5) [OF core]
    by (auto simp: hm_place_def split: if_splits)
  have uniq: "i = j" if "hm_live ?m i" "hm_live ?m j"
      "map_option fst (hm_entries ?m ! i) = map_option fst (hm_entries ?m ! j)" for i j
  proof (cases "i = t \<or> j = t")
    case True
    then show ?thesis
      using that other [of i] other [of j] unfolding live entries by (auto split: if_splits)
  next
    case False
    then show ?thesis using that core unfolding live entries by (auto simp: hm_core_def)
  qed
  have good: "\<exists>k' v'. hm_entries ?m ! i = Some (k', v') \<and> hm_ctrl ?m ! i = hash_h2 (he_hash E k') \<and>
      hm_reach E ?m k' i" if "hm_live ?m i" for i
    using that other [of i] hm_reach_place [OF reach, of t k v] hm_reach_place [of E m _ i t k v]
    unfolding live entries ctrl by (cases "i = t") auto
  show core': "hm_core E ?m"
    unfolding hm_core_def
    using core good uniq sz tb by (auto simp: hm_core_def hm_place_def hm_cap_def)
  show "hm_abs ?m = (hm_abs m)(k \<mapsto> v)"
  proof (rule ext, rule option.expand)
    have iff: "hm_abs ?m x = Some y \<longleftrightarrow> ((hm_abs m)(k \<mapsto> v)) x = Some y" for x y
    proof (cases "x = k")
      case True
      have "i = t" if "hm_live ?m i" "hm_entries ?m ! i = Some (x, y)" for i
        using that other [of i] True unfolding live entries by (auto split: if_splits)
      then have "hm_abs ?m x = Some y \<longleftrightarrow> hm_live ?m t \<and> hm_entries ?m ! t = Some (x, y)"
        unfolding hm_abs_iff [OF core'] by blast
      also have "\<dots> \<longleftrightarrow> v = y" using True unfolding live entries by simp
      finally show ?thesis using True by simp
    next
      case False
      have "hm_live ?m i \<and> hm_entries ?m ! i = Some (x, y) \<longleftrightarrow> hm_live m i \<and> hm_entries m ! i = Some (x, y)" for i
        using False dead unfolding live entries by (cases "i = t") auto
      then show ?thesis
        unfolding hm_abs_iff [OF core'] using False hm_abs_iff [OF core, of x y] by simp
    qed
    show "(hm_abs ?m x = None) = (((hm_abs m)(k \<mapsto> v)) x = None)" for x
      using iff by (metis not_None_eq)
    show "the (hm_abs ?m x) = the (((hm_abs m)(k \<mapsto> v)) x)" if "hm_abs ?m x \<noteq> None" for x
      using iff that by (metis not_None_eq option.sel)
  qed
qed (auto simp: hm_place_def)

lemma hm_insert_unchecked_spec:
  assumes core: "hm_core E m" and room: "hm_size m + hm_tombs m < hm_cap m"
  obtains i m' where "hm_insert_unchecked E k v m = (Some (i, hm_abs m k = None), m')"
    and "hm_core E m'" and "hm_cap m' = hm_cap m" and "hm_live m' i"
    and "hm_abs m' = (if hm_abs m k = None then (hm_abs m)(k \<mapsto> v) else hm_abs m)"
    and "map_option fst (hm_entries m' ! i) = Some k"
    and "hm_size m' + hm_tombs m' \<le> hm_size m + hm_tombs m + 1"
    and "hm_size m' = hm_size m + (if hm_abs m k = None then 1 else 0)"
    and "hm_abs m k = None \<or> m' = m"
proof -
  let ?h2 = "hash_h2 (he_hash E k)" and ?h = "hm_home E (hm_cap m) k"
  have cap: "0 < hm_cap m" using room by simp
  note mask = hm_core_mask [OF core cap]
  have and_mod: "\<forall>j. j AND (hm_cap m - 1) = j mod hm_cap m" using mask(1) by blast
  have h: "?h < hm_cap m" by (rule mask(2))
  show ?thesis
  proof (cases "hm_probe_loop (hm_cap m) m k ?h2 ?h None")
    case (Hit i)
    from hm_probe_Hit [OF this h and_mod] have i: "i < hm_cap m \<and> hm_match m k ?h2 i" .
    then have live: "hm_live m i" and key: "map_option fst (hm_entries m ! i) = Some k"
      using hash_h2_live [of "he_hash E k"] by (auto simp: hm_live_def hm_match_def)
    then have "hm_abs m k \<noteq> None" using hm_abs_iff [OF core, of k] by fastforce
    then show ?thesis
      using that [of i m] Hit core live key by (auto simp: hm_insert_unchecked_def Let_def)
  next
    case (Vacant j ft)
    obtain d where d: "d < hm_cap m" "j = hm_slot (hm_cap m) ?h d" "hm_ctrl m ! j = kCtrlEmpty"
      "\<And>e. e < d \<Longrightarrow> hm_ctrl m ! hm_slot (hm_cap m) ?h e \<noteq> kCtrlEmpty \<and> \<not> hm_match m k ?h2 (hm_slot (hm_cap m) ?h e)"
      "ft = None \<or> (\<exists>e < d. ft = Some (hm_slot (hm_cap m) ?h e) \<and> hm_ctrl m ! hm_slot (hm_cap m) ?h e = kCtrlTombstone)"
      using hm_probe_Vacant [OF Vacant h and_mod] by auto
    define t where "t = (case ft of Some t \<Rightarrow> t | None \<Rightarrow> j)"
    obtain e where e: "e \<le> d" "t = hm_slot (hm_cap m) ?h e"
        "hm_ctrl m ! t = (if ft = None then kCtrlEmpty else kCtrlTombstone)"
      using d(2,3,5) by (cases ft) (auto simp: t_def intro: less_imp_le)
    have t: "t < hm_cap m" using e cap by simp
    have dead: "\<not> hm_live m t" using e(3) by (auto simp: hm_live_def hm_live_ctrl_def)
    have reach: "hm_reach E m k t" using e d(1,4) by (auto simp: hm_reach_def intro!: exI [of _ e])
    have fresh: "hm_abs m k = None"
    proof (rule ccontr)
      assume "hm_abs m k \<noteq> None"
      then obtain i v' where i: "hm_live m i" "hm_entries m ! i = Some (k, v')"
        using hm_abs_iff [OF core, of k] by auto
      then have "hm_ctrl m ! i = ?h2" "hm_reach E m k i" using hm_coreD(2) [OF core i(1)] by auto
      then obtain d' where d': "i = hm_slot (hm_cap m) ?h d'"
          "\<forall>e < d'. hm_ctrl m ! hm_slot (hm_cap m) ?h e \<noteq> kCtrlEmpty" and match: "hm_match m k ?h2 i"
        using i by (auto simp: hm_reach_def hm_match_def)
      consider "d' < d" | "d' = d" | "d < d'" by linarith
      then show False
      proof cases
        case 1
        then show False using d(4) match d'(1) by blast
      next
        case 2
        then show False using d(2,3) d'(1) \<open>hm_ctrl m ! i = ?h2\<close> by (simp add: eq_commute [of kCtrlEmpty])
      next
        case 3
        then show False using d(2,3) d'(2) by blast
      qed
    qed
    have "(t = j) = (hm_ctrl m ! t \<noteq> kCtrlTombstone)"
      using e(3) d(3) by (auto simp: t_def kCtrlEmpty_def kCtrlTombstone_def split: option.splits)
    then have "hm_insert_unchecked E k v m = (Some (t, True), hm_place E t k v m)"
      using Vacant by (auto simp: hm_insert_unchecked_def hm_place_def t_def Let_def split: option.splits)
    moreover note hm_place_core [OF core t dead reach fresh, of v]
    moreover have "map_option fst (hm_entries (hm_place E t k v m) ! t) = Some k"
      using t hm_coreD(1) [OF core] by (simp add: hm_place_def)
    ultimately show ?thesis
      using that [of t "hm_place E t k v m"] fresh t by (simp add: hm_live_place)
  next
    case Full
    have "hm_ctrl m ! i \<noteq> kCtrlEmpty" if "i < hm_cap m" for i
      using hm_slot_surj [OF that h] hm_probe_Full [OF Full h and_mod] by blast
    then have "filter (\<lambda>c. c = kCtrlEmpty) (hm_ctrl m) = []"
      by (auto simp: filter_empty_conv in_set_conv_nth hm_cap_def)
    then show ?thesis using hm_counts [OF core] room by simp
  qed
qed

section \<open>Growing\<close>

lemma hm_core_blank: "hm_core E (hm_blank (2 ^ n))" "hm_abs (hm_blank cap) = Map.empty"
proof -
  have e: "\<not> hm_live_ctrl kCtrlEmpty" "kCtrlEmpty \<noteq> kCtrlTombstone"
    by (simp_all add: hm_live_ctrl_def kCtrlEmpty_def kCtrlTombstone_def)
  then show "hm_core E (hm_blank (2 ^ n))"
    by (auto simp: hm_core_def hm_blank_def hm_cap_def hm_live_def)
  have "List.map_filter (\<lambda>(c, e). if hm_live_ctrl c then e else None) (replicate cap (kCtrlEmpty, None)) = []"
    using e by (auto simp: map_filter_def filter_empty_conv)
  then show "hm_abs (hm_blank cap) = Map.empty"
    by (simp add: hm_abs_def hm_items_def hm_blank_def zip_replicate)
qed

lemma hm_core_empty: "hm_core E hm_empty" "hm_inv E hm_empty" "hm_abs hm_empty = Map.empty"
  by (simp_all add: hm_inv_def hm_core_def hm_empty_def hm_cap_def hm_live_def hm_abs_def hm_items_def
      map_filter_def)

lemma hm_reinsert_all:
  assumes "hm_core E m" and "distinct (map fst xs)" and "\<forall>k \<in> fst ` set xs. hm_abs m k = None"
    and "hm_size m + hm_tombs m + length xs \<le> hm_cap m"
  defines "m' \<equiv> fold (\<lambda>(k, v) m'. snd (hm_insert_unchecked E k v m')) xs m"
  shows "hm_core E m' \<and> hm_cap m' = hm_cap m \<and> hm_abs m' = hm_abs m ++ map_of xs \<and>
    hm_size m' + hm_tombs m' \<le> hm_size m + hm_tombs m + length xs"
  using assms(1-4) unfolding m'_def
proof (induction xs arbitrary: m)
  case (Cons x xs)
  obtain k v where x: "x = (k, v)" by fastforce
  have room: "hm_size m + hm_tombs m < hm_cap m" and new: "hm_abs m k = None"
    using Cons.prems x by auto
  obtain i m1 where "hm_insert_unchecked E k v m = (Some (i, hm_abs m k = None), m1)"
    and m1: "hm_core E m1" "hm_cap m1 = hm_cap m" "hm_abs m1 = (hm_abs m)(k \<mapsto> v)"
      "hm_size m1 + hm_tombs m1 \<le> hm_size m + hm_tombs m + 1"
    by (rule hm_insert_unchecked_spec [OF Cons.prems(1) room, of k v]) (use new in simp)
  then have step: "snd (hm_insert_unchecked E k v m) = m1" by simp
  have "k \<notin> fst ` set xs" using Cons.prems(2) x by simp
  then have "hm_abs m1 ++ map_of xs = hm_abs m ++ map_of (x # xs)"
    unfolding m1(3) x by (simp add: map_add_upd_left map_of_eq_None_iff dom_map_of_conv_image_fst)
  moreover have "\<forall>k \<in> fst ` set xs. hm_abs m1 k = None"
    using Cons.prems(2,3) x unfolding m1(3) by auto
  ultimately show ?case
    using Cons.IH [OF m1(1)] Cons.prems(2,4) m1(2,4) x step by (simp del: map_of.simps)
qed simp

lemma hm_rehash_spec:
  assumes core: "hm_core E m" and c: "c = 2 ^ n" and size: "hm_size m \<le> c"
  obtains (failed) a' where "hm_rehash_to E c (m, a) = (False, m, a')"
      and "alloc_total (he_alloc E) \<Longrightarrow> kMaxCap < c"
  | (finished) m' a' where "hm_rehash_to E c (m, a) = (True, m', a')" and "hm_core E m'"
      and "hm_cap m' = c" and "hm_abs m' = hm_abs m" and "hm_size m' = hm_size m" and "hm_tombs m' = 0"
      and "c \<le> kMaxCap"
proof -
  let ?m = "fold (\<lambda>(k, v) m'. snd (hm_insert_unchecked E k v m')) (hm_items m) (hm_blank (c))"
  have blank: "hm_cap (hm_blank (c)) = c" "hm_size (hm_blank (c)) = 0" "hm_tombs (hm_blank (c)) = 0"
    by (simp_all add: hm_blank_def hm_cap_def)
  have m: "hm_core E ?m" "hm_cap ?m = c" "hm_abs ?m = hm_abs m"
    and sum: "hm_size ?m + hm_tombs ?m \<le> hm_size m"
    using hm_reinsert_all [OF hm_core_blank(1) [of E n, folded c] hm_items_distinct [OF core]] size hm_size_items [OF core]
    by (simp_all add: hm_core_blank(2) blank) (simp_all add: hm_abs_def)
  have counters: "hm_size ?m = hm_size m" "hm_tombs ?m = 0"
    using sum hm_size_card [OF m(1)] hm_size_card [OF core] m(3) by simp_all
  obtain p a1 where p: "he_alloc E (of_nat (c)) 1 a = (p, a1)" by fastforce
  obtain q a2 where q: "he_alloc E (of_nat (he_entry_bytes E * c)) (of_nat (he_entry_align E)) a1 = (q, a2)"
    by fastforce
  show ?thesis
  proof (cases "c > kMaxCap \<or> p = None \<or> q = None")
    case True
    then have "\<exists>a'. hm_rehash_to E c (m, a) = (False, m, a')"
      using p q by (auto simp: hm_rehash_to_def Let_def)
    moreover have "alloc_total (he_alloc E) \<Longrightarrow> p \<noteq> None \<and> q \<noteq> None"
      using p q unfolding alloc_total_def by (metis fst_conv)
    ultimately show ?thesis using failed True by blast
  next
    case False
    then have "hm_rehash_to E (c) (m, a) = (True, ?m, a2)"
      using p q by (simp add: hm_rehash_to_def Let_def)
    then show ?thesis using finished m counters False by simp
  qed
qed

text \<open>An insertion either fails and changes nothing a reader can see, or ends at the entry of the key.\<close>

lemma hm_insert_spec:
  assumes inv: "hm_inv E m"
  obtains (failed) m' a' where "hm_insert E k v (m, a) = (None, m', a')" and "hm_inv E m'"
      and "hm_abs m' = hm_abs m"
      and "alloc_total (he_alloc E) \<Longrightarrow> 3 * kMaxCap < 4 * (hm_size m + hm_tombs m)"
  | (finished) i m' a' where "hm_insert E k v (m, a) = (Some (i, hm_abs m k = None), m', a')" and "hm_inv E m'"
      and "hm_abs m' = (if hm_abs m k = None then (hm_abs m)(k \<mapsto> v) else hm_abs m)"
      and "hm_live m' i" and "map_option fst (hm_entries m' ! i) = Some k"
      and "hm_tombs m' \<le> hm_tombs m" and "hm_size m' \<le> hm_size m + 1"
proof -
  have core: "hm_core E m" and max: "hm_cap m \<le> kMaxCap" using inv by (auto simp: hm_inv_def)
  define s1 where "s1 = (if hm_cap m = 0 then hm_rehash_to E kMinCap (m, a) else (True, m, a))"
  define m1 where "m1 = fst (snd s1)"
  have sized: "hm_cap m = 0 \<Longrightarrow> hm_size m = 0" using hm_counts [OF core] by simp
  have m1: "hm_inv E m1 \<and> hm_abs m1 = hm_abs m \<and> (fst s1 \<longrightarrow> 0 < hm_cap m1) \<and>
      hm_size m1 = hm_size m \<and> hm_tombs m1 \<le> hm_tombs m \<and> (alloc_total (he_alloc E) \<longrightarrow> fst s1)"
  proof (cases "hm_cap m = 0")
    case True
    have k: "kMinCap = 2 ^ 4" by (simp add: kMinCap_def)
    show ?thesis
      by (rule hm_rehash_spec [OF core k, of a])
        (use True inv sized in \<open>auto simp: s1_def m1_def hm_inv_def kMinCap_def kMaxCap_def\<close>)
  next
    case False
    then show ?thesis using inv by (simp add: s1_def m1_def)
  qed
  obtain ok1 a1 where s1: "s1 = (ok1, m1, a1)" by (metis m1_def prod.collapse)
  define s2 where "s2 = (if hm_needs_grow m1 then hm_rehash_to E (hm_cap m1 * 2) (m1, a1) else (True, m1, a1))"
  define m2 where "m2 = fst (snd s2)"
  have m2: "hm_inv E m2 \<and> hm_abs m2 = hm_abs m \<and> (fst s2 \<longrightarrow> 4 * (hm_size m2 + hm_tombs m2) \<le> 3 * hm_cap m2 \<and> 0 < hm_cap m2) \<and>
      hm_size m2 = hm_size m \<and> hm_tombs m2 \<le> hm_tombs m \<and>
      (alloc_total (he_alloc E) \<longrightarrow> \<not> fst s2 \<longrightarrow> 3 * kMaxCap < 4 * (hm_size m + hm_tombs m))"
    if ok: "ok1"
  proof (cases "hm_needs_grow m1")
    case True
    have c1: "hm_core E m1" "0 < hm_cap m1" using m1 s1 ok by (auto simp: hm_inv_def)
    then obtain n where n: "hm_cap m1 = 2 ^ n" by (auto simp: hm_core_def)
    have load: "4 * (hm_size m1 + hm_tombs m1) \<le> 3 * 2 ^ n + 4" "16 \<le> (2 :: nat) ^ n"
      using m1 c1 n by (auto simp: hm_inv_def kMinCap_def)
    have le: "hm_size m1 \<le> hm_cap m1 * 2" using load n by simp
    have cap: "hm_cap m1 * 2 = 2 ^ Suc n" using n by simp
    have "kMaxCap \<le> 2 ^ n" if "kMaxCap < hm_cap m1 * 2"
    proof -
      have "(2 :: nat) ^ 24 < 2 ^ Suc n" using that n by (simp add: kMaxCap_def)
      then have "24 < Suc n" by (rule power_less_imp_less_exp [rotated]) simp
      then have "(2 :: nat) ^ 24 \<le> 2 ^ n" by (intro power_increasing) auto
      then show ?thesis by (simp only: kMaxCap_def)
    qed
    then have full: "3 * kMaxCap < 4 * (hm_size m + hm_tombs m)" if "kMaxCap < hm_cap m1 * 2"
      using that True n m1 by (fastforce simp: hm_needs_grow_def)
    show ?thesis
      by (rule hm_rehash_spec [OF c1(1) cap le, of a1])
        (use True m1 n load full in \<open>auto simp: s2_def m2_def hm_inv_def kMinCap_def\<close>)
  next
    case False
    then show ?thesis using m1 s1 ok by (auto simp: s2_def m2_def hm_needs_grow_def)
  qed
  obtain ok2 a2 where s2: "s2 = (ok2, m2, a2)" by (metis m2_def prod.collapse)
  have run: "hm_insert E k v (m, a) = (if \<not> ok1 then (None, m1, a1) else if \<not> ok2 then (None, m2, a2)
      else case hm_insert_unchecked E k v m2 of (r, m') \<Rightarrow> (r, m', a2))"
    using s1 s2 unfolding s1_def s2_def hm_insert_def by simp
  show ?thesis
  proof (cases "ok1 \<and> ok2")
    case False
    then have "hm_insert E k v (m, a) = (if \<not> ok1 then (None, m1, a1) else (None, m2, a2))"
      using run by simp
    then show ?thesis using failed [of m1 a1] failed [of m2 a2] m1 m2 s1 s2 False by (cases ok1) auto
  next
    case True
    then have c2: "hm_core E m2" and room: "hm_size m2 + hm_tombs m2 < hm_cap m2"
      and abs2: "hm_abs m2 = hm_abs m" and load2: "4 * (hm_size m2 + hm_tombs m2) \<le> 3 * hm_cap m2"
      using m2 s2 by (auto simp: hm_inv_def)
    obtain i m' where "hm_insert_unchecked E k v m2 = (Some (i, hm_abs m2 k = None), m')"
      and m': "hm_core E m'" "hm_cap m' = hm_cap m2" "hm_live m' i"
        "hm_abs m' = (if hm_abs m2 k = None then (hm_abs m2)(k \<mapsto> v) else hm_abs m2)"
        "map_option fst (hm_entries m' ! i) = Some k"
        "hm_size m' + hm_tombs m' \<le> hm_size m2 + hm_tombs m2 + 1"
        "hm_size m' = hm_size m2 + (if hm_abs m2 k = None then 1 else 0)"
        "hm_abs m2 k = None \<or> m' = m2"
      by (rule hm_insert_unchecked_spec [OF c2 room, of k v])
    moreover have "hm_tombs m' \<le> hm_tombs m" "hm_size m' \<le> hm_size m + 1"
      using m'(6,7,8) m2 True s2 by (cases "hm_abs m2 k = None"; auto)+
    moreover have "hm_inv E m'" using m' load2 m2 s2 True by (auto simp: hm_inv_def)
    ultimately show ?thesis using finished run True abs2 by simp
  qed
qed

section \<open>Lookup, assignment and erasure\<close>

lemma hm_get_abs:
  assumes "hm_core E m"
  shows "hm_get E k m = hm_abs m k"
proof (cases "hm_find E k m")
  case None
  then have "\<not> (hm_live m i \<and> hm_entries m ! i = Some (k, v))" for i v
    using hm_find_iff [OF assms, of k i] by auto
  then have "hm_abs m k = None" using hm_abs_iff [OF assms, of k] by (metis not_None_eq)
  then show ?thesis using None by (simp add: hm_get_def)
next
  case (Some i)
  then obtain v where "hm_live m i" "hm_entries m ! i = Some (k, v)"
    using hm_find_iff [OF assms, of k i] by auto
  then show ?thesis
    using Some hm_abs_iff [OF assms, of k v] by (auto simp: hm_get_def hm_value_def)
qed

text \<open>
  The two ways the callers write: \<open>insert\<close> with its \<open>inserted\<close> flag (which is also false when
  no entry comes back), and the assignment through the \<open>Entry*\<close> that \<open>find\<close> returned.
\<close>

definition hm_add :: "('k, 'a) hm_env \<Rightarrow> 'k \<Rightarrow> 'v \<Rightarrow> ('k, 'v) hashmap \<times> 'a \<Rightarrow> bool \<times> ('k, 'v) hashmap \<times> 'a" where
  "hm_add E k v s =
     (case hm_insert E k v s of
        (Some (_, inserted), s') \<Rightarrow> (inserted, s')
      | (None, s') \<Rightarrow> (False, s'))"

definition hm_assign :: "('k, 'a) hm_env \<Rightarrow> 'k \<Rightarrow> 'v \<Rightarrow> ('k, 'v) hashmap \<Rightarrow> ('k, 'v) hashmap" where
  "hm_assign E k v m = (case hm_find E k m of None \<Rightarrow> m | Some i \<Rightarrow> hm_set_value i v m)"

text \<open>Enough memory and slots for \<open>n\<close> more keys: no insertion can fail before the slot cap.\<close>

definition hm_room :: "('k, 'a) hm_env \<Rightarrow> nat \<Rightarrow> ('k, 'v) hashmap \<Rightarrow> bool" where
  "hm_room E n m \<longleftrightarrow> alloc_total (he_alloc E) \<and> 4 * (hm_size m + hm_tombs m + n) \<le> 3 * kMaxCap"

lemma hm_add_spec:
  assumes "hm_inv E m" and "hm_add E k v (m, a) = (ok, m', a')"
  shows "hm_inv E m'" and "hm_abs m' = (if ok then (hm_abs m)(k \<mapsto> v) else hm_abs m)"
    and "ok \<Longrightarrow> hm_abs m k = None"
    and "hm_room E (Suc n) m \<Longrightarrow> hm_abs m k = None \<Longrightarrow> ok \<and> hm_room E n m'"
proof -
  have "hm_inv E m' \<and> hm_abs m' = (if ok then (hm_abs m)(k \<mapsto> v) else hm_abs m) \<and> (ok \<longrightarrow> hm_abs m k = None) \<and>
      (hm_room E (Suc n) m \<longrightarrow> hm_abs m k = None \<longrightarrow> ok \<and> hm_room E n m')"
    by (rule hm_insert_spec [OF assms(1), of k v a]) (use assms(2) in \<open>auto simp: hm_add_def hm_room_def\<close>)
  then show "hm_inv E m'" "hm_abs m' = (if ok then (hm_abs m)(k \<mapsto> v) else hm_abs m)"
    "ok \<Longrightarrow> hm_abs m k = None"
    "hm_room E (Suc n) m \<Longrightarrow> hm_abs m k = None \<Longrightarrow> ok \<and> hm_room E n m'" by auto
qed

text \<open>Replacing what one live slot holds.\<close>

lemma hm_items_update:
  assumes core: "hm_core E m" and i: "hm_live m i" "hm_entries m ! i = Some (k, v)"
  shows "(\<exists>j. j \<noteq> i \<and> hm_live m j \<and> hm_entries m ! j = Some (x, y)) \<longleftrightarrow> x \<noteq> k \<and> hm_abs m x = Some y"
  unfolding hm_abs_iff [OF core] using hm_coreD(3) [OF core] i by (metis option.inject prod.inject)

lemma map_ext_Some: "(\<And>x y. f x = Some y \<longleftrightarrow> g x = Some y) \<Longrightarrow> f = g"
  by (rule ext) (metis option.exhaust)

lemma hm_set_value_spec:
  assumes core: "hm_core E m" and i: "hm_live m i" "hm_entries m ! i = Some (k, w)"
  shows "hm_core E (hm_set_value i v m)" and "hm_abs (hm_set_value i v m) = (hm_abs m)(k \<mapsto> v)"
proof -
  let ?m = "hm_set_value i v m"
  have len: "i < length (hm_entries m)" using i(1) hm_coreD(1) [OF core] by (simp add: hm_live_def)
  have same: "hm_ctrl ?m = hm_ctrl m" "hm_cap ?m = hm_cap m" "hm_size ?m = hm_size m" "hm_tombs ?m = hm_tombs m"
    by (simp_all add: hm_set_value_def hm_cap_def)
  have live: "hm_live ?m j \<longleftrightarrow> hm_live m j" for j by (simp add: hm_live_def same)
  have reach: "hm_reach E ?m k' j \<longleftrightarrow> hm_reach E m k' j" for k' j by (simp add: hm_reach_def same)
  have entries: "hm_entries ?m ! j = (if j = i then Some (k, v) else hm_entries m ! j)" for j
    using len i(2) by (simp add: hm_set_value_def nth_list_update)
  have keys: "map_option fst (hm_entries ?m ! j) = map_option fst (hm_entries m ! j)" for j
    by (simp add: entries i(2))
  have "\<exists>k' v'. hm_entries ?m ! j = Some (k', v') \<and> hm_ctrl ?m ! j = hash_h2 (he_hash E k') \<and> hm_reach E ?m k' j"
    if "hm_live m j" for j
    using hm_coreD(2) [OF core that] i(2) unfolding entries reach same by (cases "j = i") auto
  then show core': "hm_core E ?m"
    using core unfolding hm_core_def live keys same
    by (auto simp: hm_set_value_def)
  show "hm_abs ?m = (hm_abs m)(k \<mapsto> v)"
  proof (rule map_ext_Some)
    fix x y
    have "hm_abs ?m x = Some y \<longleftrightarrow> (x = k \<and> y = v) \<or> (\<exists>j. j \<noteq> i \<and> hm_live m j \<and> hm_entries m ! j = Some (x, y))"
      unfolding hm_abs_iff [OF core'] live entries using i(1) by (auto split: if_splits)
    then show "hm_abs ?m x = Some y \<longleftrightarrow> ((hm_abs m)(k \<mapsto> v)) x = Some y"
      unfolding hm_items_update [OF core i] by auto
  qed
qed

lemma hm_assign_spec:
  assumes "hm_inv E m"
  shows "hm_inv E (hm_assign E k v m)"
    and "hm_abs (hm_assign E k v m) = (if hm_abs m k = None then hm_abs m else (hm_abs m)(k \<mapsto> v))"
    and "hm_room E n m \<Longrightarrow> hm_room E n (hm_assign E k v m)"
proof -
  have core: "hm_core E m" using assms by (simp add: hm_inv_def)
  have none: "hm_find E k m = None \<longleftrightarrow> hm_abs m k = None"
    using hm_get_abs [OF core, of k] by (auto simp: hm_get_def)
  have "hm_inv E (hm_set_value i v m) \<and> hm_abs (hm_set_value i v m) = (hm_abs m)(k \<mapsto> v)"
    if find: "hm_find E k m = Some i" for i
  proof -
    obtain w where "hm_live m i" "hm_entries m ! i = Some (k, w)"
      using hm_find_iff [OF core, of k i] find by auto
    from hm_set_value_spec [OF core this, of v] show ?thesis
      using assms by (simp add: hm_inv_def hm_set_value_def hm_cap_def)
  qed
  then show "hm_inv E (hm_assign E k v m)"
    and "hm_abs (hm_assign E k v m) = (if hm_abs m k = None then hm_abs m else (hm_abs m)(k \<mapsto> v))"
    using none assms by (auto simp: hm_assign_def split: option.splits)
  show "hm_room E n m \<Longrightarrow> hm_room E n (hm_assign E k v m)"
    by (simp add: hm_room_def hm_assign_def hm_set_value_def split: option.splits)
qed

lemma hm_erase_spec:
  assumes inv: "hm_inv E m" and run: "hm_erase E k m = (found, m')"
  shows "hm_inv E m'" and "hm_abs m' = (hm_abs m)(k := None)" and "found \<longleftrightarrow> hm_abs m k \<noteq> None"
proof -
  have core: "hm_core E m" using inv by (simp add: hm_inv_def)
  have "hm_inv E m' \<and> hm_abs m' = (hm_abs m)(k := None) \<and> (found \<longleftrightarrow> hm_abs m k \<noteq> None)"
  proof (cases "hm_find E k m")
    case None
    then have "hm_abs m k = None" using hm_get_abs [OF core, of k] by (simp add: hm_get_def)
    then show ?thesis using run None inv by (auto simp: hm_erase_def)
  next
    case (Some i)
    then obtain w where i: "hm_live m i" "hm_entries m ! i = Some (k, w)"
      using hm_find_iff [OF core, of k i] by auto
    have len: "i < length (hm_ctrl m)" "i < length (hm_entries m)"
      using i(1) hm_coreD(1) [OF core] by (simp_all add: hm_live_def hm_cap_def)
    have m': "found" "hm_ctrl m' = (hm_ctrl m)[i := kCtrlTombstone]" "hm_entries m' = (hm_entries m)[i := None]"
        "hm_size m' = hm_size m - 1" "hm_tombs m' = hm_tombs m + 1" "hm_cap m' = hm_cap m"
      using run Some by (auto simp: hm_erase_def hm_cap_def)
    have t: "\<not> hm_live_ctrl kCtrlTombstone" "kCtrlTombstone \<noteq> kCtrlEmpty"
      by (simp_all add: hm_live_ctrl_def kCtrlEmpty_def kCtrlTombstone_def)
    have live: "hm_live m' j \<longleftrightarrow> j \<noteq> i \<and> hm_live m j" for j
      using len t by (auto simp: hm_live_def m' nth_list_update hm_cap_def)
    have entries: "hm_entries m' ! j = (if j = i then None else hm_entries m ! j)" for j
      using len by (simp add: m' nth_list_update)
    have reach: "hm_reach E m k' j \<Longrightarrow> hm_reach E m' k' j" for k' j
    proof -
      have "hm_ctrl m ! l \<noteq> kCtrlEmpty \<Longrightarrow> hm_ctrl m' ! l \<noteq> kCtrlEmpty" for l
        using len t by (simp add: m' nth_list_update)
      then show "hm_reach E m k' j \<Longrightarrow> ?thesis" unfolding hm_reach_def m'(6) by blast
    qed
    have il: "hm_live_ctrl (hm_ctrl m ! i)" using i(1) by (simp add: hm_live_def)
    have counts: "hm_size m' = length (filter hm_live_ctrl (hm_ctrl m'))"
        "hm_tombs m' = length (filter (\<lambda>c. c = kCtrlTombstone) (hm_ctrl m'))" "0 < hm_size m"
      using length_filter_update [OF len(1), of hm_live_ctrl kCtrlTombstone]
        length_filter_update [OF len(1), of "\<lambda>c. c = kCtrlTombstone" kCtrlTombstone] il t hm_coreD(4,5) [OF core]
      by (auto simp: m' hm_live_ctrl_def)
    have good: "\<exists>k' v'. hm_entries m' ! j = Some (k', v') \<and> hm_ctrl m' ! j = hash_h2 (he_hash E k') \<and>
        hm_reach E m' k' j" if "hm_live m' j" for j
      using that hm_coreD(2) [OF core, of j] reach unfolding live entries by (auto simp: m'(2))
    have uniq: "hm_live m' j \<Longrightarrow> hm_live m' l \<Longrightarrow>
        map_option fst (hm_entries m' ! j) = map_option fst (hm_entries m' ! l) \<Longrightarrow> j = l" for j l
      using core unfolding live entries by (auto simp: hm_core_def)
    have core': "hm_core E m'"
      unfolding hm_core_def
      using core good uniq counts(1,2) by (auto simp: hm_core_def m'(3,6))
    have "hm_abs m' = (hm_abs m)(k := None)"
    proof (rule map_ext_Some)
      fix x y
      have "hm_abs m' x = Some y \<longleftrightarrow> (\<exists>j. j \<noteq> i \<and> hm_live m j \<and> hm_entries m ! j = Some (x, y))"
        unfolding hm_abs_iff [OF core'] live entries by (auto split: if_splits)
      then show "hm_abs m' x = Some y \<longleftrightarrow> ((hm_abs m)(k := None)) x = Some y"
        unfolding hm_items_update [OF core i] by auto
    qed
    moreover have "hm_abs m k \<noteq> None" using hm_abs_iff [OF core] i by auto
    ultimately show ?thesis using core' inv m' counts(3) by (auto simp: hm_inv_def)
  qed
  then show "hm_inv E m'" "hm_abs m' = (hm_abs m)(k := None)" "found \<longleftrightarrow> hm_abs m k \<noteq> None" by auto
qed

lemma hm_reserve_spec:
  assumes inv: "hm_inv E m" and run: "hm_reserve E want (m, a) = (ok, m', a')"
  shows "hm_inv E m' \<and> hm_abs m' = hm_abs m \<and> (ok \<longrightarrow> want \<le> hm_cap m')"
proof -
  have up: "\<exists>k. round_up_loop (2 ^ j) n = 2 ^ k \<and> n \<le> 2 ^ k \<and> j \<le> k" for j n
  proof (induction "n - 2 ^ j" arbitrary: j rule: less_induct)
    case less
    show ?case
    proof (cases "2 ^ j < n")
      case True
      moreover have "(2 :: nat) ^ j < 2 ^ Suc j" by simp
      ultimately have "n - 2 ^ Suc j < n - 2 ^ j" by (rule diff_less_mono2 [rotated])
      from less [OF this] obtain k where "round_up_loop (2 ^ Suc j) n = 2 ^ k" "n \<le> 2 ^ k" "Suc j \<le> k" by blast
      then show ?thesis using True by (subst round_up_loop.simps) auto
    next
      case False
      then show ?thesis by (subst round_up_loop.simps) auto
    qed
  qed
  show ?thesis
  proof (cases "want \<le> hm_cap m")
    case False
    define target where "target = round_up_pow2 (if want < kMinCap then kMinCap else want)"
    obtain k where k: "target = 2 ^ k" "(if want < kMinCap then kMinCap else want) \<le> 2 ^ k"
      using up [of 0 "if want < kMinCap then kMinCap else want"] by (auto simp: target_def round_up_pow2_def)
    have big: "want \<le> target" "kMinCap \<le> target" using k by (auto split: if_splits)
    have core: "hm_core E m" using inv by (simp add: hm_inv_def)
    have size: "hm_size m \<le> target" using hm_counts [OF core] False big by simp
    have run': "(if target > kMaxCap then (False, m, a) else hm_rehash_to E target (m, a)) = (ok, m', a')"
      using run False unfolding hm_reserve_def target_def Let_def by (simp only: fst_conv if_False)
    have load: "4 * hm_size m \<le> 3 * target + 4"
      using inv hm_counts [OF core] big False by (cases "hm_cap m = 0") (auto simp: hm_inv_def)
    show ?thesis
      by (rule hm_rehash_spec [OF core k(1) size, of a])
        (use run' inv big load in \<open>auto simp: hm_inv_def split: if_splits\<close>)
  qed (use run inv in \<open>auto simp: hm_reserve_def\<close>)
qed

section \<open>The interface of a keyed table\<close>

text \<open>
  What the clients of the hash map use.  They keep the keys in insertion order in an array
  of their own beside the table; \<open>tracks\<close> is the invariant that ties the two together.
\<close>

definition tracks :: "('s \<Rightarrow> bool) \<Rightarrow> ('s \<Rightarrow> 'k \<Rightarrow> 'v option) \<Rightarrow> 'k list \<Rightarrow> 's \<Rightarrow> bool" where
  "tracks P A order s \<longleftrightarrow> P s \<and> distinct order \<and> dom (A s) = set order"

locale keyed_table =
  fixes inv :: "'s \<Rightarrow> bool" and room :: "nat \<Rightarrow> 's \<Rightarrow> bool" and abs :: "'s \<Rightarrow> 'k \<Rightarrow> 'v option"
    and get :: "'k \<Rightarrow> 's \<Rightarrow> 'v option"
    and add :: "'k \<Rightarrow> 'v \<Rightarrow> 's \<times> 'a \<Rightarrow> bool \<times> 's \<times> 'a"
    and assign :: "'k \<Rightarrow> 'v \<Rightarrow> 's \<Rightarrow> 's"
  assumes get_abs: "inv s \<Longrightarrow> get k s = abs s k"
    and add_inv: "inv s \<Longrightarrow> add k v (s, a) = (ok, s', a') \<Longrightarrow> inv s'"
    and add_abs: "inv s \<Longrightarrow> add k v (s, a) = (ok, s', a') \<Longrightarrow>
      abs s' = (if ok then (abs s)(k \<mapsto> v) else abs s)"
    and add_room: "inv s \<Longrightarrow> room (Suc n) s \<Longrightarrow> abs s k = None \<Longrightarrow> add k v (s, a) = (ok, s', a') \<Longrightarrow>
      ok \<and> room n s'"
    and assign_room: "inv s \<Longrightarrow> room n s \<Longrightarrow> room n (assign k v s)"
    and assign_inv: "inv s \<Longrightarrow> inv (assign k v s)"
    and assign_abs: "inv s \<Longrightarrow> abs (assign k v s) = (if abs s k = None then abs s else (abs s)(k \<mapsto> v))"
begin

lemma tracks_get: "tracks inv abs order s \<Longrightarrow> get k s = abs s k"
  by (simp add: tracks_def get_abs)

lemma tracks_get_None: "tracks inv abs order s \<Longrightarrow> get k s = None \<longleftrightarrow> k \<notin> set order"
  by (auto simp: tracks_def get_abs)

lemma tracks_get_in: "tracks inv abs order s \<Longrightarrow> k \<in> set order \<Longrightarrow> \<exists>v. get k s = Some v"
  by (auto simp: tracks_def get_abs)

lemma tracks_add:
  assumes "tracks inv abs order s" and "get k s = None" and "add k v (s, a) = (ok, s', a')"
  shows "ok \<Longrightarrow> tracks inv abs (order @ [k]) s'" and "\<not> ok \<Longrightarrow> tracks inv abs order s'"
    and "room (Suc n) s \<Longrightarrow> ok \<and> room n s'"
  using assms add_inv [OF _ assms(3)] add_abs [OF _ assms(3)] add_room [OF _ _ _ assms(3)] tracks_get_None [OF assms(1), of k]
  by (auto simp: tracks_def)

lemma tracks_assign: "tracks inv abs order s \<Longrightarrow> k \<in> set order \<Longrightarrow> tracks inv abs order (assign k v s)"
  by (auto simp: tracks_def assign_inv assign_abs)

end

interpretation hm: keyed_table "hm_inv (E :: ('k, 'a) hm_env)" "hm_room E" "hm_abs :: ('k, 'v) hashmap \<Rightarrow> _" "hm_get E" "hm_add E" "hm_assign E"
proof unfold_locales
  fix m m' :: "('k, 'v) hashmap" and k v ok n and a a' :: 'a
  assume inv: "hm_inv E m"
  show "hm_get E k m = hm_abs m k" by (rule hm_get_abs [OF hm_inv_core [OF inv]])
  show "hm_inv E m'" if "hm_add E k v (m, a) = (ok, m', a')"
    by (rule hm_add_spec [OF inv that])
  show "hm_abs m' = (if ok then (hm_abs m)(k \<mapsto> v) else hm_abs m)" if "hm_add E k v (m, a) = (ok, m', a')"
    by (rule hm_add_spec [OF inv that])
  show "ok \<and> hm_room E n m'" if "hm_room E (Suc n) m" "hm_abs m k = None" "hm_add E k v (m, a) = (ok, m', a')"
    by (rule hm_add_spec(4) [OF inv that(3,1,2)])
  show "hm_room E n (hm_assign E k v m)" if "hm_room E n m" by (rule hm_assign_spec(3) [OF inv that])
  show "hm_inv E (hm_assign E k v m)"
    and "hm_abs (hm_assign E k v m) = (if hm_abs m k = None then hm_abs m else (hm_abs m)(k \<mapsto> v))"
    by (rule hm_assign_spec [OF inv])+
qed

section \<open>Properties\<close>

text \<open>A concrete environment: the identity as hash, a bump allocator that never fails.\<close>

definition bump_env :: "(u64, u64) hm_env" where
  "bump_env = \<lparr>he_hash = (\<lambda>k. k), he_alloc = (\<lambda>n align p. (Some p, p + n)), he_entry_bytes = 16,
     he_entry_align = 8\<rparr>"

lemma bump_env_total: "alloc_total (he_alloc bump_env)"
  by (simp add: bump_env_def alloc_total_def)

text \<open>
C20: Lookup refines the finite map: \<open>find\<close> returns an entry of exactly the keys of the map, and
the entry holds the value of the key.
\<close>

theorem hm_find_refines:
  assumes "hm_inv E m"
  shows "(case hm_find E k m of
     None \<Rightarrow> hm_abs m k = None
   | Some i \<Rightarrow> i < hm_cap m \<and> hm_entries m ! i = Some (k, hm_value m i) \<and> hm_abs m k = Some (hm_value m i))"
proof (cases "hm_find E k m")
  case None
  then show ?thesis using hm_get_abs [OF hm_inv_core [OF assms], of k] by (simp add: hm_get_def)
next
  case (Some i)
  then obtain v where "hm_live m i" "hm_entries m ! i = Some (k, v)"
    using hm_find_iff [OF hm_inv_core [OF assms], of k i] by auto
  then show ?thesis
    using Some hm_abs_iff [OF hm_inv_core [OF assms], of k v] by (auto simp: hm_live_def hm_value_def)
qed

theorem hm_find_refines_witness: "hm_find bump_env 5 hm_empty = None \<and> hm_abs (hm_empty :: (u64, u64) hashmap) 5 = None"
  using hm_find_refines [where E = bump_env and k = 5 and m = "hm_empty :: (u64, u64) hashmap", OF hm_core_empty(2)]
  by (simp add: hm_find_def hm_empty_def hm_cap_def)

text \<open>
C19: Insertion refines the finite map, through any number of tombstones and rehashes: it
keeps the invariant, never overwrites a present key, reports whether it inserted, and
returns no entry only when the allocator fails or the table has reached its slot cap at a
load above three quarters.
\<close>

theorem hm_insert_refines:
  assumes "hm_inv E m" and "hm_insert E k v (m, a) = (r, m', a')"
  shows "hm_inv E m' \<and> (case r of
       Some (i, inserted) \<Rightarrow> (inserted \<longleftrightarrow> hm_abs m k = None) \<and>
         hm_abs m' = (if inserted then (hm_abs m)(k \<mapsto> v) else hm_abs m) \<and>
         i < hm_cap m' \<and> map_option fst (hm_entries m' ! i) = Some k
     | None \<Rightarrow> hm_abs m' = hm_abs m \<and>
         (alloc_total (he_alloc E) \<longrightarrow> 3 * kMaxCap < 4 * (hm_size m + hm_tombs m)))"
  by (rule hm_insert_spec [OF assms(1), of k v a]) (use assms(2) in \<open>auto simp: hm_live_def\<close>)

theorem hm_insert_refines_witness:
  "\<exists>i m' a'. hm_insert bump_env 5 (50 :: u64) (hm_empty, 4096) = (Some (i, True), m', a') \<and> hm_abs m' = [5 \<mapsto> 50]"
proof -
  obtain r m' a' where run: "hm_insert bump_env 5 (50 :: u64) (hm_empty, 4096) = (r, m', a')" by (metis prod.collapse)
  have e: "hm_abs (hm_empty :: (u64, u64) hashmap) = Map.empty" by (rule hm_core_empty(3))
  have big: "\<not> 3 * kMaxCap < 4 * (hm_size (hm_empty :: (u64, u64) hashmap) + hm_tombs (hm_empty :: (u64, u64) hashmap))"
    by (simp add: hm_empty_def)
  show ?thesis
    using hm_insert_refines [OF hm_core_empty(2) run] run big bump_env_total e
    by (auto split: option.splits)
qed

text \<open>
C21: Erasure refines the finite map: exactly the key is removed, every other key stays
reachable behind the tombstone, and the result tells whether the key was present.
\<close>

theorem hm_erase_refines:
  assumes "hm_inv E m" and "hm_erase E k m = (found, m')"
  shows "hm_inv E m' \<and> hm_abs m' = (hm_abs m)(k := None) \<and> (found \<longleftrightarrow> hm_abs m k \<noteq> None)"
  using hm_erase_spec [OF assms] by blast

theorem hm_erase_refines_witness:
  "\<exists>m a. fst (hm_erase bump_env 5 (m :: (u64, u64) hashmap)) \<and> hm_abs (snd (hm_erase bump_env 5 m)) = Map.empty \<and>
    hm_add bump_env 5 50 (hm_empty, 4096) = (True, m, a)"
proof -
  have "hm_room bump_env (Suc 0) (hm_empty :: (u64, u64) hashmap)"
    by (simp add: hm_room_def bump_env_total hm_empty_def kMaxCap_def)
  moreover obtain ok m a where run: "hm_add bump_env 5 (50 :: u64) (hm_empty, 4096) = (ok, m, a)" by (metis prod.collapse)
  note spec = hm_add_spec [OF hm_core_empty(2) run]
  moreover have "hm_abs (hm_empty :: (u64, u64) hashmap) = Map.empty" by (rule hm_core_empty(3))
  ultimately have ok: ok and abs: "hm_abs m = [5 \<mapsto> 50]" using spec(2) spec(4) [of 0] by auto
  obtain f m' where er: "hm_erase bump_env 5 m = (f, m')" by fastforce
  show ?thesis
    using hm_erase_refines [OF spec(1) er] er abs run ok by (intro exI [of _ m] exI [of _ a]) simp
qed

end
