(* ===== verification/Ycpp_Reader.thy ===== *)
theory Ycpp_Reader
  imports Ycpp_Varint
begin

unbundle bit_operations_syntax

text \<open>
  The class \<open>Reader\<close> of ycpp_reader.h: a view and a position in it, with one operation per
  primitive.  An operation that fails leaves the position where the code leaves it, which
  for \<open>length_prefixed\<close> is behind the length it has already consumed.

  \<open>r_safe\<close> says that an operation never moves outside the view and never backwards;
  \<open>r_parses m bs x\<close> that it reads \<open>x\<close> off the bytes \<open>bs\<close> wherever they stand in the view.
  Both compose along \<open>ytry\<close>, \<open>yrepeat\<close> and \<open>yforeach\<close>.
\<close>

section \<open>The code\<close>

record reader =
  r_view :: bytes
  r_pos :: nat

definition reader_of :: "bytes \<Rightarrow> reader" where
  "reader_of v = \<lparr>r_view = v, r_pos = 0\<rparr>"

definition r_remaining :: "reader \<Rightarrow> nat" where
  "r_remaining r = length (r_view r) - r_pos r"

definition r_eof :: "reader \<Rightarrow> bool" where
  "r_eof r \<longleftrightarrow> r_pos r \<ge> length (r_view r)"

definition r_tail :: "reader \<Rightarrow> bytes" where
  "r_tail r = drop (r_pos r) (r_view r)"

definition r_u8 :: "(reader, u8) op" where
  "r_u8 r =
     (if r_remaining r < 1 then (Inl kOutOfBounds, r)
      else (Inr (r_view r ! r_pos r), r\<lparr>r_pos := r_pos r + 1\<rparr>))"

text \<open>\<open>memcpy\<close> of \<open>n\<close> bytes into an unsigned integer, least significant byte first.\<close>

definition le_word :: "bytes \<Rightarrow> 'a::len word" where
  "le_word bs = foldr (\<lambda>b w. push_bit 8 w OR ucast b) bs 0"

definition r_fixed :: "nat \<Rightarrow> (reader, 'a::len word) op" where
  "r_fixed n r =
     (if r_remaining r < n then (Inl kOutOfBounds, r)
      else (Inr (le_word (take n (drop (r_pos r) (r_view r)))), r\<lparr>r_pos := r_pos r + n\<rparr>))"

definition r_u16_le :: "(reader, u16) op" where
  "r_u16_le = r_fixed 2"

definition r_u32_le :: "(reader, u32) op" where
  "r_u32_le = r_fixed 4"

definition r_u64_le :: "(reader, u64) op" where
  "r_u64_le = r_fixed 8"

definition r_varint_u64 :: "(reader, u64) op" where
  "r_varint_u64 r =
     (case varint_decode_u64 (drop (r_pos r) (r_view r)) (r_remaining r) of
        Inl s \<Rightarrow> (Inl s, r)
      | Inr (v, consumed) \<Rightarrow> (Inr v, r\<lparr>r_pos := r_pos r + consumed\<rparr>))"

definition r_varint_i64 :: "(reader, u64) op" where
  "r_varint_i64 r =
     (case varint_decode_i64 (drop (r_pos r) (r_view r)) (r_remaining r) of
        Inl s \<Rightarrow> (Inl s, r)
      | Inr (v, consumed) \<Rightarrow> (Inr v, r\<lparr>r_pos := r_pos r + consumed\<rparr>))"

definition r_length_prefixed :: "(reader, bytes) op" where
  "r_length_prefixed =
     ytry r_varint_u64 (\<lambda>len r.
       if unat len > r_remaining r then (Inl kOutOfBounds, r)
       else (Inr (take (unat len) (drop (r_pos r) (r_view r))),
             r\<lparr>r_pos := r_pos r + unat len\<rparr>))"

definition r_skip :: "nat \<Rightarrow> (reader, unit) op" where
  "r_skip n r =
     (if n > r_remaining r then (Inl kOutOfBounds, r)
      else (Inr (), r\<lparr>r_pos := r_pos r + n\<rparr>))"

section \<open>Bounds\<close>

definition r_wf :: "reader \<Rightarrow> bool" where
  "r_wf r \<longleftrightarrow> r_pos r \<le> length (r_view r)"

definition r_safe :: "(reader, 'a) op \<Rightarrow> bool" where
  "r_safe m \<longleftrightarrow> (\<forall>r. r_wf r \<longrightarrow>
     r_view (snd (m r)) = r_view r \<and> r_pos r \<le> r_pos (snd (m r)) \<and> r_wf (snd (m r)))"

named_theorems r_safe_intros "reader operations stay inside the view"

lemma r_wf_reader_of [simp]: "r_wf (reader_of v)"
  by (simp add: r_wf_def reader_of_def)

lemma r_safeD:
  assumes "r_safe m" and "r_wf r" and "m r = (x, r')"
  shows "r_view r' = r_view r" and "r_pos r \<le> r_pos r'" and "r_wf r'"
  using assms by (auto simp: r_safe_def dest!: spec [of _ r])

lemma r_safe_return [r_safe_intros]: "r_safe (yreturn x)"
  by (simp add: r_safe_def op_simps)

lemma r_safe_fail [r_safe_intros]: "r_safe (yfail e)"
  by (simp add: r_safe_def op_simps)

lemma r_safe_try [r_safe_intros]:
  assumes m: "r_safe m" and k: "\<And>x. r_safe (k x)"
  shows "r_safe (ytry m k)"
  unfolding r_safe_def
proof (intro allI impI)
  fix r
  assume wf: "r_wf r"
  obtain res r' where mr: "m r = (res, r')" by fastforce
  note s = r_safeD [OF m wf mr]
  show "r_view (snd (ytry m k r)) = r_view r \<and> r_pos r \<le> r_pos (snd (ytry m k r)) \<and>
      r_wf (snd (ytry m k r))"
  proof (cases res)
    case (Inr x)
    obtain y r'' where "k x r' = (y, r'')" by fastforce
    with r_safeD [OF k s(3) this] mr Inr s show ?thesis by (simp add: op_simps)
  qed (use mr s in \<open>simp add: op_simps\<close>)
qed

lemma r_safe_repeat [r_safe_intros]: "r_safe m \<Longrightarrow> r_safe (yrepeat n m)"
  by (induction n) (auto intro!: r_safe_intros)

lemma r_safe_u8 [r_safe_intros]: "r_safe r_u8"
  by (auto simp: r_safe_def r_u8_def r_wf_def r_remaining_def)

lemma r_safe_fixed [r_safe_intros]: "r_safe (r_fixed n)"
  by (auto simp: r_safe_def r_fixed_def r_wf_def r_remaining_def)

lemma r_safe_skip [r_safe_intros]: "r_safe (r_skip n)"
  by (auto simp: r_safe_def r_skip_def r_wf_def r_remaining_def)

lemma varint_decode_consumed:
  "varint_decode_u64 (drop p v) (length v - p) = Inr (x, n) \<Longrightarrow> p \<le> length v \<Longrightarrow> p + n \<le> length v"
  using varint_decode_iff [of "length v - p" "drop p v" x n] by auto

lemma r_safe_varint_u64 [r_safe_intros]: "r_safe r_varint_u64"
  by (auto simp: r_safe_def r_varint_u64_def r_wf_def r_remaining_def
      dest: varint_decode_consumed split: sum.splits)

lemma r_safe_varint_i64 [r_safe_intros]: "r_safe r_varint_i64"
  by (auto simp: r_safe_def r_varint_i64_def varint_decode_i64_def r_wf_def r_remaining_def
      dest: varint_decode_consumed split: sum.splits)

lemma r_safe_length_prefixed [r_safe_intros]: "r_safe r_length_prefixed"
  unfolding r_length_prefixed_def
  by (intro r_safe_intros) (auto simp: r_safe_def r_wf_def r_remaining_def)

lemma ykeeps_reader: "r_safe m \<Longrightarrow> ykeeps (\<lambda>st. r_wf (fst st) \<and> Q (snd st)) (yfst m)"
  by (rule ykeeps_fst) (simp add: r_safe_def ykeeps_def)

section \<open>Parsing\<close>

definition r_parses :: "(reader, 'a) op \<Rightarrow> bytes \<Rightarrow> 'a \<Rightarrow> bool" where
  "r_parses m bs x \<longleftrightarrow> (\<forall>pre rest.
     m \<lparr>r_view = pre @ bs @ rest, r_pos = length pre\<rparr> =
       (Inr x, \<lparr>r_view = pre @ bs @ rest, r_pos = length pre + length bs\<rparr>))"

named_theorems r_parses_intros "what reader operations read"

lemma r_parsesD:
  "r_parses m bs x \<Longrightarrow> m \<lparr>r_view = pre @ bs @ rest, r_pos = length pre\<rparr> =
     (Inr x, \<lparr>r_view = pre @ bs @ rest, r_pos = length pre + length bs\<rparr>)"
  by (simp add: r_parses_def)

lemma r_parses_whole:
  "r_parses m bs x \<Longrightarrow> m (reader_of (bs @ rest)) = (Inr x, \<lparr>r_view = bs @ rest, r_pos = length bs\<rparr>)"
  using r_parsesD [of m bs x "[]" rest] by (simp add: reader_of_def)

lemma r_parses_return [r_parses_intros]: "r_parses (yreturn x) [] x"
  by (simp add: r_parses_def op_simps)

lemma r_parses_try:
  assumes "r_parses m bs x" and "r_parses (k x) bs' y"
  shows "r_parses (ytry m k) (bs @ bs') y"
  unfolding r_parses_def
proof (intro allI)
  fix pre rest
  show "ytry m k \<lparr>r_view = pre @ (bs @ bs') @ rest, r_pos = length pre\<rparr> =
      (Inr y, \<lparr>r_view = pre @ (bs @ bs') @ rest, r_pos = length pre + length (bs @ bs')\<rparr>)"
    using r_parsesD [OF assms(1), of pre "bs' @ rest"] r_parsesD [OF assms(2), of "pre @ bs" rest]
    by (simp add: op_simps add.assoc)
qed

lemma r_parses_repeat:
  "list_all2 (\<lambda>bs x. r_parses m bs x) bss xs \<Longrightarrow> r_parses (yrepeat (length xs) m) (concat bss) xs"
proof (induction rule: list_all2_induct)
  case Nil
  then show ?case by (simp add: r_parses_intros)
next
  case (Cons bs bss x xs)
  have "r_parses (ytry (yrepeat (length xs) m) (\<lambda>xs. yreturn (x # xs))) (concat bss @ []) (x # xs)"
    by (rule r_parses_try [OF Cons.IH r_parses_return])
  with r_parses_try [OF Cons.hyps(1), of "\<lambda>x. ytry (yrepeat (length xs) m) (\<lambda>xs. yreturn (x # xs))"]
  show ?case by simp
qed

lemma r_parses_u8 [r_parses_intros]: "r_parses r_u8 [b] b"
  by (simp add: r_parses_def r_u8_def r_remaining_def nth_append)

lemma r_parses_varint_u64 [r_parses_intros]: "r_parses r_varint_u64 (varint_bytes v) v"
  by (simp add: r_parses_def r_varint_u64_def r_remaining_def varint_decode_bytes)

lemma r_parses_varint_i64 [r_parses_intros]:
  "r_parses r_varint_i64 (varint_bytes (zigzag_encode_i64 v)) v"
  by (simp add: r_parses_def r_varint_i64_def r_remaining_def varint_decode_bytes
      varint_decode_i64_def zigzag_decode_encode)

text \<open>A length-prefixed run of bytes, as \<open>Writer::length_prefixed\<close> emits it.\<close>

definition prefixed_bytes :: "bytes \<Rightarrow> bytes" where
  "prefixed_bytes bs = varint_bytes (of_nat (length bs)) @ bs"

lemma r_parses_length_prefixed [r_parses_intros]:
  assumes "length bs < 2 ^ 64"
  shows "r_parses r_length_prefixed (prefixed_bytes bs) bs"
  unfolding r_length_prefixed_def prefixed_bytes_def
  by (rule r_parses_try [OF r_parses_varint_u64])
     (use assms in \<open>simp add: r_parses_def r_remaining_def unat_of_nat_small\<close>)

section \<open>Fixed-width integers\<close>

definition le_bytes :: "nat \<Rightarrow> 'a::len word \<Rightarrow> bytes" where
  "le_bytes n w = map (\<lambda>i. ucast (drop_bit (8 * i) w)) [0..<n]"

lemma length_le_bytes [simp]: "length (le_bytes n w) = n"
  by (simp add: le_bytes_def)

lemma le_bytes_Suc: "le_bytes (Suc n) w = ucast w # le_bytes n (drop_bit 8 w)"
  by (simp add: le_bytes_def upt_conv_Cons map_Suc_upt [symmetric] drop_bit_drop_bit comp_def add.commute
      del: upt_Suc)

lemma le_word_le_bytes: "LENGTH('a::len) \<le> 8 * n \<Longrightarrow> le_word (le_bytes n w) = (w :: 'a word)"
proof -
  have "le_word (le_bytes n w) = take_bit (8 * n) w" for n and w :: "'a word"
  proof (induction n arbitrary: w)
    case 0
    then show ?case by (simp add: le_word_def le_bytes_def)
  next
    case (Suc n)
    have "le_word (le_bytes (Suc n) w) = push_bit 8 (take_bit (8 * n) (drop_bit 8 w)) OR ucast (ucast w :: u8)"
      using Suc [of "drop_bit 8 w"] by (simp add: le_bytes_Suc le_word_def)
    also have "\<dots> = take_bit (8 * Suc n) w"
      by (rule bit_word_eqI) (auto simp: bit_or_iff bit_push_bit_iff bit_take_bit_iff
          bit_drop_bit_eq bit_ucast_iff)
    finally show ?case .
  qed
  then show "LENGTH('a) \<le> 8 * n \<Longrightarrow> ?thesis" by (simp add: take_bit_word_eq_self)
qed

lemma r_parses_fixed:
  "LENGTH('a::len) \<le> 8 * n \<Longrightarrow> r_parses (r_fixed n) (le_bytes n w) (w :: 'a word)"
  by (simp add: r_parses_def r_fixed_def r_remaining_def le_word_le_bytes)

section \<open>Decoding into an object\<close>

text \<open>
  A decoder that fills an object runs on a reader and the object.  \<open>r_feeds m bs f\<close>: on
  the bytes \<open>bs\<close> it does to the object what \<open>f\<close> does, and consumes \<open>bs\<close> when \<open>f\<close> succeeds.
\<close>

definition r_feeds :: "(reader \<times> 't, 'a) op \<Rightarrow> bytes \<Rightarrow> ('t, 'a) op \<Rightarrow> bool" where
  "r_feeds m bs f \<longleftrightarrow> (\<forall>pre rest t.
     case f t of
       (Inr x, t') \<Rightarrow> m (\<lparr>r_view = pre @ bs @ rest, r_pos = length pre\<rparr>, t) =
         (Inr x, \<lparr>r_view = pre @ bs @ rest, r_pos = length pre + length bs\<rparr>, t')
     | (Inl e, t') \<Rightarrow> \<exists>r'. m (\<lparr>r_view = pre @ bs @ rest, r_pos = length pre\<rparr>, t) = (Inl e, r', t'))"

lemma r_feeds_ok:
  "r_feeds m bs f \<Longrightarrow> f t = (Inr x, t') \<Longrightarrow>
     m (\<lparr>r_view = pre @ bs @ rest, r_pos = length pre\<rparr>, t) =
       (Inr x, \<lparr>r_view = pre @ bs @ rest, r_pos = length pre + length bs\<rparr>, t')"
  unfolding r_feeds_def by (drule spec [of _ pre], drule spec [of _ rest], drule spec [of _ t]) simp

lemma r_feeds_fail:
  "r_feeds m bs f \<Longrightarrow> f t = (Inl e, t') \<Longrightarrow>
     \<exists>r'. m (\<lparr>r_view = pre @ bs @ rest, r_pos = length pre\<rparr>, t) = (Inl e, r', t')"
  unfolding r_feeds_def by (drule spec [of _ pre], drule spec [of _ rest], drule spec [of _ t]) simp

lemma r_feeds_whole:
  "r_feeds m bs f \<Longrightarrow> f t = (Inr x, t') \<Longrightarrow>
     m (reader_of (bs @ rest), t) = (Inr x, \<lparr>r_view = bs @ rest, r_pos = length bs\<rparr>, t')"
  using r_feeds_ok [of m bs f t x t' "[]" rest] by (simp add: reader_of_def)

lemma r_feeds_try:
  assumes m: "r_feeds m bs f" and k: "\<And>x. r_feeds (k x) bs' (g x)"
  shows "r_feeds (ytry m k) (bs @ bs') (ytry f g)"
  unfolding r_feeds_def
proof (intro allI)
  fix pre rest t
  let ?v = "pre @ (bs @ bs') @ rest"
  obtain res t1 where f: "f t = (res, t1)" by fastforce
  show "case ytry f g t of
       (Inr x, t') \<Rightarrow> ytry m k (\<lparr>r_view = ?v, r_pos = length pre\<rparr>, t) =
         (Inr x, \<lparr>r_view = ?v, r_pos = length pre + length (bs @ bs')\<rparr>, t')
     | (Inl e, t') \<Rightarrow> \<exists>r'. ytry m k (\<lparr>r_view = ?v, r_pos = length pre\<rparr>, t) = (Inl e, r', t')"
  proof (cases res)
    case (Inl e)
    then show ?thesis using f r_feeds_fail [OF m, of t e t1 pre "bs' @ rest"] by (auto simp: op_simps)
  next
    case (Inr x)
    then have run: "m (\<lparr>r_view = ?v, r_pos = length pre\<rparr>, t) =
        (Inr x, \<lparr>r_view = ?v, r_pos = length (pre @ bs)\<rparr>, t1)"
      using f r_feeds_ok [OF m, of t x t1 pre "bs' @ rest"] by simp
    obtain res' t2 where g: "g x t1 = (res', t2)" by fastforce
    show ?thesis
    proof (cases res')
      case (Inl e)
      then show ?thesis
        using f g Inr run r_feeds_fail [OF k, of x t1 e t2 "pre @ bs" rest] by (auto simp: op_simps)
    next
      case (Inr y)
      then show ?thesis
        using f g \<open>res = Inr x\<close> run r_feeds_ok [OF k, of x t1 y t2 "pre @ bs" rest]
        by (simp add: op_simps add.assoc)
    qed
  qed
qed

lemma r_feeds_return: "r_feeds (yreturn x) [] (yreturn x)"
  by (simp add: r_feeds_def op_simps)

lemma r_feeds_snd: "r_feeds (ysnd f) [] f"
  by (auto simp: r_feeds_def ysnd_def split: sum.splits)

lemma r_feeds_fst: "r_parses m bs x \<Longrightarrow> r_feeds (yfst m) bs (yreturn x)"
  by (simp add: r_feeds_def r_parses_def yfst_def op_simps)

lemma r_feeds_parse:
  fixes f :: "('t, 'b) op"
  assumes m: "r_parses m bs x" and k: "r_feeds (k x) bs' f"
  shows "r_feeds (ytry (yfst m) k) (bs @ bs') f"
  unfolding r_feeds_def
proof (intro allI)
  fix pre rest and t :: 't
  let ?v = "pre @ (bs @ bs') @ rest"
  have run: "yfst m (\<lparr>r_view = ?v, r_pos = length pre\<rparr>, t) = (Inr x, \<lparr>r_view = ?v, r_pos = length (pre @ bs)\<rparr>, t)"
    using r_parsesD [OF m, of pre "bs' @ rest"] by (simp add: yfst_def)
  obtain res t1 where f: "f t = (res, t1)" by fastforce
  show "case f t of
       (Inr x, t') \<Rightarrow> ytry (yfst m) k (\<lparr>r_view = ?v, r_pos = length pre\<rparr>, t) =
         (Inr x, \<lparr>r_view = ?v, r_pos = length pre + length (bs @ bs')\<rparr>, t')
     | (Inl e, t') \<Rightarrow> \<exists>r'. ytry (yfst m) k (\<lparr>r_view = ?v, r_pos = length pre\<rparr>, t) = (Inl e, r', t')"
    using f run r_feeds_fail [OF k, of t _ t1 "pre @ bs" rest] r_feeds_ok [OF k, of t _ t1 "pre @ bs" rest]
    by (cases res) (auto simp: ytry_Inr add.assoc)
qed

lemma r_feeds_parse_end:
  "r_parses m bs x \<Longrightarrow> r_feeds (k x) [] f \<Longrightarrow> r_feeds (ytry (yfst m) k) bs f"
  using r_feeds_parse [of m bs x k "[]" f] by simp

lemma r_feeds_loop:
  "(\<And>x. x \<in> set xs \<Longrightarrow> r_feeds m (b x) (f x)) \<Longrightarrow>
     r_feeds (yloop (length xs) m) (concat (map b xs)) (yforeach f xs)"
  by (induction xs) (auto intro: r_feeds_return r_feeds_try)

end
