(* ===== verification/Ycpp_Writer.thy ===== *)
theory Ycpp_Writer
  imports Ycpp_Reader
begin

text \<open>
  The class \<open>Writer\<close> of ycpp_writer.h: a caller-owned buffer, its capacity (the length of
  the list) and a position.  The bytes from the position on are the caller's garbage; a
  varint that does not fit may already have overwritten some of them.

  \<open>w_appends m bs\<close> is the contract every encoder of the program is proved against: with
  room for \<open>bs\<close> it succeeds and appends exactly \<open>bs\<close>, without room it returns
  \<open>kOutOfBounds\<close>; in both cases the bytes already written stay as they are.
\<close>

section \<open>The code\<close>

record writer =
  w_buf :: bytes
  w_pos :: nat

definition writer_of :: "bytes \<Rightarrow> writer" where
  "writer_of buf = \<lparr>w_buf = buf, w_pos = 0\<rparr>"

definition w_capacity :: "writer \<Rightarrow> nat" where
  "w_capacity w = length (w_buf w)"

definition w_remaining :: "writer \<Rightarrow> nat" where
  "w_remaining w = w_capacity w - w_pos w"

definition w_u8 :: "u8 \<Rightarrow> (writer, unit) op" where
  "w_u8 v w =
     (if w_remaining w < 1 then (Inl kOutOfBounds, w)
      else (Inr (), w\<lparr>w_buf := (w_buf w)[w_pos w := v], w_pos := w_pos w + 1\<rparr>))"

definition w_fixed :: "nat \<Rightarrow> 'a::len word \<Rightarrow> (writer, unit) op" where
  "w_fixed n v w =
     (if w_remaining w < n then (Inl kOutOfBounds, w)
      else (Inr (), w\<lparr>w_buf := overwrite (w_buf w) (w_pos w) (le_bytes n v), w_pos := w_pos w + n\<rparr>))"

definition w_u16_le :: "u16 \<Rightarrow> (writer, unit) op" where
  "w_u16_le = w_fixed 2"

definition w_u32_le :: "u32 \<Rightarrow> (writer, unit) op" where
  "w_u32_le = w_fixed 4"

definition w_u64_le :: "u64 \<Rightarrow> (writer, unit) op" where
  "w_u64_le = w_fixed 8"

definition w_varint_u64 :: "u64 \<Rightarrow> (writer, unit) op" where
  "w_varint_u64 v w =
     (case varint_encode_u64 v (drop (w_pos w) (w_buf w)) (w_remaining w) of
        (Inl s, out) \<Rightarrow> (Inl s, w\<lparr>w_buf := take (w_pos w) (w_buf w) @ out\<rparr>)
      | (Inr n, out) \<Rightarrow> (Inr (), w\<lparr>w_buf := take (w_pos w) (w_buf w) @ out, w_pos := w_pos w + n\<rparr>))"

definition w_varint_i64 :: "u64 \<Rightarrow> (writer, unit) op" where
  "w_varint_i64 v w =
     (case varint_encode_i64 v (drop (w_pos w) (w_buf w)) (w_remaining w) of
        (Inl s, out) \<Rightarrow> (Inl s, w\<lparr>w_buf := take (w_pos w) (w_buf w) @ out\<rparr>)
      | (Inr n, out) \<Rightarrow> (Inr (), w\<lparr>w_buf := take (w_pos w) (w_buf w) @ out, w_pos := w_pos w + n\<rparr>))"

definition w_bytes :: "bytes \<Rightarrow> (writer, unit) op" where
  "w_bytes src w =
     (if length src > w_remaining w then (Inl kOutOfBounds, w)
      else (Inr (), w\<lparr>w_buf := overwrite (w_buf w) (w_pos w) src, w_pos := w_pos w + length src\<rparr>))"

definition w_length_prefixed :: "bytes \<Rightarrow> (writer, unit) op" where
  "w_length_prefixed src = ytry (w_varint_u64 (of_nat (length src))) (\<lambda>_. w_bytes src)"

section \<open>The contract of an encoder\<close>

definition w_wf :: "writer \<Rightarrow> bool" where
  "w_wf w \<longleftrightarrow> w_pos w \<le> w_capacity w"

text \<open>What has been written so far.\<close>

definition w_out :: "writer \<Rightarrow> bytes" where
  "w_out w = take (w_pos w) (w_buf w)"

definition w_appends :: "(writer, unit) op \<Rightarrow> bytes \<Rightarrow> bool" where
  "w_appends m bs \<longleftrightarrow> (\<forall>w. w_wf w \<longrightarrow>
     (let (res, w') = m w in
        w_wf w' \<and> w_capacity w' = w_capacity w \<and>
        (if length bs \<le> w_remaining w then res = Inr () \<and> w_out w' = w_out w @ bs
         else res = Inl kOutOfBounds \<and> w_pos w \<le> w_pos w' \<and> take (w_pos w) (w_buf w') = w_out w)))"

named_theorems w_appends_intros "what encoders append"

lemma w_wf_writer_of [simp]: "w_wf (writer_of buf)"
  by (simp add: w_wf_def writer_of_def)

lemma w_remaining_writer_of [simp]: "w_remaining (writer_of buf) = length buf"
  by (simp add: w_remaining_def w_capacity_def writer_of_def)

lemma w_out_writer_of [simp]: "w_out (writer_of buf) = []"
  by (simp add: w_out_def writer_of_def)

lemma w_pos_writer_of [simp]: "w_pos (writer_of buf) = 0"
  by (simp add: writer_of_def)

lemma length_w_out: "w_wf w \<Longrightarrow> length (w_out w) = w_pos w"
  by (simp add: w_out_def w_wf_def w_capacity_def min_def)

lemma w_appends_fits:
  assumes "w_appends m bs" and "w_wf w" and "length bs \<le> w_remaining w"
  obtains w' where "m w = (Inr (), w')" and "w_wf w'" and "w_capacity w' = w_capacity w"
    and "w_out w' = w_out w @ bs" and "w_pos w' = w_pos w + length bs"
proof -
  obtain res w' where mw: "m w = (res, w')" by fastforce
  with assms have "res = Inr () \<and> w_wf w' \<and> w_capacity w' = w_capacity w \<and> w_out w' = w_out w @ bs"
    by (auto simp: w_appends_def dest!: spec [of _ w])
  moreover from this have "w_pos w' = w_pos w + length bs"
    using length_w_out [of w] length_w_out [of w'] assms(2) by (metis length_append)
  ultimately show ?thesis using that mw by blast
qed

lemma w_appends_full:
  assumes "w_appends m bs" and "w_wf w" and "\<not> length bs \<le> w_remaining w"
  obtains w' where "m w = (Inl kOutOfBounds, w')" and "w_wf w'" and "w_capacity w' = w_capacity w"
    and "w_pos w \<le> w_pos w'" and "take (w_pos w) (w_buf w') = w_out w"
proof -
  obtain res w' where mw: "m w = (res, w')" by fastforce
  with assms have "res = Inl kOutOfBounds \<and> w_wf w' \<and> w_capacity w' = w_capacity w \<and>
    w_pos w \<le> w_pos w' \<and> take (w_pos w) (w_buf w') = w_out w"
    by (auto simp: w_appends_def dest!: spec [of _ w])
  with that mw show ?thesis by blast
qed

lemma w_appends_return [w_appends_intros]: "w_appends (yreturn ()) []"
  by (auto simp: w_appends_def op_simps w_out_def)

lemma w_appends_try:
  assumes m: "w_appends m bs" and k: "w_appends (k ()) bs'"
  shows "w_appends (ytry m k) (bs @ bs')"
  unfolding w_appends_def
proof (intro allI impI)
  fix w
  assume wf: "w_wf w"
  show "let (res, w') = ytry m k w in
        w_wf w' \<and> w_capacity w' = w_capacity w \<and>
        (if length (bs @ bs') \<le> w_remaining w then res = Inr () \<and> w_out w' = w_out w @ bs @ bs'
         else res = Inl kOutOfBounds \<and> w_pos w \<le> w_pos w' \<and> take (w_pos w) (w_buf w') = w_out w)"
  proof (cases "length bs \<le> w_remaining w")
    case True
    obtain w1 where w1: "m w = (Inr (), w1)" "w_wf w1" "w_capacity w1 = w_capacity w"
        "w_out w1 = w_out w @ bs" "w_pos w1 = w_pos w + length bs"
      by (rule w_appends_fits [OF m wf True])
    have rem: "length bs' \<le> w_remaining w1 \<longleftrightarrow> length (bs @ bs') \<le> w_remaining w"
      using w1 True by (auto simp: w_remaining_def)
    show ?thesis
    proof (cases "length bs' \<le> w_remaining w1")
      case fits: True
      obtain w2 where "k () w1 = (Inr (), w2)" "w_wf w2" "w_capacity w2 = w_capacity w1"
          "w_out w2 = w_out w1 @ bs'" "w_pos w2 = w_pos w1 + length bs'"
        by (rule w_appends_fits [OF k w1(2) fits])
      then show ?thesis using w1 rem fits by (simp add: op_simps)
    next
      case full: False
      obtain w2 where w2: "k () w1 = (Inl kOutOfBounds, w2)" "w_wf w2" "w_capacity w2 = w_capacity w1"
          "w_pos w1 \<le> w_pos w2" "take (w_pos w1) (w_buf w2) = w_out w1"
        by (rule w_appends_full [OF k w1(2) full])
      have "take (w_pos w) (take (w_pos w1) (w_buf w2)) = take (w_pos w) (w_out w @ bs)"
        using w2(5) w1(4) by simp
      then have "take (w_pos w) (w_buf w2) = w_out w"
        using w1(5) length_w_out [OF wf] by (simp add: min_def)
      then show ?thesis using w1 w2 rem full by (simp add: op_simps)
    qed
  next
    case False
    obtain w1 where "m w = (Inl kOutOfBounds, w1)" "w_wf w1" "w_capacity w1 = w_capacity w"
        "w_pos w \<le> w_pos w1" "take (w_pos w) (w_buf w1) = w_out w"
      by (rule w_appends_full [OF m wf False])
    then show ?thesis using False by (simp add: op_simps)
  qed
qed

lemma w_appends_foreach:
  "(\<And>x. x \<in> set xs \<Longrightarrow> w_appends (f x) (g x)) \<Longrightarrow> w_appends (yforeach f xs) (concat (map g xs))"
  by (induction xs) (auto intro: w_appends_return w_appends_try)

lemma w_appends_bytes [w_appends_intros]: "w_appends (w_bytes src) src"
  by (auto simp: w_appends_def w_bytes_def w_wf_def w_capacity_def w_remaining_def w_out_def
      take_overwrite)

lemma w_appends_fixed [w_appends_intros]: "w_appends (w_fixed n v) (le_bytes n v)"
proof -
  have "w_fixed n v = w_bytes (le_bytes n v)"
    by (rule ext) (simp add: w_fixed_def w_bytes_def)
  then show ?thesis by (simp add: w_appends_bytes)
qed

lemma w_appends_u8 [w_appends_intros]: "w_appends (w_u8 v) [v]"
  by (auto simp: w_appends_def w_u8_def w_wf_def w_capacity_def w_remaining_def w_out_def
      take_Suc_conv_app_nth)

lemma w_appends_varint_u64 [w_appends_intros]: "w_appends (w_varint_u64 v) (varint_bytes v)"
proof -
  have "take (length bs) (overwrite xs 0 bs) = bs" if "length bs \<le> length xs" for bs xs :: bytes
    using take_overwrite [of 0 bs xs] that by simp
  then show ?thesis
    by (auto simp: w_appends_def w_varint_u64_def w_wf_def w_capacity_def w_remaining_def w_out_def
        varint_encode_eq min_def)
qed

lemma w_appends_varint_i64 [w_appends_intros]:
  "w_appends (w_varint_i64 v) (varint_bytes (zigzag_encode_i64 v))"
  using w_appends_varint_u64 [of "zigzag_encode_i64 v"]
  by (simp add: w_appends_def w_varint_i64_def w_varint_u64_def varint_encode_i64_def)

lemma w_appends_length_prefixed [w_appends_intros]:
  "w_appends (w_length_prefixed src) (prefixed_bytes src)"
  unfolding w_length_prefixed_def prefixed_bytes_def
  by (intro w_appends_try w_appends_intros)

end
