(* ===== verification/Ycpp_Codec.thy ===== *)
theory Ycpp_Codec
  imports Ycpp_Writer
begin

text \<open>
  The interface between the wire formats and the code that ships them: an encoder over
  \<open>Writer\<close>, a decoder over \<open>Reader\<close> and the byte string both stand for.  From the two
  laws the locale derives what the clients (envelopes, state vectors, delete sets,
  updates) rely on: the round trip through a buffer of any sufficient size, with any bytes
  behind it, and that no encoding is a proper prefix of another.
\<close>

locale wire_codec =
  fixes enc :: "'a \<Rightarrow> (writer, unit) op"
    and dec :: "(reader, 'a) op"
    and ser :: "'a \<Rightarrow> bytes"
    and valid :: "'a \<Rightarrow> bool"
  assumes enc_appends: "valid x \<Longrightarrow> w_appends (enc x) (ser x)"
    and dec_parses: "valid x \<Longrightarrow> r_parses dec (ser x) x"
begin

lemma roundtrip:
  assumes "valid x" and "length (ser x) \<le> length buf"
  shows "\<exists>w. enc x (writer_of buf) = (Inr (), w) \<and> w_out w = ser x \<and>
    dec (reader_of (w_out w @ rest)) = (Inr x, \<lparr>r_view = w_out w @ rest, r_pos = w_pos w\<rparr>)"
proof -
  have fits: "length (ser x) \<le> w_remaining (writer_of buf)" using assms(2) by simp
  obtain w where "enc x (writer_of buf) = (Inr (), w)" "w_wf w" "w_out w = w_out (writer_of buf) @ ser x"
      "w_pos w = w_pos (writer_of buf) + length (ser x)"
    by (rule w_appends_fits [OF enc_appends [OF assms(1)] w_wf_writer_of fits])
  moreover note r_parses_whole [OF dec_parses [OF assms(1)], of rest]
  ultimately show ?thesis by simp
qed

lemma too_small:
  assumes "valid x" and "length buf < length (ser x)"
  shows "fst (enc x (writer_of buf)) = Inl kOutOfBounds"
  by (rule w_appends_full [OF enc_appends [OF assms(1)] w_wf_writer_of, of buf]) (use assms in auto)

lemma prefix_free:
  assumes "valid x" and "valid y" and "ser x @ rest = ser y @ rest'"
  shows "x = y" and "rest = rest'"
proof -
  have "dec (reader_of (ser x @ rest)) = (Inr x, \<lparr>r_view = ser x @ rest, r_pos = length (ser x)\<rparr>)"
    and "dec (reader_of (ser y @ rest')) = (Inr y, \<lparr>r_view = ser y @ rest', r_pos = length (ser y)\<rparr>)"
    by (intro r_parses_whole dec_parses assms)+
  with assms(3) show "x = y" by simp
  with assms(3) show "rest = rest'" by simp
qed

end

text \<open>The primitives of \<open>Writer\<close> and \<open>Reader\<close> are codecs.\<close>

interpretation varint_codec: wire_codec w_varint_u64 r_varint_u64 varint_bytes "\<lambda>_. True"
  by unfold_locales (rule w_appends_varint_u64 r_parses_varint_u64)+

interpretation varint_i64_codec: wire_codec w_varint_i64 r_varint_i64
    "\<lambda>v. varint_bytes (zigzag_encode_i64 v)" "\<lambda>_. True"
  by unfold_locales (rule w_appends_varint_i64 r_parses_varint_i64)+

interpretation prefixed_codec: wire_codec w_length_prefixed r_length_prefixed
    prefixed_bytes "\<lambda>bs. length bs < 2 ^ 64"
  by unfold_locales (simp_all only: w_appends_length_prefixed r_parses_length_prefixed)

interpretation u64_le_codec: wire_codec w_u64_le r_u64_le "le_bytes 8" "\<lambda>_. True"
  unfolding w_u64_le_def r_u64_le_def
  by unfold_locales (simp_all add: w_appends_fixed r_parses_fixed)

section \<open>Properties\<close>

text \<open>
A length-prefixed run of bytes survives the trip through a buffer: the writer emits it
whenever it fits, the reader gives back the same bytes wherever garbage follows, and stops
exactly behind them.
\<close>

theorem length_prefixed_roundtrip:
  assumes "length bs < 2 ^ 64" and "length (prefixed_bytes bs) \<le> length buf"
  shows "\<exists>w. w_length_prefixed bs (writer_of buf) = (Inr (), w) \<and> w_out w = prefixed_bytes bs \<and>
    r_length_prefixed (reader_of (w_out w @ rest)) = (Inr bs, \<lparr>r_view = w_out w @ rest, r_pos = w_pos w\<rparr>)"
  using assms by (rule prefixed_codec.roundtrip)

theorem length_prefixed_roundtrip_witness:
  "\<exists>w. w_length_prefixed [7, 8] (writer_of [0, 0, 0, 0]) = (Inr (), w) \<and>
    r_length_prefixed (reader_of (w_out w @ [9])) = (Inr [7, 8], \<lparr>r_view = w_out w @ [9], r_pos = w_pos w\<rparr>)"
proof -
  have "length (prefixed_bytes [7, 8]) \<le> length [0, 0, 0, 0 :: u8]"
    by (simp add: prefixed_bytes_def varint_bytes.simps)
  then show ?thesis using length_prefixed_roundtrip [of "[7, 8]" "[0, 0, 0, 0]" "[9]"] by auto
qed

end
