(* ===== verification/Ycpp_StateVector.thy ===== *)
theory Ycpp_StateVector
  imports Ycpp_HashMap Ycpp_Codec
begin

text \<open>
  The state vector of ycpp_state_vector.h: the clock known per client in a hash map, and the
  array of the clients in the order they were first seen (\<open>client_order_size_\<close> is its length).
  Operations run on the vector together with the state of its allocator; \<open>decode\<close> also
  consumes a reader.

  \<open>sv_abs\<close> is the finite map from clients to clocks, \<open>sv_bytes\<close> the wire form of a list of
  pairs.
\<close>

section \<open>The code\<close>

definition kMaxClients :: nat where
  "kMaxClients = 4096"

record state_vector =
  sv_table :: "(u64, u64) hashmap"
  sv_order :: "u64 list"

definition sv_empty :: state_vector where
  "sv_empty = \<lparr>sv_table = hm_empty, sv_order = []\<rparr>"

definition sv_set :: "(u64, 'a) hm_env \<Rightarrow> u64 \<Rightarrow> u64 \<Rightarrow> (state_vector \<times> 'a, unit) op" where
  "sv_set E client clock st =
     (let (sv, a) = st in
      case hm_get E client (sv_table sv) of
        Some _ \<Rightarrow> (Inr (), sv\<lparr>sv_table := hm_assign E client clock (sv_table sv)\<rparr>, a)
      | None \<Rightarrow>
          if length (sv_order sv) \<ge> kMaxClients then (Inl kCapacityExceeded, sv, a)
          else
            let (inserted, table, a) = hm_add E client clock (sv_table sv, a) in
            if \<not> inserted then (Inl kOutOfMemory, sv\<lparr>sv_table := table\<rparr>, a)
            else (Inr (), \<lparr>sv_table = table, sv_order = sv_order sv @ [client]\<rparr>, a))"

definition sv_get :: "(u64, 'a) hm_env \<Rightarrow> u64 \<Rightarrow> state_vector \<Rightarrow> u64" where
  "sv_get E client sv = (case hm_get E client (sv_table sv) of Some clock \<Rightarrow> clock | None \<Rightarrow> 0)"

definition sv_client_count :: "state_vector \<Rightarrow> nat" where
  "sv_client_count sv = length (sv_order sv)"

text \<open>The pairs in insertion order, as \<open>for_each\<close> visits them.\<close>

definition sv_items :: "(u64, 'a) hm_env \<Rightarrow> state_vector \<Rightarrow> (u64 \<times> u64) list" where
  "sv_items E sv = map (\<lambda>client. (client, the (hm_get E client (sv_table sv)))) (sv_order sv)"

definition sv_for_each :: "(u64, 'a) hm_env \<Rightarrow> (u64 \<Rightarrow> u64 \<Rightarrow> 's \<Rightarrow> 's) \<Rightarrow> state_vector \<Rightarrow> 's \<Rightarrow> 's" where
  "sv_for_each E f sv = fold (\<lambda>(client, clock). f client clock) (sv_items E sv)"

definition sv_encode :: "(u64, 'a) hm_env \<Rightarrow> state_vector \<Rightarrow> (writer, unit) op" where
  "sv_encode E sv =
     ytry (w_varint_u64 (of_nat (length (sv_order sv)))) (\<lambda>_.
       yforeach (\<lambda>client. ytry (w_varint_u64 client) (\<lambda>_.
         w_varint_u64 (the (hm_get E client (sv_table sv))))) (sv_order sv))"

definition sv_decode :: "(u64, 'a) hm_env \<Rightarrow> (reader \<times> state_vector \<times> 'a, unit) op" where
  "sv_decode E =
     ytry (yfst r_varint_u64) (\<lambda>n.
       if unat n > kMaxClients then yfail kCapacityExceeded
       else yloop (unat n)
         (ytry (yfst r_varint_u64) (\<lambda>client. ytry (yfst r_varint_u64) (\<lambda>clock.
           ysnd (sv_set E client clock)))))"

section \<open>Invariant and abstraction\<close>

definition sv_inv :: "(u64, 'a) hm_env \<Rightarrow> state_vector \<Rightarrow> bool" where
  "sv_inv E sv \<longleftrightarrow> hm_inv E (sv_table sv) \<and> distinct (sv_order sv) \<and>
     dom (hm_abs (sv_table sv)) = set (sv_order sv) \<and> length (sv_order sv) \<le> kMaxClients"

definition sv_abs :: "state_vector \<Rightarrow> u64 \<Rightarrow> u64 option" where
  "sv_abs sv = hm_abs (sv_table sv)"

lemma sv_inv_tracks: "sv_inv E sv \<longleftrightarrow> tracks (hm_inv E) hm_abs (sv_order sv) (sv_table sv) \<and> length (sv_order sv) \<le> kMaxClients"
  by (auto simp: sv_inv_def tracks_def)

lemma sv_inv_empty: "sv_inv E sv_empty" "sv_abs sv_empty = Map.empty"
  by (simp_all add: sv_inv_def sv_abs_def sv_empty_def hm_core_empty)

text \<open>With memory for \<open>n\<close> more clients no \<open>set\<close> fails.\<close>

definition sv_room :: "(u64, 'a) hm_env \<Rightarrow> nat \<Rightarrow> state_vector \<Rightarrow> bool" where
  "sv_room E n sv \<longleftrightarrow> hm_room E n (sv_table sv) \<and> length (sv_order sv) + n \<le> kMaxClients"

lemma sv_room_empty: "alloc_total (he_alloc E) \<Longrightarrow> n \<le> kMaxClients \<Longrightarrow> sv_room E n sv_empty"
  by (simp add: sv_room_def hm_room_def sv_empty_def hm_empty_def kMaxClients_def kMaxCap_def)

lemma hm_room_less: "hm_room E n m \<Longrightarrow> k \<le> n \<Longrightarrow> hm_room E k m"
  by (simp add: hm_room_def)

lemma sv_set_spec:
  assumes inv: "sv_inv E sv" and run: "sv_set E client clock (sv, a) = (r, sv', a')"
  shows "sv_inv E sv'"
    and "sv_abs sv' = (if r = Inr () then (sv_abs sv)(client \<mapsto> clock) else sv_abs sv)"
    and "sv_order sv' = (if r = Inr () \<and> sv_abs sv client = None then sv_order sv @ [client] else sv_order sv)"
    and "r \<in> {Inr (), Inl kCapacityExceeded, Inl kOutOfMemory}"
    and "sv_abs sv client \<noteq> None \<Longrightarrow> r = Inr ()"
    and "sv_room E (Suc n) sv \<Longrightarrow> r = Inr () \<and> sv_room E n sv'"
proof -
  have tr: "tracks (hm_inv E) hm_abs (sv_order sv) (sv_table sv)" using inv by (simp add: sv_inv_tracks)
  have hm: "hm_inv E (sv_table sv)" using inv by (simp add: sv_inv_def)
  let ?all = "sv_inv E sv' \<and> sv_abs sv' = (if r = Inr () then (sv_abs sv)(client \<mapsto> clock) else sv_abs sv) \<and>
    sv_order sv' = (if r = Inr () \<and> sv_abs sv client = None then sv_order sv @ [client] else sv_order sv) \<and>
    r \<in> {Inr (), Inl kCapacityExceeded, Inl kOutOfMemory} \<and> (sv_abs sv client \<noteq> None \<longrightarrow> r = Inr ()) \<and>
    (sv_room E (Suc n) sv \<longrightarrow> r = Inr () \<and> sv_room E n sv')"
  have ?all
  proof (cases "hm_get E client (sv_table sv)")
    case (Some v)
    then have known: "sv_abs sv client = Some v" "client \<in> set (sv_order sv)"
      using hm.tracks_get [OF tr, of client] tr by (auto simp: sv_abs_def tracks_def)
    have "r = Inr ()" "sv' = sv\<lparr>sv_table := hm_assign E client clock (sv_table sv)\<rparr>"
      using run Some by (auto simp: sv_set_def)
    then show ?thesis
      using known inv hm.tracks_assign [OF tr known(2), of clock] hm_assign_spec(1,2) [OF hm]
        hm_assign_spec(3) [OF hm hm_room_less, of "Suc n" n]
      by (auto simp: sv_abs_def sv_inv_tracks sv_room_def)
  next
    case None
    then have new: "sv_abs sv client = None" using hm.tracks_get [OF tr, of client] by (simp add: sv_abs_def)
    obtain ok t a1 where add: "hm_add E client clock (sv_table sv, a) = (ok, t, a1)"
      by (metis prod.collapse)
    note tadd = hm.tracks_add [OF tr None add] and abs = hm_add_spec(2) [OF hm add]
    show ?thesis
    proof (cases "length (sv_order sv) \<ge> kMaxClients")
      case True
      then have "r = Inl kCapacityExceeded" "sv' = sv" using run None by (auto simp: sv_set_def)
      then show ?thesis using True inv new by (simp add: sv_room_def)
    next
      case False
      then have "r = (if ok then Inr () else Inl kOutOfMemory)"
        "sv' = (if ok then \<lparr>sv_table = t, sv_order = sv_order sv @ [client]\<rparr> else sv\<lparr>sv_table := t\<rparr>)"
        using run None add by (auto simp: sv_set_def Let_def split: if_splits)
      then show ?thesis
        using tadd tadd(3) [of n] abs new False inv by (auto simp: sv_abs_def sv_inv_tracks sv_room_def)
    qed
  qed
  then show "sv_inv E sv'"
    "sv_abs sv' = (if r = Inr () then (sv_abs sv)(client \<mapsto> clock) else sv_abs sv)"
    "sv_order sv' = (if r = Inr () \<and> sv_abs sv client = None then sv_order sv @ [client] else sv_order sv)"
    "r \<in> {Inr (), Inl kCapacityExceeded, Inl kOutOfMemory}" "sv_abs sv client \<noteq> None \<Longrightarrow> r = Inr ()"
    "sv_room E (Suc n) sv \<Longrightarrow> r = Inr () \<and> sv_room E n sv'"
    by auto
qed

lemma sv_get_abs: "sv_inv E sv \<Longrightarrow> sv_get E client sv = (case sv_abs sv client of Some v \<Rightarrow> v | None \<Rightarrow> 0)"
  by (simp add: sv_get_def sv_abs_def hm_get_abs hm_inv_core sv_inv_def)

lemma sv_items_abs:
  assumes "sv_inv E sv"
  shows "map_of (sv_items E sv) = sv_abs sv" and "map fst (sv_items E sv) = sv_order sv"
proof -
  show fst: "map fst (sv_items E sv) = sv_order sv" by (simp add: sv_items_def comp_def)
  show "map_of (sv_items E sv) = sv_abs sv"
  proof
    fix k
    show "map_of (sv_items E sv) k = sv_abs sv k"
    proof (cases "k \<in> set (sv_order sv)")
      case True
      then have "(k, the (hm_get E k (sv_table sv))) \<in> set (sv_items E sv)" by (auto simp: sv_items_def)
      moreover have "distinct (map fst (sv_items E sv))" using assms fst by (simp add: sv_inv_def)
      moreover obtain v where "hm_get E k (sv_table sv) = Some v"
        using hm.tracks_get_in [of E "sv_order sv" "sv_table sv" k] True assms by (auto simp: sv_inv_tracks)
      ultimately show ?thesis
        using assms by (simp add: sv_abs_def hm_get_abs hm_inv_core sv_inv_def)
    next
      case False
      then have "map_of (sv_items E sv) k = None" by (simp add: map_of_eq_None_iff flip: fst set_map)
      moreover have "sv_abs sv k = None" using False assms by (auto simp: sv_inv_def sv_abs_def)
      ultimately show ?thesis by simp
    qed
  qed
qed

section \<open>The wire format\<close>

definition pair_bytes :: "u64 \<times> u64 \<Rightarrow> bytes" where
  "pair_bytes p = varint_bytes (fst p) @ varint_bytes (snd p)"

definition sv_bytes :: "(u64 \<times> u64) list \<Rightarrow> bytes" where
  "sv_bytes ps = varint_bytes (of_nat (length ps)) @ concat (map pair_bytes ps)"

lemma sv_encode_appends: "w_appends (sv_encode E sv) (sv_bytes (sv_items E sv))"
proof -
  have "sv_bytes (sv_items E sv) = varint_bytes (of_nat (length (sv_order sv))) @
      concat (map (\<lambda>c. varint_bytes c @ varint_bytes (the (hm_get E c (sv_table sv)))) (sv_order sv))"
    by (simp add: sv_bytes_def sv_items_def pair_bytes_def comp_def)
  then show ?thesis
    unfolding sv_encode_def
    by (auto intro!: w_appends_try w_appends_foreach w_appends_intros)
qed

lemma sv_decode_feeds:
  assumes "length ps \<le> kMaxClients"
  shows "r_feeds (sv_decode E) (sv_bytes ps) (yforeach (\<lambda>(client, clock). sv_set E client clock) ps)"
proof -
  have "r_feeds (yloop (length ps) (ytry (yfst r_varint_u64) (\<lambda>client. ytry (yfst r_varint_u64) (\<lambda>clock.
      ysnd (sv_set E client clock))))) (concat (map pair_bytes ps))
      (yforeach (\<lambda>(client, clock). sv_set E client clock) ps)"
    by (rule r_feeds_loop)
      (auto simp: pair_bytes_def split: prod.split intro!: r_feeds_parse [OF r_parses_varint_u64]
        r_feeds_parse_end [OF r_parses_varint_u64] r_feeds_snd)
  moreover have "unat (of_nat (length ps) :: u64) = length ps"
    using assms by (simp add: unat_of_nat_small kMaxClients_def)
  ultimately show ?thesis
    using assms unfolding sv_decode_def sv_bytes_def
    by (intro r_feeds_parse [OF r_parses_varint_u64]) simp
qed

text \<open>Setting a list of pairs one after the other: a later pair of the same client wins.\<close>

lemma sv_set_all_conj:
  assumes "sv_inv E sv" and "yforeach (\<lambda>(client, clock). sv_set E client clock) ps (sv, a) = (r, sv', a')"
  shows "sv_inv E sv' \<and> (r = Inr () \<longrightarrow> sv_abs sv' = sv_abs sv ++ map_of (rev ps)) \<and>
    (r = Inr () \<longrightarrow> distinct (map fst ps) \<longrightarrow> (\<forall>c \<in> fst ` set ps. sv_abs sv c = None) \<longrightarrow>
      sv_order sv' = sv_order sv @ map fst ps) \<and>
    (sv_room E (length ps) sv \<longrightarrow> r = Inr ())"
  using assms
proof (induction ps arbitrary: sv a)
  case Nil
  then show ?case by (simp add: op_simps)
next
  case (Cons p ps)
  obtain c k where p: "p = (c, k)" by fastforce
  obtain r1 sv1 a1 where set: "sv_set E c k (sv, a) = (r1, sv1, a1)" by (metis prod.collapse)
  note spec = sv_set_spec [OF Cons.prems(1) set]
  show ?case
  proof (cases "r1 = Inr ()")
    case True
    then have "yforeach (\<lambda>(client, clock). sv_set E client clock) ps (sv1, a1) = (r, sv', a')"
      using Cons.prems(2) set p by (simp add: op_simps)
    note IH = Cons.IH [OF spec(1) this]
    have abs: "sv_abs sv1 = (sv_abs sv)(c \<mapsto> k)" and
      order: "sv_order sv1 = (if sv_abs sv c = None then sv_order sv @ [c] else sv_order sv)"
      using spec(2,3) True by simp_all
    have "sv_abs sv1 ++ map_of (rev ps) = sv_abs sv ++ map_of (rev (p # ps))"
      by (simp add: abs p map_add_assoc [symmetric])
    then have "r = Inr () \<longrightarrow> sv_abs sv' = sv_abs sv ++ map_of (rev (p # ps))"
      using IH by simp
    moreover have "sv_order sv' = sv_order sv @ map fst (p # ps)"
      if "r = Inr ()" "distinct (map fst (p # ps))" "\<forall>c \<in> fst ` set (p # ps). sv_abs sv c = None"
    proof -
      have "\<forall>c \<in> fst ` set ps. sv_abs sv1 c = None" using that(2,3) p by (auto simp: abs)
      then show ?thesis using IH that order p by simp
    qed
    ultimately show ?thesis using IH spec(6) [of "length ps"] by simp
  next
    case False
    then obtain e where "r1 = Inl e" by (cases r1) auto
    then have "r = r1" "sv' = sv1" using Cons.prems(2) set p by (simp_all add: op_simps)
    then show ?thesis using False spec(1) spec(6) [of "length ps"] by auto
  qed
qed

lemma sv_set_all:
  assumes "sv_inv E sv" and "yforeach (\<lambda>(client, clock). sv_set E client clock) ps (sv, a) = (r, sv', a')"
  shows "sv_inv E sv'" and "r = Inr () \<Longrightarrow> sv_abs sv' = sv_abs sv ++ map_of (rev ps)"
    and "r = Inr () \<Longrightarrow> distinct (map fst ps) \<Longrightarrow> \<forall>c \<in> fst ` set ps. sv_abs sv c = None \<Longrightarrow>
      sv_order sv' = sv_order sv @ map fst ps"
    and "sv_room E (length ps) sv \<Longrightarrow> r = Inr ()"
  using sv_set_all_conj [OF assms] by blast+

text \<open>Whatever the input, decoding keeps the invariant and stays inside the view.\<close>

lemma sv_decode_keeps: "ykeeps (\<lambda>st. r_wf (fst st) \<and> sv_inv E (fst (snd st))) (sv_decode E)"
proof -
  have "ykeeps (\<lambda>st. sv_inv E (fst st)) (sv_set E c k)" for c k
    unfolding ykeeps_def by (metis sv_set_spec(1) prod.collapse)
  then show ?thesis
    unfolding sv_decode_def by (intro ykeeps_intros ykeeps_reader ykeeps_snd r_safe_intros)
qed

text \<open>A full state vector is short: at most twenty bytes per client and ten for the count.\<close>

lemma length_sv_bytes: "length (sv_bytes ps) \<le> 20 * length ps + 10"
proof -
  have "length (concat (map pair_bytes ps)) \<le> 20 * length ps"
  proof (induction ps)
    case (Cons p ps)
    then show ?case using length_varint_bytes [of "fst p"] length_varint_bytes [of "snd p"]
      by (simp add: pair_bytes_def)
  qed simp
  then show ?thesis using length_varint_bytes [of "of_nat (length ps)"] by (simp add: sv_bytes_def)
qed

section \<open>Properties\<close>

text \<open>
\<open>set\<close> updates the one client, keeps the order of first sight and the bound of 4096
clients, and fails without effect only when the bound is reached or memory is exhausted;
\<open>get\<close> reads the map with 0 for a client never seen.
\<close>

theorem sv_set_get:
  assumes "sv_inv E sv" and "sv_set E client clock (sv, a) = (r, sv', a')"
  shows "sv_inv E sv' \<and>
    sv_get E c sv' = (if r = Inr () \<and> c = client then clock else sv_get E c sv) \<and>
    sv_order sv' = (if r = Inr () \<and> client \<notin> set (sv_order sv) then sv_order sv @ [client] else sv_order sv) \<and>
    (r = Inr () \<or> r = Inl kCapacityExceeded \<or> r = Inl kOutOfMemory) \<and>
    (client \<in> set (sv_order sv) \<longrightarrow> r = Inr ())"
proof -
  note spec = sv_set_spec [OF assms]
  have "client \<in> set (sv_order sv) \<longleftrightarrow> sv_abs sv client \<noteq> None"
    using assms(1) by (auto simp: sv_inv_def sv_abs_def)
  then show ?thesis
    using spec(1-5) sv_get_abs [OF assms(1), of c] sv_get_abs [OF spec(1), of c] by (auto split: if_splits)
qed

theorem sv_set_get_witness:
  "\<exists>r sv' a'. sv_set bump_env 7 40 (sv_empty, 0) = (r, sv', a') \<and> sv_get bump_env 7 sv' = 40"
proof -
  obtain r sv' a' where run: "sv_set bump_env 7 40 (sv_empty, 0) = (r, sv', a')" by (metis prod.collapse)
  have "r = Inr ()"
    using sv_set_spec(6) [OF sv_inv_empty(1) run, of 0] sv_room_empty [OF bump_env_total, of 1]
    by (simp add: kMaxClients_def)
  then show ?thesis using sv_set_get [OF sv_inv_empty(1) run, of 7] run by auto
qed

text \<open>
C26: Decoding the encoding of a state vector into an empty one restores it, clients in the same
order, for any bytes behind the encoding; it consumes exactly the encoding and can only
fail for want of memory.
\<close>

theorem sv_roundtrip:
  assumes "sv_inv E sv" and "length (sv_bytes (sv_items E sv)) \<le> length buf"
    and "alloc_total (he_alloc E')"
  shows "\<exists>w sv' a'. sv_encode E sv (writer_of buf) = (Inr (), w) \<and>
    sv_decode E' (reader_of (w_out w @ rest), sv_empty, a) =
      (Inr (), \<lparr>r_view = w_out w @ rest, r_pos = w_pos w\<rparr>, sv', a') \<and>
    sv_inv E' sv' \<and> sv_order sv' = sv_order sv \<and> sv_abs sv' = sv_abs sv"
proof -
  let ?ps = "sv_items E sv"
  have len: "length ?ps \<le> kMaxClients" using assms(1) by (simp add: sv_items_def sv_inv_def)
  have fst: "map fst ?ps = sv_order sv" by (rule sv_items_abs [OF assms(1)])
  then have dist: "distinct (map fst ?ps)" using assms(1) by (simp add: sv_inv_def)
  obtain w where w: "sv_encode E sv (writer_of buf) = (Inr (), w)" "w_out w = sv_bytes ?ps"
      "w_pos w = length (sv_bytes ?ps)"
    by (rule w_appends_fits [OF sv_encode_appends w_wf_writer_of, of E sv buf]) (use assms(2) in auto)
  obtain r sv' a' where run: "yforeach (\<lambda>(client, clock). sv_set E' client clock) ?ps (sv_empty, a) = (r, sv', a')"
    by (metis prod.collapse)
  note all = sv_set_all [OF sv_inv_empty(1) run]
  have r: "r = Inr ()" using all(4) sv_room_empty [OF assms(3) len] by blast
  have "sv_abs sv' = sv_abs sv"
  proof -
    have "map_of (rev ?ps) = map_of ?ps"
      using dist by (subst map_of_inject_set) (simp_all add: rev_map [symmetric])
    then show ?thesis using all(2) r sv_items_abs(1) [OF assms(1)] by (simp add: sv_inv_empty(2))
  qed
  moreover have "sv_order sv' = sv_order sv"
    using all(3) r dist fst sv_inv_empty(2) by (simp add: sv_empty_def)
  ultimately show ?thesis
    using w r_feeds_whole [OF sv_decode_feeds [OF len] run [unfolded r], of rest] all(1) by auto
qed

theorem sv_roundtrip_witness:
  "\<exists>w sv' a'. sv_encode bump_env sv_empty (writer_of [9, 9]) = (Inr (), w) \<and>
    sv_decode bump_env (reader_of (w_out w @ [1]), sv_empty, 0) =
      (Inr (), \<lparr>r_view = w_out w @ [1], r_pos = w_pos w\<rparr>, sv', a') \<and> sv_order sv' = []"
proof -
  have "length (sv_bytes (sv_items bump_env sv_empty)) \<le> length [9, 9 :: u8]"
    by (simp add: sv_items_def sv_bytes_def sv_empty_def varint_bytes.simps)
  then show ?thesis
    using sv_roundtrip [OF sv_inv_empty(1) _ bump_env_total, of bump_env "[9, 9]" "[1]" 0]
    by (auto simp: sv_empty_def)
qed

end
