(* ===== verification/Ycpp_Id.thy ===== *)
theory Ycpp_Id
  imports Ycpp_Prelude
begin

unbundle bit_operations_syntax

text \<open>
  Lamport identifiers (ycpp_id.h): the pair of a client and a clock, the sentinel
  \<open>kInvalidId\<close>, the order \<open>operator<\<close> as an instance of \<open>linorder\<close>, the clock after a run and
  the FNV mix \<open>IdHash\<close>.
\<close>

datatype yid = Id (id_client: u64) (id_clock: u64)

text \<open>The member functions \<open>operator<\<close> (and its reflexive closure, which makes it an order).\<close>

definition id_less :: "yid \<Rightarrow> yid \<Rightarrow> bool" where
  "id_less a b \<longleftrightarrow> (if id_client a \<noteq> id_client b then id_client a < id_client b else id_clock a < id_clock b)"

instantiation yid :: linorder
begin

definition less_yid :: "yid \<Rightarrow> yid \<Rightarrow> bool" where
  "less_yid = id_less"

definition less_eq_yid :: "yid \<Rightarrow> yid \<Rightarrow> bool" where
  "less_eq_yid a b \<longleftrightarrow> a = b \<or> id_less a b"

instance
proof
  fix x y z :: yid
  show "x < y \<longleftrightarrow> x \<le> y \<and> \<not> y \<le> x"
    by (cases x; cases y) (auto simp: id_less_def less_yid_def less_eq_yid_def)
  show "x \<le> x" by (simp add: less_eq_yid_def)
  show "x \<le> y \<Longrightarrow> y \<le> z \<Longrightarrow> x \<le> z"
    by (cases x; cases y; cases z) (auto simp: id_less_def less_eq_yid_def split: if_splits)
  show "x \<le> y \<Longrightarrow> y \<le> x \<Longrightarrow> x = y"
    by (cases x; cases y) (auto simp: id_less_def less_eq_yid_def split: if_splits)
  show "x \<le> y \<or> y \<le> x"
    by (cases x; cases y) (auto simp: id_less_def less_eq_yid_def)
qed

end

definition kInvalidId :: yid where
  "kInvalidId = Id (-1) (-1)"

definition is_valid :: "yid \<Rightarrow> bool" where
  "is_valid i \<longleftrightarrow> i \<noteq> kInvalidId"

definition id_after :: "yid \<Rightarrow> u64 \<Rightarrow> yid" where
  "id_after i len = Id (id_client i) (id_clock i + len)"

definition fnv_prime :: u64 where
  "fnv_prime = 0x100000001B3"

definition id_hash :: "yid \<Rightarrow> u64" where
  "id_hash i =
     (let h = 0xcbf29ce484222325 :: u64;
          h = (h XOR id_client i) * fnv_prime;
          h = (h XOR id_clock i) * fnv_prime
      in h)"

text \<open>The prime is odd, so each step of the mix loses nothing.\<close>

lemma fnv_prime_cancel: "x * fnv_prime = y * fnv_prime \<longleftrightarrow> x = y"
proof
  assume eq: "x * fnv_prime = y * fnv_prime"
  have inv: "fnv_prime * 14886173955864302971 = 1" by (simp add: fnv_prime_def)
  have "x = x * fnv_prime * 14886173955864302971" by (simp only: mult.assoc inv mult_1_right)
  also have "\<dots> = y * fnv_prime * 14886173955864302971" by (simp only: eq)
  also have "\<dots> = y" by (simp only: mult.assoc inv mult_1_right)
  finally show "x = y" .
qed simp

lemma xor_cancel: "(h :: u64) XOR x = h XOR y \<longleftrightarrow> x = y"
proof
  assume "h XOR x = h XOR y"
  then have "h XOR (h XOR x) = h XOR (h XOR y)" by (simp only:)
  then show "x = y" by (simp add: xor.assoc [symmetric])
qed simp

lemma id_hash_eq_same_client: "id_hash (Id c k) = id_hash (Id c k') \<longleftrightarrow> k = k'"
  by (simp add: id_hash_def Let_def fnv_prime_cancel xor_cancel)

lemma id_hash_eq_same_clock: "id_hash (Id c k) = id_hash (Id c' k) \<longleftrightarrow> c = c'"
  by (simp add: id_hash_def Let_def fnv_prime_cancel xor.commute [of _ k] xor_cancel)

end
