(* ===== verification/Ycpp_Item.thy ===== *)
theory Ycpp_Item
  imports Ycpp_Id
begin

unbundle bit_operations_syntax

text \<open>
  The item of ycpp_item.h: content kinds, the info byte of the wire format, parent references,
  the flags and the record \<open>Item\<close>.  Items live in a heap from addresses to records; a pointer
  is an address or \<open>None\<close> for \<open>nullptr\<close>.
\<close>

section \<open>Content kinds\<close>

text \<open>
  \<open>ContentKind\<close> has the underlying type \<open>uint8_t\<close>; \<open>kRaw\<close> holds the values that a
  \<open>static_cast\<close> can produce without an enumerator.
\<close>

datatype content_kind =
    kGc
  | kDeleted
  | kJson
  | kBinary
  | kString
  | kEmbed
  | kFormat
  | kType
  | kAny
  | kDoc
  | kSkip
  | kMove
  | kRaw u8

fun kind_byte :: "content_kind \<Rightarrow> u8" where
  "kind_byte kGc = 0"
| "kind_byte kDeleted = 1"
| "kind_byte kJson = 2"
| "kind_byte kBinary = 3"
| "kind_byte kString = 4"
| "kind_byte kEmbed = 5"
| "kind_byte kFormat = 6"
| "kind_byte kType = 7"
| "kind_byte kAny = 8"
| "kind_byte kDoc = 9"
| "kind_byte kSkip = 10"
| "kind_byte kMove = 11"
| "kind_byte (kRaw b) = b"

definition kind_of_byte :: "u8 \<Rightarrow> content_kind" where
  "kind_of_byte b =
     (if b = 0 then kGc else if b = 1 then kDeleted else if b = 2 then kJson
      else if b = 3 then kBinary else if b = 4 then kString else if b = 5 then kEmbed
      else if b = 6 then kFormat else if b = 7 then kType else if b = 8 then kAny
      else if b = 9 then kDoc else if b = 10 then kSkip else if b = 11 then kMove else kRaw b)"

definition content_kind_is_known :: "u8 \<Rightarrow> bool" where
  "content_kind_is_known raw \<longleftrightarrow> raw \<le> kind_byte kMove"

fun content_kind_name :: "content_kind \<Rightarrow> string" where
  "content_kind_name kGc = ''gc''"
| "content_kind_name kDeleted = ''deleted''"
| "content_kind_name kJson = ''json''"
| "content_kind_name kBinary = ''binary''"
| "content_kind_name kString = ''string''"
| "content_kind_name kEmbed = ''embed''"
| "content_kind_name kFormat = ''format''"
| "content_kind_name kType = ''type''"
| "content_kind_name kAny = ''any''"
| "content_kind_name kDoc = ''doc''"
| "content_kind_name kSkip = ''skip''"
| "content_kind_name kMove = ''move''"
| "content_kind_name (kRaw b) = ''unknown''"

text \<open>A value of the enum proper, as the decoder and the document produce them.\<close>

definition kind_named :: "content_kind \<Rightarrow> bool" where
  "kind_named k \<longleftrightarrow> (\<forall>b. k \<noteq> kRaw b)"

lemma kind_of_byte_byte: "kind_named k \<Longrightarrow> kind_of_byte (kind_byte k) = k"
  by (cases k) (simp_all add: kind_of_byte_def kind_named_def)

lemma kind_byte_of_byte [simp]: "kind_byte (kind_of_byte b) = b"
  by (simp add: kind_of_byte_def)

lemma kind_named_of_byte:
  assumes "content_kind_is_known b"
  shows "kind_named (kind_of_byte b)"
proof -
  define n where "n = unat b"
  then have b: "b = of_nat n" by simp
  have "n < 12" using assms by (simp add: n_def content_kind_is_known_def word_le_nat_alt)
  then have "n \<in> {0, 1, 2, 3, 4, 5, 6, 7, 8, 9, 10, 11}" by simp presburger
  then show ?thesis unfolding b by (auto simp: kind_of_byte_def kind_named_def)
qed

section \<open>The info byte\<close>

definition kInfoMaskContentKind :: u8 where
  "kInfoMaskContentKind = 0x1F"

definition kInfoFlagHasParentSub :: u8 where
  "kInfoFlagHasParentSub = push_bit 5 1"

definition kInfoFlagHasRightOrigin :: u8 where
  "kInfoFlagHasRightOrigin = push_bit 6 1"

definition kInfoFlagHasLeftOrigin :: u8 where
  "kInfoFlagHasLeftOrigin = push_bit 7 1"

definition info_content_kind :: "u8 \<Rightarrow> content_kind" where
  "info_content_kind info = kind_of_byte (info AND kInfoMaskContentKind)"

definition info_has_left_origin :: "u8 \<Rightarrow> bool" where
  "info_has_left_origin info \<longleftrightarrow> info AND kInfoFlagHasLeftOrigin \<noteq> 0"

definition info_has_right_origin :: "u8 \<Rightarrow> bool" where
  "info_has_right_origin info \<longleftrightarrow> info AND kInfoFlagHasRightOrigin \<noteq> 0"

definition info_has_parent_sub :: "u8 \<Rightarrow> bool" where
  "info_has_parent_sub info \<longleftrightarrow> info AND kInfoFlagHasParentSub \<noteq> 0"

definition info_has_parent_info :: "u8 \<Rightarrow> bool" where
  "info_has_parent_info info \<longleftrightarrow> \<not> info_has_left_origin info \<and> \<not> info_has_right_origin info \<and>
     info_content_kind info \<noteq> kGc \<and> info_content_kind info \<noteq> kSkip"

text \<open>The five fields of an info byte do not interfere.\<close>

definition info_byte :: "content_kind \<Rightarrow> bool \<Rightarrow> bool \<Rightarrow> bool \<Rightarrow> u8" where
  "info_byte k left right sub =
     (let b = kind_byte k AND kInfoMaskContentKind;
          b = (if left then b OR kInfoFlagHasLeftOrigin else b);
          b = (if right then b OR kInfoFlagHasRightOrigin else b)
      in if sub then b OR kInfoFlagHasParentSub else b)"

lemmas info_defs = kInfoMaskContentKind_def kInfoFlagHasParentSub_def kInfoFlagHasRightOrigin_def
  kInfoFlagHasLeftOrigin_def

lemma info_byte_fields:
  assumes "kind_named k"
  shows "info_content_kind (info_byte k left right sub) = k"
    and "info_has_left_origin (info_byte k left right sub) = left"
    and "info_has_right_origin (info_byte k left right sub) = right"
    and "info_has_parent_sub (info_byte k left right sub) = sub"
  using assms
  by (cases k; cases left; cases right; cases sub;
      simp add: info_byte_def info_defs info_content_kind_def info_has_left_origin_def
        info_has_right_origin_def info_has_parent_sub_def kind_of_byte_def kind_named_def)+

section \<open>Items\<close>

datatype parent_ref = kNone | kRootName | kId

type_synonym addr = u64

record item =
  it_id :: yid
  it_origin_left :: yid
  it_origin_right :: yid
  it_parent_ref :: parent_ref
  it_parent_id :: yid
  it_parent_name :: bytes
  it_parent_sub :: bytes
  it_content_kind :: content_kind
  it_length :: u64
  it_content_view :: bytes
  it_flags :: u16
  it_left :: "addr option"
  it_right :: "addr option"

text \<open>The default constructor.\<close>

definition item_default :: item where
  "item_default = \<lparr>it_id = Id 0 0, it_origin_left = kInvalidId, it_origin_right = kInvalidId,
     it_parent_ref = kNone, it_parent_id = kInvalidId, it_parent_name = [], it_parent_sub = [],
     it_content_kind = kDeleted, it_length = 0, it_content_view = [], it_flags = 0,
     it_left = None, it_right = None\<rparr>"

definition kFlagDeleted :: u16 where
  "kFlagDeleted = push_bit 0 1"

definition kFlagKeep :: u16 where
  "kFlagKeep = push_bit 1 1"

definition kFlagCountable :: u16 where
  "kFlagCountable = push_bit 2 1"

definition kFlagMarker :: u16 where
  "kFlagMarker = push_bit 3 1"

text \<open>The test \<open>(it->flags & kFlagDeleted) != 0\<close> and the update \<open>it->flags |= kFlagDeleted\<close>.\<close>

definition deleted :: "item \<Rightarrow> bool" where
  "deleted it \<longleftrightarrow> it_flags it AND kFlagDeleted \<noteq> 0"

definition set_deleted :: "item \<Rightarrow> item" where
  "set_deleted it = it\<lparr>it_flags := it_flags it OR kFlagDeleted\<rparr>"

lemma deleted_set_deleted [simp]: "deleted (set_deleted it)"
proof -
  have "bit ((it_flags it OR kFlagDeleted) AND kFlagDeleted) 0"
    by (simp add: kFlagDeleted_def bit_and_iff bit_or_iff)
  then show ?thesis unfolding deleted_def set_deleted_def by (metis bit_0_eq bot_apply item.select_convs(11)
    item.surjective item.update_convs(11) bot_bool_def)
qed

lemma set_deleted_simps [simp]:
  "it_id (set_deleted it) = it_id it" "it_length (set_deleted it) = it_length it"
  "it_left (set_deleted it) = it_left it" "it_right (set_deleted it) = it_right it"
  "it_origin_left (set_deleted it) = it_origin_left it" "it_origin_right (set_deleted it) = it_origin_right it"
  "it_content_kind (set_deleted it) = it_content_kind it" "it_content_view (set_deleted it) = it_content_view it"
  "it_parent_sub (set_deleted it) = it_parent_sub it" "it_parent_ref (set_deleted it) = it_parent_ref it"
  "it_parent_name (set_deleted it) = it_parent_name it" "it_parent_id (set_deleted it) = it_parent_id it"
  by (simp_all add: set_deleted_def)

text \<open>The memory holding the items.\<close>

type_synonym item_heap = "addr \<Rightarrow> item"

end
