(* ===== verification/Ycpp_StructStore.thy ===== *)
theory Ycpp_StructStore
  imports Ycpp_StateVector Ycpp_Item
begin

text \<open>
  The struct store of ycpp_struct_store.h: per client the vector of pointers to its items in
  clock order, behind a hash map, and the array of the clients in insertion order.  The items
  themselves live in the heap; the store's operations read them there.

  \<open>dense h c ps\<close> is the contract of a vector: items of client \<open>c\<close> whose clock ranges are
  adjacent from 0 on, so that together they cover exactly the clocks below \<open>span h ps\<close>.
\<close>

section \<open>The code\<close>

definition ss_kInitialPerClientCap :: nat where
  "ss_kInitialPerClientCap = 8"

definition kMaxPerClientItems :: nat where
  "kMaxPerClientItems = 2 ^ 24"

record item_vec =
  iv_data :: "addr list"
  iv_cap :: nat

record struct_store =
  ss_table :: "(u64, item_vec) hashmap"
  ss_order :: "u64 list"

definition ss_empty :: struct_store where
  "ss_empty = \<lparr>ss_table = hm_empty, ss_order = []\<rparr>"

definition ss_ensure_cap :: "'a allocator \<Rightarrow> nat \<Rightarrow> (item_vec \<times> 'a, unit) op" where
  "ss_ensure_cap al need st =
     (let (vec, a) = st in
      if need \<le> iv_cap vec then (Inr (), vec, a)
      else if need > kMaxPerClientItems then (Inl kCapacityExceeded, vec, a)
      else
        let new_cap = (if iv_cap vec = 0 then ss_kInitialPerClientCap else iv_cap vec * 2);
            new_cap = round_up_loop new_cap need;
            new_cap = (if new_cap > kMaxPerClientItems then kMaxPerClientItems else new_cap);
            (fresh, a) = al (of_nat (8 * new_cap)) 8 a
        in if fresh = None then (Inl kOutOfMemory, vec, a)
           else (Inr (), vec\<lparr>iv_cap := new_cap\<rparr>, a))"

definition ss_find_vec :: "(u64, 'a) hm_env \<Rightarrow> u64 \<Rightarrow> struct_store \<Rightarrow> item_vec option" where
  "ss_find_vec E client ss = hm_get E client (ss_table ss)"

definition ss_get_or_create ::
    "(u64, 'a) hm_env \<Rightarrow> u64 \<Rightarrow> struct_store \<times> 'a \<Rightarrow> item_vec option \<times> struct_store \<times> 'a" where
  "ss_get_or_create E client st =
     (let (ss, a) = st in
      case hm_get E client (ss_table ss) of
        Some vec \<Rightarrow> (Some vec, ss, a)
      | None \<Rightarrow>
          if length (ss_order ss) \<ge> kMaxClients then (None, ss, a)
          else
            let init = \<lparr>iv_data = [], iv_cap = 0\<rparr>;
                (inserted, table, a) = hm_add E client init (ss_table ss, a) in
            if \<not> inserted then (None, ss\<lparr>ss_table := table\<rparr>, a)
            else (Some init, \<lparr>ss_table = table, ss_order = ss_order ss @ [client]\<rparr>, a))"

definition ss_append_vec ::
    "'a allocator \<Rightarrow> item_heap \<Rightarrow> addr \<Rightarrow> (item_vec \<times> 'a, unit) op" where
  "ss_append_vec al h p st =
     (let data = iv_data (fst st);
          tail = h (data ! (length data - 1));
          expected_clock = (if data = [] then 0 else id_clock (id_after (it_id tail) (it_length tail)))
      in if id_clock (it_id (h p)) \<noteq> expected_clock then (Inl kPendingReference, st)
         else ytry (ss_ensure_cap al (length data + 1)) (\<lambda>_ (vec, a).
           (Inr (), vec\<lparr>iv_data := iv_data vec @ [p]\<rparr>, a)) st)"

definition ss_append ::
    "(u64, 'a) hm_env \<Rightarrow> item_heap \<Rightarrow> addr \<Rightarrow> (struct_store \<times> 'a, unit) op" where
  "ss_append E h p st =
     (let client = id_client (it_id (h p)) in
      case ss_get_or_create E client st of
        (None, st) \<Rightarrow> (Inl kOutOfMemory, st)
      | (Some vec, ss, a) \<Rightarrow>
          (case ss_append_vec (he_alloc E) h p (vec, a) of
             (r, vec, a) \<Rightarrow> (r, ss\<lparr>ss_table := hm_assign E client vec (ss_table ss)\<rparr>, a)))"

text \<open>The clock behind an item: \<open>it->id.clock + (it->length == 0 ? 1 : it->length)\<close>.\<close>

definition item_end :: "item \<Rightarrow> u64" where
  "item_end it = id_clock (it_id it) + (if it_length it = 0 then 1 else it_length it)"

definition items_find :: "item_heap \<Rightarrow> addr list \<Rightarrow> u64 \<Rightarrow> addr option" where
  "items_find h data c =
     (let lo = bsearch (\<lambda>i. id_clock (it_id (h (data ! i))) \<le> c) 0 (length data) in
      if lo = 0 then None
      else let p = data ! (lo - 1) in if c < item_end (h p) then Some p else None)"

definition ss_find_by_id :: "(u64, 'a) hm_env \<Rightarrow> item_heap \<Rightarrow> yid \<Rightarrow> struct_store \<Rightarrow> addr option" where
  "ss_find_by_id E h i ss =
     (case ss_find_vec E (id_client i) ss of
        None \<Rightarrow> None
      | Some vec \<Rightarrow> items_find h (iv_data vec) (id_clock i))"

definition ss_state :: "(u64, 'a) hm_env \<Rightarrow> item_heap \<Rightarrow> u64 \<Rightarrow> struct_store \<Rightarrow> u64" where
  "ss_state E h client ss =
     (case ss_find_vec E client ss of
        None \<Rightarrow> 0
      | Some vec \<Rightarrow>
          if iv_data vec = [] then 0 else item_end (h (iv_data vec ! (length (iv_data vec) - 1))))"

definition ss_items :: "(u64, 'a) hm_env \<Rightarrow> struct_store \<Rightarrow> (u64 \<times> addr list) list" where
  "ss_items E ss = map (\<lambda>client. (client, iv_data (the (ss_find_vec E client ss)))) (ss_order ss)"

definition ss_for_each_client ::
    "(u64, 'a) hm_env \<Rightarrow> (u64 \<Rightarrow> addr list \<Rightarrow> 's \<Rightarrow> 's) \<Rightarrow> struct_store \<Rightarrow> 's \<Rightarrow> 's" where
  "ss_for_each_client E f ss = fold (\<lambda>(client, data). f client data) (ss_items E ss)"

definition ss_client_count :: "struct_store \<Rightarrow> nat" where
  "ss_client_count ss = length (ss_order ss)"

definition ss_total_items :: "(u64, 'a) hm_env \<Rightarrow> struct_store \<Rightarrow> nat" where
  "ss_total_items E ss =
     fold (\<lambda>client total. case ss_find_vec E client ss of None \<Rightarrow> total | Some vec \<Rightarrow> total + length (iv_data vec))
       (ss_order ss) 0"

section \<open>Dense vectors\<close>

definition item_start :: "item \<Rightarrow> nat" where
  "item_start it = unat (id_clock (it_id it))"

definition item_width :: "item \<Rightarrow> nat" where
  "item_width it = unat (it_length it)"

text \<open>The clocks a list of items covers when they are laid end to end from 0.\<close>

definition span :: "item_heap \<Rightarrow> addr list \<Rightarrow> nat" where
  "span h ps = sum_list (map (\<lambda>p. item_width (h p)) ps)"

definition dense :: "item_heap \<Rightarrow> u64 \<Rightarrow> addr list \<Rightarrow> bool" where
  "dense h c ps \<longleftrightarrow> span h ps < 2 ^ 64 \<and>
     (\<forall>i < length ps. id_client (it_id (h (ps ! i))) = c \<and> 0 < it_length (h (ps ! i)) \<and>
        item_start (h (ps ! i)) = span h (take i ps))"

lemma span_simps [simp]:
  "span h [] = 0" "span h (p # ps) = item_width (h p) + span h ps" "span h (ps @ qs) = span h ps + span h qs"
  by (simp_all add: span_def)

lemma span_take_mono: "i \<le> j \<Longrightarrow> span h (take i ps) \<le> span h (take j ps)"
  by (metis le_add1 span_simps(3) take_add le_Suc_ex)

lemma span_take_Suc: "i < length ps \<Longrightarrow> span h (take (Suc i) ps) = span h (take i ps) + item_width (h (ps ! i))"
  by (simp add: take_Suc_conv_app_nth)

lemma span_take_le: "span h (take i ps) \<le> span h ps"
  by (metis append_take_drop_id le_add1 span_simps(3))

lemma denseD:
  assumes "dense h c ps" and "i < length ps"
  shows "id_client (it_id (h (ps ! i))) = c" and "0 < it_length (h (ps ! i))"
    and "item_start (h (ps ! i)) = span h (take i ps)" and "0 < item_width (h (ps ! i))"
  using assms by (auto simp: dense_def item_width_def word_less_nat_alt)

lemma dense_end:
  assumes "dense h c ps" and "i < length ps" and "span h (take (Suc i) ps) < 2 ^ 64"
  shows "unat (item_end (h (ps ! i))) = span h (take (Suc i) ps)"
  using denseD [OF assms(1,2)] assms(3) span_take_Suc [OF assms(2), of h]
  by (auto simp: item_end_def item_start_def item_width_def unat_word_ariths)

lemma dense_last:
  assumes "dense h c ps" and "ps \<noteq> []"
  shows "unat (item_end (h (ps ! (length ps - 1)))) = span h ps"
    and "item_end (h (ps ! (length ps - 1))) = id_clock (it_id (h (ps ! (length ps - 1)))) + it_length (h (ps ! (length ps - 1)))"
proof -
  have i: "length ps - 1 < length ps" using assms(2) by simp
  show "unat (item_end (h (ps ! (length ps - 1)))) = span h ps"
    using dense_end [OF assms(1) i] assms by (simp add: dense_def)
  show "item_end (h (ps ! (length ps - 1))) = id_clock (it_id (h (ps ! (length ps - 1)))) + it_length (h (ps ! (length ps - 1)))"
    using denseD(2) [OF assms(1) i] by (auto simp: item_end_def)
qed

lemma dense_Nil [simp]: "dense h c []"
  by (simp add: dense_def)

lemma dense_snoc:
  "dense h c (ps @ [p]) \<longleftrightarrow> dense h c ps \<and> id_client (it_id (h p)) = c \<and> 0 < it_length (h p) \<and>
     item_start (h p) = span h ps \<and> span h ps + item_width (h p) < 2 ^ 64"
  by (auto simp: dense_def nth_append less_Suc_eq)

lemma dense_cong:
  "(\<And>p. p \<in> set ps \<Longrightarrow> it_id (h' p) = it_id (h p) \<and> it_length (h' p) = it_length (h p)) \<Longrightarrow>
     dense h' c ps = dense h c ps \<and> span h' ps = span h ps"
proof (induction ps rule: rev_induct)
  case (snoc p ps)
  then show ?case by (simp add: dense_snoc item_start_def item_width_def)
qed simp

lemma dense_unique:
  assumes d: "dense h c ps" and ij: "i < length ps" "j < length ps"
    and i: "item_start (h (ps ! i)) \<le> k" "k < item_start (h (ps ! i)) + item_width (h (ps ! i))"
    and j: "item_start (h (ps ! j)) \<le> k" "k < item_start (h (ps ! j)) + item_width (h (ps ! j))"
  shows "i = j"
proof -
  have le: "item_start (h (ps ! m)) + item_width (h (ps ! m)) \<le> item_start (h (ps ! n))"
    if "m < n" "n < length ps" for m n
    using that denseD(3) [OF d, of m] denseD(3) [OF d, of n] span_take_Suc [of m ps h]
      span_take_mono [of "Suc m" n h ps] by simp
  show ?thesis using le [of i j] le [of j i] ij i j by (cases i j rule: linorder_cases) auto
qed

lemma dense_distinct:
  assumes d: "dense h c ps"
  shows "distinct ps"
  unfolding distinct_conv_nth
proof (intro allI impI)
  fix i j
  assume ij: "i < length ps" "j < length ps" "i \<noteq> j"
  show "ps ! i \<noteq> ps ! j"
    using dense_unique [OF d ij(1,2), of "item_start (h (ps ! i))"] denseD(4) [OF d ij(1)] ij(3) by auto
qed

text \<open>Binary search finds the one item whose clock range holds a clock.\<close>

lemma items_find_dense:
  assumes d: "dense h c ps"
  shows "unat k < span h ps \<Longrightarrow> \<exists>i < length ps. items_find h ps k = Some (ps ! i) \<and>
      span h (take i ps) \<le> unat k \<and> unat k < span h (take (Suc i) ps)"
    and "\<not> unat k < span h ps \<Longrightarrow> items_find h ps k = None"
proof -
  define P where "P = (\<lambda>i. id_clock (it_id (h (ps ! i))) \<le> k)"
  have P: "P i \<longleftrightarrow> span h (take i ps) \<le> unat k" if "i < length ps" for i
    using denseD(3) [OF d that] by (simp add: P_def item_start_def word_le_nat_alt)
  have mono: "P i" if "i \<le> j" "j < length ps" "P j" for i j
    using that span_take_mono [of i j h ps] P [of i] P [of j] by simp
  define lo where "lo = bsearch P 0 (length ps)"
  have b: "lo \<le> length ps" "\<And>i. i < lo \<Longrightarrow> P i" "\<And>i. lo \<le> i \<Longrightarrow> i < length ps \<Longrightarrow> \<not> P i"
    unfolding lo_def using bsearch_prefix [of "length ps" P] mono by blast+
  have run: "items_find h ps k = (if lo = 0 then None else
      if k < item_end (h (ps ! (lo - 1))) then Some (ps ! (lo - 1)) else None)"
    by (simp add: items_find_def lo_def P_def Let_def)
  have lt: "span h (take n ps) < 2 ^ 64" for n
    using d span_take_le [of h n ps] by (simp add: dense_def)
  have stop: "k < item_end (h (ps ! (lo - 1))) \<longleftrightarrow> unat k < span h (take lo ps)" if "0 < lo"
    using dense_end [OF d _ lt, of "lo - 1"] that b(1) by (simp add: word_less_nat_alt)
  show "\<exists>i < length ps. items_find h ps k = Some (ps ! i) \<and>
      span h (take i ps) \<le> unat k \<and> unat k < span h (take (Suc i) ps)" if k: "unat k < span h ps"
  proof -
    have "ps \<noteq> []" using k by auto
    then have "0 < lo" using b(3) [of 0] P [of 0] by (cases lo) auto
    moreover have "unat k < span h (take lo ps)"
      using b(3) [of lo] P [of lo] b(1) k by (cases "lo < length ps") auto
    ultimately show ?thesis
      using run stop b(1) b(2) [of "lo - 1"] P [of "lo - 1"] by (intro exI [of _ "lo - 1"]) auto
  qed
  show "items_find h ps k = None" if "\<not> unat k < span h ps"
    using run stop span_take_le [of h lo ps] that by auto
qed

section \<open>The store\<close>

definition ss_ptrs :: "struct_store \<Rightarrow> u64 \<Rightarrow> addr list" where
  "ss_ptrs ss c = (case hm_abs (ss_table ss) c of None \<Rightarrow> [] | Some vec \<Rightarrow> iv_data vec)"

definition ss_inv :: "(u64, 'a) hm_env \<Rightarrow> item_heap \<Rightarrow> struct_store \<Rightarrow> bool" where
  "ss_inv E h ss \<longleftrightarrow> tracks (hm_inv E) hm_abs (ss_order ss) (ss_table ss) \<and>
     length (ss_order ss) \<le> kMaxClients \<and> (\<forall>c. dense h c (ss_ptrs ss c))"

text \<open>The addresses the store holds.\<close>

definition ss_addrs :: "struct_store \<Rightarrow> addr set" where
  "ss_addrs ss = (\<Union>c. set (ss_ptrs ss c))"

lemma ss_inv_empty: "ss_inv E h ss_empty" "ss_ptrs ss_empty c = []"
  by (simp_all add: ss_inv_def ss_empty_def ss_ptrs_def tracks_def hm_core_empty)

lemma ss_find_vec_abs: "ss_inv E h ss \<Longrightarrow> ss_find_vec E c ss = hm_abs (ss_table ss) c"
  using hm.tracks_get [of E "ss_order ss" "ss_table ss" c] by (simp add: ss_find_vec_def ss_inv_def)

lemma ss_inv_cong:
  assumes "\<And>p. p \<in> ss_addrs ss \<Longrightarrow> it_id (h' p) = it_id (h p) \<and> it_length (h' p) = it_length (h p)"
  shows "ss_inv E h' ss \<longleftrightarrow> ss_inv E h ss"
proof -
  have "dense h' c (ss_ptrs ss c) = dense h c (ss_ptrs ss c)" for c
    using dense_cong [of "ss_ptrs ss c" h' h c] assms by (auto simp: ss_addrs_def)
  then show ?thesis by (simp add: ss_inv_def)
qed

lemma ss_ensure_cap_spec:
  assumes "ss_ensure_cap al need (vec, a) = (r, vec', a')"
  shows "iv_data vec' = iv_data vec" and "r \<in> {Inr (), Inl kCapacityExceeded, Inl kOutOfMemory}"
    and "alloc_total al \<Longrightarrow> need \<le> kMaxPerClientItems \<Longrightarrow> r = Inr ()"
  using assms by (auto simp: ss_ensure_cap_def Let_def dest: alloc_totalD split: if_splits prod.splits)

lemma ss_append_vec_spec:
  assumes d: "dense h c (iv_data vec)" and c: "id_client (it_id (h p)) = c"
    and pos: "0 < it_length (h p)" and fits: "item_start (h p) + item_width (h p) < 2 ^ 64"
    and run: "ss_append_vec al h p (vec, a) = (r, vec', a')"
  shows "dense h c (iv_data vec')"
    and "iv_data vec' = (if r = Inr () then iv_data vec @ [p] else iv_data vec)"
    and "r = Inl kPendingReference \<longleftrightarrow> item_start (h p) \<noteq> span h (iv_data vec)"
    and "r \<in> {Inr (), Inl kPendingReference, Inl kCapacityExceeded, Inl kOutOfMemory}"
    and "alloc_total al \<Longrightarrow> length (iv_data vec) < kMaxPerClientItems \<Longrightarrow>
      item_start (h p) = span h (iv_data vec) \<Longrightarrow> r = Inr ()"
proof -
  let ?ps = "iv_data vec"
  define expected where "expected = (if ?ps = [] then 0 else
      id_clock (id_after (it_id (h (?ps ! (length ?ps - 1)))) (it_length (h (?ps ! (length ?ps - 1))))))"
  have "unat expected = span h ?ps"
    using dense_last [OF d] by (simp add: expected_def id_after_def)
  then have eq: "id_clock (it_id (h p)) \<noteq> expected \<longleftrightarrow> item_start (h p) \<noteq> span h ?ps"
    by (metis item_start_def word_unat_eq_iff)
  obtain r1 v1 a1 where cap: "ss_ensure_cap al (length ?ps + 1) (vec, a) = (r1, v1, a1)" by (metis prod.collapse)
  note ec = ss_ensure_cap_spec [OF cap]
  have r: "(r, vec', a') = (if item_start (h p) \<noteq> span h ?ps then (Inl kPendingReference, vec, a)
      else if r1 = Inr () then (Inr (), v1\<lparr>iv_data := iv_data v1 @ [p]\<rparr>, a1) else (r1, v1, a1))"
    using run eq cap by (auto simp: ss_append_vec_def Let_def expected_def op_simps split: if_splits sum.splits)
  show "iv_data vec' = (if r = Inr () then ?ps @ [p] else ?ps)"
    and "r = Inl kPendingReference \<longleftrightarrow> item_start (h p) \<noteq> span h ?ps"
    and "r \<in> {Inr (), Inl kPendingReference, Inl kCapacityExceeded, Inl kOutOfMemory}"
    and "alloc_total al \<Longrightarrow> length ?ps < kMaxPerClientItems \<Longrightarrow> item_start (h p) = span h ?ps \<Longrightarrow> r = Inr ()"
    using r ec by (auto split: if_splits)
  show "dense h c (iv_data vec')"
    using r ec d c pos fits by (auto simp: dense_snoc split: if_splits)
qed

lemma ss_get_or_create_spec:
  assumes inv: "ss_inv E h ss" and run: "ss_get_or_create E c (ss, a) = (v, ss', a')"
  shows "ss_inv E h ss'" and "ss_ptrs ss' = ss_ptrs ss"
    and "v = Some vec \<Longrightarrow> hm_abs (ss_table ss') c = Some vec \<and> iv_data vec = ss_ptrs ss c"
    and "hm_room E 1 (ss_table ss) \<Longrightarrow> length (ss_order ss) < kMaxClients \<Longrightarrow> v \<noteq> None"
proof -
  have tr: "tracks (hm_inv E) hm_abs (ss_order ss) (ss_table ss)" using inv by (simp add: ss_inv_def)
  have hm: "hm_inv E (ss_table ss)" using tr by (simp add: tracks_def)
  have "ss_inv E h ss' \<and> ss_ptrs ss' = ss_ptrs ss \<and>
    (\<forall>vec. v = Some vec \<longrightarrow> hm_abs (ss_table ss') c = Some vec \<and> iv_data vec = ss_ptrs ss c) \<and>
    (hm_room E 1 (ss_table ss) \<longrightarrow> length (ss_order ss) < kMaxClients \<longrightarrow> v \<noteq> None)"
  proof (cases "hm_get E c (ss_table ss)")
    case (Some vec)
    then have "v = Some vec" "ss' = ss" using run by (auto simp: ss_get_or_create_def)
    then show ?thesis using Some inv hm.tracks_get [OF tr, of c] by (simp add: ss_ptrs_def)
  next
    case None
    then have new: "hm_abs (ss_table ss) c = None" using hm.tracks_get [OF tr, of c] by simp
    define init where "init = \<lparr>iv_data = [], iv_cap = 0\<rparr>"
    obtain ok t a1 where add: "hm_add E c init (ss_table ss, a) = (ok, t, a1)" by (metis prod.collapse)
    note tadd = hm.tracks_add [OF tr None add] and abs = hm_add_spec(2) [OF hm add]
    show ?thesis
    proof (cases "length (ss_order ss) \<ge> kMaxClients")
      case True
      then have "v = None" "ss' = ss" using run None by (auto simp: ss_get_or_create_def)
      then show ?thesis using inv True by auto
    next
      case False
      then have v: "v = (if ok then Some init else None)"
        "ss' = (if ok then \<lparr>ss_table = t, ss_order = ss_order ss @ [c]\<rparr> else ss\<lparr>ss_table := t\<rparr>)"
        using run None add by (auto simp: ss_get_or_create_def Let_def init_def split: if_splits)
      have ptrs: "ss_ptrs ss' = ss_ptrs ss"
        using abs new by (auto simp: ss_ptrs_def v init_def fun_eq_iff)
      moreover have "ss_inv E h ss'"
        using inv tadd False ptrs by (auto simp: ss_inv_def v)
      ultimately show ?thesis using v abs new tadd(3) [of 0] by (auto simp: init_def ss_ptrs_def)
    qed
  qed
  then show "ss_inv E h ss'" "ss_ptrs ss' = ss_ptrs ss"
    "v = Some vec \<Longrightarrow> hm_abs (ss_table ss') c = Some vec \<and> iv_data vec = ss_ptrs ss c"
    "hm_room E 1 (ss_table ss) \<Longrightarrow> length (ss_order ss) < kMaxClients \<Longrightarrow> v \<noteq> None"
    by auto
qed

lemma ss_append_spec:
  assumes inv: "ss_inv E h ss" and run: "ss_append E h p (ss, a) = (r, ss', a')"
    and pos: "0 < it_length (h p)" and fits: "item_start (h p) + item_width (h p) < 2 ^ 64"
  shows "ss_inv E h ss'"
    and "ss_ptrs ss' = (if r = Inr () then (ss_ptrs ss)(id_client (it_id (h p)) :=
      ss_ptrs ss (id_client (it_id (h p))) @ [p]) else ss_ptrs ss)"
    and "r = Inr () \<or> r = Inl kPendingReference \<or> r = Inl kCapacityExceeded \<or> r = Inl kOutOfMemory"
    and "r = Inr () \<Longrightarrow> item_start (h p) = span h (ss_ptrs ss (id_client (it_id (h p))))"
    and "r = Inl kPendingReference \<Longrightarrow> item_start (h p) \<noteq> span h (ss_ptrs ss (id_client (it_id (h p))))"
    and "hm_room E 1 (ss_table ss) \<Longrightarrow> length (ss_order ss) < kMaxClients \<Longrightarrow>
      length (ss_ptrs ss (id_client (it_id (h p)))) < kMaxPerClientItems \<Longrightarrow>
      item_start (h p) = span h (ss_ptrs ss (id_client (it_id (h p)))) \<Longrightarrow> r = Inr ()"
proof -
  define c where "c = id_client (it_id (h p))"
  obtain v ss1 a1 where goc: "ss_get_or_create E c (ss, a) = (v, ss1, a1)" by (metis prod.collapse)
  note g = ss_get_or_create_spec [OF inv goc]
  have "ss_inv E h ss' \<and> ss_ptrs ss' = (if r = Inr () then (ss_ptrs ss)(c := ss_ptrs ss c @ [p]) else ss_ptrs ss) \<and>
    (r = Inr () \<or> r = Inl kPendingReference \<or> r = Inl kCapacityExceeded \<or> r = Inl kOutOfMemory) \<and>
    (r = Inr () \<longrightarrow> item_start (h p) = span h (ss_ptrs ss c)) \<and>
    (r = Inl kPendingReference \<longrightarrow> item_start (h p) \<noteq> span h (ss_ptrs ss c)) \<and>
    (hm_room E 1 (ss_table ss) \<longrightarrow> length (ss_order ss) < kMaxClients \<longrightarrow>
      length (ss_ptrs ss c) < kMaxPerClientItems \<longrightarrow> item_start (h p) = span h (ss_ptrs ss c) \<longrightarrow> r = Inr ())"
  proof (cases v)
    case None
    then have "r = Inl kOutOfMemory" "ss' = ss1" using run goc by (auto simp: ss_append_def c_def)
    then show ?thesis using g None by auto
  next
    case (Some vec)
    note vec = g(3) [OF Some]
    obtain r2 v2 a2 where app: "ss_append_vec (he_alloc E) h p (vec, a1) = (r2, v2, a2)" by (metis prod.collapse)
    have d: "dense h c (iv_data vec)" using inv vec by (simp add: ss_inv_def)
    note s = ss_append_vec_spec [OF d c_def [symmetric] pos fits app]
    have r: "r = r2" "ss' = ss1\<lparr>ss_table := hm_assign E c v2 (ss_table ss1)\<rparr>"
      using run goc app Some by (auto simp: ss_append_def c_def)
    have tr: "tracks (hm_inv E) hm_abs (ss_order ss1) (ss_table ss1)" using g(1) by (simp add: ss_inv_def)
    then have hm1: "hm_inv E (ss_table ss1)" and c1: "c \<in> set (ss_order ss1)"
      using vec by (auto simp: tracks_def)
    have abs: "hm_abs (ss_table ss') = (hm_abs (ss_table ss1))(c \<mapsto> v2)"
      using hm_assign_spec(2) [OF hm1, of c v2] vec r by simp
    have ptrs: "ss_ptrs ss' = (ss_ptrs ss)(c := iv_data v2)"
      using abs g(2) by (auto simp: ss_ptrs_def fun_eq_iff)
    have "ss_inv E h ss'"
      using g(1,2) hm.tracks_assign [OF tr c1, of v2] s(1) ptrs r by (simp add: ss_inv_def)
    then show ?thesis using s(2-5) vec ptrs r g(2) by (auto simp: hm_room_def)
  qed
  then show "ss_inv E h ss'"
    "ss_ptrs ss' = (if r = Inr () then (ss_ptrs ss)(id_client (it_id (h p)) :=
      ss_ptrs ss (id_client (it_id (h p))) @ [p]) else ss_ptrs ss)"
    "r = Inr () \<or> r = Inl kPendingReference \<or> r = Inl kCapacityExceeded \<or> r = Inl kOutOfMemory"
    "r = Inr () \<Longrightarrow> item_start (h p) = span h (ss_ptrs ss (id_client (it_id (h p))))"
    "r = Inl kPendingReference \<Longrightarrow> item_start (h p) \<noteq> span h (ss_ptrs ss (id_client (it_id (h p))))"
    "hm_room E 1 (ss_table ss) \<Longrightarrow> length (ss_order ss) < kMaxClients \<Longrightarrow>
      length (ss_ptrs ss (id_client (it_id (h p)))) < kMaxPerClientItems \<Longrightarrow>
      item_start (h p) = span h (ss_ptrs ss (id_client (it_id (h p)))) \<Longrightarrow> r = Inr ()"
    unfolding c_def by blast+
qed

lemma ss_state_span:
  assumes "ss_inv E h ss"
  shows "unat (ss_state E h c ss) = span h (ss_ptrs ss c)"
proof (cases "hm_abs (ss_table ss) c")
  case None
  then show ?thesis using assms by (simp add: ss_state_def ss_find_vec_abs ss_ptrs_def)
next
  case (Some vec)
  moreover have "dense h c (ss_ptrs ss c)" using assms by (simp add: ss_inv_def)
  ultimately show ?thesis
    using assms dense_last(1) [of h c "iv_data vec"] by (simp add: ss_state_def ss_find_vec_abs ss_ptrs_def)
qed

text \<open>The item whose clock range holds an identifier.\<close>

definition item_covers :: "item \<Rightarrow> yid \<Rightarrow> bool" where
  "item_covers it i \<longleftrightarrow> id_client (it_id it) = id_client i \<and> item_start it \<le> unat (id_clock i) \<and>
     unat (id_clock i) < item_start it + item_width it"

lemma ss_find_spec:
  assumes inv: "ss_inv E h ss"
  shows "ss_find_by_id E h i ss = Some p \<Longrightarrow>
      p \<in> set (ss_ptrs ss (id_client i)) \<and> item_covers (h p) i \<and> unat (id_clock i) < span h (ss_ptrs ss (id_client i))"
    and "ss_find_by_id E h i ss = None \<longleftrightarrow> span h (ss_ptrs ss (id_client i)) \<le> unat (id_clock i)"
proof -
  let ?ps = "ss_ptrs ss (id_client i)"
  have d: "dense h (id_client i) ?ps" using inv by (simp add: ss_inv_def)
  have run: "ss_find_by_id E h i ss = items_find h ?ps (id_clock i)"
    by (auto simp: ss_find_by_id_def ss_find_vec_abs [OF inv] ss_ptrs_def items_find_def split: option.split)
  show "p \<in> set ?ps \<and> item_covers (h p) i \<and> unat (id_clock i) < span h ?ps" if "ss_find_by_id E h i ss = Some p"
  proof -
    have k: "unat (id_clock i) < span h ?ps"
      using items_find_dense(2) [OF d] that run by (metis option.distinct(1))
    obtain j where j: "j < length ?ps" and hit: "items_find h ?ps (id_clock i) = Some (?ps ! j)"
        and b: "span h (take j ?ps) \<le> unat (id_clock i)" "unat (id_clock i) < span h (take (Suc j) ?ps)"
      using items_find_dense(1) [OF d k] by blast
    have "p = ?ps ! j" using hit that run by simp
    then show ?thesis
      using k j b denseD(1,3) [OF d j] span_take_Suc [OF j, of h] by (simp add: item_covers_def)
  qed
  show "ss_find_by_id E h i ss = None \<longleftrightarrow> span h ?ps \<le> unat (id_clock i)"
    using items_find_dense [OF d, of "id_clock i"] run by (metis linorder_not_le option.distinct(1))
qed

lemma ss_covers_unique:
  assumes inv: "ss_inv E h ss" and "p \<in> ss_addrs ss" "q \<in> ss_addrs ss" and "item_covers (h p) i" "item_covers (h q) i"
  shows "p = q"
proof -
  let ?ps = "ss_ptrs ss (id_client i)"
  have d: "dense h c (ss_ptrs ss c)" for c using inv by (simp add: ss_inv_def)
  have "x \<in> set ?ps" if x: "x \<in> ss_addrs ss" "item_covers (h x) i" for x
  proof -
    obtain c where c: "x \<in> set (ss_ptrs ss c)" using x(1) by (auto simp: ss_addrs_def)
    then have "id_client (it_id (h x)) = c" using denseD(1) [OF d] by (auto simp: in_set_conv_nth)
    then show ?thesis using c x(2) by (simp add: item_covers_def)
  qed
  then obtain m n where "m < length ?ps" "p = ?ps ! m" "n < length ?ps" "q = ?ps ! n"
    using assms(2-5) by (metis in_set_conv_nth)
  then show ?thesis using dense_unique [OF d, of m "id_client i" n "unat (id_clock i)"] assms(4,5)
    by (simp add: item_covers_def)
qed

text \<open>An item of the store that covers an identifier is the one lookup returns.\<close>

lemma ss_in_addrs:
  assumes inv: "ss_inv E h ss" and q: "q \<in> ss_addrs ss"
  shows "q \<in> set (ss_ptrs ss (id_client (it_id (h q))))" and "0 < it_length (h q)"
    and "item_start (h q) + item_width (h q) \<le> span h (ss_ptrs ss (id_client (it_id (h q))))"
proof -
  obtain c where c: "q \<in> set (ss_ptrs ss c)" using q by (auto simp: ss_addrs_def)
  have d: "dense h c (ss_ptrs ss c)" using inv by (simp add: ss_inv_def)
  obtain i where i: "i < length (ss_ptrs ss c)" "q = ss_ptrs ss c ! i" using c by (auto simp: in_set_conv_nth)
  note D = denseD [OF d i(1), folded i(2)]
  show "q \<in> set (ss_ptrs ss (id_client (it_id (h q))))" "0 < it_length (h q)" using D c by auto
  show "item_start (h q) + item_width (h q) \<le> span h (ss_ptrs ss (id_client (it_id (h q))))"
    using D span_take_Suc [OF i(1), of h] span_take_le [of h "Suc i" "ss_ptrs ss c"] i(2) by simp
qed

lemma ss_find_covers:
  assumes inv: "ss_inv E h ss" and q: "q \<in> ss_addrs ss" and c: "item_covers (h q) i"
  shows "ss_find_by_id E h i ss = Some q"
proof (cases "ss_find_by_id E h i ss")
  case None
  then show ?thesis
    using ss_find_spec(2) [OF inv, of i] ss_in_addrs(3) [OF inv q] c by (simp add: item_covers_def)
next
  case (Some p)
  then have "p \<in> ss_addrs ss" "item_covers (h p) i"
    using ss_find_spec(1) [OF inv Some] by (auto simp: ss_addrs_def)
  then show ?thesis using ss_covers_unique [OF inv _ q _ c] Some by simp
qed

section \<open>Properties\<close>

text \<open>
C10: Appending keeps every client's vector dense (adjacent clock ranges from 0 on): the item is
taken exactly at the end of its client's vector when its clock is the next clock, refused as
pending without effect when it is not, and refused without effect for want of memory or room.
\<close>

theorem ss_append_keeps_dense:
  assumes "ss_inv E h ss" and "ss_append E h p (ss, a) = (r, ss', a')"
    and "0 < it_length (h p)" and "item_start (h p) + item_width (h p) < 2 ^ 64"
  shows "ss_inv E h ss' \<and>
    (let c = id_client (it_id (h p)); next_clock = span h (ss_ptrs ss c) in
     (r = Inr () \<and> item_start (h p) = next_clock \<and> ss_ptrs ss' = (ss_ptrs ss)(c := ss_ptrs ss c @ [p]) \<or>
      r = Inl kPendingReference \<and> item_start (h p) \<noteq> next_clock \<and> ss_ptrs ss' = ss_ptrs ss \<or>
      (r = Inl kOutOfMemory \<or> r = Inl kCapacityExceeded) \<and> ss_ptrs ss' = ss_ptrs ss))"
proof -
  note spec = ss_append_spec [OF assms]
  show ?thesis using spec(3)
  proof (elim disjE)
    assume "r = Inr ()"
    then show ?thesis using spec(1,2,4) by (simp add: Let_def)
  next
    assume "r = Inl kPendingReference"
    then show ?thesis using spec(1,2,5) by (simp add: Let_def)
  qed (use spec(1,2) in \<open>simp_all add: Let_def\<close>)
qed

text \<open>A heap with one item: three clocks of client 7 at address 1.\<close>

definition demo_heap :: item_heap where
  "demo_heap p = item_default\<lparr>it_id := Id 7 0, it_length := 3\<rparr>"

lemma demo_heap_simps [simp]: "it_id (demo_heap p) = Id 7 0" "it_length (demo_heap p) = 3"
  by (simp_all add: demo_heap_def)

lemma demo_append:
  obtains ss' a' where "ss_append bump_env demo_heap 1 (ss_empty, 0) = (Inr (), ss', a')"
proof -
  obtain r ss' a' where run: "ss_append bump_env demo_heap 1 (ss_empty, 0) = (r, ss', a')" by (metis prod.collapse)
  have "hm_room bump_env 1 (ss_table ss_empty)"
    by (simp add: hm_room_def bump_env_total ss_empty_def hm_empty_def kMaxCap_def)
  then have "r = Inr ()"
    using ss_append_spec(6) [OF ss_inv_empty(1) run]
    by (simp add: item_start_def item_width_def ss_inv_empty(2) kMaxPerClientItems_def)
      (simp add: ss_empty_def kMaxClients_def)
  then show ?thesis using run that by blast
qed

theorem ss_append_keeps_dense_witness:
  "\<exists>ss' a'. ss_append bump_env demo_heap 1 (ss_empty, 0) = (Inr (), ss', a') \<and> ss_inv bump_env demo_heap ss' \<and>
    ss_ptrs ss' 7 = [1]"
proof -
  obtain ss' a' where run: "ss_append bump_env demo_heap 1 (ss_empty, 0) = (Inr (), ss', a')"
    by (rule demo_append)
  then show ?thesis
    using ss_append_keeps_dense [OF ss_inv_empty(1) run]
    by (auto simp: item_start_def item_width_def ss_inv_empty(2) Let_def)
qed

text \<open>
C11: In a dense store lookup by identifier is exact: \<open>find_by_id\<close> returns the item whose clock
range holds the identifier, there is no other such item in the store, it returns null
exactly for the clocks from \<open>state\<close> on, and \<open>state\<close> is the number of clocks covered.
\<close>

theorem ss_find_exact:
  assumes "ss_inv E h ss"
  shows "unat (ss_state E h (id_client i) ss) = span h (ss_ptrs ss (id_client i)) \<and>
    (case ss_find_by_id E h i ss of
       None \<Rightarrow> ss_state E h (id_client i) ss \<le> id_clock i
     | Some p \<Rightarrow> id_clock i < ss_state E h (id_client i) ss \<and> p \<in> ss_addrs ss \<and> item_covers (h p) i \<and>
         (\<forall>q \<in> ss_addrs ss. item_covers (h q) i \<longrightarrow> q = p))"
proof (cases "ss_find_by_id E h i ss")
  case None
  then show ?thesis
    using ss_state_span [OF assms, of "id_client i"] ss_find_spec(2) [OF assms, of i]
    by (simp add: word_le_nat_alt)
next
  case (Some p)
  note p = ss_find_spec(1) [OF assms Some]
  then have in_store: "p \<in> ss_addrs ss" by (auto simp: ss_addrs_def)
  then have "\<forall>q \<in> ss_addrs ss. item_covers (h q) i \<longrightarrow> q = p"
    using p ss_covers_unique [OF assms] by blast
  moreover have "id_clock i < ss_state E h (id_client i) ss"
    using conjunct2 [OF conjunct2 [OF p]] unfolding word_less_nat_alt ss_state_span [OF assms] .
  ultimately show ?thesis
    unfolding Some option.case using in_store p ss_state_span [OF assms] by blast
qed

theorem ss_find_exact_witness:
  "\<exists>ss a. ss_append bump_env demo_heap 1 (ss_empty, 0) = (Inr (), ss, a) \<and>
    ss_find_by_id bump_env demo_heap (Id 7 2) ss = Some 1 \<and> ss_state bump_env demo_heap 7 ss = 3"
proof -
  obtain ss a where run: "ss_append bump_env demo_heap 1 (ss_empty, 0) = (Inr (), ss, a)"
    by (rule demo_append)
  have pre: "0 < it_length (demo_heap 1)" "item_start (demo_heap 1) + item_width (demo_heap 1) < 2 ^ 64"
    by (simp_all add: item_start_def item_width_def)
  have inv: "ss_inv bump_env demo_heap ss" and ptrs: "ss_ptrs ss 7 = [1]"
    using ss_append_spec(1,2) [OF ss_inv_empty(1) run pre] by (simp_all add: ss_inv_empty(2))
  have "span demo_heap (ss_ptrs ss 7) = 3" by (simp add: ptrs item_width_def)
  then have "unat (ss_state bump_env demo_heap 7 ss) = 3"
    using ss_find_exact [OF inv, of "Id 7 2"] by simp
  then have st: "ss_state bump_env demo_heap 7 ss = 3" by (simp add: word_unat_eq_iff)
  have "1 \<in> ss_addrs ss" using ptrs unfolding ss_addrs_def by (metis UNIV_I UN_iff list.set_intros(1))
  then have "ss_find_by_id bump_env demo_heap (Id 7 2) ss = Some 1"
    using ss_find_exact [OF inv, of "Id 7 2"] st
    by (auto simp: item_covers_def item_start_def item_width_def split: option.splits)
  then show ?thesis using run st by blast
qed

end
