(* ===== verification/Ycpp_YArray.thy ===== *)
theory Ycpp_YArray
  imports Ycpp_StructStore "HOL-Library.List_Lexorder" "HOL-Library.Product_Lexorder"
begin

text \<open>
  The sequence CRDT of ycpp_yarray.h: a doubly linked list of items in the heap, anchored at
  \<open>start_\<close>.  The read-only walks are partial functions, since nothing in the code bounds them
  but the shape of the list; integration is bounded by \<open>kMaxConflict\<close> and total.

  \<open>dll h start ps\<close> relates the heap to the list of addresses it stands for.
\<close>

section \<open>The code\<close>

partial_function (option) ya_length_loop :: "item_heap \<Rightarrow> addr option \<Rightarrow> u64 \<Rightarrow> u64 option" where
  "ya_length_loop h it n =
     (case it of
        None \<Rightarrow> Some n
      | Some p \<Rightarrow> ya_length_loop h (it_right (h p)) (if \<not> deleted (h p) then n + 1 else n))"

definition ya_length :: "item_heap \<Rightarrow> addr option \<Rightarrow> u64 option" where
  "ya_length h start = ya_length_loop h start 0"

partial_function (option) ya_total_loop :: "item_heap \<Rightarrow> addr option \<Rightarrow> u64 \<Rightarrow> u64 option" where
  "ya_total_loop h it n =
     (case it of None \<Rightarrow> Some n | Some p \<Rightarrow> ya_total_loop h (it_right (h p)) (n + 1))"

definition ya_total_items :: "item_heap \<Rightarrow> addr option \<Rightarrow> u64 option" where
  "ya_total_items h start = ya_total_loop h start 0"

text \<open>The outer option is the termination of the walk, the inner one the returned pointer.\<close>

partial_function (option) ya_first :: "item_heap \<Rightarrow> addr option \<Rightarrow> addr option option" where
  "ya_first h it =
     (case it of
        None \<Rightarrow> Some None
      | Some p \<Rightarrow> if \<not> deleted (h p) then Some (Some p) else ya_first h (it_right (h p)))"

partial_function (option) ya_at_loop :: "item_heap \<Rightarrow> addr option \<Rightarrow> u64 \<Rightarrow> u64 \<Rightarrow> addr option option" where
  "ya_at_loop h it cursor i =
     (case it of
        None \<Rightarrow> Some None
      | Some p \<Rightarrow>
          if deleted (h p) then ya_at_loop h (it_right (h p)) cursor i
          else if cursor = i then Some (Some p)
          else ya_at_loop h (it_right (h p)) (cursor + 1) i)"

definition ya_at :: "item_heap \<Rightarrow> addr option \<Rightarrow> u64 \<Rightarrow> addr option option" where
  "ya_at h start i = ya_at_loop h start 0 i"

partial_function (option) ya_for_each_loop ::
    "(addr \<Rightarrow> u64 \<Rightarrow> 's \<Rightarrow> 's) \<Rightarrow> item_heap \<Rightarrow> addr option \<Rightarrow> u64 \<Rightarrow> 's \<Rightarrow> 's option" where
  "ya_for_each_loop f h it cursor s =
     (case it of
        None \<Rightarrow> Some s
      | Some p \<Rightarrow>
          if deleted (h p) then ya_for_each_loop f h (it_right (h p)) cursor s
          else ya_for_each_loop f h (it_right (h p)) (cursor + 1) (f p cursor s))"

definition ya_for_each :: "(addr \<Rightarrow> u64 \<Rightarrow> 's \<Rightarrow> 's) \<Rightarrow> item_heap \<Rightarrow> addr option \<Rightarrow> 's \<Rightarrow> 's option" where
  "ya_for_each f h start s = ya_for_each_loop f h start 0 s"

definition kMaxConflict :: nat where
  "kMaxConflict = 256"

text \<open>
  The conflict scan: \<open>o\<close> is \<open>cur\<close>, the two arrays are lists, and the result is the final \<open>left\<close>.
\<close>

function ya_scan ::
    "(yid \<Rightarrow> addr option) \<Rightarrow> item_heap \<Rightarrow> addr \<Rightarrow> addr option \<Rightarrow>
     addr option \<Rightarrow> addr option \<Rightarrow> addr list \<Rightarrow> addr list \<Rightarrow> addr option result" where
  "ya_scan by_id h item right cur left before conf =
     (case cur of
        None \<Rightarrow> Inr left
      | Some p \<Rightarrow>
          if cur = right then Inr left
          else if length before \<ge> kMaxConflict then Inl kIntegrationFailed
          else
            let before' = before @ [p]; conf' = conf @ [p] in
            if it_origin_left (h p) = it_origin_left (h item) then
              if id_client (it_id (h p)) < id_client (it_id (h item)) then
                ya_scan by_id h item right (it_right (h p)) (Some p) before' []
              else if it_origin_right (h p) = it_origin_right (h item) then Inr left
              else ya_scan by_id h item right (it_right (h p)) left before' conf'
            else if is_valid (it_origin_left (h p)) then
              let o_left = by_id (it_origin_left (h p)) in
              if o_left \<in> Some ` set before' then
                if o_left \<notin> Some ` set conf' then
                  ya_scan by_id h item right (it_right (h p)) (Some p) before' []
                else ya_scan by_id h item right (it_right (h p)) left before' conf'
              else Inr left
            else Inr left)"
  by pat_completeness auto
termination
  by (relation "measure (\<lambda>(by_id, h, item, right, cur, left, before, conf). kMaxConflict - length before)")
     (auto simp: kMaxConflict_def)

declare ya_scan.simps [simp del]

text \<open>The splice between \<open>left\<close> and what follows it.\<close>

definition ya_splice :: "addr \<Rightarrow> addr option \<Rightarrow> item_heap \<times> addr option \<Rightarrow> item_heap \<times> addr option" where
  "ya_splice item left st =
     (let (h, start) = st;
          after = (case left of Some l \<Rightarrow> it_right (h l) | None \<Rightarrow> start);
          h = h(item := (h item)\<lparr>it_left := left, it_right := after\<rparr>);
          (h, start) = (case left of Some l \<Rightarrow> (h(l := (h l)\<lparr>it_right := Some item\<rparr>), start)
                        | None \<Rightarrow> (h, Some item));
          h = (case it_right (h item) of Some r \<Rightarrow> h(r := (h r)\<lparr>it_left := Some item\<rparr>) | None \<Rightarrow> h)
      in (h, start))"

definition ya_integrate ::
    "(u64, 'a) hm_env \<Rightarrow> struct_store \<Rightarrow> addr \<Rightarrow> (item_heap \<times> addr option, unit) op" where
  "ya_integrate E ss item st =
     (let (h, start) = st;
          by_id = (\<lambda>i. ss_find_by_id E h i ss);
          left = (if is_valid (it_origin_left (h item)) then by_id (it_origin_left (h item)) else None);
          right = (if is_valid (it_origin_right (h item)) then by_id (it_origin_right (h item)) else None);
          cur = (case left of Some l \<Rightarrow> it_right (h l) | None \<Rightarrow> start)
      in case ya_scan by_id h item right cur left [] [] of
           Inl e \<Rightarrow> (Inl e, st)
         | Inr left \<Rightarrow> (Inr (), ya_splice item left st))"

definition ya_mark_deleted :: "addr \<Rightarrow> item_heap \<Rightarrow> item_heap" where
  "ya_mark_deleted item h = h(item := set_deleted (h item))"

section \<open>The list in the heap\<close>

primrec chain :: "item_heap \<Rightarrow> addr option \<Rightarrow> addr list \<Rightarrow> bool" where
  "chain h s [] \<longleftrightarrow> s = None"
| "chain h s (p # ps) \<longleftrightarrow> s = Some p \<and> chain h (it_right (h p)) ps"

text \<open>The addresses that are not deleted, in document order.\<close>

definition live :: "item_heap \<Rightarrow> addr list \<Rightarrow> addr list" where
  "live h ps = filter (\<lambda>p. \<not> deleted (h p)) ps"

lemma live_simps [simp]:
  "live h [] = []" "live h (p # ps) = (if deleted (h p) then live h ps else p # live h ps)"
  by (simp_all add: live_def)

lemma chain_unique: "chain h s ps \<Longrightarrow> chain h s qs \<Longrightarrow> ps = qs"
proof (induction ps arbitrary: s qs)
  case Nil
  then show ?case by (cases qs) auto
next
  case (Cons p ps)
  then show ?case by (cases qs) auto
qed

lemma ya_length_chain: "chain h s ps \<Longrightarrow> ya_length_loop h s n = Some (n + of_nat (length (live h ps)))"
proof (induction ps arbitrary: s n)
  case (Cons p ps)
  then show ?case by (subst ya_length_loop.simps) (simp add: add_ac)
qed (simp add: ya_length_loop.simps)

lemma ya_total_chain: "chain h s ps \<Longrightarrow> ya_total_loop h s n = Some (n + of_nat (length ps))"
proof (induction ps arbitrary: s n)
  case (Cons p ps)
  then show ?case by (subst ya_total_loop.simps) (simp add: add_ac)
qed (simp add: ya_total_loop.simps)

lemma ya_first_chain: "chain h s ps \<Longrightarrow> ya_first h s = Some (case live h ps of [] \<Rightarrow> None | p # _ \<Rightarrow> Some p)"
proof (induction ps arbitrary: s)
  case (Cons p ps)
  then show ?case by (subst ya_first.simps) simp
qed (simp add: ya_first.simps)

lemma ya_at_chain:
  assumes "chain h s ps" and "unat cursor + length (live h ps) < 2 ^ 64" and "cursor \<le> i"
  shows "ya_at_loop h s cursor i =
    Some (if unat (i - cursor) < length (live h ps) then Some (live h ps ! unat (i - cursor)) else None)"
  using assms
proof (induction ps arbitrary: s cursor)
  case Nil
  then show ?case by (simp add: ya_at_loop.simps)
next
  case (Cons p ps)
  show ?case
  proof (cases "deleted (h p)")
    case True
    then show ?thesis using Cons by (subst ya_at_loop.simps) simp
  next
    case False
    show ?thesis
    proof (cases "cursor = i")
      case True
      then show ?thesis using False Cons.prems by (subst ya_at_loop.simps) simp
    next
      case neq: False
      have c: "unat (cursor + 1) = unat cursor + 1"
        using Cons.prems(2) False by (simp add: unat_word_ariths)
      have lt: "unat cursor < unat i" using neq Cons.prems(3)
        by (simp add: word_le_nat_alt word_unat_eq_iff le_neq_implies_less)
      then have le: "cursor + 1 \<le> i" using c by (simp add: word_le_nat_alt)
      have sub: "unat (i - cursor) = Suc (unat (i - (cursor + 1)))"
        using lt c le Cons.prems(3) by (simp add: unat_sub)
      have "ya_at_loop h s cursor i = ya_at_loop h (it_right (h p)) (cursor + 1) i"
        using False neq Cons.prems(1) by (subst ya_at_loop.simps) simp
      also have "\<dots> = Some (if unat (i - (cursor + 1)) < length (live h ps)
          then Some (live h ps ! unat (i - (cursor + 1))) else None)"
        using Cons.IH [of "it_right (h p)" "cursor + 1"] Cons.prems False c le by simp
      finally show ?thesis using False sub by simp
    qed
  qed
qed

lemma ya_for_each_chain:
  "chain h s ps \<Longrightarrow> ya_for_each_loop f h s cursor x =
     Some (fold (\<lambda>(p, i). f p i) (zip (live h ps) (map (\<lambda>i. cursor + of_nat i) [0..<length (live h ps)])) x)"
proof (induction ps arbitrary: s cursor x)
  case (Cons p ps)
  have "map (\<lambda>i. cursor + 1 + of_nat i) [0..<n] = map (\<lambda>i. cursor + of_nat i) [1..<Suc n]" for n
    by (rule nth_equalityI) (simp_all add: add_ac del: upt_Suc)
  then show ?case using Cons by (subst ya_for_each_loop.simps) (simp add: upt_conv_Cons del: upt_Suc)
qed (simp add: ya_for_each_loop.simps)

text \<open>
  Segments of the doubly linked list: \<open>dls h prev s ps e\<close> runs from the cursor \<open>s\<close>, whose item
  points back to \<open>prev\<close>, through \<open>ps\<close> to the cursor \<open>e\<close>.
\<close>

primrec dls :: "item_heap \<Rightarrow> addr option \<Rightarrow> addr option \<Rightarrow> addr list \<Rightarrow> addr option \<Rightarrow> bool" where
  "dls h prev s [] e \<longleftrightarrow> s = e"
| "dls h prev s (p # ps) e \<longleftrightarrow> s = Some p \<and> it_left (h p) = prev \<and> dls h (Some p) (it_right (h p)) ps e"

definition dll :: "item_heap \<Rightarrow> addr option \<Rightarrow> addr list \<Rightarrow> bool" where
  "dll h start ps \<longleftrightarrow> dls h None start ps None \<and> distinct ps"

definition last_of :: "addr option \<Rightarrow> addr list \<Rightarrow> addr option" where
  "last_of prev ps = (if ps = [] then prev else Some (last ps))"

lemma last_of_simps [simp]:
  "last_of prev [] = prev" "last_of prev (p # ps) = last_of (Some p) ps" "last_of prev (ps @ [p]) = Some p"
  by (simp_all add: last_of_def)

lemma dls_append: "dls h prev s (xs @ ys) e \<longleftrightarrow> (\<exists>m. dls h prev s xs m \<and> dls h (last_of prev xs) m ys e)"
  by (induction xs arbitrary: prev s) auto

lemma dls_cong:
  "(\<And>p. p \<in> set ps \<Longrightarrow> it_left (h' p) = it_left (h p) \<and> it_right (h' p) = it_right (h p)) \<Longrightarrow>
     dls h' prev s ps e = dls h prev s ps e"
  by (induction ps arbitrary: prev s) auto

lemma dls_chain: "dls h prev s ps None \<Longrightarrow> chain h s ps"
  by (induction ps arbitrary: prev s) auto

lemma dll_chain: "dll h start ps \<Longrightarrow> chain h start ps"
  by (auto simp: dll_def dest: dls_chain)

lemma dll_Nil [simp]: "dll h None []"
  by (simp add: dll_def)

lemma dll_cong:
  "(\<And>p. p \<in> set ps \<Longrightarrow> it_left (h' p) = it_left (h p) \<and> it_right (h' p) = it_right (h p)) \<Longrightarrow>
     dll h' start ps = dll h start ps"
  using dls_cong [of ps h' h None start None] by (simp add: dll_def)

text \<open>What only the links of an item may change.\<close>

definition same_content :: "item \<Rightarrow> item \<Rightarrow> bool" where
  "same_content x y \<longleftrightarrow> x\<lparr>it_left := None, it_right := None\<rparr> = y\<lparr>it_left := None, it_right := None\<rparr>"

lemma same_content_refl [simp]: "same_content x x"
  by (simp add: same_content_def)

lemma same_contentD:
  assumes "same_content x y"
  shows "it_id x = it_id y" "it_origin_left x = it_origin_left y" "it_origin_right x = it_origin_right y"
    "it_length x = it_length y" "it_flags x = it_flags y" "deleted x = deleted y"
    "it_content_kind x = it_content_kind y" "it_content_view x = it_content_view y"
    "it_parent_ref x = it_parent_ref y" "it_parent_name x = it_parent_name y" "it_parent_sub x = it_parent_sub y"
  using assms by (cases x; cases y; simp add: same_content_def deleted_def)+

text \<open>Splicing between a prefix and a suffix of the list.\<close>

lemma ya_splice_spec:
  assumes l: "dll h start (xs @ ys)" and p: "p \<notin> set (xs @ ys)"
    and run: "ya_splice p (last_of None xs) (h, start) = (h', start')"
  shows "dll h' start' (xs @ p # ys)" and "same_content (h' q) (h q)"
    and "q \<notin> set (xs @ p # ys) \<Longrightarrow> h' q = h q"
proof -
  obtain m where x: "dls h None start xs m" and y: "dls h (last_of None xs) m ys None" and dist: "distinct (xs @ ys)"
    using l by (auto simp: dll_def dls_append)
  have "dll h' start' (xs @ p # ys) \<and> same_content (h' q) (h q) \<and> (q \<notin> set (xs @ p # ys) \<longrightarrow> h' q = h q)" for q
  proof (cases xs rule: rev_cases)
    case Nil
    then have m: "m = start" using x by simp
    show ?thesis
    proof (cases ys)
      case Nil': Nil
      then have "start = None" using y m by simp
      then show ?thesis using run Nil Nil' by (auto simp: ya_splice_def dll_def same_content_def)
    next
      case (Cons y1 ys1)
      then have s: "start = Some y1" "dls h (Some y1) (it_right (h y1)) ys1 None" using y m by auto
      have ne: "p \<noteq> y1" "y1 \<notin> set ys1" "p \<notin> set ys1" using p dist Nil Cons by auto
      have h': "h' = h(p := (h p)\<lparr>it_left := None, it_right := Some y1\<rparr>, y1 := (h y1)\<lparr>it_left := Some p\<rparr>)"
        "start' = Some p" using run Nil s ne by (auto simp: ya_splice_def)
      have "dls h' (Some y1) (it_right (h y1)) ys1 None"
        using s(2) ne by (subst dls_cong [of ys1 h' h]) (auto simp: h')
      then show ?thesis using h' Nil Cons ne dist p by (auto simp: dll_def same_content_def)
    qed
  next
    case (snoc xs0 l)
    then have x0: "dls h None start xs0 (Some l)" "it_left (h l) = last_of None xs0" "it_right (h l) = m"
      using x by (auto simp: dls_append)
    have ne: "p \<noteq> l" "l \<notin> set xs0" "l \<notin> set ys" "p \<notin> set xs0" "p \<notin> set ys" using p dist snoc by auto
    show ?thesis
    proof (cases ys)
      case Nil
      then have "m = None" using y by simp
      then have h': "h' = h(p := (h p)\<lparr>it_left := Some l, it_right := None\<rparr>, l := (h l)\<lparr>it_right := Some p\<rparr>)"
        "start' = start" using run snoc x0 ne by (auto simp: ya_splice_def)
      have "dls h' None start xs0 (Some l)"
        using x0(1) ne by (subst dls_cong [of xs0 h' h]) (auto simp: h')
      then show ?thesis using h' Nil snoc ne dist p x0 by (auto simp: dll_def dls_append same_content_def)
    next
      case (Cons y1 ys1)
      then have s: "m = Some y1" "dls h (Some y1) (it_right (h y1)) ys1 None" using y by auto
      have ne2: "p \<noteq> y1" "y1 \<notin> set ys1" "p \<notin> set ys1" "y1 \<noteq> l" "y1 \<notin> set xs0" "l \<notin> set ys1"
        using p dist snoc Cons by auto
      have h': "h' = h(p := (h p)\<lparr>it_left := Some l, it_right := Some y1\<rparr>, l := (h l)\<lparr>it_right := Some p\<rparr>,
          y1 := (h y1)\<lparr>it_left := Some p\<rparr>)" "start' = start"
        using run snoc x0 s ne ne2 by (auto simp: ya_splice_def)
      have "dls h' None start xs0 (Some l)"
        using x0(1) ne ne2 by (subst dls_cong [of xs0 h' h]) (auto simp: h')
      moreover have "dls h' (Some y1) (it_right (h y1)) ys1 None"
        using s(2) ne ne2 by (subst dls_cong [of ys1 h' h]) (auto simp: h')
      ultimately show ?thesis
        using h' Cons snoc ne ne2 dist p x0 by (auto simp: dll_def dls_append same_content_def)
    qed
  qed
  then show "dll h' start' (xs @ p # ys)" "same_content (h' q) (h q)" "q \<notin> set (xs @ p # ys) \<Longrightarrow> h' q = h q"
    by auto
qed

section \<open>Where an item can land\<close>

text \<open>The items the scan may look at: from the cursor up to the right origin.\<close>

definition zone :: "addr option \<Rightarrow> addr list \<Rightarrow> addr list" where
  "zone right ys = takeWhile (\<lambda>q. Some q \<noteq> right) ys"

lemma zone_simps [simp]:
  "zone right [] = []" "zone right (p # ys) = (if Some p = right then [] else p # zone right ys)"
  by (auto simp: zone_def)

lemma ya_scan_zone:
  "chain h cur ys \<Longrightarrow>
   (case ya_scan by_id h item right cur left before conf of
      Inl e \<Rightarrow> e = kIntegrationFailed \<and> kMaxConflict < length before + length (zone right ys)
    | Inr l \<Rightarrow> l = left \<or> l \<in> Some ` set (zone right ys))"
proof (induction ys arbitrary: cur left before conf)
  case Nil
  then show ?case by (simp add: ya_scan.simps)
next
  case (Cons p ys)
  have IH: "case ya_scan by_id h item right (it_right (h p)) l (before @ [p]) c of
      Inl e \<Rightarrow> e = kIntegrationFailed \<and> kMaxConflict < length before + length (zone right ys) + 1
    | Inr l' \<Rightarrow> l' = l \<or> l' \<in> Some ` set (zone right ys)" for l c
    using Cons.IH [where cur = "it_right (h p)" and left = l and before = "before @ [p]" and conf = c] Cons.prems
    by (simp split: sum.splits)
  show ?case
  proof (cases "Some p = right")
    case True
    then show ?thesis using Cons.prems by (subst ya_scan.simps) (simp add: True [symmetric])
  next
    case False
    show ?thesis using False Cons.prems IH [of left "conf @ [p]"] IH [of "Some p" "[]"]
      by (subst ya_scan.simps) (auto simp: Let_def split: sum.splits)
  qed
qed

text \<open>The pointer an origin denotes.\<close>

definition origin_ptr :: "(yid \<Rightarrow> addr option) \<Rightarrow> yid \<Rightarrow> addr option" where
  "origin_ptr by_id i = (if is_valid i then by_id i else None)"

lemma chain_append: "chain h s (xs @ ys) \<Longrightarrow> chain h (case last_of None xs of None \<Rightarrow> s | Some l \<Rightarrow> it_right (h l)) ys"
proof (induction xs arbitrary: s)
  case (Cons x xs)
  then have "chain h (case last_of None xs of None \<Rightarrow> it_right (h x) | Some l \<Rightarrow> it_right (h l)) ys" by simp
  then show ?case by (cases xs) (simp_all add: last_of_def)
qed simp

lemma ya_integrate_lands:
  assumes l: "dll h start (xs @ ys)" and p: "p \<notin> set (xs @ ys)"
    and left: "origin_ptr (\<lambda>i. ss_find_by_id E h i ss) (it_origin_left (h p)) = last_of None xs"
    and right: "origin_ptr (\<lambda>i. ss_find_by_id E h i ss) (it_origin_right (h p)) = right"
    and run: "ya_integrate E ss p (h, start) = (r, h', start')"
  shows "r = Inl kIntegrationFailed \<and> (h', start') = (h, start) \<and> kMaxConflict < length (zone right ys) \<or>
    r = Inr () \<and> (\<exists>zs ws. zone right ys = zs @ ws \<and> dll h' start' (xs @ zs @ p # drop (length zs) ys)) \<and>
      (\<forall>q. same_content (h' q) (h q)) \<and> (\<forall>q. q \<notin> set (xs @ p # ys) \<longrightarrow> h' q = h q)"
proof -
  let ?by_id = "\<lambda>i. ss_find_by_id E h i ss"
  define cur where "cur = (case last_of None xs of None \<Rightarrow> start | Some l \<Rightarrow> it_right (h l))"
  have c: "chain h cur ys" unfolding cur_def by (rule chain_append [OF dll_chain [OF l]])
  define res where "res = ya_scan ?by_id h p right cur (last_of None xs) [] []"
  have run': "(r, h', start') = (case res of Inl e \<Rightarrow> (Inl e, h, start)
      | Inr left \<Rightarrow> (Inr (), ya_splice p left (h, start)))"
    using run left right unfolding ya_integrate_def origin_ptr_def res_def cur_def
    by (simp add: Let_def)
  show ?thesis
  proof (cases res)
    case (Inl e)
    then show ?thesis using run' ya_scan_zone [OF c, where by_id = ?by_id and item = p and right = right and left = "last_of None xs"
        and before = "[]" and conf = "[]"]
      by (simp add: res_def)
  next
    case (Inr l)
    then have land: "l = last_of None xs \<or> l \<in> Some ` set (zone right ys)"
      using ya_scan_zone [OF c, where by_id = ?by_id and item = p and right = right and left = "last_of None xs"
        and before = "[]" and conf = "[]"] by (simp add: res_def)
    have sp: "ya_splice p l (h, start) = (h', start')" "r = Inr ()" using run' Inr by auto
    obtain rest where rest: "ys = zone right ys @ rest" unfolding zone_def by (metis takeWhile_dropWhile_id)
    obtain zs ws where z: "zone right ys = zs @ ws" "l = last_of None (xs @ zs)"
      using land
    proof
      assume "l = last_of None xs"
      then show ?thesis using that [of "[]" "zone right ys"] by simp
    next
      assume "l \<in> Some ` set (zone right ys)"
      then obtain q as bs where "l = Some q" "zone right ys = as @ q # bs" by (metis imageE split_list)
      then show ?thesis using that [of "as @ [q]" bs] by (simp add: last_of_def)
    qed
    have ys: "ys = zs @ drop (length zs) ys" using rest z(1) by (metis append.assoc append_eq_conv_conj)
    have "dll h start ((xs @ zs) @ drop (length zs) ys)" "p \<notin> set ((xs @ zs) @ drop (length zs) ys)"
      using l p ys by (metis append.assoc)+
    from ya_splice_spec [OF this sp(1) [unfolded z(2)]]
    have "dll h' start' ((xs @ zs) @ p # drop (length zs) ys)"
      "\<And>q. same_content (h' q) (h q)" "\<And>q. q \<notin> set ((xs @ zs) @ p # drop (length zs) ys) \<Longrightarrow> h' q = h q"
      by blast+
    moreover have "set ((xs @ zs) @ p # drop (length zs) ys) = set (xs @ p # ys)"
      by (subst (2) ys) auto
    ultimately show ?thesis using sp(2) z(1) by auto
  qed
qed

section \<open>Properties\<close>

text \<open>
C18: On a well-formed list the walks terminate and read the document: \<open>length\<close> and
\<open>total_items\<close> count, \<open>first\<close> and \<open>at\<close> index the items that are not deleted, null past the
end, and \<open>for_each\<close> visits them in document order with their positions.
\<close>

theorem ya_reads:
  assumes "dll h start ps" and "length ps < 2 ^ 64"
  shows "ya_length h start = Some (of_nat (length (live h ps))) \<and>
    ya_total_items h start = Some (of_nat (length ps)) \<and>
    ya_first h start = Some (case live h ps of [] \<Rightarrow> None | p # _ \<Rightarrow> Some p) \<and>
    ya_at h start i = Some (if unat i < length (live h ps) then Some (live h ps ! unat i) else None) \<and>
    ya_for_each f h start s =
      Some (fold (\<lambda>(p, i). f p i) (zip (live h ps) (map of_nat [0..<length (live h ps)])) s)"
proof -
  note c = dll_chain [OF assms(1)]
  have "length (live h ps) < 2 ^ 64"
    using assms(2) le_less_trans [OF length_filter_le [of "\<lambda>p. \<not> deleted (h p)" ps]] by (simp add: live_def)
  then show ?thesis
    using ya_length_chain [OF c, of 0] ya_total_chain [OF c, of 0] ya_first_chain [OF c]
      ya_at_chain [OF c, of 0 i] ya_for_each_chain [OF c, of f 0 s]
    by (simp add: ya_length_def ya_total_items_def ya_at_def ya_for_each_def)
qed

text \<open>Two items, the first one deleted.\<close>

definition demo_list :: item_heap where
  "demo_list p = (if p = 1 then set_deleted (item_default\<lparr>it_right := Some 2\<rparr>)
     else item_default\<lparr>it_left := Some 1\<rparr>)"

theorem ya_reads_witness:
  "dll demo_list (Some 1) [1, 2] \<and> ya_length demo_list (Some 1) = Some 1 \<and> ya_at demo_list (Some 1) 0 = Some (Some 2) \<and>
   ya_at demo_list (Some 1) 1 = Some None"
proof -
  have "\<not> deleted (item_default\<lparr>it_left := Some 1\<rparr>)" by (simp add: deleted_def item_default_def)
  then have l: "live demo_list [1, 2] = [2]" by (simp add: demo_list_def)
  have d: "dll demo_list (Some 1) [1, 2]"
    by (simp add: dll_def demo_list_def item_default_def)
  show ?thesis
    using ya_reads [OF d, of 0 "\<lambda>p i s. s" "()", unfolded l] ya_reads [OF d, of 1 "\<lambda>p i s. s" "()", unfolded l] d
    by simp
qed

text \<open>
C9: Integration keeps the doubly linked list and puts the new item into it exactly once, behind
its left origin and in front of its right origin when they are in the list; every other item
keeps its place and its content.  It refuses, without effect, only when more than 256 items
lie between the origins.
\<close>

theorem ya_integrate_between_origins:
  assumes "dll h start (xs @ ys)" and "p \<notin> set (xs @ ys)"
    and "origin_ptr (\<lambda>i. ss_find_by_id E h i ss) (it_origin_left (h p)) = last_of None xs"
    and "origin_ptr (\<lambda>i. ss_find_by_id E h i ss) (it_origin_right (h p)) = right"
    and "ya_integrate E ss p (h, start) = (r, h', start')"
  shows "r = Inl kIntegrationFailed \<and> (h', start') = (h, start) \<and> 256 < length (zone right ys) \<or>
    r = Inr () \<and> (\<exists>zs ws. zone right ys = zs @ ws \<and> dll h' start' (xs @ zs @ p # drop (length zs) ys)) \<and>
      (\<forall>q. same_content (h' q) (h q)) \<and> (\<forall>q. q \<notin> set (xs @ p # ys) \<longrightarrow> h' q = h q)"
  using ya_integrate_lands [OF assms] by (simp add: kMaxConflict_def)

theorem ya_integrate_between_origins_witness:
  "\<exists>r h' start'. ya_integrate bump_env ss_empty 3 (demo_list, Some 1) = (r, h', start') \<and> r = Inr () \<and>
    same_content (h' 2) (demo_list 2)"
proof -
  obtain r h' start' where run: "ya_integrate bump_env ss_empty 3 (demo_list, Some 1) = (r, h', start')"
    by (metis prod.collapse)
  have d: "dll demo_list (Some 1) ([] @ [1, 2])"
    by (simp add: dll_def demo_list_def item_default_def)
  have o: "origin_ptr by_id (it_origin_left (demo_list 3)) = last_of None []"
    "origin_ptr by_id (it_origin_right (demo_list 3)) = None" for by_id
    by (simp_all add: demo_list_def origin_ptr_def item_default_def is_valid_def)
  have "\<not> 256 < length (zone None [1, 2 :: addr])" by simp
  then show ?thesis
    using ya_integrate_between_origins [OF d _ o run] run by auto
qed

end
