(* ===== verification/Ycpp_Yata.thy ===== *)
theory Ycpp_Yata
  imports Ycpp_YArray
begin

text \<open>
  The order in which \<open>YArray::integrate\<close> arranges a list, as sort keys.

  The left origins of the items form a forest, and the list is its preorder.  Among siblings the
  right origin counts as well: an item whose right origin is a sibling goes in front of it, as far
  to the left as items of greater clients reach.  A sibling's key is its \<open>rank\<close>, a sequence
  ascending to \<open>key_top\<close>; an item's key is its \<open>path\<close>, the ranks from the root down to it.  Ranks
  and paths are compared lexicographically.  \<open>scan_sorted\<close> shows that the conflict scan
  finds the place of the new item's path.
\<close>

section \<open>Ranks\<close>

type_synonym rank = "(int \<times> int) list"

type_synonym path = "rank list"

text \<open>Siblings go by ascending client and, within a client, by descending clock.\<close>

definition item_key :: "item \<Rightarrow> int \<times> int" where
  "item_key it = (uint (id_client (it_id it)), - uint (id_clock (it_id it)))"

text \<open>Above every key: the end of a rank, and the rank of the right end of the siblings.\<close>

definition key_top :: "int \<times> int" where
  "key_top = (2 ^ 64, 0)"

lemma item_key_less_top [simp]: "item_key x < key_top"
  using uint_lt2p [of "id_client (it_id x)"] by (simp add: item_key_def key_top_def less_prod_def)

text \<open>The rank of an item with key \<open>k\<close> whose right origin has rank \<open>t\<close>.\<close>

definition climb :: "int \<times> int \<Rightarrow> rank \<Rightarrow> rank" where
  "climb k t = takeWhile (\<lambda>k'. k' < k) t @ [k, key_top]"

definition rank_ok :: "rank \<Rightarrow> bool" where
  "rank_ok t \<longleftrightarrow> sorted_wrt (<) t \<and> t \<noteq> [] \<and> last t = key_top"

lemma rank_ok_Cons: "rank_ok (a # t) \<longleftrightarrow> (if t = [] then a = key_top else rank_ok t \<and> (\<forall>b \<in> set t. a < b))"
  by (auto simp: rank_ok_def)

lemma rank_ok_top [simp]: "rank_ok [key_top]"
  by (simp add: rank_ok_def)

lemma rank_ok_climb:
  assumes "rank_ok t" and "k < key_top"
  shows "rank_ok (climb k t)"
proof -
  have "sorted_wrt (<) (takeWhile (\<lambda>k'. k' < k) t)"
    using assms(1) by (metis rank_ok_def sorted_wrt_append takeWhile_dropWhile_id)
  then show ?thesis using assms(2)
    by (auto simp: rank_ok_def climb_def sorted_wrt_append dest!: set_takeWhileD intro: less_trans)
qed

lemma climb_Cons: "climb k (a # t) = (if a < k then a # climb k t else [k, key_top])"
  by (simp add: climb_def)

text \<open>An item goes in front of its right origin.\<close>

lemma climb_less: "rank_ok t \<Longrightarrow> k \<notin> set t \<Longrightarrow> k < key_top \<Longrightarrow> climb k t < t"
proof (induction t)
  case (Cons a t)
  then show ?case by (cases "t = []") (auto simp: climb_Cons rank_ok_Cons climb_def not_less)
qed (simp add: rank_ok_def)

text \<open>Items of smaller clients stay in front of it.\<close>

lemma less_climb: "v @ [key_top] < t \<Longrightarrow> v \<noteq> [] \<Longrightarrow> \<forall>a \<in> set v. a < k \<Longrightarrow> rank_ok t \<Longrightarrow>
  v @ [key_top] < climb k t"
proof (induction t arbitrary: v)
  case (Cons a t)
  then obtain b v' where v: "v = b # v'" by (cases v) auto
  then have b: "b < k" using Cons.prems(3) by simp
  show ?case
  proof (cases "b < a")
    case True
    then show ?thesis using b v by (auto simp: climb_Cons)
  next
    case False
    then have ba: "b = a" "v' @ [key_top] < t" using Cons.prems(1) v by (auto simp: not_less)
    then have "t \<noteq> []" by auto
    then have t: "rank_ok t" using Cons.prems(4) by (simp add: rank_ok_Cons)
    have "v' \<noteq> []"
    proof
      assume "v' = []"
      then have lt: "[key_top] < t" using ba by simp
      then obtain c t' where c: "t = c # t'" by (cases t) auto
      then have "key_top \<le> c" using lt by (auto simp: not_less)
      moreover have "t' \<noteq> []" using lt c by (auto simp: not_less t rank_ok_Cons)
        (use t c in \<open>auto simp: rank_ok_def\<close>)
      ultimately show False using t c by (auto simp: rank_ok_def dest!: last_in_set)
    qed
    then have "v' @ [key_top] < climb k t" using Cons.IH [OF ba(2)] Cons.prems(3) v t by simp
    then show ?thesis using ba(1) b v by (simp add: climb_Cons)
  qed
qed simp

text \<open>Among items with the same right origin the keys decide.\<close>

lemma climb_mono: "k < k' \<Longrightarrow> k \<notin> set t \<Longrightarrow> climb k t < climb k' t"
  by (induction t) (auto simp: climb_Cons climb_def not_less)

lemma rank_le_top: "rank_ok (v @ [key_top]) \<Longrightarrow> v @ [key_top] \<le> [key_top]"
  by (cases v) (auto simp: rank_ok_Cons)

text \<open>
  Whatever stays in front of an item, stays there on account of a smaller key: \<open>a @ [k', key_top]\<close>
  is the rank of that key's item.
\<close>

lemma below_climb:
  "rank_ok (v @ [key_top]) \<Longrightarrow> v @ [key_top] < climb k t \<Longrightarrow> k \<notin> set v \<Longrightarrow> k < key_top \<Longrightarrow>
    \<exists>a k' b. v = a @ k' # b \<and> k' < k \<and> v @ [key_top] \<le> a @ [k', key_top] \<and> a @ [k', key_top] < climb k t"
proof (induction t arbitrary: v)
  case Nil
  obtain y v' where v: "v = y # v'" using Nil.prems by (cases v) (auto simp: climb_def)
  have "v' @ [key_top] \<le> [key_top]" using Nil.prems(1) v by (intro rank_le_top) (auto simp: rank_ok_Cons)
  moreover have "y < k" using Nil.prems v by (auto simp: climb_def)
  ultimately show ?case using v by (intro exI [of _ "[]"] exI [of _ y] exI [of _ v']) (auto simp: climb_def)
next
  case (Cons x t)
  show ?case
  proof (cases v)
    case Nil
    then show ?thesis using Cons.prems by (auto simp: climb_Cons split: if_splits)
  next
    case v: (Cons y v')
    show ?thesis
    proof (cases "x < k \<and> y = x")
      case True
      then have "rank_ok (v' @ [key_top])" "v' @ [key_top] < climb k t" "k \<notin> set v'"
        using Cons.prems(1-3) v by (auto simp: rank_ok_Cons climb_Cons)
      from Cons.IH [OF this Cons.prems(4)] obtain a k' b where
        "v' = a @ k' # b" "k' < k" "v' @ [key_top] \<le> a @ [k', key_top]" "a @ [k', key_top] < climb k t"
        by blast
      then show ?thesis using v True by (intro exI [of _ "x # a"] exI [of _ k'] exI [of _ b]) (auto simp: climb_Cons)
    next
      case False
      then have y: "y < k" "[y, key_top] < climb k (x # t)"
        using Cons.prems(2,3) v by (auto simp: climb_Cons not_less split: if_splits)
      have "v' @ [key_top] \<le> [key_top]"
        using Cons.prems(1) v by (intro rank_le_top) (auto simp: rank_ok_Cons)
      then show ?thesis using y v by (intro exI [of _ "[]"] exI [of _ y] exI [of _ v']) auto
    qed
  qed
qed

section \<open>Lists of paths\<close>

lemma append_less_cancel [simp]: "(xs :: 'a::linorder list) @ ys < xs @ zs \<longleftrightarrow> ys < zs"
  by (induction xs) auto

lemma less_append [simp]: "(xs :: 'a::linorder list) < xs @ y # ys"
  using append_less_cancel [of xs "[]" "y # ys"] by simp

lemma not_append_le [simp]: "\<not> (xs :: 'a::linorder list) @ y # ys \<le> xs"
  by (simp add: not_le)

lemma less_not_prefix: "(xs :: 'a::linorder list) < ys \<Longrightarrow> (\<And>c rest. ys \<noteq> xs @ c # rest) \<Longrightarrow> xs @ zs < ys"
proof (induction xs arbitrary: ys)
  case Nil
  then show ?case by (cases ys) auto
next
  case (Cons x xs)
  then show ?case by (cases ys) auto
qed

lemma less_between:
  "(xs :: 'a::linorder list) < ys \<Longrightarrow> ys < xs @ [k] \<Longrightarrow> \<exists>k' rest. ys = xs @ k' # rest \<and> k' < k"
proof (induction xs arbitrary: ys)
  case Nil
  then show ?case by (cases ys) auto
next
  case (Cons x xs)
  then show ?case by (cases ys) auto
qed

lemma sorted_wrt_split:
  assumes "sorted_wrt (\<lambda>q r. (path q :: 'b::linorder) < path r) ps"
  obtains xs ys where "ps = xs @ ys" "\<And>q. q \<in> set xs \<Longrightarrow> path q \<le> b" "\<And>q. q \<in> set ys \<Longrightarrow> b < path q"
proof
  show "ps = takeWhile (\<lambda>q. path q \<le> b) ps @ dropWhile (\<lambda>q. path q \<le> b) ps" by simp
  show "path q \<le> b" if "q \<in> set (takeWhile (\<lambda>q. path q \<le> b) ps)" for q
    using set_takeWhileD [OF that] by simp
  show "b < path q" if "q \<in> set (dropWhile (\<lambda>q. path q \<le> b) ps)" for q
    using assms that
  proof (induction ps)
    case (Cons x ps)
    then show ?case by (cases "path x \<le> b") (auto intro: less_trans)
  qed simp
qed

section \<open>A list in the order of its paths\<close>

text \<open>The last identifier of an item's run, which is what a successor names as its origin.\<close>

definition last_id :: "item \<Rightarrow> yid" where
  "last_id it = Id (id_client (it_id it)) (id_clock (it_id it) + it_length it - 1)"

definition parent_path :: "(addr \<Rightarrow> addr option) \<Rightarrow> (addr \<Rightarrow> path) \<Rightarrow> addr \<Rightarrow> path" where
  "parent_path par path q = (case par q of None \<Rightarrow> [] | Some m \<Rightarrow> path m)"

definition beneath :: "path \<Rightarrow> path \<Rightarrow> bool" where
  "beneath P Q \<longleftrightarrow> (\<exists>c rest. Q = P @ c # rest)"

text \<open>
  The item at \<open>q\<close>, its parent \<open>par q\<close> and the sibling \<open>sib q\<close> it goes in front of, with \<open>S\<close> the
  addresses of the list.  A right origin that is no sibling lies outside the parent's subtree.
\<close>

definition placed ::
    "(yid \<Rightarrow> addr option) \<Rightarrow> item_heap \<Rightarrow> (addr \<Rightarrow> addr option) \<Rightarrow> (addr \<Rightarrow> addr option) \<Rightarrow> (addr \<Rightarrow> path) \<Rightarrow>
     (addr \<Rightarrow> rank) \<Rightarrow> addr set \<Rightarrow> addr \<Rightarrow> bool" where
  "placed by_id h par sib path rank S q \<longleftrightarrow>
     path q = parent_path par path q @ [rank q] \<and>
     rank q = climb (item_key (h q)) (case sib q of None \<Rightarrow> [key_top] | Some r \<Rightarrow> rank r) \<and>
     (case par q of
        None \<Rightarrow> it_origin_left (h q) = kInvalidId
      | Some m \<Rightarrow> m \<in> S \<and> is_valid (it_origin_left (h q)) \<and> it_origin_left (h q) = last_id (h m) \<and>
          by_id (it_origin_left (h q)) = Some m) \<and>
     (case sib q of
        None \<Rightarrow> it_origin_right (h q) = kInvalidId \<or> is_valid (it_origin_right (h q)) \<and>
          (\<exists>r \<in> S. by_id (it_origin_right (h q)) = Some r \<and> \<not> beneath (parent_path par path q) (path r))
      | Some r \<Rightarrow> r \<in> S \<and> par r = par q \<and> is_valid (it_origin_right (h q)) \<and>
          by_id (it_origin_right (h q)) = Some r)"

text \<open>A new item \<open>p\<close> arrives at the list \<open>ps\<close>.\<close>

definition yata_step ::
    "(yid \<Rightarrow> addr option) \<Rightarrow> item_heap \<Rightarrow> (addr \<Rightarrow> addr option) \<Rightarrow> (addr \<Rightarrow> addr option) \<Rightarrow> (addr \<Rightarrow> path) \<Rightarrow>
     (addr \<Rightarrow> rank) \<Rightarrow> addr list \<Rightarrow> addr \<Rightarrow> bool" where
  "yata_step by_id h par sib path rank ps p \<longleftrightarrow>
     (\<forall>q \<in> insert p (set ps). placed by_id h par sib path rank (set ps) q \<and> rank_ok (rank q)) \<and>
     sorted_wrt (\<lambda>q r. path q < path r) ps \<and> p \<notin> set ps \<and> inj_on path (insert p (set ps)) \<and>
     (\<forall>q \<in> set ps. id_client (it_id (h q)) = id_client (it_id (h p)) \<longrightarrow>
       id_clock (it_id (h q)) < id_clock (it_id (h p))) \<and>
     (\<forall>q \<in> set ps. \<forall>a k b. rank q = a @ k # b \<longrightarrow> k \<noteq> key_top \<longrightarrow>
       (\<exists>w \<in> set ps. par w = par q \<and> rank w = a @ [k, key_top] \<and> item_key (h w) = k))"

lemma yata_stepD:
  assumes "yata_step by_id h par sib path rank ps p"
  shows "q \<in> insert p (set ps) \<Longrightarrow> placed by_id h par sib path rank (set ps) q"
    and "q \<in> insert p (set ps) \<Longrightarrow> rank_ok (rank q)"
    and "sorted_wrt (\<lambda>q r. path q < path r) ps" and "p \<notin> set ps" and "inj_on path (insert p (set ps))"
    and "q \<in> set ps \<Longrightarrow> id_client (it_id (h q)) = id_client (it_id (h p)) \<Longrightarrow>
      id_clock (it_id (h q)) < id_clock (it_id (h p))"
    and "q \<in> set ps \<Longrightarrow> rank q = a @ k # b \<Longrightarrow> k \<noteq> key_top \<Longrightarrow>
      \<exists>w \<in> set ps. par w = par q \<and> rank w = a @ [k, key_top] \<and> item_key (h w) = k"
  using assms [unfolded yata_step_def] by blast+

lemma placedD:
  assumes "placed by_id h par sib path rank S q"
  shows "path q = parent_path par path q @ [rank q]"
    and "rank q = climb (item_key (h q)) (case sib q of None \<Rightarrow> [key_top] | Some r \<Rightarrow> rank r)"
    and "par q = None \<Longrightarrow> it_origin_left (h q) = kInvalidId"
    and "par q = Some m \<Longrightarrow> m \<in> S \<and> is_valid (it_origin_left (h q)) \<and> it_origin_left (h q) = last_id (h m) \<and>
      by_id (it_origin_left (h q)) = Some m"
    and "sib q = Some r \<Longrightarrow> r \<in> S \<and> par r = par q \<and> is_valid (it_origin_right (h q)) \<and>
      by_id (it_origin_right (h q)) = Some r"
    and "sib q = None \<Longrightarrow> it_origin_right (h q) = kInvalidId \<or> is_valid (it_origin_right (h q)) \<and>
      (\<exists>r \<in> S. by_id (it_origin_right (h q)) = Some r \<and> \<not> beneath (parent_path par path q) (path r))"
  using assms by (auto simp: placed_def)

lemma placed_origin_eq:
  assumes "placed by_id h par sib path rank S q" and "placed by_id h par sib path rank T r"
  shows "it_origin_left (h q) = it_origin_left (h r) \<longleftrightarrow> par q = par r"
  using assms by (auto simp: placed_def is_valid_def split: option.splits)

text \<open>Siblings with the same right origin go in front of the same sibling.\<close>

lemma placed_right_eq:
  assumes S: "\<And>r. r \<in> S \<Longrightarrow> placed by_id h par sib path rank S r"
    and q: "placed by_id h par sib path rank S q" and r: "placed by_id h par sib path rank S r"
    and par: "par q = par r" and eq: "it_origin_right (h q) = it_origin_right (h r)"
  shows "sib q = sib r"
proof -
  have no: "sib b \<noteq> None" if a: "placed by_id h par sib path rank S a" and b: "placed by_id h par sib path rank S b"
    and ab: "par a = par b" "it_origin_right (h a) = it_origin_right (h b)" and s: "sib a = Some s" for a b s
  proof
    assume none: "sib b = None"
    note A = placedD(5) [OF a s]
    then have "is_valid (it_origin_right (h b))" "by_id (it_origin_right (h b)) = Some s" using ab(2) by auto
    then have "\<not> beneath (parent_path par path b) (path s)"
      using placedD(6) [OF b none] by (auto simp: is_valid_def)
    moreover have "path s = parent_path par path s @ [rank s]" using placedD(1) [OF S] A by blast
    moreover have "parent_path par path s = parent_path par path b" using A ab(1) by (simp add: parent_path_def)
    ultimately show False by (auto simp: beneath_def)
  qed
  show ?thesis
  proof (cases "sib q")
    case None
    then show ?thesis using no [OF r q par [symmetric] eq [symmetric]] by (cases "sib r") auto
  next
    case (Some s)
    then obtain s' where s': "sib r = Some s'" using no [OF q r par eq] by blast
    then show ?thesis using placedD(5) [OF q Some] placedD(5) [OF r s'] Some eq by auto
  qed
qed

text \<open>What lies beneath the new item's parent: its children, and the subtrees of those.\<close>

lemma beneath_cases:
  assumes st: "yata_step by_id h par sib path rank ps p" and z: "z \<in> set ps"
    and path: "path z = parent_path par path p @ c # rest"
  shows "rest = [] \<and> par z = par p \<and> rank z = c \<or>
    (\<exists>m rest'. m \<in> set ps \<and> par z = Some m \<and> par z \<noteq> par p \<and> path m = parent_path par path p @ c # rest' \<and>
      length rest' < length rest \<and> path m < path z)"
proof -
  note D = yata_stepD [OF st]
  let ?P = "parent_path par path p"
  have pl: "placed by_id h par sib path rank (set ps) z" using D(1) z by blast
  have pz: "path z = parent_path par path z @ [rank z]" by (rule placedD(1) [OF pl])
  have ne: "path m \<noteq> []" if "m \<in> set ps" for m
  proof -
    have "placed by_id h par sib path rank (set ps) m" using D(1) that by blast
    from placedD(1) [OF this] show ?thesis by simp
  qed
  have par_p: "m \<in> set ps" if "par p = Some m" for m using placedD(4) [OF D(1) that] by simp
  show ?thesis
  proof (cases rest rule: rev_cases)
    case Nil
    then have e: "parent_path par path z = ?P" "rank z = c" using pz path by auto
    have "par z = par p"
    proof (cases "par z")
      case None
      then show ?thesis using e(1) ne par_p by (cases "par p") (force simp: parent_path_def)+
    next
      case (Some m)
      then have m: "m \<in> set ps" "path m = ?P" using placedD(4) [OF pl Some] e(1) by (auto simp: parent_path_def)
      then obtain m' where "par p = Some m'" "m' \<in> set ps" "path m' = path m"
        using ne [OF m(1)] par_p by (cases "par p") (auto simp: parent_path_def)
      then show ?thesis using Some m(1) D(5) by (auto dest: inj_onD)
    qed
    then show ?thesis using Nil e by simp
  next
    case (snoc rest' y)
    then have e: "parent_path par path z = ?P @ c # rest'" using pz path by auto
    then obtain m where m: "par z = Some m" "path m = ?P @ c # rest'"
      by (auto simp: parent_path_def split: option.splits)
    have "par z \<noteq> par p"
    proof
      assume "par z = par p"
      then have "par p = Some m" using m by simp
      then show False using m(2) by (simp add: parent_path_def)
    qed
    moreover have "path m < path z" using m(2) path snoc by simp
    ultimately show ?thesis using m snoc placedD(4) [OF pl m(1)] by auto
  qed
qed

lemma beneath_child:
  assumes st: "yata_step by_id h par sib path rank ps p"
  shows "z \<in> set ps \<Longrightarrow> path z = parent_path par path p @ c # rest \<Longrightarrow>
    \<exists>w \<in> set ps. par w = par p \<and> rank w = c \<and> path w = parent_path par path p @ [c]"
proof (induction "length rest" arbitrary: z rest rule: less_induct)
  case less
  from beneath_cases [OF st less.prems] consider
    "rest = []" "par z = par p" "rank z = c" |
    m rest' where "m \<in> set ps" "path m = parent_path par path p @ c # rest'" "length rest' < length rest"
    by blast
  then show ?case
  proof cases
    case 1
    then show ?thesis using less.prems by blast
  next
    case 2
    then show ?thesis using less.hyps by blast
  qed
qed

section \<open>The conflict scan\<close>

text \<open>Against its siblings the key of the new item decides by client alone.\<close>

lemma yata_key:
  assumes st: "yata_step by_id h par sib path rank ps p" and q: "q \<in> set ps"
  shows "item_key (h q) < item_key (h p) \<longleftrightarrow> id_client (it_id (h q)) < id_client (it_id (h p))"
    and "item_key (h q) \<noteq> item_key (h p)"
proof -
  note y = yata_stepD(6) [OF st q]
  show "item_key (h q) < item_key (h p) \<longleftrightarrow> id_client (it_id (h q)) < id_client (it_id (h p))"
    using y by (cases "id_client (it_id (h q)) = id_client (it_id (h p))")
      (auto simp: item_key_def word_less_def less_prod_def word_uint_eq_iff)
  show "item_key (h q) \<noteq> item_key (h p)"
    using y by (auto simp: item_key_def word_uint_eq_iff word_less_def)
qed

text \<open>The key of an item is the last but one of its rank; the keys below it are smaller.\<close>

lemma placed_rank:
  assumes "placed by_id h par sib path rank S q"
  obtains v where "rank q = v @ [item_key (h q), key_top]" "\<forall>a \<in> set v. a < item_key (h q)"
proof -
  define t where "t = (case sib q of None \<Rightarrow> [key_top] | Some r \<Rightarrow> rank r)"
  have "rank q = takeWhile (\<lambda>k. k < item_key (h q)) t @ [item_key (h q), key_top]"
    using placedD(2) [OF assms] by (simp add: climb_def t_def)
  then show ?thesis by (rule that) (auto dest: set_takeWhileD)
qed

text \<open>A sibling of smaller client in front of the right origin belongs in front of the new item.\<close>

lemma small_sibling_less:
  assumes st: "yata_step by_id h par sib path rank ps p" and w: "w \<in> set ps" "par w = par p"
    and client: "id_client (it_id (h w)) < id_client (it_id (h p))"
    and r: "\<And>r. sib p = Some r \<Longrightarrow> path w < path r"
  shows "rank w < rank p"
proof -
  note D = yata_stepD [OF st]
  have pl: "placed by_id h par sib path rank (set ps) w" and pp: "placed by_id h par sib path rank (set ps) p"
    using D(1) w(1) by blast+
  obtain v where v: "rank w = v @ [item_key (h w), key_top]" "\<forall>a \<in> set v. a < item_key (h w)"
    by (rule placed_rank [OF pl])
  have k: "item_key (h w) < item_key (h p)" using yata_key(1) [OF st w(1)] client by simp
  define t where "t = (case sib p of None \<Rightarrow> [key_top] | Some r \<Rightarrow> rank r)"
  have t: "rank_ok t \<and> rank w < t"
  proof (cases "sib p")
    case None
    have "v @ item_key (h w) # [key_top] < [key_top]"
      using v(2) by (cases v) (auto intro: less_trans)
    then show ?thesis using None v(1) by (simp add: t_def)
  next
    case (Some r)
    note r' = placedD(5) [OF pp Some]
    have plr: "placed by_id h par sib path rank (set ps) r" and "rank_ok (rank r)" using D(1,2) r' by blast+
    moreover have "rank w < rank r"
      using r [OF Some] placedD(1) [OF pl] placedD(1) [OF plr] r' w(2) by (simp add: parent_path_def)
    ultimately show ?thesis using Some by (simp add: t_def)
  qed
  have "(v @ [item_key (h w)]) @ [key_top] < climb (item_key (h p)) t"
    by (rule less_climb) (use v t k in \<open>auto intro: less_trans\<close>)
  then show ?thesis using v(1) placedD(2) [OF pp] by (simp add: t_def)
qed

text \<open>The right origin, a sibling with the same one, and what is not beneath the parent come later.\<close>

lemma right_origin_greater:
  assumes st: "yata_step by_id h par sib path rank ps p" and r: "r \<in> set ps"
    and right: "origin_ptr by_id (it_origin_right (h p)) = Some r" and lo: "parent_path par path p < path r"
  shows "path p < path r"
proof -
  note D = yata_stepD [OF st]
  have pp: "placed by_id h par sib path rank (set ps) p" and pr: "placed by_id h par sib path rank (set ps) r"
    using D(1) r by blast+
  show ?thesis
  proof (cases "sib p")
    case None
    then have "\<not> beneath (parent_path par path p) (path r)"
      using placedD(6) [OF pp None] right by (auto simp: origin_ptr_def is_valid_def split: if_splits)
    then show ?thesis using less_not_prefix [OF lo] placedD(1) [OF pp] by (metis beneath_def)
  next
    case (Some s)
    then have s: "s = r" "par r = par p" using placedD(5) [OF pp Some] right by (auto simp: origin_ptr_def)
    have "item_key (h p) \<notin> set (rank r)"
    proof
      assume "item_key (h p) \<in> set (rank r)"
      then obtain a b where "rank r = a @ item_key (h p) # b" by (meson split_list)
      then obtain w where "w \<in> set ps" "item_key (h w) = item_key (h p)"
        using D(7) [OF r] less_irrefl [of key_top] item_key_less_top [of "h p"] by metis
      then show False using yata_key(2) [OF st] by blast
    qed
    then have "rank p < rank r"
      using placedD(2) [OF pp] Some s climb_less [OF D(2) _ item_key_less_top] r by simp
    then show ?thesis using placedD(1) [OF pp] placedD(1) [OF pr] s(2) by (simp add: parent_path_def)
  qed
qed

lemma same_right_greater:
  assumes st: "yata_step by_id h par sib path rank ps p" and o: "o' \<in> set ps" "par o' = par p"
    and right: "it_origin_right (h o') = it_origin_right (h p)"
    and client: "\<not> id_client (it_id (h o')) < id_client (it_id (h p))"
  shows "path p < path o'"
proof -
  note D = yata_stepD [OF st]
  have pp: "placed by_id h par sib path rank (set ps) p" and po: "placed by_id h par sib path rank (set ps) o'"
    using D(1) o by blast+
  have s: "sib o' = sib p" by (rule placed_right_eq [OF D(1) po pp o(2) right]) simp
  have k: "item_key (h p) < item_key (h o')" using yata_key [OF st o(1)] client by auto
  define t where "t = (case sib p of None \<Rightarrow> [key_top] | Some r \<Rightarrow> rank r)"
  have "item_key (h p) \<notin> set t"
  proof
    assume a: "item_key (h p) \<in> set t"
    show False
    proof (cases "sib p")
      case None
      then show False using a item_key_less_top [of "h p"] by (simp add: t_def)
    next
      case (Some r)
      then obtain x y where xy: "rank r = x @ item_key (h p) # y" using a by (auto simp: t_def dest: split_list)
      have "r \<in> set ps" using placedD(5) [OF pp Some] by simp
      then obtain w where "w \<in> set ps" "item_key (h w) = item_key (h p)"
        using D(7) [OF _ xy] less_irrefl [of key_top] item_key_less_top [of "h p"] by metis
      then show False using yata_key(2) [OF st] by blast
    qed
  qed
  then have "rank p < rank o'"
    using climb_mono [OF k] placedD(2) [OF pp] placedD(2) [OF po] s by (simp add: t_def)
  then show ?thesis using placedD(1) [OF pp] placedD(1) [OF po] o(2) by (simp add: parent_path_def)
qed

text \<open>What stays in front of the new item, stays in front of a sibling of smaller client that does.\<close>

lemma small_sibling_above:
  assumes st: "yata_step by_id h par sib path rank ps p" and z: "z \<in> set ps"
    and path: "path z = parent_path par path p @ c # rest" and lt: "path z < path p"
  shows "\<exists>w \<in> set ps. par w = par p \<and> id_client (it_id (h w)) < id_client (it_id (h p)) \<and> c \<le> rank w \<and>
    rank w < rank p"
proof -
  note D = yata_stepD [OF st]
  have pp: "placed by_id h par sib path rank (set ps) p" using D(1) by blast
  obtain u where u: "u \<in> set ps" "par u = par p" "rank u = c" "path u = parent_path par path p @ [c]"
    using beneath_child [OF st z path] by blast
  have "path u \<noteq> path p" using inj_onD [OF D(5), of u p] D(4) u(1) by auto
  then have "c < rank p" using lt path u(4) placedD(1) [OF pp] by (auto simp: not_less)
  have pu: "placed by_id h par sib path rank (set ps) u" and ok: "rank_ok (rank u)" using D(1,2) u(1) by blast+
  obtain v where v: "rank u = v @ [item_key (h u), key_top]" by (rule placed_rank [OF pu])
  define v' where "v' = v @ [item_key (h u)]"
  have c: "c = v' @ [key_top]" using v u(3) by (simp add: v'_def)
  have new: "item_key (h p) \<notin> set v'"
  proof
    assume "item_key (h p) \<in> set v'"
    then obtain a b where "rank u = a @ item_key (h p) # b" using c u(3) by (auto dest: split_list)
    then obtain w where "w \<in> set ps" "item_key (h w) = item_key (h p)"
      using D(7) [OF u(1)] less_irrefl [of key_top] item_key_less_top [of "h p"] by metis
    then show False using yata_key(2) [OF st] by blast
  qed
  have "rank_ok (v' @ [key_top])" "v' @ [key_top] < climb (item_key (h p)) (case sib p of None \<Rightarrow> [key_top] | Some r \<Rightarrow> rank r)"
    using ok \<open>c < rank p\<close> placedD(2) [OF pp] c u(3) by simp_all
  from below_climb [OF this new item_key_less_top] obtain a k' b where w: "v' = a @ k' # b" "k' < item_key (h p)"
    "c \<le> a @ [k', key_top]" "a @ [k', key_top] < rank p"
    using placedD(2) [OF pp] c by metis
  have "rank u = a @ k' # b @ [key_top]" "k' \<noteq> key_top"
    using w(1,2) c u(3) less_trans [OF w(2) item_key_less_top] by auto
  from D(7) [OF u(1) this] obtain w' where w': "w' \<in> set ps" "par w' = par u" "rank w' = a @ [k', key_top]" "item_key (h w') = k'"
    by blast
  then show ?thesis using w yata_key(1) [OF st w'(1)] u(2) by (intro bexI [of _ w']) auto
qed

text \<open>
  A scan in progress: it has seen \<open>A @ conf\<close> and would put the item behind \<open>A\<close>.  What is in \<open>A\<close> does
  not lie behind the subtrees of the siblings of smaller clients seen so far; what is in \<open>conf\<close> does.
\<close>

definition small_sibling :: "item_heap \<Rightarrow> (addr \<Rightarrow> addr option) \<Rightarrow> addr \<Rightarrow> addr \<Rightarrow> bool" where
  "small_sibling h par p w \<longleftrightarrow> par w = par p \<and> id_client (it_id (h w)) < id_client (it_id (h p))"

definition scanned ::
    "item_heap \<Rightarrow> (addr \<Rightarrow> addr option) \<Rightarrow> (addr \<Rightarrow> path) \<Rightarrow> (addr \<Rightarrow> rank) \<Rightarrow> addr option \<Rightarrow> addr \<Rightarrow>
     addr list \<Rightarrow> addr list \<Rightarrow> bool" where
  "scanned h par path rank right p A conf \<longleftrightarrow>
     (let P = parent_path par path p; branch = (\<lambda>z. path z ! length P) in
      (\<forall>z \<in> set (A @ conf). beneath P (path z) \<and> Some z \<noteq> right) \<and>
      (\<forall>z \<in> set A. \<exists>w \<in> set (A @ conf). small_sibling h par p w \<and> branch z \<le> rank w) \<and>
      (\<forall>z \<in> set conf. \<forall>w \<in> set (A @ conf). small_sibling h par p w \<longrightarrow> rank w < branch z))"

lemma scannedD:
  assumes "scanned h par path rank right p A conf"
  shows "z \<in> set (A @ conf) \<Longrightarrow> beneath (parent_path par path p) (path z)"
    and "z \<in> set (A @ conf) \<Longrightarrow> Some z \<noteq> right"
    and "z \<in> set A \<Longrightarrow> \<exists>w \<in> set (A @ conf). small_sibling h par p w \<and> path z ! length (parent_path par path p) \<le> rank w"
    and "z \<in> set conf \<Longrightarrow> w \<in> set (A @ conf) \<Longrightarrow> small_sibling h par p w \<Longrightarrow>
      rank w < path z ! length (parent_path par path p)"
  using assms unfolding scanned_def Let_def by blast+

lemma scanned_Nil [simp]: "scanned h par path rank right p [] []"
  by (simp add: scanned_def)

lemma beneath_branch:
  assumes "beneath P Q"
  obtains rest where "Q = P @ (Q ! length P) # rest"
  using assms by (auto simp: beneath_def nth_append)

lemma branch_mono: "beneath P Q \<Longrightarrow> beneath P R \<Longrightarrow> Q < R \<Longrightarrow> Q ! length P \<le> R ! length P"
  by (auto simp: beneath_def nth_append)

lemma placed_branch:
  assumes "placed by_id h par sib path rank S w" and "par w = par p"
  shows "beneath (parent_path par path p) (path w)" and "path w ! length (parent_path par path p) = rank w"
  using placedD(1) [OF assms(1)] assms(2) by (simp_all add: parent_path_def beneath_def)

text \<open>When nothing that is left belongs in front of the new item, the scan has found its place.\<close>

lemma scanned_done:
  assumes st: "yata_step by_id h par sib path rank ps p" and ps: "ps = xs @ A @ conf @ todo"
    and xs: "\<And>q. q \<in> set xs \<Longrightarrow> path q \<le> parent_path par path p"
    and ys: "\<And>q. q \<in> set (A @ conf @ todo) \<Longrightarrow> parent_path par path p < path q"
    and right: "right = origin_ptr by_id (it_origin_right (h p))"
    and sc: "scanned h par path rank right p A conf" and todo: "\<And>q. q \<in> set todo \<Longrightarrow> path p < path q"
  shows "takeWhile (\<lambda>q. path q < path p) (A @ conf @ todo) = A"
proof -
  note D = yata_stepD [OF st]
  let ?P = "parent_path par path p"
  have pl: "placed by_id h par sib path rank (set ps) q" if "q \<in> insert p (set ps)" for q using D(1) that by blast
  have pp: "path p = ?P @ [rank p]" using placedD(1) [OF pl] by blast
  have A: "path z < path p" if z: "z \<in> set A" for z
  proof -
    obtain w where w: "w \<in> set (A @ conf)" "small_sibling h par p w" "path z ! length ?P \<le> rank w"
      using scannedD(3) [OF sc z] by blast
    have wp: "w \<in> set ps" "par w = par p" "id_client (it_id (h w)) < id_client (it_id (h p))"
      using w ps by (auto simp: small_sibling_def)
    have "path w < path r" if r: "sib p = Some r" for r
    proof -
      note r' = placedD(5) [OF pl r, simplified]
      have "?P < path r" using placed_branch(1) [OF pl, of r p] r' by (auto simp: beneath_def)
      then have "r \<notin> set xs" using xs by force
      moreover have "r \<notin> set (A @ conf)" using scannedD(2) [OF sc] r' right by (auto simp: origin_ptr_def)
      ultimately have "r \<in> set todo" using r' ps by auto
      then show ?thesis using D(3) ps w(1) by (auto simp: sorted_wrt_append)
    qed
    then have "rank w < rank p" using small_sibling_less [OF st wp] by blast
    then have "path z ! length ?P < rank p" using w(3) by (rule le_less_trans [rotated])
    moreover have "beneath ?P (path z)" using scannedD(1) [OF sc, of z] z by simp
    then obtain rest where "path z = ?P @ (path z ! length ?P) # rest" by (rule beneath_branch)
    ultimately show ?thesis using pp by (metis append_less_cancel list_less_def Cons_less_Cons)
  qed
  have conf: "\<not> path z < path p" if z: "z \<in> set conf" for z
  proof
    assume lt: "path z < path p"
    have "beneath ?P (path z)" using scannedD(1) [OF sc, of z] z by simp
    then obtain rest where rest: "path z = ?P @ (path z ! length ?P) # rest" by (rule beneath_branch)
    have "z \<in> set ps" using z ps by simp
    from small_sibling_above [OF st this rest lt] obtain w where w: "w \<in> set ps" "par w = par p"
      "id_client (it_id (h w)) < id_client (it_id (h p))" "path z ! length ?P \<le> rank w" "rank w < rank p" by blast
    have pw: "path w = ?P @ [rank w]" using placedD(1) [OF pl, of w] w(1,2) by (simp add: parent_path_def)
    have "w \<notin> set xs" using xs [of w] pw by auto
    moreover have "w \<notin> set todo" using todo [of w] pw pp w(5) by auto
    ultimately have "w \<in> set (A @ conf)" using w(1) ps by auto
    then have "rank w < path z ! length ?P" using scannedD(4) [OF sc z] w(2,3) by (simp add: small_sibling_def)
    then show False using w(4) by simp
  qed
  have "takeWhile (\<lambda>q. path q < path p) (conf @ todo) = []"
    using conf todo by (cases "conf @ todo") (force simp: append_eq_Cons_conv)+
  then show ?thesis using A by (simp add: takeWhile_append2)
qed

text \<open>The three ways in which the scan goes on.\<close>

lemma scanned_small:
  assumes sc: "scanned h par path rank right p A conf"
    and z: "beneath (parent_path par path p) (path z)" "Some z \<noteq> right" "small_sibling h par p z"
      "path z ! length (parent_path par path p) = rank z"
    and before: "\<And>q. q \<in> set (A @ conf) \<Longrightarrow> path q < path z"
  shows "scanned h par path rank right p (A @ conf @ [z]) []"
proof -
  have "path q ! length (parent_path par path p) \<le> rank z" if "q \<in> set (A @ conf)" for q
    using branch_mono [OF scannedD(1) [OF sc that] z(1) before [OF that]] z(4) by simp
  then show ?thesis using scannedD(1,2) [OF sc] z unfolding scanned_def Let_def by auto
qed

lemma scanned_conf:
  assumes sc: "scanned h par path rank right p A conf"
    and z: "beneath (parent_path par path p) (path z)" "Some z \<noteq> right" "\<not> small_sibling h par p z"
    and above: "\<And>w. w \<in> set (A @ conf) \<Longrightarrow> small_sibling h par p w \<Longrightarrow>
      rank w < path z ! length (parent_path par path p)"
  shows "scanned h par path rank right p A (conf @ [z])"
  using sc z above unfolding scanned_def Let_def by auto

lemma scanned_deep:
  assumes sc: "scanned h par path rank right p A conf"
    and z: "beneath (parent_path par path p) (path z)" "Some z \<noteq> right"
    and m: "m \<in> set A" "path m ! length (parent_path par path p) = path z ! length (parent_path par path p)"
    and before: "\<And>q. q \<in> set (A @ conf) \<Longrightarrow> path q < path z"
  shows "scanned h par path rank right p (A @ conf @ [z]) []"
proof -
  obtain w where w: "w \<in> set (A @ conf)" "small_sibling h par p w" "path m ! length (parent_path par path p) \<le> rank w"
    using scannedD(3) [OF sc m(1)] by blast
  have "path q ! length (parent_path par path p) \<le> rank w" if "q \<in> set (A @ conf)" for q
    using branch_mono [OF scannedD(1) [OF sc that] z(1) before [OF that]] w(3) m(2) by simp
  moreover have "path z ! length (parent_path par path p) \<le> rank w" using w(3) m(2) by simp
  ultimately show ?thesis using scannedD(1,2) [OF sc] z w(1,2) unfolding scanned_def Let_def by auto
qed

text \<open>The scan finds the place of the new item's path.\<close>

lemma scan_sorted:
  assumes st: "yata_step by_id h par sib path rank ps p" and ps: "ps = xs @ ys"
    and xs: "\<And>q. q \<in> set xs \<Longrightarrow> path q \<le> parent_path par path p"
    and ys: "\<And>q. q \<in> set ys \<Longrightarrow> parent_path par path p < path q" and small: "length ys \<le> kMaxConflict"
    and right: "right = origin_ptr by_id (it_origin_right (h p))"
  shows "ys = (A @ conf) @ todo \<Longrightarrow> scanned h par path rank right p A conf \<Longrightarrow> chain h cur todo \<Longrightarrow>
    ya_scan by_id h p right cur (last_of None (xs @ A)) (A @ conf) conf =
      Inr (last_of None (xs @ takeWhile (\<lambda>q. path q < path p) ys))"
proof (induction todo arbitrary: A conf cur)
  case Nil
  then have "takeWhile (\<lambda>q. path q < path p) ys = A"
    using scanned_done [OF st, of xs A conf "[]"] ps xs ys right by simp
  then show ?case using Nil.prems by (simp add: ya_scan.simps)
next
  case (Cons z todo)
  note D = yata_stepD [OF st]
  let ?P = "parent_path par path p"
  have pl: "placed by_id h par sib path rank (set ps) q" if "q \<in> insert p (set ps)" for q using D(1) that by blast
  have pp: "path p = ?P @ [rank p]" using placedD(1) [OF pl] by blast
  have len: "length (A @ conf) < kMaxConflict" using small Cons.prems(1) by simp
  have cur: "cur = Some z" and rest: "chain h (it_right (h z)) todo" using Cons.prems(3) by auto
  have zps: "z \<in> set ps" and lo: "?P < path z" using ps Cons.prems(1) ys by auto
  have before: "path q < path z" if "q \<in> set (A @ conf)" for q
    using D(3) ps Cons.prems(1) that by (auto simp: sorted_wrt_append)
  have after: "path z \<le> path q" if "q \<in> set (z # todo)" for q
    using D(3) ps Cons.prems(1) that by (auto simp: sorted_wrt_append)
  have stop: "Inr (last_of None (xs @ A)) = Inr (last_of None (xs @ takeWhile (\<lambda>q. path q < path p) ys))"
    if "path p < path z"
    using scanned_done [OF st, of xs A conf "z # todo" right] ps Cons.prems(1,2) xs ys right that after
    by (force intro: less_le_trans)
  have origin: "it_origin_left (h z) = it_origin_left (h p) \<longleftrightarrow> par z = par p"
    by (rule placed_origin_eq) (use pl zps in auto)
  have next1: "ya_scan by_id h p right (it_right (h z)) (Some z) ((A @ conf) @ [z]) [] =
      Inr (last_of None (xs @ takeWhile (\<lambda>q. path q < path p) ys))"
    if "scanned h par path rank right p (A @ conf @ [z]) []"
  proof -
    have "last_of None (xs @ A @ conf @ [z]) = Some z" by (simp add: last_of_def)
    then show ?thesis using Cons.IH [of "A @ conf @ [z]" "[]", OF _ that rest] Cons.prems(1) by simp
  qed
  have next2: "ya_scan by_id h p right (it_right (h z)) (last_of None (xs @ A)) ((A @ conf) @ [z]) (conf @ [z]) =
      Inr (last_of None (xs @ takeWhile (\<lambda>q. path q < path p) ys))"
    if "scanned h par path rank right p A (conf @ [z])"
    using Cons.IH [of A "conf @ [z]", OF _ that rest] Cons.prems(1) by simp
  show ?case
  proof (cases "Some z = right")
    case True
    have "path p < path z"
      by (rule right_origin_greater [OF st zps _ lo]) (use True right in simp)
    then show ?thesis using stop cur by (subst ya_scan.simps) (simp add: True [symmetric])
  next
    case ne: False
    show ?thesis
    proof (cases "beneath ?P (path z)")
      case out: False
      have "path p < path z" using less_not_prefix [OF lo] out pp by (metis beneath_def)
      moreover have "par z \<noteq> par p" using placed_branch(1) [OF pl] zps out by blast
      moreover have "m \<notin> set (A @ conf @ [z])" if m: "par z = Some m" for m
      proof
        assume "m \<in> set (A @ conf @ [z])"
        then have "beneath ?P (path m) \<or> m = z" using scannedD(1) [OF Cons.prems(2)] by auto
        moreover have "path z = path m @ [rank z]" using placedD(1) [OF pl] zps m by (simp add: parent_path_def)
        ultimately show False using out by (auto simp: beneath_def)
      qed
      moreover have "is_valid (it_origin_left (h z)) \<Longrightarrow> \<exists>m. par z = Some m \<and> by_id (it_origin_left (h z)) = Some m"
        using placedD(3,4) [OF pl, of z] zps by (cases "par z") (auto simp: is_valid_def)
      ultimately show ?thesis using stop ne cur len origin by (subst ya_scan.simps) (auto simp: Let_def)
    next
      case ben: True
      then obtain r where zr: "path z = ?P @ (path z ! length ?P) # r" by (rule beneath_branch)
      show ?thesis
      proof (cases "par z = par p")
        case sib: True
        have br: "path z ! length ?P = rank z" using placed_branch(2) [OF pl] zps sib by blast
        show ?thesis
        proof (cases "id_client (it_id (h z)) < id_client (it_id (h p))")
          case True
          then have "scanned h par path rank right p (A @ conf @ [z]) []"
            using sib by (intro scanned_small [OF Cons.prems(2) ben ne _ br before]) (auto simp: small_sibling_def)
          then show ?thesis using next1 True sib ne cur len origin by (subst ya_scan.simps) (simp add: Let_def)
        next
          case large: False
          show ?thesis
          proof (cases "it_origin_right (h z) = it_origin_right (h p)")
            case True
            have "path p < path z" by (rule same_right_greater [OF st zps sib True large])
            then show ?thesis using stop large True sib ne cur len origin by (subst ya_scan.simps) (simp add: Let_def)
          next
            case False
            have "rank w < path z ! length ?P" if w: "w \<in> set (A @ conf)" "small_sibling h par p w" for w
            proof -
              have "path w = ?P @ [rank w]"
                using placedD(1) [OF pl, of w] w ps Cons.prems(1) by (auto simp: parent_path_def small_sibling_def)
              moreover have "path z = ?P @ [rank z]" using placedD(1) [OF pl, of z] zps sib by (simp add: parent_path_def)
              ultimately show ?thesis using before [OF w(1)] br by auto
            qed
            then have "scanned h par path rank right p A (conf @ [z])"
              using large by (intro scanned_conf [OF Cons.prems(2) ben ne]) (auto simp: small_sibling_def)
            then show ?thesis using next2 large False sib ne cur len origin by (subst ya_scan.simps) (simp add: Let_def)
          qed
        qed
      next
        case deep: False
        then obtain m r' where m: "m \<in> set ps" "par z = Some m" "path m = ?P @ (path z ! length ?P) # r'" "path m < path z"
          using beneath_cases [OF st zps zr] by blast
        have "m \<notin> set xs" using xs [of m] unfolding m(3) by auto
        moreover have "m \<notin> set (z # todo)" using after m(4) by force
        ultimately have mdone: "m \<in> set (A @ conf)" using m(1) ps Cons.prems(1) by auto
        have br: "path m ! length ?P = path z ! length ?P" using m(3) by (metis nth_append_length)
        have id: "by_id (it_origin_left (h z)) = Some m" "is_valid (it_origin_left (h z))"
          using placedD(4) [OF pl, of z m] zps m(2) by auto
        have mz: "m \<noteq> z" using m(4) by auto
        show ?thesis
        proof (cases "m \<in> set conf")
          case True
          have "rank w < path z ! length ?P" if "w \<in> set (A @ conf)" "small_sibling h par p w" for w
            using scannedD(4) [OF Cons.prems(2) True that] br by simp
          then have "scanned h par path rank right p A (conf @ [z])"
            using deep by (intro scanned_conf [OF Cons.prems(2) ben ne]) (auto simp: small_sibling_def)
          then show ?thesis using next2 True deep ne cur len origin id by (subst ya_scan.simps) (auto simp: Let_def)
        next
          case False
          then have "m \<in> set A" using mdone by simp
          then have "scanned h par path rank right p (A @ conf @ [z]) []"
            by (rule scanned_deep [OF Cons.prems(2) ben ne _ br before])
          then show ?thesis using next1 False mdone mz deep ne cur len origin id
            by (subst ya_scan.simps) (auto simp: Let_def)
        qed
      qed
    qed
  qed
qed

section \<open>Integration\<close>

text \<open>Insertion by path.\<close>

definition path_insert :: "(addr \<Rightarrow> path) \<Rightarrow> addr \<Rightarrow> addr list \<Rightarrow> addr list" where
  "path_insert path p ps = takeWhile (\<lambda>q. path q < path p) ps @ p # dropWhile (\<lambda>q. path q < path p) ps"

lemma path_insert_append:
  "(\<And>q. q \<in> set xs \<Longrightarrow> path q < path p) \<Longrightarrow> path_insert path p (xs @ ys) = xs @ path_insert path p ys"
  by (simp add: path_insert_def takeWhile_append2 dropWhile_append2)

lemma path_insert_sorted:
  assumes "sorted_wrt (\<lambda>q r. path q < path r) ps" and "\<And>q. q \<in> set ps \<Longrightarrow> path q \<noteq> path p"
  shows "sorted_wrt (\<lambda>q r. path q < path r) (path_insert path p ps)"
    and "set (path_insert path p ps) = insert p (set ps)"
proof -
  obtain xs ys where *: "ps = xs @ ys" "\<And>q. q \<in> set xs \<Longrightarrow> path q \<le> path p" "\<And>q. q \<in> set ys \<Longrightarrow> path p < path q"
    by (rule sorted_wrt_split [OF assms(1), of "path p"]) (rule that)
  have lt: "q \<in> set xs \<Longrightarrow> path q < path p" for q using *(2) assms(2) by (force simp: *(1))
  have "path_insert path p ys = p # ys"
  proof (cases ys)
    case (Cons y ys')
    then have "\<not> path y < path p" using *(3) [of y] by simp
    then show ?thesis using Cons by (simp add: path_insert_def)
  qed (simp add: path_insert_def)
  then have eq: "path_insert path p ps = xs @ p # ys" using path_insert_append [of xs path p ys] lt *(1) by simp
  have "sorted_wrt (\<lambda>q r. path q < path r) (xs @ p # ys)"
    using assms(1) [unfolded *(1)] lt *(3) by (auto simp: sorted_wrt_append)
  then show "sorted_wrt (\<lambda>q r. path q < path r) (path_insert path p ps)" using eq by simp
  show "set (path_insert path p ps) = insert p (set ps)" using eq *(1) by auto
qed

lemma ya_integrate_path_insert:
  assumes l: "dll h start ps" and st: "yata_step (\<lambda>i. ss_find_by_id E h i ss) h par sib path rank ps p"
    and small: "length ps \<le> kMaxConflict" and run: "ya_integrate E ss p (h, start) = (r, h', start')"
  shows "r = Inr ()" and "dll h' start' (path_insert path p ps)" and "same_content (h' q) (h q)"
    and "q \<notin> insert p (set ps) \<Longrightarrow> h' q = h q"
proof -
  let ?by_id = "\<lambda>i. ss_find_by_id E h i ss" and ?P = "parent_path par path p"
  note D = yata_stepD [OF st]
  have pl: "placed ?by_id h par sib path rank (set ps) q" if "q \<in> insert p (set ps)" for q using D(1) that by blast
  have ne: "path q \<noteq> []" if "q \<in> set ps" for q using placedD(1) [OF pl] that by (metis insertCI snoc_eq_iff_butlast)
  obtain xs ys where s: "ps = xs @ ys" "\<And>q. q \<in> set xs \<Longrightarrow> path q \<le> ?P" "\<And>q. q \<in> set ys \<Longrightarrow> ?P < path q"
    by (rule sorted_wrt_split [OF D(3), of "?P"]) (rule that)
  have "path p = ?P @ [rank p]" by (rule placedD(1) [OF pl]) simp
  then have Pp: "?P < path p" using less_append by metis
  have left: "origin_ptr ?by_id (it_origin_left (h p)) = last_of None xs"
  proof (cases "par p")
    case None
    then have "?P = []" by (simp add: parent_path_def)
    then have "xs = []" using s(1,2) ne by (cases xs) force+
    then show ?thesis using placedD(3) [OF pl None] by (simp add: origin_ptr_def is_valid_def)
  next
    case (Some m)
    then have m: "m \<in> set ps" "?P = path m" "origin_ptr ?by_id (it_origin_left (h p)) = Some m"
      using placedD(4) [OF pl Some] by (auto simp: parent_path_def origin_ptr_def)
    then have mx: "m \<in> set xs" using s(1,3) by force
    then obtain x l where x: "xs = x @ [l]" by (cases xs rule: rev_cases) auto
    have "path l \<le> path m" using s(2) [of l] x m(2) by simp
    then have "m \<notin> set x" using D(3) s(1) x by (auto simp: sorted_wrt_append)
    then show ?thesis using m(3) mx x by simp
  qed
  define right where "right = origin_ptr ?by_id (it_origin_right (h p))"
  define cur where "cur = (case last_of None xs of None \<Rightarrow> start | Some l \<Rightarrow> it_right (h l))"
  have c: "chain h cur ys" unfolding cur_def by (rule chain_append) (use dll_chain [OF l] s(1) in simp)
  let ?A = "takeWhile (\<lambda>q. path q < path p) ys"
  have scan: "ya_scan ?by_id h p right cur (last_of None xs) [] [] = Inr (last_of None (xs @ ?A))"
    using scan_sorted [OF st s _ right_def, of "[]" "[]" ys cur] small s(1) c by simp
  have "(r, h', start') = (Inr (), ya_splice p (last_of None (xs @ ?A)) (h, start))"
    using run left scan unfolding ya_integrate_def origin_ptr_def cur_def right_def by (simp add: Let_def)
  then have sp: "r = Inr ()" "ya_splice p (last_of None (xs @ ?A)) (h, start) = (h', start')" by auto
  have split: "ps = (xs @ ?A) @ dropWhile (\<lambda>q. path q < path p) ys" using s(1) by simp
  have "xs @ path_insert path p ys = path_insert path p ps"
    unfolding s(1) by (rule path_insert_append [symmetric]) (use s(2) Pp in force)
  then have ins: "(xs @ ?A) @ p # dropWhile (\<lambda>q. path q < path p) ys = path_insert path p ps"
    by (simp add: path_insert_def)
  note spl = ya_splice_spec [OF l [unfolded split] D(4) [unfolded split] sp(2)]
  have "set ((xs @ ?A) @ p # dropWhile (\<lambda>q. path q < path p) ys) =
      insert p (set ((xs @ ?A) @ dropWhile (\<lambda>q. path q < path p) ys))"
    by (simp only: set_append list.set) blast
  also have "\<dots> = insert p (set ps)" by (simp only: split [symmetric])
  finally have set_eq: "set ((xs @ ?A) @ p # dropWhile (\<lambda>q. path q < path p) ys) = insert p (set ps)" .
  show "r = Inr ()" by (rule sp(1))
  show "dll h' start' (path_insert path p ps)" using spl(1) unfolding ins .
  show "same_content (h' q) (h q)" by (rule spl(2))
  show "q \<notin> insert p (set ps) \<Longrightarrow> h' q = h q" using spl(3) [of q] unfolding set_eq .
qed

end
