(* ===== verification/Ycpp_Forest.thy ===== *)
theory Ycpp_Forest
  imports Ycpp_Yata
begin

text \<open>
  Ranks and paths of items, from the items alone.  \<open>rank_rel S x t\<close> and \<open>path_rel S x P\<close>: in the set
  \<open>S\<close> of items, \<open>t\<close> is the rank of \<open>x\<close> among its siblings and \<open>P\<close> its path in the forest of left
  origins.  Both depend on nothing but the identifiers and the origins of the items, so that all
  replicas agree on them.
\<close>

section \<open>Items and their paths\<close>

definition strip :: "item \<Rightarrow> item" where
  "strip x = x\<lparr>it_left := None, it_right := None\<rparr>"

lemma strip_simps [simp]:
  "it_id (strip x) = it_id x" "it_origin_left (strip x) = it_origin_left x" "it_length (strip x) = it_length x"
  "it_origin_right (strip x) = it_origin_right x" "item_key (strip x) = item_key x" "last_id (strip x) = last_id x"
  "it_content_view (strip x) = it_content_view x" "deleted (strip x) = deleted x"
  by (simp_all add: strip_def item_key_def last_id_def deleted_def)

lemma same_content_strip: "same_content x y \<longleftrightarrow> strip x = strip y"
  by (simp add: same_content_def strip_def)

text \<open>A right origin that is not a sibling bounds the siblings on the right.\<close>

definition outer :: "item set \<Rightarrow> item \<Rightarrow> bool" where
  "outer S x \<longleftrightarrow> it_origin_right x = kInvalidId \<or> is_valid (it_origin_right x) \<and>
     (\<exists>r \<in> S. it_origin_right x = it_id r \<and> it_origin_left r \<noteq> it_origin_left x)"

inductive rank_rel :: "item set \<Rightarrow> item \<Rightarrow> rank \<Rightarrow> bool" for S where
  outer: "x \<in> S \<Longrightarrow> outer S x \<Longrightarrow> rank_rel S x (climb (item_key x) [key_top])"
| before: "x \<in> S \<Longrightarrow> is_valid (it_origin_right x) \<Longrightarrow> r \<in> S \<Longrightarrow> it_origin_right x = it_id r \<Longrightarrow>
    it_origin_left r = it_origin_left x \<Longrightarrow> rank_rel S r t \<Longrightarrow> rank_rel S x (climb (item_key x) t)"

inductive_cases rank_relE: "rank_rel S x t"

lemma rank_rel_mono: "rank_rel S x t \<Longrightarrow> S \<subseteq> T \<Longrightarrow> rank_rel T x t"
proof (induction rule: rank_rel.induct)
  case (outer x)
  then have "outer T x" unfolding outer_def by blast
  then show ?case using outer by (auto intro: rank_rel.outer)
next
  case (before x r t)
  then show ?case by (blast intro: rank_rel.before)
qed

lemma rank_rel_ok: "rank_rel S x t \<Longrightarrow> rank_ok t"
  by (induction rule: rank_rel.induct) (simp_all add: rank_ok_climb)

lemma rank_rel_key: "rank_rel S x t \<Longrightarrow> \<exists>v. t = v @ [item_key x, key_top]"
  by (erule rank_relE) (simp_all add: climb_def)

lemma rank_rel_fun: "rank_rel S x t \<Longrightarrow> inj_on it_id S \<Longrightarrow> rank_rel S x u \<Longrightarrow> t = u"
proof (induction arbitrary: u rule: rank_rel.induct)
  case (outer x)
  from outer.prems(2) show ?case
  proof (rule rank_relE)
    fix r t
    assume r: "is_valid (it_id r)" "r \<in> S" "it_origin_right x = it_id r" "it_origin_left r = it_origin_left x"
      "rank_rel S r t"
    then obtain r' where "r' \<in> S" "it_id r' = it_id r" "it_origin_left r' \<noteq> it_origin_left x"
      using outer.hyps(2) by (auto simp: outer_def is_valid_def)
    then show "climb (item_key x) [key_top] = u" using outer.prems(1) r by (auto dest: inj_onD)
  qed simp
next
  case (before x r t)
  from before.prems(2) show ?case
  proof (rule rank_relE)
    assume "outer S x"
    then obtain r' where "r' \<in> S" "it_id r' = it_id r" "it_origin_left r' \<noteq> it_origin_left x"
      using before.hyps(2,4) by (auto simp: outer_def is_valid_def)
    then have False using before.prems(1) before.hyps by (auto dest: inj_onD)
    then show ?thesis ..
  next
    fix r' t'
    assume r': "u = climb (item_key x) t'" "r' \<in> S" "it_origin_right x = it_id r'" "rank_rel S r' t'"
    then have "r' = r" using before.hyps(3,4) before.prems(1) by (auto dest: inj_onD)
    then show ?thesis using before.IH [OF before.prems(1)] r' by simp
  qed
qed

text \<open>Each key in a rank is the key of a sibling, whose rank ends there.\<close>

lemma climb_split:
  assumes "climb k t = a @ k' # b" and "k' \<noteq> key_top"
  shows "a @ [k', key_top] = climb k t \<and> k' = k \<or> (\<exists>b'. t = a @ k' # b')"
proof -
  have "takeWhile (\<lambda>k'. k' < k) t @ [k, key_top] = a @ k' # b" using assms(1) by (simp add: climb_def)
  then have "a = takeWhile (\<lambda>k'. k' < k) t \<and> k' = k \<or> (\<exists>c. takeWhile (\<lambda>k'. k' < k) t = a @ k' # c)"
    using assms(2) by (auto simp: append_eq_append_conv2 Cons_eq_append_conv append_eq_Cons_conv)
  then show ?thesis
  proof
    assume "\<exists>c. takeWhile (\<lambda>k'. k' < k) t = a @ k' # c"
    then obtain c where "takeWhile (\<lambda>k'. k' < k) t = a @ k' # c" ..
    then have "t = a @ k' # c @ dropWhile (\<lambda>k'. k' < k) t"
      using takeWhile_dropWhile_id [of "\<lambda>k'. k' < k" t] by simp
    then show ?thesis by blast
  qed (simp add: climb_def)
qed

lemma rank_rel_prefix: "rank_rel S x t \<Longrightarrow> t = a @ k # b \<Longrightarrow> k \<noteq> key_top \<Longrightarrow>
  \<exists>w \<in> S. it_origin_left w = it_origin_left x \<and> rank_rel S w (a @ [k, key_top]) \<and> item_key w = k"
proof (induction arbitrary: b rule: rank_rel.induct)
  case (outer x)
  from climb_split [OF outer.prems] have "a @ [k, key_top] = climb (item_key x) [key_top] \<and> k = item_key x"
    using outer.prems(2) by (auto simp: Cons_eq_append_conv)
  then show ?case using rank_rel.outer [OF outer.hyps] outer.hyps(1) by metis
next
  case (before x r t)
  from climb_split [OF before.prems] show ?case
  proof
    assume "a @ [k, key_top] = climb (item_key x) t \<and> k = item_key x"
    then show ?thesis using rank_rel.before [OF before.hyps] before.hyps(1) by metis
  next
    assume "\<exists>b'. t = a @ k # b'"
    then obtain b' where "t = a @ k # b'" ..
    from before.IH [OF this before.prems(2)] show ?thesis using before.hyps(5) by simp
  qed
qed

inductive path_rel :: "item set \<Rightarrow> item \<Rightarrow> path \<Rightarrow> bool" for S where
  root: "x \<in> S \<Longrightarrow> \<not> is_valid (it_origin_left x) \<Longrightarrow> rank_rel S x t \<Longrightarrow> path_rel S x [t]"
| child: "x \<in> S \<Longrightarrow> is_valid (it_origin_left x) \<Longrightarrow> m \<in> S \<Longrightarrow> it_origin_left x = last_id m \<Longrightarrow>
    rank_rel S x t \<Longrightarrow> path_rel S m P \<Longrightarrow> path_rel S x (P @ [t])"

inductive_cases path_relE: "path_rel S x P"

lemma path_rel_in: "path_rel S x P \<Longrightarrow> x \<in> S"
  by (induction rule: path_rel.induct)

lemma path_rel_mono: "path_rel S x P \<Longrightarrow> S \<subseteq> T \<Longrightarrow> path_rel T x P"
  by (induction rule: path_rel.induct) (auto intro: path_rel.intros rank_rel_mono)

lemma path_rel_last: "path_rel S x P \<Longrightarrow> \<exists>Q t. P = Q @ [t] \<and> rank_rel S x t"
  by (induction rule: path_rel.induct) auto

lemma path_rel_fun:
  "path_rel S x P \<Longrightarrow> inj_on last_id S \<Longrightarrow> inj_on it_id S \<Longrightarrow> path_rel S x Q \<Longrightarrow> P = Q"
proof (induction arbitrary: Q rule: path_rel.induct)
  case (root x t)
  from root.prems(3) show ?case
    by (rule path_relE) (use root.hyps root.prems(2) in \<open>auto dest: rank_rel_fun\<close>)
next
  case (child x m t P)
  from child.prems(3) show ?case
  proof (rule path_relE)
    fix m' t' P'
    assume m': "Q = P' @ [t']" "m' \<in> S" "it_origin_left x = last_id m'" "rank_rel S x t'" "path_rel S m' P'"
    then have "m' = m" using child.hyps(3,4) child.prems(1) by (auto dest: inj_onD)
    then show "P @ [t] = Q"
      using child.IH [OF child.prems(1,2)] m' rank_rel_fun [OF child.hyps(5) child.prems(2)] by simp
  qed (use child.hyps in auto)
qed

lemma item_key_inj: "item_key x = item_key y \<longleftrightarrow> it_id x = it_id y"
  by (cases "it_id x"; cases "it_id y") (simp add: item_key_def word_uint_eq_iff)

lemma path_rel_inj:
  assumes "path_rel S x P" and "path_rel S y P" and "inj_on it_id S"
  shows "x = y"
proof -
  obtain v w where "last P = v @ [item_key x, key_top]" "last P = w @ [item_key y, key_top]"
    using path_rel_last [OF assms(1)] path_rel_last [OF assms(2)] by (auto dest!: rank_rel_key)
  then have "it_id x = it_id y" by (simp add: item_key_inj)
  then show ?thesis using path_rel_in [OF assms(1)] path_rel_in [OF assms(2)] assms(3) by (auto dest: inj_onD)
qed

text \<open>What lies beneath an item's path descends from the item.\<close>

inductive descends :: "item set \<Rightarrow> yid \<Rightarrow> item \<Rightarrow> bool" for S i where
  child: "r \<in> S \<Longrightarrow> it_origin_left r = i \<Longrightarrow> descends S i r"
| deeper: "r \<in> S \<Longrightarrow> m \<in> S \<Longrightarrow> is_valid (it_origin_left r) \<Longrightarrow> it_origin_left r = last_id m \<Longrightarrow> descends S i m \<Longrightarrow>
    descends S i r"

lemma beneath_descends:
  "path_rel S r Q \<Longrightarrow> path_rel S m P \<Longrightarrow> inj_on it_id S \<Longrightarrow> beneath P Q \<Longrightarrow> descends S (last_id m) r"
proof (induction rule: path_rel.induct)
  case (root x t)
  then have "P = []" by (auto simp: beneath_def Cons_eq_append_conv)
  then show ?case using path_rel_last [OF root.prems(1)] by simp
next
  case (child x n t Q)
  obtain c rest where e: "Q @ [t] = P @ c # rest" using child.prems(3) by (auto simp: beneath_def)
  show ?case
  proof (cases rest rule: rev_cases)
    case Nil
    then have "n = m" using e child.prems(1,2) child.hyps(6) path_rel_inj by auto
    then show ?thesis using child.hyps by (auto intro: descends.child)
  next
    case (snoc rest' y)
    then have "beneath P Q" using e by (auto simp: beneath_def)
    then show ?thesis using child by (auto intro: descends.deeper)
  qed
qed

lemma descends_antimono:
  "descends T i r \<Longrightarrow> r \<in> S \<Longrightarrow> S \<subseteq> T \<Longrightarrow> inj_on last_id T \<Longrightarrow>
    (\<And>y. y \<in> S \<Longrightarrow> is_valid (it_origin_left y) \<Longrightarrow> \<exists>m \<in> S. it_origin_left y = last_id m) \<Longrightarrow> descends S i r"
proof (induction rule: descends.induct)
  case (child r)
  then show ?case by (auto intro: descends.child)
next
  case (deeper r m)
  obtain m' where m': "m' \<in> S" "it_origin_left r = last_id m'" using deeper.prems(4) deeper.prems(1) deeper.hyps(3) by blast
  then have "m' = m" using deeper.hyps(2,4) deeper.prems(2,3) by (auto dest: inj_onD)
  then show ?case using deeper m' by (blast intro: descends.deeper)
qed

definition path_in :: "item set \<Rightarrow> item \<Rightarrow> path" where
  "path_in S x = (THE P. path_rel S x P)"

lemma path_in_eq: "path_rel S x P \<Longrightarrow> inj_on last_id S \<Longrightarrow> inj_on it_id S \<Longrightarrow> path_in S x = P"
  unfolding path_in_def by (rule the_equality) (auto dest: path_rel_fun)

text \<open>Two strictly sorted arrangements of the same items are the same.\<close>

lemma sorted_arrangement_unique:
  assumes "sorted_wrt (\<lambda>x y. (f x :: path) < f y) xs" and "sorted_wrt (\<lambda>x y. f x < f y) ys" and "set xs = set ys"
  shows "xs = ys"
  using assms
proof (induction xs arbitrary: ys)
  case (Cons x xs)
  then obtain y ys' where ys: "ys = y # ys'" by (cases ys) auto
  have xy: "x = y"
  proof (rule ccontr)
    assume "x \<noteq> y"
    then have "x \<in> set ys'" "y \<in> set xs" using Cons.prems(3) ys by auto
    then have "f y < f x" "f x < f y" using Cons.prems(1,2) ys by auto
    then show False by simp
  qed
  have "x \<notin> set xs" "y \<notin> set ys'" using Cons.prems(1,2) ys by auto
  then have "set xs = set ys'" using Cons.prems(3) ys xy by auto
  then show ?case using Cons ys xy by simp
qed simp

end
