(* ===== verification/Ycpp_Replica.thy ===== *)
theory Ycpp_Replica
  imports Ycpp_Forest
begin

text \<open>
  Replicas.  A replica grows by the two calls that \<open>Doc::install_into_array\<close> makes for every item:
  \<open>StructStore::append\<close>, then \<open>YArray::integrate\<close>.  The invariant: its list is sorted by the paths of
  its items, which do not depend on the order in which they arrived.
\<close>

section \<open>The code\<close>

text \<open>The body of \<open>install_into_array\<close> up to the splice.\<close>

definition ya_install ::
    "(u64, 'a) hm_env \<Rightarrow> addr \<Rightarrow> (item_heap \<times> addr option \<times> struct_store \<times> 'a, unit) op" where
  "ya_install E p st =
     (let (h, start, ss, a) = st in
      case ss_append E h p (ss, a) of
        (Inl e, ss, a) \<Rightarrow> (Inl e, h, start, ss, a)
      | (Inr _, ss, a) \<Rightarrow>
          (case ya_integrate E ss p (h, start) of (r, h, start) \<Rightarrow> (r, h, start, ss, a)))"

section \<open>Replicas\<close>

text \<open>
  \<open>replica E ops st\<close>: the state \<open>st\<close> arises from the empty document by installing the items \<open>ops\<close>
  in this order, each at a fresh address.  As left origin an item names nothing or the last
  identifier of an item seen before; as right origin nothing, a sibling (an item with the same left
  origin), or an item that does not descend from the left origin.
\<close>

definition right_ok :: "item set \<Rightarrow> item \<Rightarrow> bool" where
  "right_ok S x \<longleftrightarrow> it_origin_right x = kInvalidId \<or> is_valid (it_origin_right x) \<and>
     (\<exists>r \<in> S. it_origin_right x = it_id r \<and>
       (it_origin_left r = it_origin_left x \<or> is_valid (it_origin_left x) \<and> \<not> descends S (it_origin_left x) r))"

definition left_ok :: "item set \<Rightarrow> item \<Rightarrow> bool" where
  "left_ok S x \<longleftrightarrow> it_origin_left x = kInvalidId \<or>
     is_valid (it_origin_left x) \<and> (\<exists>m \<in> S. it_origin_left x = last_id m)"

definition yata_op :: "item list \<Rightarrow> item \<Rightarrow> bool" where
  "yata_op ops x \<longleftrightarrow> 0 < it_length x \<and> item_start x + item_width x < 2 ^ 64 \<and>
     left_ok (set ops) x \<and> right_ok (set ops) x"

inductive replica ::
    "(u64, 'a) hm_env \<Rightarrow> item list \<Rightarrow> item_heap \<times> addr option \<times> struct_store \<times> 'a \<Rightarrow> bool" for E where
  empty: "replica E [] (h, None, ss_empty, a)"
| install: "replica E ops (h, start, ss, a) \<Longrightarrow> p \<notin> ss_addrs ss \<Longrightarrow> yata_op ops x \<Longrightarrow>
    ya_install E p (h(p := x), start, ss, a) = (Inr (), st) \<Longrightarrow> replica E (ops @ [strip x]) st"

lemma right_ok_mono:
  assumes "right_ok S x" and "left_ok S x" and "S \<subseteq> T" and "inj_on last_id T" and closed: "\<And>y. y \<in> S \<Longrightarrow> left_ok S y"
  shows "right_ok T x"
proof -
  have "descends S i r" if "descends T i r" "r \<in> S" for i r
    using descends_antimono [OF that assms(3,4)] closed by (auto simp: left_ok_def is_valid_def)
  then show ?thesis using assms(1,3) unfolding right_ok_def by blast
qed

lemma left_ok_mono: "left_ok S x \<Longrightarrow> S \<subseteq> T \<Longrightarrow> left_ok T x"
  unfolding left_ok_def by blast

text \<open>Items with a left and a right origin among those that have a path get a path.\<close>

lemma rank_rel_exists:
  assumes "x \<in> S" and "right_ok S x" and "\<And>r. r \<in> S \<Longrightarrow> it_origin_right x = it_id r \<Longrightarrow> r \<noteq> x \<Longrightarrow> \<exists>t. rank_rel S r t"
    and "is_valid (it_origin_right x) \<Longrightarrow> it_origin_right x \<noteq> it_id x"
  shows "\<exists>t. rank_rel S x t"
proof (cases "outer S x")
  case True
  then show ?thesis using rank_rel.outer [OF assms(1)] by blast
next
  case False
  then obtain r where r: "is_valid (it_origin_right x)" "r \<in> S" "it_origin_right x = it_id r"
    "it_origin_left r = it_origin_left x"
    using assms(2) unfolding outer_def right_ok_def by blast
  then obtain t where "rank_rel S r t" using assms(3,4) by metis
  then show ?thesis using rank_rel.before [OF assms(1) r] by blast
qed

text \<open>The invariant: a list in path order, holding the operations, dense in the store.\<close>

definition replica_inv ::
    "(u64, 'a) hm_env \<Rightarrow> item list \<Rightarrow> item_heap \<times> addr option \<times> struct_store \<times> 'a \<Rightarrow> addr list \<Rightarrow> bool" where
  "replica_inv E ops st ps \<longleftrightarrow>
     (let (h, start, ss, a) = st; S = set ops in
      dll h start ps \<and> ss_inv E h ss \<and> ss_addrs ss = set ps \<and> (\<lambda>p. strip (h p)) ` set ps = S \<and>
      length ps = length ops \<and> (\<forall>x \<in> S. left_ok S x \<and> right_ok S x \<and> (\<exists>P. path_rel S x P)) \<and>
      sorted_wrt (\<lambda>p q. path_in S (strip (h p)) < path_in S (strip (h q))) ps)"

lemma item_covers_last:
  assumes "0 < it_length x" and "item_start x + item_width x < 2 ^ 64"
  shows "item_covers x (last_id x)"
proof -
  have w: "0 < item_width x" using assms(1) by (simp add: item_width_def word_less_nat_alt)
  have add: "unat (A + B) = unat A + unat B" if "unat A + unat B < 2 ^ 64" for A B :: u64
    using that by (simp add: unat_word_ariths)
  have one: "unat (it_length x - 1) = item_width x - 1"
    using assms(1) by (simp add: item_width_def unat_sub word_le_nat_alt word_less_nat_alt Suc_leI)
  have "unat (id_clock (it_id x) + (it_length x - 1)) = item_start x + (item_width x - 1)"
    using add [of "id_clock (it_id x)" "it_length x - 1"] assms(2) w one by (simp add: item_start_def)
  moreover have "id_clock (it_id x) + it_length x - 1 = id_clock (it_id x) + (it_length x - 1)" by simp
  ultimately have "unat (id_clock (it_id x) + it_length x - 1) = item_start x + (item_width x - 1)"
    by (simp only:)
  then show ?thesis using w by (simp add: item_covers_def last_id_def)
qed

lemma fits_valid:
  assumes "0 < it_length x" and "item_start x + item_width x < 2 ^ 64"
  shows "is_valid (it_id x)" and "is_valid (last_id x)"
proof -
  have w: "0 < item_width x" using assms(1) by (simp add: item_width_def word_less_nat_alt)
  have top: "unat (- 1 :: u64) = 2 ^ 64 - 1" by (simp add: unsigned_minus_1_eq_mask mask_eq_exp_minus_1)
  then have "id_clock (it_id x) \<noteq> - 1" using assms(2) w by (auto simp: item_start_def)
  then show "is_valid (it_id x)" by (cases "it_id x") (simp add: is_valid_def kInvalidId_def)
  have "unat (id_clock (last_id x)) < item_start x + item_width x"
    using item_covers_last [OF assms] by (simp add: item_covers_def)
  then have "id_clock (last_id x) \<noteq> - 1" using assms(2) top by auto
  then show "is_valid (last_id x)" by (cases "last_id x") (simp add: is_valid_def kInvalidId_def)
qed

section \<open>The store identifies the items\<close>

lemma ss_addr_fits:
  assumes "ss_inv E h ss" and "q \<in> ss_addrs ss"
  shows "0 < it_length (h q)" and "item_start (h q) + item_width (h q) < 2 ^ 64"
proof -
  have "span h (ss_ptrs ss c) < 2 ^ 64" for c using assms(1) by (simp add: ss_inv_def dense_def)
  then show "item_start (h q) + item_width (h q) < 2 ^ 64"
    using ss_in_addrs(3) [OF assms] by (rule le_less_trans [rotated])
  show "0 < it_length (h q)" by (rule ss_in_addrs(2) [OF assms])
qed

lemma ss_find_last:
  assumes "ss_inv E h ss" and "q \<in> ss_addrs ss"
  shows "ss_find_by_id E h (last_id (h q)) ss = Some q"
  by (rule ss_find_covers [OF assms item_covers_last [OF ss_addr_fits [OF assms]]])

lemma ss_last_inj:
  assumes "ss_inv E h ss" and "q \<in> ss_addrs ss" and "r \<in> ss_addrs ss" and "last_id (h q) = last_id (h r)"
  shows "q = r"
proof -
  have "Some q = Some r"
    using ss_find_last [OF assms(1,2)] ss_find_last [OF assms(1,3)] unfolding assms(4) by (rule trans [OF sym])
  then show ?thesis by simp
qed

lemma ss_id_inj:
  assumes "ss_inv E h ss" and "q \<in> ss_addrs ss" and "r \<in> ss_addrs ss" and "it_id (h q) = it_id (h r)"
  shows "q = r"
proof -
  have c: "item_covers (h x) (it_id (h x))" if "x \<in> ss_addrs ss" for x
    using ss_in_addrs(2) [OF assms(1) that]
    by (simp add: item_covers_def item_start_def item_width_def word_less_nat_alt)
  have "Some q = Some r"
    using ss_find_covers [OF assms(1,2) c [OF assms(2)]] ss_find_covers [OF assms(1,3) c [OF assms(3)]]
    unfolding assms(4) by (rule trans [OF sym])
  then show ?thesis by simp
qed

definition store_items :: "item_heap \<Rightarrow> struct_store \<Rightarrow> item set" where
  "store_items h ss = (\<lambda>p. strip (h p)) ` ss_addrs ss"

lemma store_items_inj:
  assumes "ss_inv E h ss"
  shows "inj_on last_id (store_items h ss)" and "inj_on it_id (store_items h ss)"
    and "inj_on (\<lambda>p. strip (h p)) (ss_addrs ss)"
proof -
  show "inj_on last_id (store_items h ss)"
    using ss_last_inj [OF assms] by (auto simp: store_items_def inj_on_def)
  show "inj_on it_id (store_items h ss)"
    using ss_id_inj [OF assms] by (auto simp: store_items_def inj_on_def)
  show "inj_on (\<lambda>p. strip (h p)) (ss_addrs ss)"
    using ss_id_inj [OF assms] by (auto intro!: inj_onI) (metis strip_simps(1))
qed

text \<open>The parent, the sibling on the right, the rank and the path of an address, read from the store.\<close>

definition store_par :: "(u64, 'a) hm_env \<Rightarrow> item_heap \<Rightarrow> struct_store \<Rightarrow> addr \<Rightarrow> addr option" where
  "store_par E h ss q = origin_ptr (\<lambda>i. ss_find_by_id E h i ss) (it_origin_left (h q))"

definition store_sib :: "(u64, 'a) hm_env \<Rightarrow> item_heap \<Rightarrow> struct_store \<Rightarrow> addr \<Rightarrow> addr option" where
  "store_sib E h ss q =
     (case origin_ptr (\<lambda>i. ss_find_by_id E h i ss) (it_origin_right (h q)) of
        None \<Rightarrow> None
      | Some r \<Rightarrow> if it_origin_left (h r) = it_origin_left (h q) then Some r else None)"

definition store_path :: "item_heap \<Rightarrow> struct_store \<Rightarrow> addr \<Rightarrow> path" where
  "store_path h ss q = path_in (store_items h ss) (strip (h q))"

definition store_rank :: "item_heap \<Rightarrow> struct_store \<Rightarrow> addr \<Rightarrow> rank" where
  "store_rank h ss q = last (store_path h ss q)"

lemma store_path_rel:
  assumes inv: "ss_inv E h ss" and P: "path_rel (store_items h ss) (strip (h q)) P"
  shows "store_path h ss q = P" and "rank_rel (store_items h ss) (strip (h q)) (store_rank h ss q)"
proof -
  note inj = store_items_inj [OF inv]
  show path: "store_path h ss q = P" by (simp add: store_path_def path_in_eq [OF P inj(1,2)])
  show "rank_rel (store_items h ss) (strip (h q)) (store_rank h ss q)"
    using path_rel_last [OF P] by (auto simp: store_rank_def path)
qed

lemma ss_find_first:
  assumes "ss_inv E h ss" and "q \<in> ss_addrs ss"
  shows "ss_find_by_id E h (it_id (h q)) ss = Some q"
proof -
  have "item_covers (h q) (it_id (h q))"
    using ss_in_addrs(2) [OF assms] by (simp add: item_covers_def item_start_def item_width_def word_less_nat_alt)
  then show ?thesis by (rule ss_find_covers [OF assms])
qed

text \<open>Every item with good origins is placed as the order of the paths wants it.\<close>

lemma placed_in_store:
  assumes inv: "ss_inv E h ss" and P: "\<And>y. y \<in> store_items h ss \<Longrightarrow> \<exists>P. path_rel (store_items h ss) y P"
    and q: "q \<in> ss_addrs ss" and B: "B \<subseteq> ss_addrs ss"
    and left: "left_ok ((\<lambda>p. strip (h p)) ` B) (h q)"
    and right: "right_ok (store_items h ss) (h q)"
    and seen: "is_valid (it_origin_right (h q)) \<Longrightarrow> \<exists>r \<in> B. it_origin_right (h q) = it_id (h r)"
  shows "placed (\<lambda>i. ss_find_by_id E h i ss) h (store_par E h ss) (store_sib E h ss) (store_path h ss)
    (store_rank h ss) B q"
proof -
  let ?S = "store_items h ss" and ?par = "store_par E h ss" and ?sib = "store_sib E h ss"
  let ?path = "store_path h ss" and ?rank = "store_rank h ss" and ?by_id = "\<lambda>i. ss_find_by_id E h i ss"
  note inj = store_items_inj [OF inv]
  have mem: "strip (h a) \<in> ?S" if "a \<in> ss_addrs ss" for a using that by (simp add: store_items_def)
  have rel: "path_rel ?S (strip (h a)) (?path a)" and rk: "rank_rel ?S (strip (h a)) (?rank a)" if "a \<in> ss_addrs ss" for a
    using P [OF mem [OF that]] store_path_rel [OF inv] by auto
  have path: "?path q = parent_path ?par ?path q @ [?rank q] \<and>
    (case ?par q of
       None \<Rightarrow> it_origin_left (h q) = kInvalidId
     | Some m \<Rightarrow> m \<in> B \<and> is_valid (it_origin_left (h q)) \<and> it_origin_left (h q) = last_id (h m) \<and>
         ?by_id (it_origin_left (h q)) = Some m)"
  proof (cases "is_valid (it_origin_left (h q))")
    case False
    then have "?par q = None" "it_origin_left (h q) = kInvalidId"
      using left by (auto simp: store_par_def origin_ptr_def left_ok_def)
    moreover have "?path q = [?rank q]" using rel [OF q] False by (auto elim: path_relE simp: store_rank_def)
    ultimately show ?thesis by (simp add: parent_path_def)
  next
    case True
    then obtain m where m: "m \<in> B" "it_origin_left (h q) = last_id (h m)"
      using left by (auto simp: left_ok_def is_valid_def)
    then have mA: "m \<in> ss_addrs ss" using B by blast
    have find: "?by_id (it_origin_left (h q)) = Some m" using m(2) ss_find_last [OF inv mA] by simp
    then have par: "?par q = Some m" using True by (simp add: store_par_def origin_ptr_def)
    obtain n t Q where n: "?path q = Q @ [t]" "n \<in> ?S" "it_origin_left (h q) = last_id n" "path_rel ?S n Q"
      using rel [OF q] True by (auto elim: path_relE)
    have "n = strip (h m)" using n(2,3) m(2) mem [OF mA] by (intro inj_onD [OF inj(1)]) simp_all
    then have "Q = ?path m" using n(4) store_path_rel(1) [OF inv] by metis
    then show ?thesis using par m find True n(1) by (simp add: parent_path_def store_rank_def)
  qed
  have sib: "?rank q = climb (item_key (h q)) (case ?sib q of None \<Rightarrow> [key_top] | Some r \<Rightarrow> ?rank r) \<and>
    (case ?sib q of
       None \<Rightarrow> it_origin_right (h q) = kInvalidId \<or> is_valid (it_origin_right (h q)) \<and>
         (\<exists>r \<in> B. ?by_id (it_origin_right (h q)) = Some r \<and> \<not> beneath (parent_path ?par ?path q) (?path r))
     | Some r \<Rightarrow> r \<in> B \<and> ?par r = ?par q \<and> is_valid (it_origin_right (h q)) \<and> ?by_id (it_origin_right (h q)) = Some r)"
  proof (cases "is_valid (it_origin_right (h q))")
    case False
    then have "?sib q = None" "it_origin_right (h q) = kInvalidId"
      using right by (auto simp: store_sib_def origin_ptr_def right_ok_def)
    moreover have "?rank q = climb (item_key (h q)) [key_top]"
      using rk [OF q] False by (auto elim: rank_relE)
    ultimately show ?thesis by simp
  next
    case True
    then obtain r where r: "r \<in> B" "it_origin_right (h q) = it_id (h r)" using seen by blast
    then have rA: "r \<in> ss_addrs ss" using B by blast
    have find: "?by_id (it_origin_right (h q)) = Some r" using r(2) ss_find_first [OF inv rA] by simp
    have same: "y = strip (h r)" if "y \<in> ?S" "it_id y = it_id (h r)" for y
      using that mem [OF rA] by (intro inj_onD [OF inj(2)]) simp_all
    show ?thesis
    proof (cases "it_origin_left (h r) = it_origin_left (h q)")
      case eq: True
      then have s: "?sib q = Some r" using True find by (simp add: store_sib_def origin_ptr_def)
      have "\<not> outer ?S (strip (h q))"
      proof
        assume "outer ?S (strip (h q))"
        then obtain y where "y \<in> ?S" "it_id y = it_id (h r)" "it_origin_left y \<noteq> it_origin_left (h q)"
          using True r(2) by (auto simp: outer_def is_valid_def)
        then show False using same [of y] eq by simp
      qed
      then obtain y t where y: "?rank q = climb (item_key (h q)) t" "y \<in> ?S" "it_id y = it_id (h r)" "rank_rel ?S y t"
        using rk [OF q] r(2) by (auto elim: rank_relE)
      have "t = ?rank r" using y(2-4) same rank_rel_fun [OF _ inj(2) rk [OF rA]] by blast
      then show ?thesis using s y(1) r find True eq by (simp add: store_par_def)
    next
      case False
      then have s: "?sib q = None" using True find by (simp add: store_sib_def origin_ptr_def)
      obtain y where y: "y \<in> ?S" "it_id y = it_id (h r)" "it_origin_left y = it_origin_left (h q) \<or>
          is_valid (it_origin_left (h q)) \<and> \<not> descends ?S (it_origin_left (h q)) y"
        using right True r(2) by (auto simp: right_ok_def is_valid_def)
      have valid: "is_valid (it_origin_left (h q))" "\<not> descends ?S (it_origin_left (h q)) (strip (h r))"
        using y(3) same [OF y(1,2)] False by auto
      then obtain m where m: "?par q = Some m" "m \<in> B" "it_origin_left (h q) = last_id (h m)"
        using path by (auto split: option.splits simp: is_valid_def)
      have "\<not> beneath (?path m) (?path r)"
        using beneath_descends [OF rel [OF rA] rel inj(2), of m] m B valid(2) by auto
      then have no: "\<not> beneath (parent_path ?par ?path q) (?path r)" using m(1) by (simp add: parent_path_def)
      have "?rank q = climb (item_key (h q)) [key_top]"
        using rk [OF q]
      proof (rule rank_relE)
        fix y t
        assume y: "y \<in> ?S" "it_origin_right (strip (h q)) = it_id y" "it_origin_left y = it_origin_left (strip (h q))"
          and "rank_rel ?S y t"
        have "y = strip (h r)" by (rule same [OF y(1)]) (metis y(2) r(2) strip_simps(4))
        then have False using y(3) False by simp
        then show ?thesis ..
      qed simp
      then show ?thesis using s no r(1) find True by auto
    qed
  qed
  show ?thesis unfolding placed_def using path sib by blast
qed

text \<open>Installing one more item.\<close>

lemma ss_append_addrs:
  assumes "ss_ptrs ss' = (ss_ptrs ss)(c := ss_ptrs ss c @ [p])"
  shows "ss_addrs ss' = insert p (ss_addrs ss)"
  unfolding ss_addrs_def assms by (auto split: if_splits)

lemma replica_invD:
  assumes "replica_inv E ops (h, start, ss, a) ps"
  shows "dll h start ps" "ss_inv E h ss" "ss_addrs ss = set ps" "store_items h ss = set ops"
    "length ps = length ops" "x \<in> set ops \<Longrightarrow> left_ok (set ops) x \<and> right_ok (set ops) x"
    "x \<in> set ops \<Longrightarrow> \<exists>P. path_rel (set ops) x P"
    "sorted_wrt (\<lambda>p q. path_in (set ops) (strip (h p)) < path_in (set ops) (strip (h q))) ps"
  using assms by (simp_all add: replica_inv_def store_items_def Let_def)

lemma replica_item:
  assumes "replica_inv E ops (h, start, ss, a) ps" and "x \<in> set ops"
  obtains q where "q \<in> set ps" "x = strip (h q)"
  using replica_invD(3,4) [OF assms(1)] assms(2) by (auto simp: store_items_def)

text \<open>The situation when an item has been appended to the store and the list is yet to follow.\<close>

definition pending_install ::
    "(u64, 'a) hm_env \<Rightarrow> item list \<Rightarrow> item_heap \<times> addr option \<times> struct_store \<times> 'a \<Rightarrow> addr list \<Rightarrow>
     item_heap \<Rightarrow> struct_store \<Rightarrow> addr \<Rightarrow> item \<Rightarrow> bool" where
  "pending_install E ops st ps h' ss' p x \<longleftrightarrow> replica_inv E ops st ps \<and> yata_op ops x \<and> p \<notin> set ps \<and>
     h' = (fst st)(p := x) \<and> ss_inv E h' ss' \<and> ss_addrs ss' = insert p (set ps) \<and>
     (\<forall>q \<in> set ps. id_client (it_id (h' q)) = id_client (it_id x) \<longrightarrow> id_clock (it_id (h' q)) < id_clock (it_id x))"

lemma pending_installD:
  assumes "pending_install E ops (h, start, ss, a) ps h' ss' p x"
  shows "replica_inv E ops (h, start, ss, a) ps" "yata_op ops x" "p \<notin> set ps" "h' p = x"
    "q \<in> set ps \<Longrightarrow> h' q = h q" "ss_inv E h' ss'" "ss_addrs ss' = insert p (set ps)"
    "store_items h' ss' = insert (strip x) (set ops)" "set ops \<subseteq> store_items h' ss'" "set ps \<subseteq> ss_addrs ss'"
proof -
  note a = assms [unfolded pending_install_def]
  show *: "replica_inv E ops (h, start, ss, a) ps" "yata_op ops x" "p \<notin> set ps"
    "ss_inv E h' ss'" "ss_addrs ss' = insert p (set ps)" using a by blast+
  show p: "h' p = x" using a by simp
  show old: "h' q = h q" if "q \<in> set ps" for q using that a by auto
  note R = replica_invD [OF *(1)]
  have "(\<lambda>q. strip (h' q)) ` set ps = (\<lambda>q. strip (h q)) ` set ps" by (rule image_cong) (use old in auto)
  then show "store_items h' ss' = insert (strip x) (set ops)" using R(3,4) p *(5) by (simp add: store_items_def)
  then show "set ops \<subseteq> store_items h' ss'" by auto
  show "set ps \<subseteq> ss_addrs ss'" using *(5) by auto
qed

lemma pending_paths:
  assumes pend: "pending_install E ops (h, start, ss, a) ps h' ss' p x"
  shows "y \<in> store_items h' ss' \<Longrightarrow> left_ok (set ops) y \<and> right_ok (store_items h' ss') y"
    and "y \<in> store_items h' ss' \<Longrightarrow> \<exists>P. path_rel (store_items h' ss') y P"
    and "y \<in> store_items h' ss' \<Longrightarrow> is_valid (it_origin_right y) \<Longrightarrow> \<exists>r \<in> set ops. it_origin_right y = it_id r"
proof -
  let ?S = "store_items h' ss'"
  note D = pending_installD [OF pend] and inj = store_items_inj [OF pending_installD(6) [OF pend]]
  note R = replica_invD [OF D(1)]
  have op: "left_ok (set ops) (strip x)" "right_ok (set ops) (strip x)"
    using D(2) by (auto simp: yata_op_def left_ok_def right_ok_def)
  have S: "?S = insert (strip x) (set ops)" by (rule D(8))
  show lr: "left_ok (set ops) y \<and> right_ok ?S y" if y: "y \<in> ?S" for y
  proof -
    have "left_ok (set ops) y \<and> right_ok (set ops) y" using y op R(6) unfolding S by blast
    moreover from this have "right_ok ?S y" using right_ok_mono [OF _ _ D(9) inj(1)] R(6) by blast
    ultimately show ?thesis by blast
  qed
  show seen: "\<exists>r \<in> set ops. it_origin_right y = it_id r" if y: "y \<in> ?S" "is_valid (it_origin_right y)" for y
    using y op(2) R(6) unfolding S right_ok_def is_valid_def by blast
  have new: "strip x \<notin> set ops"
  proof
    assume "strip x \<in> set ops"
    then obtain q where "q \<in> set ps" "strip x = strip (h q)" by (rule replica_item [OF D(1)])
    then have "q = p" using D(4,5,7) inj(3) by (intro inj_onD [OF inj(3)]) auto
    then show False using D(3) \<open>q \<in> set ps\<close> by simp
  qed
  have old: "\<exists>P. path_rel ?S y P" if "y \<in> set ops" for y using R(7) [OF that] path_rel_mono D(9) by blast
  have "\<exists>P. path_rel ?S (strip x) P"
  proof -
    have xS: "strip x \<in> ?S" unfolding S by simp
    have "it_origin_right (strip x) \<noteq> it_id (strip x)" if v: "is_valid (it_origin_right (strip x))"
    proof
      assume e: "it_origin_right (strip x) = it_id (strip x)"
      then obtain r where r: "r \<in> set ops" "it_id r = it_id (strip x)" using seen [OF xS v] by metis
      then have "r = strip x" using xS D(9) by (intro inj_onD [OF inj(2)]) auto
      then show False using r(1) new by simp
    qed
    moreover have "\<exists>t. rank_rel ?S r t" if "r \<in> ?S" "r \<noteq> strip x" for r
      using that old path_rel_last unfolding S by blast
    ultimately obtain t where t: "rank_rel ?S (strip x) t"
      using rank_rel_exists [OF xS] lr [OF xS] by blast
    show ?thesis
    proof (cases "is_valid (it_origin_left x)")
      case True
      then obtain m where m: "m \<in> set ops" "it_origin_left (strip x) = last_id m"
        using op(1) by (auto simp: left_ok_def is_valid_def)
      then obtain P where "path_rel ?S m P" using old by blast
      then show ?thesis using path_rel.child [OF xS _ _ m(2) t] True m(1) D(9) by auto
    next
      case False
      then show ?thesis using path_rel.root [OF xS _ t] by auto
    qed
  qed
  then show "\<exists>P. path_rel ?S y P" if "y \<in> ?S" for y using that old unfolding S by blast
qed

lemma pending_step:
  assumes pend: "pending_install E ops (h, start, ss, a) ps h' ss' p x"
  shows "yata_step (\<lambda>i. ss_find_by_id E h' i ss') h' (store_par E h' ss') (store_sib E h' ss') (store_path h' ss')
    (store_rank h' ss') ps p"
    and "q \<in> set ps \<Longrightarrow> store_path h' ss' q = path_in (set ops) (strip (h q))"
proof -
  note D = pending_installD [OF pend] and inj = store_items_inj [OF pending_installD(6) [OF pend]]
  note R = replica_invD [OF D(1)] and paths = pending_paths [OF pend]
  let ?S = "store_items h' ss'" and ?path = "store_path h' ss'" and ?rank = "store_rank h' ss'"
  have in_S: "strip (h' y) \<in> ?S" if "y \<in> insert p (set ps)" for y using that D(7) by (auto simp: store_items_def)
  have rel: "path_rel ?S (strip (h' y)) (?path y)" and rk: "rank_rel ?S (strip (h' y)) (?rank y)"
    if "y \<in> insert p (set ps)" for y
    using paths(2) [OF in_S [OF that]] store_path_rel [OF D(6)] by auto
  have ops: "set ops = (\<lambda>q. strip (h' q)) ` set ps"
  proof -
    have "(\<lambda>q. strip (h' q)) ` set ps = (\<lambda>q. strip (h q)) ` set ps" by (rule image_cong) (use D(5) in auto)
    then show ?thesis using R(3,4) by (simp add: store_items_def)
  qed
  show old: "?path q = path_in (set ops) (strip (h q))" if q: "q \<in> set ps" for q
  proof -
    have "strip (h q) \<in> set ops" using imageI [OF q, of "\<lambda>q. strip (h' q)"] D(5) [OF q] ops by simp
    then obtain P where P: "path_rel (set ops) (strip (h q)) P" using R(7) by blast
    then have "path_in (set ops) (strip (h q)) = P"
      by (rule path_in_eq) (use inj D(9) in \<open>auto intro: inj_on_subset\<close>)
    moreover have "?path q = P" using path_rel_mono [OF P D(9)] D(5) [OF q] store_path_rel(1) [OF D(6)] by metis
    ultimately show ?thesis by simp
  qed
  have same: "q = s" if "q \<in> insert p (set ps)" "s \<in> insert p (set ps)" "strip (h' q) = strip (h' s)" for q s
    using that D(7) by (intro inj_onD [OF inj(3)]) simp_all
  have pl: "placed (\<lambda>i. ss_find_by_id E h' i ss') h' (store_par E h' ss') (store_sib E h' ss') ?path ?rank (set ps) y"
    if y: "y \<in> insert p (set ps)" for y
  proof (rule placed_in_store [OF D(6) paths(2) _ D(10)])
    note lr = paths(1,3) [OF in_S [OF y]]
    show "left_ok ((\<lambda>p. strip (h' p)) ` set ps) (h' y)"
      using lr(1) unfolding ops by (simp add: left_ok_def)
    show "right_ok ?S (h' y)" using lr(1) by (simp add: right_ok_def)
    show "\<exists>r \<in> set ps. it_origin_right (h' y) = it_id (h' r)" if "is_valid (it_origin_right (h' y))"
      using lr(2) that unfolding ops by auto
  qed (use y D(7) in auto)
  have ok: "rank_ok (?rank y)" if "y \<in> insert p (set ps)" for y by (rule rank_rel_ok [OF rk [OF that]])
  have srt: "sorted_wrt (\<lambda>q s. ?path q < ?path s) ps"
    using R(8) by (rule sorted_wrt_mono_rel [rotated]) (simp add: old)
  have inj': "inj_on ?path (insert p (set ps))"
  proof (rule inj_onI)
    fix q s assume qs: "q \<in> insert p (set ps)" "s \<in> insert p (set ps)" and eq: "?path q = ?path s"
    have "strip (h' q) = strip (h' s)"
      using path_rel_inj [OF rel [OF qs(1)] _ inj(2), of "strip (h' s)"] rel [OF qs(2)] eq by simp
    then show "q = s" by (rule same [OF qs])
  qed
  have young: "id_clock (it_id (h' q)) < id_clock (it_id (h' p))"
    if "q \<in> set ps" "id_client (it_id (h' q)) = id_client (it_id (h' p))" for q
    using that pend unfolding pending_install_def D(4) by blast
  have prefixes: "\<exists>w \<in> set ps. store_par E h' ss' w = store_par E h' ss' q \<and> ?rank w = u @ [k, key_top] \<and> item_key (h' w) = k"
    if q: "q \<in> set ps" and rank: "?rank q = u @ k # v" "k \<noteq> key_top" for q u k v
  proof -
    have xo: "strip (h' q) \<in> set ops" using ops q by auto
    obtain t where t: "rank_rel (set ops) (strip (h' q)) t" using R(7) [OF xo] path_rel_last by blast
    have "t = ?rank q" using rank_rel_fun [OF rank_rel_mono [OF t D(9)] inj(2) rk] q by blast
    then obtain y where y: "y \<in> set ops" "it_origin_left y = it_origin_left (strip (h' q))"
      "rank_rel (set ops) y (u @ [k, key_top])" "item_key y = k"
      using rank_rel_prefix [OF t _ rank(2)] rank(1) by blast
    obtain w where w: "w \<in> set ps" "y = strip (h' w)" using y(1) ops by auto
    have "?rank w = u @ [k, key_top]"
      using rank_rel_fun [OF rk inj(2)] rank_rel_mono [OF y(3) D(9)] w by blast
    then show ?thesis using w y by (intro bexI [of _ w]) (simp_all add: store_par_def)
  qed
  show "yata_step (\<lambda>i. ss_find_by_id E h' i ss') h' (store_par E h' ss') (store_sib E h' ss') ?path ?rank ps p"
    unfolding yata_step_def
    by (intro conjI ballI allI impI)
      (rule srt D(3) inj' | rule pl ok, assumption | rule young prefixes, assumption+)+
qed

text \<open>The list follows: the new item takes its place by path.\<close>

lemma pending_integrate:
  assumes pend: "pending_install E ops (h, start, ss, a) ps h' ss' p x" and small: "length ops \<le> kMaxConflict"
    and run: "ya_integrate E ss' p (h', start) = (r, h2, start2)"
  shows "r = Inr ()" and "replica_inv E (ops @ [strip x]) (h2, start2, ss', a') (path_insert (store_path h' ss') p ps)"
proof -
  note D = pending_installD [OF pend]
  note R = replica_invD [OF D(1)]
  let ?path = "store_path h' ss'"
  note st = pending_step(1) [OF pend] and paths = pending_paths [OF pend]
  have dl: "dll h' start ps" using R(1) D(5) by (subst dll_cong [of ps h' h]) auto
  have len: "length ps \<le> kMaxConflict" using small R(5) by simp
  note I = ya_integrate_path_insert [OF dl st len run]
  show "r = Inr ()" by (rule I)
  have strip2: "strip (h2 q) = strip (h' q)" for q using I(3) [of q] by (simp add: same_content_strip)
  then have content: "it_id (h2 q) = it_id (h' q)" "it_length (h2 q) = it_length (h' q)" for q by (metis strip_simps)+
  have inv2: "ss_inv E h2 ss'" using D(6) content by (subst ss_inv_cong [of ss' h2 h']) auto
  have S2: "store_items h2 ss' = set (ops @ [strip x])" using D(8) strip2 by (simp add: store_items_def)
  have ne: "?path q \<noteq> ?path p" if "q \<in> set ps" for q
    using inj_onD [OF yata_stepD(5) [OF st], of q p] yata_stepD(4) [OF st] that by auto
  note ins = path_insert_sorted [OF yata_stepD(3) [OF st] ne]
  have items: "left_ok (store_items h' ss') y \<and> right_ok (store_items h' ss') y \<and> (\<exists>P. path_rel (store_items h' ss') y P)"
    if "y \<in> store_items h' ss'" for y
    using paths(1,2) [OF that] left_ok_mono D(9) by blast
  have "length (path_insert ?path p ps) = Suc (length ps)"
    unfolding path_insert_def by (simp, metis length_append takeWhile_dropWhile_id)
  then have len': "length (path_insert ?path p ps) = length (ops @ [strip x])" using R(5) by simp
  have Sx: "set (ops @ [strip x]) = store_items h' ss'" using D(8) by simp
  have addrs: "ss_addrs ss' = set (path_insert ?path p ps)" using ins(2) D(7) by simp
  have img: "(\<lambda>q. strip (h2 q)) ` set (path_insert ?path p ps) = store_items h' ss'"
    using addrs by (simp add: strip2 store_items_def)
  have sorted: "sorted_wrt (\<lambda>q s. path_in (store_items h' ss') (strip (h2 q)) < path_in (store_items h' ss') (strip (h2 s)))
      (path_insert ?path p ps)"
    using ins(1) unfolding store_path_def strip2 .
  show "replica_inv E (ops @ [strip x]) (h2, start2, ss', a') (path_insert ?path p ps)"
    unfolding replica_inv_def Let_def prod.case Sx
    using I(2) inv2 addrs img len' items sorted by blast
qed

lemma replica_step:
  assumes inv: "replica_inv E ops (h, start, ss, a) ps" and p: "p \<notin> ss_addrs ss" and op: "yata_op ops x"
    and small: "length ops \<le> kMaxConflict" and run: "ya_install E p (h(p := x), start, ss, a) = (r, st)"
  shows "r \<noteq> Inl kIntegrationFailed" and "r = Inr () \<Longrightarrow> \<exists>ps'. replica_inv E (ops @ [strip x]) st ps'"
    and "hm_room E 1 (ss_table ss) \<Longrightarrow> length (ss_order ss) < kMaxClients \<Longrightarrow>
      length (ss_ptrs ss (id_client (it_id x))) < kMaxPerClientItems \<Longrightarrow>
      item_start x = unat (ss_state E h (id_client (it_id x)) ss) \<Longrightarrow> r = Inr ()"
proof -
  note R = replica_invD [OF inv]
  define h1 where "h1 = h(p := x)"
  have old: "h1 q = h q" if "q \<in> set ps" for q using that p R(3) by (auto simp: h1_def)
  have h1p: "h1 p = x" by (simp add: h1_def)
  have inv1: "ss_inv E h1 ss" using R(2,3) old by (subst ss_inv_cong [of ss h1 h]) auto
  obtain r1 ss' a' where app: "ss_append E h1 p (ss, a) = (r1, ss', a')" by (metis prod.collapse)
  have xpos: "0 < it_length (h1 p)" "item_start (h1 p) + item_width (h1 p) < 2 ^ 64"
    using op by (simp_all add: yata_op_def h1p)
  note A = ss_append_spec [OF inv1 app xpos, unfolded h1p]
  define c where "c = id_client (it_id x)"
  have state: "unat (ss_state E h c ss) = span h1 (ss_ptrs ss c)"
  proof -
    have "h1 q = h q" if "q \<in> set (ss_ptrs ss c)" for q using old that R(3) by (auto simp: ss_addrs_def)
    then have "span h1 (ss_ptrs ss c) = span h (ss_ptrs ss c)"
      using dense_cong [of "ss_ptrs ss c" h1 h c] by simp
    then show ?thesis using ss_state_span [OF R(2)] by simp
  qed
  have "r \<noteq> Inl kIntegrationFailed \<and> (r = Inr () \<longrightarrow> (\<exists>ps'. replica_inv E (ops @ [strip x]) st ps')) \<and>
    (hm_room E 1 (ss_table ss) \<longrightarrow> length (ss_order ss) < kMaxClients \<longrightarrow>
      length (ss_ptrs ss c) < kMaxPerClientItems \<longrightarrow> item_start x = unat (ss_state E h c ss) \<longrightarrow> r = Inr ())"
  proof (cases r1)
    case (Inl e)
    then have r: "r = Inl e" using run app by (auto simp: ya_install_def h1_def)
    moreover have "e \<noteq> kIntegrationFailed" using A(3) Inl by auto
    moreover have "r1 = Inr ()" if "hm_room E 1 (ss_table ss)" "length (ss_order ss) < kMaxClients"
      "length (ss_ptrs ss c) < kMaxPerClientItems" "item_start x = unat (ss_state E h c ss)"
      using A(6) that state by (simp add: c_def)
    ultimately show ?thesis using Inl by auto
  next
    case (Inr u)
    then have ok: "r1 = Inr ()" by simp
    have ptrs: "ss_ptrs ss' = (ss_ptrs ss)(c := ss_ptrs ss c @ [p])" using A(2) ok by (simp add: c_def)
    have addrs: "ss_addrs ss' = insert p (set ps)" using ss_append_addrs [OF ptrs] R(3) by simp
    have young: "id_clock (it_id (h1 q)) < id_clock (it_id x)"
      if q: "q \<in> set ps" and cl: "id_client (it_id (h1 q)) = id_client (it_id x)" for q
    proof -
      have qa: "q \<in> ss_addrs ss" using q R(3) by simp
      have "item_start (h1 q) + item_width (h1 q) \<le> span h1 (ss_ptrs ss c)"
        using ss_in_addrs(3) [OF inv1 qa] cl by (simp add: c_def)
      moreover have "0 < item_width (h1 q)"
        using ss_in_addrs(2) [OF inv1 qa] by (simp add: item_width_def word_less_nat_alt)
      moreover have "item_start x = span h1 (ss_ptrs ss c)" using A(4) ok by (simp add: c_def)
      ultimately show ?thesis by (simp add: item_start_def word_less_nat_alt)
    qed
    have pend: "pending_install E ops (h, start, ss, a) ps h1 ss' p x"
      using inv op p R(3) A(1) addrs young by (simp add: pending_install_def h1_def [symmetric])
    obtain r2 h2 start2 where int: "ya_integrate E ss' p (h1, start) = (r2, h2, start2)" by (metis prod.collapse)
    note I = pending_integrate [OF pend small int]
    have "r = Inr ()" "st = (h2, start2, ss', a')"
      using run app ok int I(1) by (auto simp: ya_install_def h1_def)
    then show ?thesis using I(2) by auto
  qed
  then show "r \<noteq> Inl kIntegrationFailed" and "r = Inr () \<Longrightarrow> \<exists>ps'. replica_inv E (ops @ [strip x]) st ps'"
    and "hm_room E 1 (ss_table ss) \<Longrightarrow> length (ss_order ss) < kMaxClients \<Longrightarrow>
      length (ss_ptrs ss (id_client (it_id x))) < kMaxPerClientItems \<Longrightarrow>
      item_start x = unat (ss_state E h (id_client (it_id x)) ss) \<Longrightarrow> r = Inr ()"
    by (simp_all add: c_def)
qed

lemma replica_inv_holds:
  assumes "replica E ops st" and "length ops \<le> Suc kMaxConflict"
  shows "\<exists>ps. replica_inv E ops st ps"
  using assms
proof (induction rule: replica.induct)
  case (empty h a)
  then show ?case
    by (intro exI [of _ "[]"]) (simp add: replica_inv_def ss_inv_empty ss_addrs_def Let_def)
next
  case (install ops h start ss a p x st)
  then obtain ps where inv: "replica_inv E ops (h, start, ss, a) ps" by auto
  show ?case
    using replica_step(2) [OF inv install.hyps(2,3) _ install.hyps(4)] install.prems by simp
qed

text \<open>The items a reader of the document sees, in order.\<close>

definition ya_document :: "item_heap \<times> addr option \<times> struct_store \<times> 'a \<Rightarrow> item list option" where
  "ya_document st = (let (h, start, ss, a) = st in ya_for_each (\<lambda>p i seen. seen @ [strip (h p)]) h start [])"

lemma fold_collect:
  "length is = length xs \<Longrightarrow> fold (\<lambda>(p, i) acc. acc @ [f p]) (zip xs is) acc = acc @ map f xs"
  by (induction xs "is" arbitrary: acc rule: list_induct2') auto

lemma replica_document:
  assumes "replica_inv E ops st ps"
  shows "ya_document st = Some (filter (\<lambda>x. \<not> deleted x) (map (\<lambda>p. strip (fst st p)) ps))"
proof -
  obtain h start ss a where st: "st = (h, start, ss, a)" by (metis prod.collapse)
  note R = replica_invD [OF assms [unfolded st]]
  have "ya_document st = Some (map (\<lambda>p. strip (h p)) (live h ps))"
    using ya_for_each_chain [OF dll_chain [OF R(1)], of "\<lambda>p i seen. seen @ [strip (h p)]" 0 "[]"]
      fold_collect [of "map of_nat [0..<length (live h ps)]" "live h ps" "\<lambda>p. strip (h p)" "[]"]
    by (simp add: st ya_document_def ya_for_each_def)
  then show ?thesis by (simp add: st live_def filter_map comp_def)
qed

lemma replicas_same_document:
  assumes inv: "replica_inv E ops st ps" "replica_inv E' ops' st' ps'" and eq: "set ops = set ops'"
  shows "ya_document st = ya_document st'"
proof -
  obtain h start ss a where st: "st = (h, start, ss, a)" by (metis prod.collapse)
  obtain h' start' ss' a' where st': "st' = (h', start', ss', a')" by (metis prod.collapse)
  note R = replica_invD [OF inv(1) [unfolded st]] and R' = replica_invD [OF inv(2) [unfolded st']]
  have "map (\<lambda>p. strip (h p)) ps = map (\<lambda>p. strip (h' p)) ps'"
    by (rule sorted_arrangement_unique [of "path_in (set ops)"])
      (use R R' eq in \<open>simp_all add: sorted_wrt_map store_items_def\<close>)
  then show ?thesis using replica_document [OF inv(1)] replica_document [OF inv(2)] by (simp add: st st')
qed

section \<open>Running the model\<close>

text \<open>
  The scan over a list of addresses whose items are known up to their links, and a replica
  described by what it holds: its list, the table of its clients and room for \<open>n\<close> more clients.
\<close>

primrec scan_list ::
    "(yid \<Rightarrow> addr option) \<Rightarrow> (addr \<Rightarrow> item) \<Rightarrow> addr \<Rightarrow> addr option \<Rightarrow> addr list \<Rightarrow> addr option \<Rightarrow> addr list \<Rightarrow>
     addr list \<Rightarrow> addr option result" where
  "scan_list by_id c item right [] left before conf = Inr left"
| "scan_list by_id c item right (p # todo) left before conf =
     (if Some p = right then Inr left
      else if length before \<ge> kMaxConflict then Inl kIntegrationFailed
      else if it_origin_left (c p) = it_origin_left (c item) then
        if id_client (it_id (c p)) < id_client (it_id (c item)) then
          scan_list by_id c item right todo (Some p) (before @ [p]) []
        else if it_origin_right (c p) = it_origin_right (c item) then Inr left
        else scan_list by_id c item right todo left (before @ [p]) (conf @ [p])
      else if is_valid (it_origin_left (c p)) \<and> by_id (it_origin_left (c p)) \<in> Some ` set (before @ [p]) then
        if by_id (it_origin_left (c p)) \<notin> Some ` set (conf @ [p]) then
          scan_list by_id c item right todo (Some p) (before @ [p]) []
        else scan_list by_id c item right todo left (before @ [p]) (conf @ [p])
      else Inr left)"

lemma ya_scan_list:
  "chain h cur todo \<Longrightarrow> (\<And>q. q \<in> insert item (set todo) \<Longrightarrow> same_content (h q) (c q)) \<Longrightarrow>
   ya_scan by_id h item right cur left before conf = scan_list by_id c item right todo left before conf"
proof (induction todo arbitrary: cur left before conf)
  case Nil
  then show ?case by (simp add: ya_scan.simps)
next
  case (Cons p todo)
  have c: "it_origin_left (h q) = it_origin_left (c q)" "it_origin_right (h q) = it_origin_right (c q)"
    "it_id (h q) = it_id (c q)" if "q = p \<or> q = item" for q
    using same_contentD(1-3) [OF Cons.prems(2), of q] that by auto
  have IH: "ya_scan by_id h item right (it_right (h p)) l b k = scan_list by_id c item right todo l b k" for l b k
    by (rule Cons.IH) (use Cons.prems in auto)
  have "cur = Some p" using Cons.prems(1) by simp
  then show ?case using IH c [of p] c [of item]
    by (subst ya_scan.simps) (auto simp: Let_def)
qed

lemma ya_integrate_scan:
  assumes "origin_ptr (\<lambda>i. ss_find_by_id E h i ss) (it_origin_left (h p)) = left"
    and "ya_scan (\<lambda>i. ss_find_by_id E h i ss) h p (origin_ptr (\<lambda>i. ss_find_by_id E h i ss) (it_origin_right (h p)))
      (case left of None \<Rightarrow> start | Some l \<Rightarrow> it_right (h l)) left [] [] = Inr l"
  shows "ya_integrate E ss p (h, start) = (Inr (), ya_splice p l (h, start))"
proof -
  have "ya_integrate E ss p (h, start) = (case Inr l of Inl e \<Rightarrow> (Inl e, h, start)
      | Inr left \<Rightarrow> (Inr (), ya_splice p left (h, start)))"
    unfolding ya_integrate_def Let_def prod.case assms(2) [symmetric] assms(1) [symmetric] origin_ptr_def ..
  then show ?thesis by simp
qed

definition ss_room :: "(u64, 'a) hm_env \<Rightarrow> nat \<Rightarrow> struct_store \<Rightarrow> bool" where
  "ss_room E n ss \<longleftrightarrow> hm_room E n (ss_table ss) \<and> length (ss_order ss) + n \<le> kMaxClients"

lemma ss_append_room:
  assumes inv: "ss_inv E h ss" and run: "ss_append E h p (ss, a) = (r, ss', a')" and room: "ss_room E (Suc n) ss"
  shows "ss_room E n ss'"
proof -
  define c where "c = id_client (it_id (h p))"
  have tr: "tracks (hm_inv E) hm_abs (ss_order ss) (ss_table ss)" using inv by (simp add: ss_inv_def)
  obtain v ss1 a1 where goc: "ss_get_or_create E c (ss, a) = (v, ss1, a1)" by (metis prod.collapse)
  have 1: "ss_room E n ss1"
  proof (cases "hm_get E c (ss_table ss)")
    case (Some vec)
    then show ?thesis using goc room by (auto simp: ss_get_or_create_def ss_room_def intro: hm_room_less)
  next
    case None
    obtain ok t a2 where add: "hm_add E c \<lparr>iv_data = [], iv_cap = 0\<rparr> (ss_table ss, a) = (ok, t, a2)" by (metis prod.collapse)
    have "ok \<and> hm_room E n t" using hm.tracks_add(3) [OF tr None add, of n] room unfolding ss_room_def by blast
    then show ?thesis using goc None add room
      by (auto simp: ss_get_or_create_def ss_room_def Let_def split: if_splits)
  qed
  have inv1: "hm_inv E (ss_table ss1)"
    using ss_get_or_create_spec(1) [OF inv goc] by (simp add: ss_inv_def tracks_def)
  show ?thesis
  proof (cases v)
    case None
    then show ?thesis using run goc 1 by (auto simp: ss_append_def c_def)
  next
    case (Some vec)
    then show ?thesis using run goc 1 hm.assign_room [OF inv1]
      by (auto simp: ss_append_def c_def ss_room_def split: prod.splits)
  qed
qed

definition describes ::
    "(u64, 'a) hm_env \<Rightarrow> (addr \<Rightarrow> item) \<Rightarrow> nat \<Rightarrow> (u64 \<Rightarrow> addr list) \<Rightarrow> addr list \<Rightarrow>
     item_heap \<times> addr option \<times> struct_store \<times> 'a \<Rightarrow> bool" where
  "describes E c n ptrs ps st \<longleftrightarrow>
     (let (h, start, ss, a) = st in
      dll h start ps \<and> ss_inv E h ss \<and> ss_ptrs ss = ptrs \<and> ss_addrs ss = set ps \<and> ss_room E n ss \<and>
      (\<forall>q \<in> set ps. same_content (h q) (c q)))"

lemma describes_empty: "ss_room E n ss_empty \<Longrightarrow> describes E c n (\<lambda>_. []) [] (h, None, ss_empty, a)"
  by (simp add: describes_def ss_inv_empty ss_addrs_def fun_eq_iff)

lemma same_content_via: "same_content x y \<Longrightarrow> same_content y z \<Longrightarrow> same_content x z"
  by (simp add: same_content_strip)

text \<open>Installing an item whose origins and whose place \<open>scan_list\<close> computes.\<close>

lemma describes_install:
  assumes st: "describes E c (Suc n) ptrs ps (h, start, ss, a)" and p: "p \<notin> set ps"
    and x: "0 < it_length (c p)" "item_start (c p) + item_width (c p) < 2 ^ 64"
      "item_start (c p) = span c (ptrs (id_client (it_id (c p))))" "length (ptrs (id_client (it_id (c p)))) < kMaxPerClientItems"
    and ps: "ps = xs @ ys @ zs"
    and scan: "\<And>by_id. \<forall>q \<in> set ps. by_id (it_id (c q)) = Some q \<and> by_id (last_id (c q)) = Some q \<Longrightarrow>
      origin_ptr by_id (it_origin_left (c p)) = last_of None xs \<and>
      scan_list by_id c p (origin_ptr by_id (it_origin_right (c p))) (ys @ zs) (last_of None xs) [] [] =
        Inr (last_of None (xs @ ys))"
  shows "\<exists>st'. ya_install E p (h(p := c p), start, ss, a) = (Inr (), st') \<and>
    describes E c n (ptrs(id_client (it_id (c p)) := ptrs (id_client (it_id (c p))) @ [p])) (xs @ ys @ p # zs) st'"
proof -
  define h1 where "h1 = h(p := c p)"
  have D: "dll h start ps" "ss_inv E h ss" "ss_ptrs ss = ptrs" "ss_addrs ss = set ps" "ss_room E (Suc n) ss"
    "\<And>q. q \<in> set ps \<Longrightarrow> same_content (h q) (c q)"
    using st by (auto simp: describes_def)
  have old: "h1 q = h q" if "q \<in> set ps" for q using that p by (auto simp: h1_def)
  have sc: "same_content (h1 q) (c q)" if "q \<in> insert p (set ps)" for q
    using that D(6) [of q] old [of q] by (cases "q = p") (auto simp: h1_def)
  have dl: "dll h1 start ps" using D(1) old by (subst dll_cong [of ps h1 h]) auto
  have inv1: "ss_inv E h1 ss" using D(2,4) old by (subst ss_inv_cong [of ss h1 h]) auto
  have h1p: "h1 p = c p" by (simp add: h1_def)
  obtain r ss' a' where app: "ss_append E h1 p (ss, a) = (r, ss', a')" by (metis prod.collapse)
  note A = ss_append_spec [OF inv1 app, unfolded h1p, OF x(1,2)]
  have "span h1 (ptrs (id_client (it_id (c p)))) = span c (ptrs (id_client (it_id (c p))))"
  proof -
    have "it_length (h1 q) = it_length (c q)" if "q \<in> set (ptrs k)" for q k
      using that D(3,4) by (intro same_contentD(4) sc) (auto simp: ss_addrs_def)
    then show ?thesis by (simp add: span_def item_width_def cong: map_cong)
  qed
  moreover have "hm_room E 1 (ss_table ss)" "length (ss_order ss) < kMaxClients"
    using D(5) by (auto simp: ss_room_def intro: hm_room_less)
  ultimately have r: "r = Inr ()" using A(6) x(3,4) D(3) by simp
  have ptrs': "ss_ptrs ss' = ptrs(id_client (it_id (c p)) := ptrs (id_client (it_id (c p))) @ [p])"
    using A(2) r D(3) by simp
  then have addrs: "ss_addrs ss' = insert p (set ps)" using ss_append_addrs [of ss' ss] D(3,4) by simp
  let ?by_id = "\<lambda>i. ss_find_by_id E h1 i ss'"
  have by_id: "?by_id (it_id (c q)) = Some q \<and> ?by_id (last_id (c q)) = Some q" if q: "q \<in> set ps" for q
  proof -
    have "it_id (h1 q) = it_id (c q)" "last_id (h1 q) = last_id (c q)"
      using same_contentD(1,4) [OF sc [of q]] q by (simp_all add: last_id_def)
    then show ?thesis using ss_find_first [OF A(1), of q] ss_find_last [OF A(1), of q] q addrs by simp
  qed
  note S = scan [of ?by_id, OF ballI [OF by_id]]
  define cur where "cur = (case last_of None xs of None \<Rightarrow> start | Some l \<Rightarrow> it_right (h1 l))"
  have ch: "chain h1 cur (ys @ zs)" unfolding cur_def by (rule chain_append) (use dll_chain [OF dl] ps in simp)
  have "ya_scan by_id h1 p right cur left [] [] = scan_list by_id c p right (ys @ zs) left [] []" for by_id right left
    by (rule ya_scan_list [OF ch]) (use sc ps in auto)
  then have "ya_scan ?by_id h1 p (origin_ptr ?by_id (it_origin_right (c p))) cur (last_of None xs) [] [] =
      Inr (last_of None (xs @ ys))"
    using S by simp
  then have int: "ya_integrate E ss' p (h1, start) = (Inr (), ya_splice p (last_of None (xs @ ys)) (h1, start))"
    using S unfolding cur_def by (intro ya_integrate_scan [where left = "last_of None xs"]) (simp_all add: h1p)
  obtain h2 start2 where sp: "ya_splice p (last_of None (xs @ ys)) (h1, start) = (h2, start2)" by (metis prod.collapse)
  note spl = ya_splice_spec [of h1 start "xs @ ys" zs, OF _ _ sp]
  have dl2: "dll h2 start2 (xs @ ys @ p # zs)" using spl(1) dl p ps by simp
  have sc2: "same_content (h2 q) (h1 q)" for q using spl(2) dl p ps by simp
  have "ss_inv E h2 ss'"
    using A(1) same_contentD(1,4) [OF sc2] by (subst ss_inv_cong [of ss' h2 h1]) auto
  moreover have "ss_room E n ss'" by (rule ss_append_room [OF inv1 app D(5)])
  moreover have "\<forall>q \<in> set (xs @ ys @ p # zs). same_content (h2 q) (c q)"
    using same_content_via [OF sc2 sc] ps by auto
  ultimately have "describes E c n (ptrs(id_client (it_id (c p)) := ptrs (id_client (it_id (c p))) @ [p]))
      (xs @ ys @ p # zs) (h2, start2, ss', a')"
    using dl2 ptrs' addrs ps by (auto simp: describes_def)
  moreover have "ya_install E p (h(p := c p), start, ss, a) = (Inr (), h2, start2, ss', a')"
    using app r int sp by (simp add: ya_install_def h1_def)
  ultimately show ?thesis by blast
qed

lemma describes_delete:
  assumes "describes E c n ptrs ps (h, r)" and "p \<in> set ps"
  shows "describes E (c(p := set_deleted (c p))) n ptrs ps (ya_mark_deleted p h, r)"
proof -
  obtain start ss a where r: "r = (start, ss, a)" by (metis prod.collapse)
  have D: "dll h start ps" "ss_inv E h ss" "ss_ptrs ss = ptrs" "ss_addrs ss = set ps" "ss_room E n ss"
    "\<And>q. q \<in> set ps \<Longrightarrow> same_content (h q) (c q)"
    using assms(1) by (auto simp: describes_def r)
  let ?h = "ya_mark_deleted p h"
  have same: "it_left (?h q) = it_left (h q)" "it_right (?h q) = it_right (h q)" "it_id (?h q) = it_id (h q)"
    "it_length (?h q) = it_length (h q)" for q
    by (simp_all add: ya_mark_deleted_def set_deleted_def)
  have "dll ?h start ps" using D(1) same by (subst dll_cong [of ps ?h h]) auto
  moreover have "ss_inv E ?h ss" using D(2) same by (subst ss_inv_cong [of ss ?h h]) auto
  moreover have "same_content (?h q) ((c(p := set_deleted (c p))) q)" if "q \<in> set ps" for q
    using D(6) [OF that] by (cases "h q"; cases "c q") (auto simp: ya_mark_deleted_def set_deleted_def same_content_def)
  ultimately show ?thesis using D(3-5) by (simp add: describes_def r)
qed

lemma describes_grow:
  assumes "replica E ops st" and "describes E c (Suc n) ptrs ps st" and "p \<notin> set ps" and "yata_op ops (c p)"
    and "strip (c p) = c p" and "item_start (c p) = span c (ptrs (id_client (it_id (c p))))"
    and "length (ptrs (id_client (it_id (c p)))) < kMaxPerClientItems" and "ps = xs @ ys @ zs"
    and "\<And>by_id. \<forall>q \<in> set ps. by_id (it_id (c q)) = Some q \<and> by_id (last_id (c q)) = Some q \<Longrightarrow>
      origin_ptr by_id (it_origin_left (c p)) = last_of None xs \<and>
      scan_list by_id c p (origin_ptr by_id (it_origin_right (c p))) (ys @ zs) (last_of None xs) [] [] =
        Inr (last_of None (xs @ ys))"
  obtains st' where "replica E (ops @ [c p]) st'"
    and "describes E c n (ptrs(id_client (it_id (c p)) := ptrs (id_client (it_id (c p))) @ [p])) (xs @ ys @ p # zs) st'"
proof -
  obtain h start ss a where st: "st = (h, start, ss, a)" by (metis prod.collapse)
  have x: "0 < it_length (c p)" "item_start (c p) + item_width (c p) < 2 ^ 64" using assms(4) by (simp_all add: yata_op_def)
  from describes_install [OF assms(2) [unfolded st] assms(3) x assms(6-9)] obtain st'
    where st': "ya_install E p (h(p := c p), start, ss, a) = (Inr (), st')"
      "describes E c n (ptrs(id_client (it_id (c p)) := ptrs (id_client (it_id (c p))) @ [p])) (xs @ ys @ p # zs) st'"
    by blast
  have "p \<notin> ss_addrs ss" using assms(2,3) st by (simp add: describes_def)
  from replica.install [OF assms(1) [unfolded st] this assms(4) st'(1)] show ?thesis using that st'(2) assms(5) by simp
qed

lemma describes_document:
  assumes "describes E c n ptrs ps st"
  shows "ya_document st = Some (map (\<lambda>p. strip (c p)) (filter (\<lambda>p. \<not> deleted (c p)) ps))"
proof -
  obtain h start ss a where st: "st = (h, start, ss, a)" by (metis prod.collapse)
  have D: "dll h start ps" "\<And>q. q \<in> set ps \<Longrightarrow> same_content (h q) (c q)" using assms by (auto simp: describes_def st)
  have "ya_document st = Some (map (\<lambda>p. strip (h p)) (live h ps))"
    using ya_for_each_chain [OF dll_chain [OF D(1)], of "\<lambda>p i seen. seen @ [strip (h p)]" 0 "[]"]
      fold_collect [of "map of_nat [0..<length (live h ps)]" "live h ps" "\<lambda>p. strip (h p)" "[]"]
    by (simp add: st ya_document_def ya_for_each_def)
  moreover have "live h ps = filter (\<lambda>p. \<not> deleted (c p)) ps"
    unfolding live_def by (rule filter_cong) (use D(2) same_contentD(6) in auto)
  moreover have "map (\<lambda>p. strip (h p)) (filter (\<lambda>p. \<not> deleted (c p)) ps) =
      map (\<lambda>p. strip (c p)) (filter (\<lambda>p. \<not> deleted (c p)) ps)"
    by (rule map_cong) (use D(2) in \<open>auto simp: same_content_strip\<close>)
  ultimately show ?thesis by simp
qed

end
