(* ===== verification/Ycpp_Converge.thy ===== *)
theory Ycpp_Converge
  imports Ycpp_Replica
begin

text \<open>
  Convergence: what is shown of replicas.  Two replicas with the same items show the same document;
  a replica never gets stuck; and an item that names the neighbours of its place is one that
  the other theorems speak of.
\<close>

section \<open>Positions between neighbours\<close>

text \<open>
  An item that names the neighbours of its place as its origins, as Yjs does, is one the theorems
  below speak of: the right neighbour is a sibling or does not descend from the left one.
\<close>

lemma descends_child:
  "descends S i r \<Longrightarrow> path_rel S r Q \<Longrightarrow> inj_on last_id S \<Longrightarrow> inj_on it_id S \<Longrightarrow>
    \<exists>c \<in> S. \<exists>P. it_origin_left c = i \<and> path_rel S c P \<and> P \<le> Q"
proof (induction arbitrary: Q rule: descends.induct)
  case (child r)
  then show ?case by auto
next
  case (deeper r m)
  obtain m' P t where m': "Q = P @ [t]" "m' \<in> S" "it_origin_left r = last_id m'" "path_rel S m' P"
    using deeper.prems(1) deeper.hyps(3) by (auto elim: path_relE)
  have "m' = m" using m'(2,3) deeper.hyps(2,4) deeper.prems(2) by (auto dest: inj_onD)
  moreover have "P \<le> Q" unfolding m'(1) by (rule less_imp_le [OF less_append])
  ultimately show ?case using deeper.IH [of P] deeper.prems(2,3) m'(4) by (meson order_trans)
qed

lemma replica_path:
  assumes "replica_inv E ops (h, start, ss, a) ps" and "q \<in> set ps"
  shows "path_rel (set ops) (strip (h q)) (path_in (set ops) (strip (h q)))"
proof -
  note R = replica_invD [OF assms(1)]
  note inj = store_items_inj [OF R(2), unfolded R(4)]
  have "strip (h q) \<in> set ops" using R(3,4) assms(2) by (auto simp: store_items_def)
  then obtain P where "path_rel (set ops) (strip (h q)) P" using R(7) by blast
  then show ?thesis using path_in_eq inj by metis
qed

lemma right_neighbour_ok:
  assumes inv: "replica_inv E ops (h, start, ss, a) (xs @ r # ys)"
    and left: "it_origin_left x = (case last_of None xs of None \<Rightarrow> kInvalidId | Some l \<Rightarrow> last_id (h l))"
    and right: "it_origin_right x = it_id (h r)"
  shows "right_ok (set ops) x"
proof -
  let ?path = "\<lambda>q. path_in (set ops) (strip (h q))"
  note R = replica_invD [OF inv]
  note inj = store_items_inj [OF R(2), unfolded R(4)]
  have mem: "strip (h q) \<in> set ops" if "q \<in> set (xs @ r # ys)" for q
    using that R(3,4) by (auto simp: store_items_def)
  have fits: "0 < it_length (h q)" "item_start (h q) + item_width (h q) < 2 ^ 64" if "q \<in> set (xs @ r # ys)" for q
    using ss_addr_fits [OF R(2)] that R(3) by auto
  have valid: "is_valid (it_id (h r))" using fits [of r] by (intro fits_valid(1)) auto
  have sorted: "sorted_wrt (\<lambda>p q. ?path p < ?path q) (xs @ r # ys)" by (rule R(8))
  have "it_origin_left (h r) = it_origin_left x \<or>
    is_valid (it_origin_left x) \<and> \<not> descends (set ops) (it_origin_left x) (strip (h r))"
  proof (cases xs rule: rev_cases)
    case Nil
    have "left_ok (set ops) (strip (h r))" using R(6) mem by simp
    then consider "it_origin_left (h r) = kInvalidId" | m where "m \<in> set ops" "is_valid (last_id m)" "it_origin_left (h r) = last_id m"
      by (auto simp: left_ok_def)
    then show ?thesis
    proof cases
      case 1
      then show ?thesis using left Nil by simp
    next
      case 2
      obtain q where q: "q \<in> set (xs @ r # ys)" "m = strip (h q)" by (rule replica_item [OF inv 2(1)])
      obtain n P t where n: "?path r = P @ [t]" "n \<in> set ops" "it_origin_left (h r) = last_id n" "path_rel (set ops) n P"
        using replica_path [OF inv, of r] 2 by (auto elim: path_relE)
      have "n = strip (h q)" using n(2,3) 2 q by (intro inj_onD [OF inj(1)]) auto
      then have "?path q = P" using n(4) path_in_eq inj by metis
      then have "?path q < ?path r" using n(1) by simp
      then show ?thesis using sorted q(1) Nil by (auto dest: less_asym)
    qed
  next
    case (snoc xs' l)
    have l: "l \<in> set (xs @ r # ys)" and x: "it_origin_left x = last_id (h l)" using snoc left by simp_all
    have v: "is_valid (last_id (h l))" by (rule fits_valid(2) [OF fits [OF l]])
    show ?thesis
    proof (cases "descends (set ops) (last_id (h l)) (strip (h r))")
      case False
      then show ?thesis using v x by simp
    next
      case True
      obtain c P where c: "c \<in> set ops" "it_origin_left c = last_id (h l)" "path_rel (set ops) c P" "P \<le> ?path r"
        using descends_child [OF True replica_path [OF inv] inj(1,2)] by auto
      obtain q where q: "q \<in> set (xs @ r # ys)" "c = strip (h q)" by (rule replica_item [OF inv c(1)])
      have P: "?path q = P" using c(3) q(2) path_in_eq inj by metis
      obtain n Q t where n: "P = Q @ [t]" "n \<in> set ops" "last_id (h l) = last_id n" "path_rel (set ops) n Q"
        using c(2,3) v by (auto elim: path_relE)
      have "n = strip (h l)" using n(2,3) mem [OF l] by (intro inj_onD [OF inj(1)]) simp_all
      then have "?path l = Q" using n(4) path_in_eq inj by metis
      then have "?path l < ?path q" using n(1) P by simp
      then have "q \<notin> set xs" using sorted snoc by (auto simp: sorted_wrt_append dest: less_asym)
      moreover have "q \<notin> set ys" using sorted c(4) P by (auto simp: sorted_wrt_append not_le [symmetric])
      ultimately have "q = r" using q(1) by auto
      then show ?thesis using c(2) q(2) x by simp
    qed
  qed
  then show ?thesis unfolding right_ok_def using valid right mem [of r] by (auto intro!: bexI [of _ "strip (h r)"])
qed

section \<open>Properties\<close>

text \<open>
C1: Replicas converge: two replicas that have installed the same items, each in an order its store
accepts (clocks of a client in sequence, origins before their successors), show the same
document, whatever the interleaving of the clients, for up to 256 items.  The items may append or
insert; a right origin is a sibling or does not descend from the left origin.
\<close>

theorem replicas_converge:
  assumes "replica E ops st" and "replica E' ops' st'" and "set ops = set ops'"
    and "length ops \<le> 257" and "length ops' \<le> 257"
  shows "ya_document st = ya_document st' \<and> ya_document st \<noteq> None"
proof -
  obtain ps ps' where inv: "replica_inv E ops st ps" "replica_inv E' ops' st' ps'"
    using replica_inv_holds [OF assms(1)] replica_inv_holds [OF assms(2)] assms(4,5) by (auto simp: kMaxConflict_def)
  then show ?thesis using replicas_same_document [OF inv assms(3)] replica_document [OF inv(1)] by (metis option.distinct(1))
qed

text \<open>
  The first client writes an item, the second puts one in front of it, and the third, who has seen
  nothing, writes one of its own.
\<close>

definition trio :: "addr \<Rightarrow> item" where
  "trio p = item_default\<lparr>it_id := Id (if p = 160 then 1 else if p = 320 then 2 else 3) 0, it_length := 1,
     it_content_kind := kString, it_content_view := [ucast p],
     it_origin_right := (if p = 320 then Id 1 0 else kInvalidId)\<rparr>"

lemma trio_simps [simp]:
  "it_id (trio 160) = Id 1 0" "it_id (trio 320) = Id 2 0" "it_id (trio 480) = Id 3 0"
  "it_origin_right (trio 160) = kInvalidId" "it_origin_right (trio 320) = Id 1 0" "it_origin_right (trio 480) = kInvalidId"
  "it_origin_left (trio p) = kInvalidId" "it_length (trio p) = 1" "item_start (trio p) = 0" "item_width (trio p) = 1"
  "strip (trio p) = trio p" "\<not> deleted (trio p)" "last_id (trio p) = it_id (trio p)"
  by (simp_all add: trio_def item_default_def item_start_def item_width_def strip_def deleted_def last_id_def)

lemma trio_yata:
  "yata_op ops (trio 160)" "trio 160 \<in> set ops \<Longrightarrow> yata_op ops (trio 320)" "yata_op ops (trio 480)"
  by (auto simp: yata_op_def left_ok_def right_ok_def is_valid_def kInvalidId_def intro!: bexI [of _ "trio 160"])

lemma ss_room_bump: "n \<le> 4096 \<Longrightarrow> ss_room bump_env n ss_empty"
  by (simp add: ss_room_def hm_room_def bump_env_total ss_empty_def hm_empty_def kMaxCap_def kMaxClients_def)

lemma trio_start:
  "replica bump_env [] ((\<lambda>_. item_default), None, ss_empty, 0)"
  "describes bump_env trio (Suc (Suc (Suc 0))) (\<lambda>_. []) [] ((\<lambda>_. item_default), None, ss_empty, 0)"
  by (rule replica.empty) (simp add: describes_empty ss_room_bump)

lemmas trio_eval = kMaxPerClientItems_def kMaxConflict_def origin_ptr_def is_valid_def kInvalidId_def
  last_of_def

lemma trio_run_1:
  obtains st where "replica bump_env [trio 160, trio 320, trio 480] st"
    and "describes bump_env trio 0 ((\<lambda>_. [])(1 := [160], 2 := [320], 3 := [480])) [320, 160, 480] st"
proof -
  obtain s1 where 1: "replica bump_env [trio 160] s1" "describes bump_env trio (Suc (Suc 0)) ((\<lambda>_. [])(1 := [160])) [160] s1"
    by (rule describes_grow [OF trio_start(1), of trio "Suc (Suc 0)" "\<lambda>_. []" "[]" 160 "[]" "[]" "[]"])
      (use trio_start(2) trio_yata in \<open>simp_all add: trio_eval\<close>)
  obtain s2 where 2: "replica bump_env [trio 160, trio 320] s2"
    "describes bump_env trio (Suc 0) ((\<lambda>_. [])(1 := [160], 2 := [320])) [320, 160] s2"
    by (rule describes_grow [OF 1(1), of trio "Suc 0" "(\<lambda>_. [])(1 := [160])" "[160]" 320 "[]" "[]" "[160]"])
      (use 1(2) trio_yata in \<open>simp_all add: trio_eval\<close>)
  obtain s3 where 3: "replica bump_env [trio 160, trio 320, trio 480] s3"
    "describes bump_env trio 0 ((\<lambda>_. [])(1 := [160], 2 := [320], 3 := [480])) [320, 160, 480] s3"
    by (rule describes_grow [OF 2(1), of trio 0 "(\<lambda>_. [])(1 := [160], 2 := [320])" "[320, 160]" 480 "[]" "[320, 160]" "[]"])
      (use 2(2) trio_yata in \<open>simp_all add: trio_eval\<close>)
  show ?thesis by (rule that [OF 3])
qed

lemma trio_run_2:
  obtains st where "replica bump_env [trio 480, trio 160, trio 320] st"
    and "describes bump_env trio 0 ((\<lambda>_. [])(3 := [480], 1 := [160], 2 := [320])) [320, 160, 480] st"
proof -
  obtain s1 where 1: "replica bump_env [trio 480] s1" "describes bump_env trio (Suc (Suc 0)) ((\<lambda>_. [])(3 := [480])) [480] s1"
    by (rule describes_grow [OF trio_start(1), of trio "Suc (Suc 0)" "\<lambda>_. []" "[]" 480 "[]" "[]" "[]"])
      (use trio_start(2) trio_yata in \<open>simp_all add: trio_eval\<close>)
  obtain s2 where 2: "replica bump_env [trio 480, trio 160] s2"
    "describes bump_env trio (Suc 0) ((\<lambda>_. [])(3 := [480], 1 := [160])) [160, 480] s2"
    by (rule describes_grow [OF 1(1), of trio "Suc 0" "(\<lambda>_. [])(3 := [480])" "[480]" 160 "[]" "[]" "[480]"])
      (use 1(2) trio_yata in \<open>simp_all add: trio_eval\<close>)
  obtain s3 where 3: "replica bump_env [trio 480, trio 160, trio 320] s3"
    "describes bump_env trio 0 ((\<lambda>_. [])(3 := [480], 1 := [160], 2 := [320])) [320, 160, 480] s3"
    by (rule describes_grow [OF 2(1), of trio 0 "(\<lambda>_. [])(3 := [480], 1 := [160])" "[160, 480]" 320 "[]" "[]" "[160, 480]"])
      (use 2(2) trio_yata in \<open>simp_all add: trio_eval\<close>)
  show ?thesis by (rule that [OF 3])
qed

theorem replicas_converge_witness:
  "\<exists>st st'. replica bump_env [trio 160, trio 320, trio 480] st \<and> replica bump_env [trio 480, trio 160, trio 320] st' \<and>
    ya_document st = ya_document st' \<and> ya_document st = Some [trio 320, trio 160, trio 480]"
proof -
  obtain st where 1: "replica bump_env [trio 160, trio 320, trio 480] st"
    "describes bump_env trio 0 ((\<lambda>_. [])(1 := [160], 2 := [320], 3 := [480])) [320, 160, 480] st" by (rule trio_run_1)
  obtain st' where 2: "replica bump_env [trio 480, trio 160, trio 320] st'" by (rule trio_run_2)
  have "ya_document st = ya_document st'" using replicas_converge [OF 1(1) 2] by auto
  moreover have "ya_document st = Some [trio 320, trio 160, trio 480]" using describes_document [OF 1(2)] by simp
  ultimately show ?thesis using 1(1) 2 by blast
qed

text \<open>
C6: A replica never gets stuck: an item whose origins are among the items seen and whose clock is the
next clock of its client is installed, given memory and room, as long as the document has at most
256 items; the conflict scan never gives up.
\<close>

theorem replicas_progress:
  assumes "replica E ops (h, start, ss, a)" and "p \<notin> ss_addrs ss" and "yata_op ops x"
    and "length ops \<le> 256" and "ya_install E p (h(p := x), start, ss, a) = (r, st)"
    and "item_start x = unat (ss_state E h (id_client (it_id x)) ss)"
    and "hm_room E 1 (ss_table ss)" and "length (ss_order ss) < 4096"
    and "length (ss_ptrs ss (id_client (it_id x))) < 2 ^ 24"
  shows "r = Inr () \<and> replica E (ops @ [strip x]) st"
proof -
  obtain ps where inv: "replica_inv E ops (h, start, ss, a) ps"
    using replica_inv_holds [OF assms(1)] assms(4) by (auto simp: kMaxConflict_def)
  have "r = Inr ()"
    using replica_step(3) [OF inv assms(2,3) _ assms(5)] assms(4,6-9)
    by (simp add: kMaxConflict_def kMaxClients_def kMaxPerClientItems_def)
  then show ?thesis using replica.install [OF assms(1-3)] assms(5) by blast
qed

theorem replicas_progress_witness:
  "\<exists>st. ya_install bump_env 160 ((\<lambda>_. item_default)(160 := trio 160), None, ss_empty, 0) = (Inr (), st) \<and>
    replica bump_env [trio 160] st"
proof -
  obtain r st where run: "ya_install bump_env 160 ((\<lambda>_. item_default)(160 := trio 160), None, ss_empty, 0) = (r, st)"
    by (metis surj_pair)
  have "unat (ss_state bump_env (\<lambda>_. item_default) 1 ss_empty) = 0"
    using ss_state_span [OF ss_inv_empty(1), of bump_env "\<lambda>_. item_default" 1] by (simp add: ss_inv_empty)
  moreover have "hm_room bump_env 1 (ss_table ss_empty)" "length (ss_order ss_empty) < 4096"
    by (simp_all add: hm_room_def bump_env_total ss_empty_def hm_empty_def kMaxCap_def)
  ultimately show ?thesis
    using replicas_progress [OF trio_start(1) _ trio_yata(1) _ run] run by (simp add: ss_addrs_def ss_inv_empty)
qed



end
