(* ===== verification/Ycpp_DeleteSet.thy ===== *)
theory Ycpp_DeleteSet
  imports Ycpp_StateVector Ycpp_Id
begin

text \<open>
  The delete set of ycpp_delete_set.h: per client a sorted vector of clock ranges that are
  merged as they are added, behind a hash map from clients to vectors and the array of the
  clients in insertion order.  A \<open>ClientVec\<close> is the list of its first \<open>size\<close> ranges and its
  capacity; a pointer into the table is an access by the client's key, which is the same
  entry as long as nothing is inserted in between.

  \<open>ds_abs\<close> is the set of identifiers a delete set stands for.  The arithmetic of the code
  wraps; every statement carries the hypothesis that the ranges at hand do not.
\<close>

section \<open>The code\<close>

record delete_range =
  dr_clock_start :: u64
  dr_length :: u64

definition clock_end_exclusive :: "delete_range \<Rightarrow> u64" where
  "clock_end_exclusive r = dr_clock_start r + dr_length r"

definition kInitialPerClientCap :: nat where
  "kInitialPerClientCap = 4"

definition kMaxPerClientRanges :: nat where
  "kMaxPerClientRanges = 2 ^ 20"

record client_vec =
  cv_data :: "delete_range list"
  cv_cap :: nat

record delete_set =
  ds_table :: "(u64, client_vec) hashmap"
  ds_order :: "u64 list"

definition ds_empty :: delete_set where
  "ds_empty = \<lparr>ds_table = hm_empty, ds_order = []\<rparr>"

definition ds_ensure_cap :: "'a allocator \<Rightarrow> nat \<Rightarrow> (client_vec \<times> 'a, unit) op" where
  "ds_ensure_cap al need st =
     (let (vec, a) = st in
      if need \<le> cv_cap vec then (Inr (), vec, a)
      else if need > kMaxPerClientRanges then (Inl kCapacityExceeded, vec, a)
      else
        let new_cap = (if cv_cap vec = 0 then kInitialPerClientCap else cv_cap vec * 2);
            new_cap = round_up_loop new_cap need;
            new_cap = (if new_cap > kMaxPerClientRanges then kMaxPerClientRanges else new_cap);
            (fresh, a) = al (of_nat (16 * new_cap)) 8 a
        in if fresh = None then (Inl kOutOfMemory, vec, a)
           else (Inr (), vec\<lparr>cv_cap := new_cap\<rparr>, a))"

function ds_merge_forward :: "delete_range list \<Rightarrow> nat \<Rightarrow> delete_range list" where
  "ds_merge_forward data pos =
     (if pos + 1 < length data then
        let cur = data ! pos; next = data ! (pos + 1) in
        if clock_end_exclusive cur < dr_clock_start next then data
        else
          let new_end = (if clock_end_exclusive cur \<ge> clock_end_exclusive next
                         then clock_end_exclusive cur else clock_end_exclusive next);
              data = data[pos := cur\<lparr>dr_length := new_end - dr_clock_start cur\<rparr>]
          in ds_merge_forward (take (pos + 1) data @ drop (pos + 2) data) pos
      else data)"
  by pat_completeness auto
termination
  by (relation "measure (\<lambda>(data, pos). length data)") auto

declare ds_merge_forward.simps [simp del]

definition ds_insert_range :: "'a allocator \<Rightarrow> u64 \<Rightarrow> u64 \<Rightarrow> (client_vec \<times> 'a, unit) op" where
  "ds_insert_range al clk len st =
     (let data = cv_data (fst st);
          pos = bsearch (\<lambda>i. dr_clock_start (data ! i) < clk) 0 (length data);
          stop = clk + len;
          prev = data ! (pos - 1)
      in
        if pos > 0 \<and> clock_end_exclusive prev \<ge> clk then
          let new_end = (if stop > clock_end_exclusive prev then stop else clock_end_exclusive prev);
              data = data[pos - 1 := prev\<lparr>dr_length := new_end - dr_clock_start prev\<rparr>]
          in (Inr (), (fst st)\<lparr>cv_data := ds_merge_forward data (pos - 1)\<rparr>, snd st)
        else
          ytry (ds_ensure_cap al (length data + 1)) (\<lambda>_ (vec, a).
            let data = take pos (cv_data vec) @ \<lparr>dr_clock_start = clk, dr_length = len\<rparr> # drop pos (cv_data vec)
            in (Inr (), vec\<lparr>cv_data := ds_merge_forward data pos\<rparr>, a)) st)"

definition ds_find :: "(u64, 'a) hm_env \<Rightarrow> u64 \<Rightarrow> delete_set \<Rightarrow> client_vec option" where
  "ds_find E client ds = hm_get E client (ds_table ds)"

text \<open>The result is the pointed-to vector, \<open>None\<close> for \<open>nullptr\<close>.\<close>

definition ds_get_or_create ::
    "(u64, 'a) hm_env \<Rightarrow> u64 \<Rightarrow> delete_set \<times> 'a \<Rightarrow> client_vec option \<times> delete_set \<times> 'a" where
  "ds_get_or_create E client st =
     (let (ds, a) = st in
      case hm_get E client (ds_table ds) of
        Some vec \<Rightarrow> (Some vec, ds, a)
      | None \<Rightarrow>
          if length (ds_order ds) \<ge> kMaxClients then (None, ds, a)
          else
            let init = \<lparr>cv_data = [], cv_cap = 0\<rparr>;
                (inserted, table, a) = hm_add E client init (ds_table ds, a) in
            if \<not> inserted then (None, ds\<lparr>ds_table := table\<rparr>, a)
            else (Some init, \<lparr>ds_table = table, ds_order = ds_order ds @ [client]\<rparr>, a))"

definition ds_add :: "(u64, 'a) hm_env \<Rightarrow> u64 \<Rightarrow> u64 \<Rightarrow> u64 \<Rightarrow> (delete_set \<times> 'a, unit) op" where
  "ds_add E client clk len st =
     (case ds_get_or_create E client st of
        (None, st) \<Rightarrow> (Inl kOutOfMemory, st)
      | (Some vec, ds, a) \<Rightarrow>
          (case ds_insert_range (he_alloc E) clk len (vec, a) of
             (r, vec, a) \<Rightarrow> (r, ds\<lparr>ds_table := hm_assign E client vec (ds_table ds)\<rparr>, a)))"

definition ranges_contain :: "delete_range list \<Rightarrow> u64 \<Rightarrow> bool" where
  "ranges_contain data c =
     (let lo = bsearch (\<lambda>i. dr_clock_start (data ! i) \<le> c) 0 (length data) in
      if lo = 0 then False else c < clock_end_exclusive (data ! (lo - 1)))"

definition ds_contains :: "(u64, 'a) hm_env \<Rightarrow> yid \<Rightarrow> delete_set \<Rightarrow> bool" where
  "ds_contains E i ds =
     (case ds_find E (id_client i) ds of
        None \<Rightarrow> False
      | Some vec \<Rightarrow> ranges_contain (cv_data vec) (id_clock i))"

definition ds_client_count :: "delete_set \<Rightarrow> nat" where
  "ds_client_count ds = length (ds_order ds)"

definition ds_items :: "(u64, 'a) hm_env \<Rightarrow> delete_set \<Rightarrow> (u64 \<times> delete_range list) list" where
  "ds_items E ds = map (\<lambda>client. (client, cv_data (the (ds_find E client ds)))) (ds_order ds)"

definition ds_for_each_client ::
    "(u64, 'a) hm_env \<Rightarrow> (u64 \<Rightarrow> delete_range list \<Rightarrow> 's \<Rightarrow> 's) \<Rightarrow> delete_set \<Rightarrow> 's \<Rightarrow> 's" where
  "ds_for_each_client E f ds = fold (\<lambda>(client, data). f client data) (ds_items E ds)"

definition ds_decode :: "(u64, 'a) hm_env \<Rightarrow> (reader \<times> delete_set \<times> 'a, unit) op" where
  "ds_decode E =
     ytry (yfst r_varint_u64) (\<lambda>n_clients.
       if unat n_clients > kMaxPerClientRanges then yfail kCapacityExceeded
       else yloop (unat n_clients)
         (ytry (yfst r_varint_u64) (\<lambda>client.
          ytry (yfst r_varint_u64) (\<lambda>n_ranges.
            if unat n_ranges > kMaxPerClientRanges then yfail kCapacityExceeded
            else yloop (unat n_ranges)
              (ytry (yfst r_varint_u64) (\<lambda>clk.
               ytry (yfst r_varint_u64) (\<lambda>len.
                 if len = 0 then yfail kCorruptInput
                 else ysnd (ds_add E client clk len))))))))"

definition ds_encode :: "(u64, 'a) hm_env \<Rightarrow> delete_set \<Rightarrow> (writer, unit) op" where
  "ds_encode E ds =
     ytry (w_varint_u64 (of_nat (length (ds_order ds)))) (\<lambda>_.
       yforeach (\<lambda>client.
         let data = cv_data (the (ds_find E client ds)) in
         ytry (w_varint_u64 client) (\<lambda>_.
         ytry (w_varint_u64 (of_nat (length data))) (\<lambda>_.
         yforeach (\<lambda>r. ytry (w_varint_u64 (dr_clock_start r)) (\<lambda>_. w_varint_u64 (dr_length r))) data)))
       (ds_order ds))"

section \<open>Sorted, separated ranges\<close>

definition dr_start :: "delete_range \<Rightarrow> nat" where
  "dr_start r = unat (dr_clock_start r)"

definition dr_stop :: "delete_range \<Rightarrow> nat" where
  "dr_stop r = unat (dr_clock_start r) + unat (dr_length r)"

definition dr_wf :: "delete_range \<Rightarrow> bool" where
  "dr_wf r \<longleftrightarrow> 0 < dr_length r \<and> dr_stop r < 2 ^ 64"

definition dr_clocks :: "delete_range \<Rightarrow> nat set" where
  "dr_clocks r = {dr_start r..<dr_stop r}"

definition ranges_inv :: "delete_range list \<Rightarrow> bool" where
  "ranges_inv data \<longleftrightarrow> list_all dr_wf data \<and> sorted_wrt (\<lambda>x y. dr_stop x < dr_start y) data"

definition ranges_clocks :: "delete_range list \<Rightarrow> nat set" where
  "ranges_clocks data = (\<Union>r \<in> set data. dr_clocks r)"

lemma ranges_clocks_simps [simp]:
  "ranges_clocks [] = {}" "ranges_clocks (r # data) = dr_clocks r \<union> ranges_clocks data"
  "ranges_clocks (xs @ ys) = ranges_clocks xs \<union> ranges_clocks ys"
  by (simp_all add: ranges_clocks_def)

lemma dr_wf_less: "dr_wf r \<Longrightarrow> dr_start r < dr_stop r"
  by (simp add: dr_wf_def dr_start_def dr_stop_def word_less_nat_alt)

lemma unat_end: "dr_wf r \<Longrightarrow> unat (clock_end_exclusive r) = dr_stop r"
  by (simp add: dr_wf_def clock_end_exclusive_def dr_stop_def unat_word_ariths)

text \<open>The range from the start of \<open>r\<close> to the larger of two ends, as the code computes it.\<close>

lemma dr_extend:
  assumes r: "dr_wf r" and e: "dr_stop r \<le> unat e"
  shows "dr_start (r\<lparr>dr_length := e - dr_clock_start r\<rparr>) = dr_start r"
    and "dr_stop (r\<lparr>dr_length := e - dr_clock_start r\<rparr>) = unat e"
    and "dr_wf (r\<lparr>dr_length := e - dr_clock_start r\<rparr>)"
proof -
  have "dr_clock_start r \<le> e" using dr_wf_less [OF r] e by (simp add: word_le_nat_alt dr_start_def)
  then have d: "unat (e - dr_clock_start r) = unat e - dr_start r" by (simp add: unat_sub dr_start_def)
  show "dr_start (r\<lparr>dr_length := e - dr_clock_start r\<rparr>) = dr_start r" by (simp add: dr_start_def)
  show stop: "dr_stop (r\<lparr>dr_length := e - dr_clock_start r\<rparr>) = unat e"
    using dr_wf_less [OF r] e d by (simp add: dr_stop_def dr_start_def)
  show "dr_wf (r\<lparr>dr_length := e - dr_clock_start r\<rparr>)"
    unfolding dr_wf_def stop
    using dr_wf_less [OF r] e d unat_u64 [of e] by (simp add: word_less_nat_alt dr_start_def)
qed

text \<open>\<open>merge_forward\<close> as a recursion over the ranges behind the current one.\<close>

fun absorb :: "delete_range \<Rightarrow> delete_range list \<Rightarrow> delete_range list" where
  "absorb cur [] = [cur]"
| "absorb cur (next # post) =
     (if clock_end_exclusive cur < dr_clock_start next then cur # next # post
      else absorb (cur\<lparr>dr_length := (if clock_end_exclusive cur \<ge> clock_end_exclusive next
             then clock_end_exclusive cur else clock_end_exclusive next) - dr_clock_start cur\<rparr>) post)"

lemma ds_merge_forward_absorb:
  "ds_merge_forward (pre @ cur # post) (length pre) = pre @ absorb cur post"
proof (induction post arbitrary: cur)
  case Nil
  then show ?case by (simp add: ds_merge_forward.simps)
next
  case (Cons nx post)
  let ?data = "pre @ cur # nx # post"
  have nth: "?data ! length pre = cur" "?data ! (length pre + 1) = nx"
    by (simp_all add: nth_append)
  have upd: "take (length pre + 1) (?data[length pre := c]) @ drop (length pre + 2) (?data[length pre := c]) =
      pre @ c # post" for c
    by simp
  show ?case
    by (subst ds_merge_forward.simps, simp only: nth upd Let_def Cons.IH absorb.simps, simp)
qed

lemma absorb_spec:
  assumes "dr_wf cur" and "ranges_inv post" and "\<forall>r \<in> set post. dr_start cur \<le> dr_start r"
  shows "ranges_inv (absorb cur post) \<and> ranges_clocks (absorb cur post) = dr_clocks cur \<union> ranges_clocks post \<and>
    (\<forall>r \<in> set (absorb cur post). dr_start cur \<le> dr_start r) \<and> length (absorb cur post) \<le> Suc (length post)"
  using assms
proof (induction post arbitrary: cur)
  case Nil
  then show ?case by (simp add: ranges_inv_def)
next
  case (Cons nx post)
  have nx: "dr_wf nx" "ranges_inv post" "\<forall>r \<in> set post. dr_stop nx < dr_start r" "dr_start cur \<le> dr_start nx"
    using Cons.prems by (auto simp: ranges_inv_def)
  note ends = unat_end [OF Cons.prems(1)] unat_end [OF nx(1)]
  show ?case
  proof (cases "clock_end_exclusive cur < dr_clock_start nx")
    case True
    then have lt: "dr_stop cur < dr_start nx" by (simp add: word_less_nat_alt ends dr_start_def)
    have "dr_stop cur < dr_start r" if "r \<in> set post" for r
      using lt dr_wf_less [OF nx(1)] nx(3) that by force
    then show ?thesis using True lt Cons.prems nx by (auto simp: ranges_inv_def)
  next
    case False
    then have touch: "dr_start nx \<le> dr_stop cur" by (simp add: word_le_nat_alt ends dr_start_def not_less)
    define e where "e = (if clock_end_exclusive cur \<ge> clock_end_exclusive nx
             then clock_end_exclusive cur else clock_end_exclusive nx)"
    define c where "c = cur\<lparr>dr_length := e - dr_clock_start cur\<rparr>"
    have e: "unat e = max (dr_stop cur) (dr_stop nx)"
      by (auto simp: e_def ends word_le_nat_alt max_def)
    have c: "dr_start c = dr_start cur" "dr_stop c = max (dr_stop cur) (dr_stop nx)" "dr_wf c"
      using dr_extend [OF Cons.prems(1), of e] e by (simp_all add: c_def)
    have "dr_clocks c = dr_clocks cur \<union> dr_clocks nx"
      using c touch nx(4) dr_wf_less [OF Cons.prems(1)] dr_wf_less [OF nx(1)] by (auto simp: dr_clocks_def)
    moreover have "\<forall>r \<in> set post. dr_start c \<le> dr_start r" using Cons.prems(3) c by simp
    ultimately show ?thesis
      using Cons.IH [OF c(3) nx(2)] False c by (auto simp: c_def [symmetric] e_def [symmetric])
  qed
qed

text \<open>Adding a range is the union with it, and leaves the vector sorted and separated.\<close>

lemma ranges_inv_append:
  "ranges_inv (xs @ ys) \<longleftrightarrow> ranges_inv xs \<and> ranges_inv ys \<and> (\<forall>x \<in> set xs. \<forall>y \<in> set ys. dr_stop x < dr_start y)"
  by (auto simp: ranges_inv_def sorted_wrt_append)

lemma ranges_inv_start_mono:
  assumes "ranges_inv data" and "i \<le> j" and "j < length data"
  shows "dr_start (data ! i) \<le> dr_start (data ! j)"
proof (cases "i = j")
  case False
  then have "dr_stop (data ! i) < dr_start (data ! j)"
    using assms by (auto simp: ranges_inv_def sorted_wrt_iff_nth_less)
  moreover have "dr_wf (data ! i)" using assms by (simp add: ranges_inv_def list_all_length)
  ultimately show ?thesis using dr_wf_less by fastforce
qed simp

lemma ranges_bsearch:
  assumes "ranges_inv data" and "pos = bsearch (\<lambda>i. dr_clock_start (data ! i) < c) 0 (length data)"
  shows "pos \<le> length data" and "\<forall>r \<in> set (take pos data). dr_start r < unat c"
    and "\<forall>r \<in> set (drop pos data). unat c \<le> dr_start r"
proof -
  let ?p = "\<lambda>i. dr_clock_start (data ! i) < c"
  have mono: "?p i" if "i \<le> j" "j < length data" "?p j" for i j
    using ranges_inv_start_mono [OF assms(1) that(1,2)] that(3) by (simp add: word_less_nat_alt dr_start_def)
  have bs: "pos \<le> length data" "\<And>i. i < pos \<Longrightarrow> ?p i" "\<And>i. pos \<le> i \<Longrightarrow> i < length data \<Longrightarrow> \<not> ?p i"
    unfolding assms(2) using bsearch_prefix [of "length data" ?p] mono by blast+
  show le: "pos \<le> length data" by (rule bs(1))
  show "\<forall>r \<in> set (take pos data). dr_start r < unat c"
    using bs(2) le by (auto simp: in_set_conv_nth word_less_nat_alt dr_start_def)
  show "\<forall>r \<in> set (drop pos data). unat c \<le> dr_start r"
    using bs(3) le by (auto simp: in_set_conv_nth word_less_nat_alt dr_start_def not_less)
qed

lemma ds_ensure_cap_spec:
  assumes "ds_ensure_cap al need (vec, a) = (r, vec', a')"
  shows "cv_data vec' = cv_data vec" and "r \<in> {Inr (), Inl kCapacityExceeded, Inl kOutOfMemory}"
    and "alloc_total al \<Longrightarrow> need \<le> kMaxPerClientRanges \<Longrightarrow> r = Inr ()"
  using assms
  by (auto simp: ds_ensure_cap_def Let_def dest: alloc_totalD split: if_splits prod.splits)

lemma take_last: "0 < n \<Longrightarrow> n \<le> length xs \<Longrightarrow> take n xs = take (n - 1) xs @ [xs ! (n - 1)]"
  by (cases n) (simp_all add: take_Suc_conv_app_nth)

lemma update_last: "0 < n \<Longrightarrow> n \<le> length xs \<Longrightarrow> xs[n - 1 := y] = take (n - 1) xs @ y # drop n xs"
  by (cases n) (simp_all add: upd_conv_take_nth_drop)

lemma ds_insert_range_spec:
  assumes inv: "ranges_inv (cv_data vec)" and new: "dr_wf \<lparr>dr_clock_start = clk, dr_length = len\<rparr>"
    and run: "ds_insert_range al clk len (vec, a) = (r, vec', a')"
  shows "ranges_inv (cv_data vec') \<and>
    ranges_clocks (cv_data vec') = (if r = Inr () then ranges_clocks (cv_data vec) \<union> {unat clk..<unat clk + unat len}
      else ranges_clocks (cv_data vec)) \<and>
    length (cv_data vec') \<le> Suc (length (cv_data vec)) \<and>
    r \<in> {Inr (), Inl kCapacityExceeded, Inl kOutOfMemory} \<and>
    (alloc_total al \<longrightarrow> length (cv_data vec) < kMaxPerClientRanges \<longrightarrow> r = Inr ())"
proof -
  define data where "data = cv_data vec"
  define pos where "pos = bsearch (\<lambda>i. dr_clock_start (data ! i) < clk) 0 (length data)"
  let ?new = "\<lparr>dr_clock_start = clk, dr_length = len\<rparr> :: delete_range"
  have stop: "unat (clk + len) = unat clk + unat len" "dr_start ?new = unat clk" "dr_stop ?new = unat clk + unat len"
    using unat_end [OF new] by (simp_all add: clock_end_exclusive_def dr_stop_def dr_start_def)
  have inv': "ranges_inv data" using inv by (simp add: data_def)
  note bs = ranges_bsearch [OF inv' pos_def]
  have clocks: "ranges_clocks data = ranges_clocks (take pos data) \<union> ranges_clocks (drop pos data)"
    using ranges_clocks_simps(3) [of "take pos data" "drop pos data"] by (simp only: append_take_drop_id)
  have parts: "ranges_inv (take pos data)" "ranges_inv (drop pos data)"
      "\<forall>x \<in> set (take pos data). \<forall>y \<in> set (drop pos data). dr_stop x < dr_start y"
    using inv' ranges_inv_append [of "take pos data" "drop pos data"] by simp_all
  show ?thesis
  proof (cases "pos > 0 \<and> clock_end_exclusive (data ! (pos - 1)) \<ge> clk")
    case True
    define pre where "pre = take (pos - 1) data"
    define prev where "prev = data ! (pos - 1)"
    have take: "take pos data = pre @ [prev]"
      unfolding pre_def prev_def
      by (rule take_last) (use True bs(1) in simp_all)
    have prev: "dr_wf prev" "ranges_inv pre" "\<forall>x \<in> set pre. dr_stop x < dr_start prev"
      using parts(1) unfolding take ranges_inv_append by (auto simp: ranges_inv_def)
    have prev_end: "unat (clock_end_exclusive prev) = dr_stop prev" by (rule unat_end [OF prev(1)])
    define e where "e = (if clk + len > clock_end_exclusive prev then clk + len else clock_end_exclusive prev)"
    define p where "p = prev\<lparr>dr_length := e - dr_clock_start prev\<rparr>"
    have e: "unat e = max (dr_stop prev) (unat clk + unat len)"
      by (auto simp: e_def prev_end stop word_less_nat_alt)
    have p: "dr_start p = dr_start prev" "dr_stop p = max (dr_stop prev) (unat clk + unat len)" "dr_wf p"
      using dr_extend [OF prev(1), of e] e by (simp_all add: p_def)
    have "data[pos - 1 := p] = pre @ p # drop pos data"
      unfolding pre_def by (rule update_last) (use True bs(1) in simp_all)
    moreover have "length pre = pos - 1" using bs(1) by (simp add: pre_def)
    moreover have "ds_insert_range al clk len (vec, a) =
        (Inr (), vec\<lparr>cv_data := ds_merge_forward (data[pos - 1 := p]) (pos - 1)\<rparr>, a)"
      using True unfolding ds_insert_range_def Let_def fst_conv snd_conv p_def e_def prev_def pos_def data_def
      by (simp only: if_True simp_thms)
    ultimately have res: "r = Inr ()" "cv_data vec' = pre @ absorb p (drop pos data)"
      using run ds_merge_forward_absorb [of pre p "drop pos data"] by simp_all
    have later: "\<forall>y \<in> set (drop pos data). dr_start p \<le> dr_start y"
      using bs(2,3) p(1) by (force simp: take)
    note ab = absorb_spec [OF p(3) parts(2) later]
    have "clk \<le> clock_end_exclusive prev" using True by (simp add: prev_def)
    then have "unat clk \<le> dr_stop prev" by (simp add: word_le_nat_alt prev_end)
    moreover have "dr_start prev < unat clk" using bs(2) by (simp add: take)
    ultimately have "dr_clocks p = dr_clocks prev \<union> {unat clk..<unat clk + unat len}"
      using p dr_wf_less [OF prev(1)] by (auto simp: dr_clocks_def)
    then have "ranges_clocks (cv_data vec') = ranges_clocks data \<union> {unat clk..<unat clk + unat len}"
      using ab res unfolding clocks by (auto simp: take)
    moreover have "ranges_inv (cv_data vec')"
      using ab prev p(1) unfolding res ranges_inv_append by fastforce
    moreover have "length (cv_data vec') \<le> Suc (length data)"
    proof -
      have "length (absorb p (drop pos data)) \<le> Suc (length data - pos)" using ab by simp
      then show ?thesis using bs(1) True unfolding res pre_def length_append by simp
    qed
    ultimately show ?thesis using res by (simp add: data_def)
  next
    case False
    obtain r1 v1 a1 where cap: "ds_ensure_cap al (length data + 1) (vec, a) = (r1, v1, a1)" by (metis prod.collapse)
    note ec = ds_ensure_cap_spec [OF cap]
    have other: "ds_insert_range al clk len (vec, a) =
        ytry (ds_ensure_cap al (length data + 1)) (\<lambda>_ (vec, a).
          (Inr (), vec\<lparr>cv_data := ds_merge_forward (take pos (cv_data vec) @ ?new # drop pos (cv_data vec)) pos\<rparr>, a)) (vec, a)"
      using False unfolding ds_insert_range_def Let_def fst_conv snd_conv pos_def data_def
      by (simp only: if_False simp_thms)
    show ?thesis
    proof (cases r1)
      case (Inl e)
      then have "r = Inl e" "vec' = v1"
        using run cap unfolding other by (auto simp: op_simps)
      then show ?thesis using ec inv Inl by (auto simp: data_def)
    next
      case (Inr x)
      have "ds_merge_forward (take pos data @ ?new # drop pos data) pos = take pos data @ absorb ?new (drop pos data)"
        using ds_merge_forward_absorb [of "take pos data" ?new "drop pos data"] bs(1) by simp
      then have res: "r = Inr ()" "cv_data vec' = take pos data @ absorb ?new (drop pos data)"
        using run cap Inr ec(1) unfolding other by (auto simp: op_simps data_def)
      have "\<forall>y \<in> set (drop pos data). dr_start ?new \<le> dr_start y" using bs(3) stop by simp
      note ab = absorb_spec [OF new parts(2) this]
      have before: "dr_stop x < unat clk" if x: "x \<in> set (take pos data)" for x
      proof -
        have pos: "pos > 0" using x by (cases pos) auto
        define prev where "prev = data ! (pos - 1)"
        have take: "take pos data = take (pos - 1) data @ [prev]"
          unfolding prev_def by (rule take_last) (use pos bs(1) in simp_all)
        have prev: "dr_wf prev" "\<forall>x \<in> set (take (pos - 1) data). dr_stop x < dr_start prev"
          using parts(1) unfolding take ranges_inv_append by (auto simp: ranges_inv_def)
        have "dr_stop prev < unat clk"
          using False pos unat_end [OF prev(1)] by (simp add: prev_def not_le word_less_nat_alt)
        then show ?thesis using x prev dr_wf_less [OF prev(1)] unfolding take by fastforce
      qed
      have "ranges_inv (cv_data vec')"
        unfolding res ranges_inv_append using ab parts(1) before stop by fastforce
      moreover have "ranges_clocks (cv_data vec') = ranges_clocks data \<union> {unat clk..<unat clk + unat len}"
        using ab res stop unfolding clocks by (auto simp: dr_clocks_def)
      moreover have "length (cv_data vec') \<le> Suc (length data)"
      proof -
        have "length (absorb ?new (drop pos data)) \<le> Suc (length data - pos)" using ab by simp
        then show ?thesis using bs(1) unfolding res length_append by simp
      qed
      ultimately show ?thesis using res by (simp add: data_def)
    qed
  qed
qed

lemma ranges_contain_spec:
  assumes inv: "ranges_inv data"
  shows "ranges_contain data c \<longleftrightarrow> unat c \<in> ranges_clocks data"
proof -
  let ?p = "\<lambda>i. dr_clock_start (data ! i) \<le> c"
  define lo where "lo = bsearch ?p 0 (length data)"
  have mono: "?p i" if "i \<le> j" "j < length data" "?p j" for i j
    using ranges_inv_start_mono [OF inv that(1,2)] that(3) by (simp add: word_le_nat_alt dr_start_def)
  have bs: "lo \<le> length data" "\<And>i. i < lo \<Longrightarrow> ?p i" "\<And>i. lo \<le> i \<Longrightarrow> i < length data \<Longrightarrow> \<not> ?p i"
    unfolding lo_def using bsearch_prefix [of "length data" ?p] mono by blast+
  have wf: "dr_wf (data ! i)" if "i < length data" for i
    using inv that by (simp add: ranges_inv_def list_all_length)
  have "unat c \<in> ranges_clocks data \<longleftrightarrow> (\<exists>i < length data. dr_start (data ! i) \<le> unat c \<and> unat c < dr_stop (data ! i))"
    by (auto simp: ranges_clocks_def dr_clocks_def in_set_conv_nth) force
  also have "\<dots> \<longleftrightarrow> (\<exists>i < lo. unat c < dr_stop (data ! i))"
  proof
    assume "\<exists>i < length data. dr_start (data ! i) \<le> unat c \<and> unat c < dr_stop (data ! i)"
    then obtain i where i: "i < length data" "?p i" "unat c < dr_stop (data ! i)"
      by (auto simp: word_le_nat_alt dr_start_def)
    then have "i < lo" using bs(3) by (meson not_less)
    then show "\<exists>i < lo. unat c < dr_stop (data ! i)" using i by blast
  next
    assume "\<exists>i < lo. unat c < dr_stop (data ! i)"
    then obtain i where i: "i < lo" "unat c < dr_stop (data ! i)" by blast
    then have "i < length data" "dr_start (data ! i) \<le> unat c"
      using bs(1) bs(2) by (simp_all add: word_le_nat_alt dr_start_def)
    then show "\<exists>i < length data. dr_start (data ! i) \<le> unat c \<and> unat c < dr_stop (data ! i)"
      using i by blast
  qed
  also have "\<dots> \<longleftrightarrow> 0 < lo \<and> unat c < dr_stop (data ! (lo - 1))"
  proof
    assume "\<exists>i < lo. unat c < dr_stop (data ! i)"
    then obtain i where i: "i < lo" "unat c < dr_stop (data ! i)" by blast
    have "dr_stop (data ! i) \<le> dr_stop (data ! (lo - 1))"
    proof (cases "i = lo - 1")
      case False
      then have "dr_stop (data ! i) < dr_start (data ! (lo - 1))"
        using i(1) bs(1) inv by (auto simp: ranges_inv_def sorted_wrt_iff_nth_less)
      moreover have "lo - 1 < length data" using i(1) bs(1) by linarith
      ultimately show ?thesis using dr_wf_less [OF wf [of "lo - 1"]] by simp
    qed simp
    then show "0 < lo \<and> unat c < dr_stop (data ! (lo - 1))" using i by simp
  next
    assume "0 < lo \<and> unat c < dr_stop (data ! (lo - 1))"
    then show "\<exists>i < lo. unat c < dr_stop (data ! i)" by (intro exI [of _ "lo - 1"]) simp
  qed
  also have "\<dots> \<longleftrightarrow> ranges_contain data c"
    using unat_end [OF wf [of "lo - 1"]] bs(1)
    by (auto simp: ranges_contain_def lo_def [symmetric] word_less_nat_alt)
  finally show ?thesis by simp
qed

section \<open>The whole set\<close>

definition ds_inv :: "(u64, 'a) hm_env \<Rightarrow> delete_set \<Rightarrow> bool" where
  "ds_inv E ds \<longleftrightarrow> tracks (hm_inv E) hm_abs (ds_order ds) (ds_table ds) \<and>
     length (ds_order ds) \<le> kMaxClients \<and>
     (\<forall>c vec. hm_abs (ds_table ds) c = Some vec \<longrightarrow> ranges_inv (cv_data vec))"

definition ds_ranges :: "delete_set \<Rightarrow> u64 \<Rightarrow> delete_range list" where
  "ds_ranges ds c = (case hm_abs (ds_table ds) c of Some vec \<Rightarrow> cv_data vec | None \<Rightarrow> [])"

definition ds_abs :: "delete_set \<Rightarrow> yid set" where
  "ds_abs ds = {i. unat (id_clock i) \<in> ranges_clocks (ds_ranges ds (id_client i))}"

definition run_ids :: "u64 \<Rightarrow> u64 \<Rightarrow> u64 \<Rightarrow> yid set" where
  "run_ids c clk len = {i. id_client i = c \<and> unat clk \<le> unat (id_clock i) \<and> unat (id_clock i) < unat clk + unat len}"

lemma ds_inv_empty: "ds_inv E ds_empty" "ds_abs ds_empty = {}"
  by (simp_all add: ds_inv_def ds_abs_def ds_ranges_def ds_empty_def hm_core_empty tracks_def)

text \<open>Memory for \<open>n\<close> more clients and \<open>m\<close> more ranges, in whatever clients they fall.\<close>

definition ds_room :: "(u64, 'a) hm_env \<Rightarrow> nat \<Rightarrow> nat \<Rightarrow> delete_set \<Rightarrow> bool" where
  "ds_room E n m ds \<longleftrightarrow> hm_room E n (ds_table ds) \<and> length (ds_order ds) + n \<le> kMaxClients \<and>
     (\<forall>c. length (ds_ranges ds c) + m \<le> kMaxPerClientRanges)"

lemma ds_room_empty:
  "alloc_total (he_alloc E) \<Longrightarrow> n \<le> kMaxClients \<Longrightarrow> m \<le> kMaxPerClientRanges \<Longrightarrow> ds_room E n m ds_empty"
  by (simp add: ds_room_def hm_room_def ds_empty_def hm_empty_def kMaxClients_def kMaxCap_def
      ds_ranges_def hm_core_empty(3) [unfolded hm_empty_def])

lemma ds_get_or_create_spec:
  assumes inv: "ds_inv E ds" and run: "ds_get_or_create E c (ds, a) = (v, ds', a')"
  shows "ds_inv E ds'" and "ds_ranges ds' = ds_ranges ds"
    and "v = Some vec \<Longrightarrow> hm_abs (ds_table ds') c = Some vec"
    and "ds_room E (if c \<in> set (ds_order ds) then n else Suc n) m ds \<Longrightarrow>
      v \<noteq> None \<and> hm_room E n (ds_table ds') \<and> length (ds_order ds') + n \<le> kMaxClients"
    and "v = None \<Longrightarrow> ds_order ds' = ds_order ds"
    and "v \<noteq> None \<Longrightarrow> ds_order ds' = (if hm_abs (ds_table ds) c = None then ds_order ds @ [c] else ds_order ds)"
proof -
  have tr: "tracks (hm_inv E) hm_abs (ds_order ds) (ds_table ds)" using inv by (simp add: ds_inv_def)
  have hm: "hm_inv E (ds_table ds)" using tr by (simp add: tracks_def)
  have "ds_inv E ds' \<and> ds_ranges ds' = ds_ranges ds \<and> (\<forall>vec. v = Some vec \<longrightarrow> hm_abs (ds_table ds') c = Some vec) \<and>
    (\<forall>n m. ds_room E (if c \<in> set (ds_order ds) then n else Suc n) m ds \<longrightarrow>
      v \<noteq> None \<and> hm_room E n (ds_table ds') \<and> length (ds_order ds') + n \<le> kMaxClients) \<and>
    ds_order ds' = (if v \<noteq> None \<and> hm_abs (ds_table ds) c = None then ds_order ds @ [c] else ds_order ds)"
  proof (cases "hm_get E c (ds_table ds)")
    case (Some vec)
    then have "v = Some vec" "ds' = ds" using run by (auto simp: ds_get_or_create_def)
    then show ?thesis
      using Some inv hm.tracks_get [OF tr, of c] hm.tracks_get_None [OF tr, of c]
      by (auto simp: ds_room_def)
  next
    case None
    then have new: "hm_abs (ds_table ds) c = None" using hm.tracks_get [OF tr, of c] by simp
    define init where "init = \<lparr>cv_data = [], cv_cap = 0\<rparr>"
    obtain ok t a1 where add: "hm_add E c init (ds_table ds, a) = (ok, t, a1)" by (metis prod.collapse)
    note tadd = hm.tracks_add [OF tr None add] and abs = hm_add_spec(2) [OF hm add]
    show ?thesis
    proof (cases "length (ds_order ds) \<ge> kMaxClients")
      case True
      then have "v = None" "ds' = ds" using run None by (auto simp: ds_get_or_create_def)
      moreover have "c \<notin> set (ds_order ds)" using hm.tracks_get_None [OF tr, of c] None by simp
      ultimately show ?thesis using inv True by (simp add: ds_room_def)
    next
      case False
      then have v: "v = (if ok then Some init else None)"
        "ds' = (if ok then \<lparr>ds_table = t, ds_order = ds_order ds @ [c]\<rparr> else ds\<lparr>ds_table := t\<rparr>)"
        using run None add by (auto simp: ds_get_or_create_def Let_def init_def split: if_splits)
      have "ranges_inv (cv_data init)" "ds_ranges ds c = []"
        using new by (simp_all add: init_def ranges_inv_def ds_ranges_def)
      moreover have "ds_ranges ds' = ds_ranges ds"
        using abs new by (auto simp: ds_ranges_def v init_def fun_eq_iff)
      moreover have "ds_inv E ds'"
        using inv tadd abs False calculation(1) by (auto simp: ds_inv_def v)
      moreover have "ds_room E (Suc n) m ds \<Longrightarrow> ok \<and> hm_room E n t" for n m
        using tadd(3) [of n] by (simp add: ds_room_def)
      moreover have "c \<notin> set (ds_order ds)" using hm.tracks_get_None [OF tr, of c] None by simp
      ultimately show ?thesis using v new abs by (auto simp: ds_room_def)
    qed
  qed
  then show "ds_inv E ds'" "ds_ranges ds' = ds_ranges ds" "v = Some vec \<Longrightarrow> hm_abs (ds_table ds') c = Some vec"
    "ds_room E (if c \<in> set (ds_order ds) then n else Suc n) m ds \<Longrightarrow>
      v \<noteq> None \<and> hm_room E n (ds_table ds') \<and> length (ds_order ds') + n \<le> kMaxClients"
    "v = None \<Longrightarrow> ds_order ds' = ds_order ds"
    "v \<noteq> None \<Longrightarrow> ds_order ds' = (if hm_abs (ds_table ds) c = None then ds_order ds @ [c] else ds_order ds)"
    by auto
qed

lemma ds_add_spec:
  assumes inv: "ds_inv E ds" and new: "dr_wf \<lparr>dr_clock_start = clk, dr_length = len\<rparr>"
    and run: "ds_add E c clk len (ds, a) = (r, ds', a')"
  shows "ds_inv E ds'" and "ds_abs ds' = (if r = Inr () then ds_abs ds \<union> run_ids c clk len else ds_abs ds)"
    and "r \<in> {Inr (), Inl kCapacityExceeded, Inl kOutOfMemory}"
    and "ds_room E (if c \<in> set (ds_order ds) then n else Suc n) (Suc m) ds \<Longrightarrow> r = Inr () \<and> ds_room E n m ds'"
    and "r = Inr () \<Longrightarrow> ds_order ds' = (if c \<in> set (ds_order ds) then ds_order ds else ds_order ds @ [c])"
    and "set (ds_order ds') \<subseteq> insert c (set (ds_order ds))"
proof -
  have known: "c \<in> set (ds_order ds) \<longleftrightarrow> hm_abs (ds_table ds) c \<noteq> None"
    using inv by (auto simp: ds_inv_def tracks_def)
  obtain v ds1 a1 where goc: "ds_get_or_create E c (ds, a) = (v, ds1, a1)" by (metis prod.collapse)
  note g = ds_get_or_create_spec [OF inv goc]
  have "ds_inv E ds' \<and> ds_abs ds' = (if r = Inr () then ds_abs ds \<union> run_ids c clk len else ds_abs ds) \<and>
    r \<in> {Inr (), Inl kCapacityExceeded, Inl kOutOfMemory} \<and>
    (\<forall>n m. ds_room E (if c \<in> set (ds_order ds) then n else Suc n) (Suc m) ds \<longrightarrow> r = Inr () \<and> ds_room E n m ds') \<and>
    (r = Inr () \<longrightarrow> ds_order ds' = (if c \<in> set (ds_order ds) then ds_order ds else ds_order ds @ [c])) \<and>
    set (ds_order ds') \<subseteq> insert c (set (ds_order ds))"
  proof (cases v)
    case None
    then have "r = Inl kOutOfMemory" "ds' = ds1" using run goc by (auto simp: ds_add_def)
    then show ?thesis using g(1,2,4,5) None by (auto simp: ds_abs_def)
  next
    case (Some vec)
    obtain r1 vec' a2 where ins: "ds_insert_range (he_alloc E) clk len (vec, a1) = (r1, vec', a2)"
      by (metis prod.collapse)
    then have res: "r = r1" "ds' = ds1\<lparr>ds_table := hm_assign E c vec' (ds_table ds1)\<rparr>"
      using run goc Some by (auto simp: ds_add_def)
    have at: "hm_abs (ds_table ds1) c = Some vec" using g(3) Some by simp
    have tr: "tracks (hm_inv E) hm_abs (ds_order ds1) (ds_table ds1)" using g(1) by (simp add: ds_inv_def)
    have hm: "hm_inv E (ds_table ds1)" using tr by (simp add: tracks_def)
    have old: "ranges_inv (cv_data vec)" "ds_ranges ds c = cv_data vec"
      using g(1,2) at by (auto simp: ds_inv_def ds_ranges_def dest: fun_cong [of _ _ c])
    note ir = ds_insert_range_spec [OF old(1) new ins]
    have abs: "hm_abs (ds_table ds') = (hm_abs (ds_table ds1))(c \<mapsto> vec')"
      using hm_assign_spec(2) [OF hm, of c vec'] at by (simp add: res)
    have ranges: "ds_ranges ds' = (ds_ranges ds)(c := cv_data vec')"
      using g(2) abs by (auto simp: ds_ranges_def fun_eq_iff split: if_splits)
    have "c \<in> set (ds_order ds1)" using tr at by (auto simp: tracks_def)
    then have "tracks (hm_inv E) hm_abs (ds_order ds') (ds_table ds')"
      using hm.tracks_assign [OF tr, of c vec'] by (simp add: res)
    moreover have "ds_order ds' = ds_order ds1" by (simp add: res)
    ultimately have "ds_inv E ds'" using g(1) ir by (simp add: ds_inv_def abs)
    moreover have "ds_abs ds' = (if r = Inr () then ds_abs ds \<union> run_ids c clk len else ds_abs ds)"
    proof -
      have "ranges_clocks (ds_ranges ds' x) = (if x = c \<and> r = Inr () then ranges_clocks (ds_ranges ds c) \<union>
          {unat clk..<unat clk + unat len} else ranges_clocks (ds_ranges ds x))" for x
        using ir old(2) by (simp add: ranges res(1))
      then show ?thesis by (auto simp: ds_abs_def run_ids_def)
    qed
    moreover have "r = Inr () \<and> ds_room E n m ds'"
      if room: "ds_room E (if c \<in> set (ds_order ds) then n else Suc n) (Suc m) ds" for n m
    proof -
      have "alloc_total (he_alloc E)" "length (ds_ranges ds c) < kMaxPerClientRanges"
        using room by (auto simp: ds_room_def hm_room_def dest: spec [of _ c])
      then have "r = Inr ()" using ir old(2) res by simp
      moreover have "hm_room E n (ds_table ds')" "length (ds_order ds') + n \<le> kMaxClients"
        using g(4) [OF room] hm_assign_spec(3) [OF hm, of n c vec'] by (simp_all add: res)
      moreover have "length (ds_ranges ds' x) + m \<le> kMaxPerClientRanges" for x
        using room ir old(2) by (auto simp: ds_room_def ranges dest: spec [of _ x])
      ultimately show ?thesis by (simp add: ds_room_def)
    qed
    moreover have "ds_order ds' = (if c \<in> set (ds_order ds) then ds_order ds else ds_order ds @ [c])"
      using g(6) Some known by (simp add: res(2))
    ultimately show ?thesis using ir res(1) by auto
  qed
  then show "ds_inv E ds'" "ds_abs ds' = (if r = Inr () then ds_abs ds \<union> run_ids c clk len else ds_abs ds)"
    "r \<in> {Inr (), Inl kCapacityExceeded, Inl kOutOfMemory}"
    "ds_room E (if c \<in> set (ds_order ds) then n else Suc n) (Suc m) ds \<Longrightarrow> r = Inr () \<and> ds_room E n m ds'"
    "r = Inr () \<Longrightarrow> ds_order ds' = (if c \<in> set (ds_order ds) then ds_order ds else ds_order ds @ [c])"
    "set (ds_order ds') \<subseteq> insert c (set (ds_order ds))" by blast+
qed

lemma ds_contains_spec: "ds_inv E ds \<Longrightarrow> ds_contains E i ds \<longleftrightarrow> i \<in> ds_abs ds"
  by (auto simp: ds_contains_def ds_find_def ds_abs_def ds_ranges_def ds_inv_def hm.tracks_get
      ranges_contain_spec split: option.splits)

section \<open>The wire format\<close>

definition range_bytes :: "delete_range \<Rightarrow> bytes" where
  "range_bytes r = varint_bytes (dr_clock_start r) @ varint_bytes (dr_length r)"

definition client_bytes :: "u64 \<times> delete_range list \<Rightarrow> bytes" where
  "client_bytes p = varint_bytes (fst p) @ varint_bytes (of_nat (length (snd p))) @ concat (map range_bytes (snd p))"

definition ds_bytes :: "(u64 \<times> delete_range list) list \<Rightarrow> bytes" where
  "ds_bytes ps = varint_bytes (of_nat (length ps)) @ concat (map client_bytes ps)"

lemma ds_encode_appends: "w_appends (ds_encode E ds) (ds_bytes (ds_items E ds))"
proof -
  have "ds_bytes (ds_items E ds) = varint_bytes (of_nat (length (ds_order ds))) @
      concat (map (\<lambda>c. client_bytes (c, cv_data (the (ds_find E c ds)))) (ds_order ds))"
    by (simp add: ds_bytes_def ds_items_def comp_def)
  then show ?thesis
    unfolding ds_encode_def Let_def
    by (auto simp: client_bytes_def range_bytes_def intro!: w_appends_try w_appends_foreach w_appends_intros)
qed

definition ds_add_all :: "(u64, 'a) hm_env \<Rightarrow> (u64 \<times> delete_range list) list \<Rightarrow> (delete_set \<times> 'a, unit) op" where
  "ds_add_all E ps =
     yforeach (\<lambda>(c, rs). yforeach (\<lambda>r. ds_add E c (dr_clock_start r) (dr_length r)) rs) ps"

lemma ds_decode_feeds:
  assumes "length ps \<le> kMaxPerClientRanges"
    and "\<forall>(c, rs) \<in> set ps. length rs \<le> kMaxPerClientRanges \<and> (\<forall>r \<in> set rs. dr_length r \<noteq> 0)"
  shows "r_feeds (ds_decode E) (ds_bytes ps) (ds_add_all E ps)"
proof -
  have fit: "unat (of_nat n :: u64) = n" if "n \<le> kMaxPerClientRanges" for n
    using that by (simp add: unat_of_nat_small kMaxPerClientRanges_def)
  have rs: "r_feeds (yloop (length rs) (ytry (yfst r_varint_u64) (\<lambda>clk. ytry (yfst r_varint_u64) (\<lambda>len.
      if len = 0 then yfail kCorruptInput else ysnd (ds_add E c clk len)))))
      (concat (map range_bytes rs)) (yforeach (\<lambda>r. ds_add E c (dr_clock_start r) (dr_length r)) rs)"
    if "\<forall>r \<in> set rs. dr_length r \<noteq> 0" for c rs
    by (rule r_feeds_loop)
      (use that in \<open>auto simp: range_bytes_def intro!: r_feeds_parse [OF r_parses_varint_u64]
        r_feeds_parse_end [OF r_parses_varint_u64] r_feeds_snd\<close>)
  let ?body = "ytry (yfst r_varint_u64) (\<lambda>client. ytry (yfst r_varint_u64) (\<lambda>n_ranges.
        if unat n_ranges > kMaxPerClientRanges then yfail kCapacityExceeded
        else yloop (unat n_ranges) (ytry (yfst r_varint_u64) (\<lambda>clk. ytry (yfst r_varint_u64) (\<lambda>len.
          if len = 0 then yfail kCorruptInput else ysnd (ds_add E client clk len))))))"
  have "r_feeds (yloop (length ps) ?body) (concat (map client_bytes ps))
      (yforeach (\<lambda>(c, rs). yforeach (\<lambda>r. ds_add E c (dr_clock_start r) (dr_length r)) rs) ps)"
  proof (rule r_feeds_loop)
    fix p
    assume p: "p \<in> set ps"
    obtain c rs where cr: "p = (c, rs)" by fastforce
    then have len: "length rs \<le> kMaxPerClientRanges" and nz: "\<forall>r \<in> set rs. dr_length r \<noteq> 0"
      using assms(2) p by auto
    show "r_feeds ?body (client_bytes p)
        (case p of (c, rs) \<Rightarrow> yforeach (\<lambda>r. ds_add E c (dr_clock_start r) (dr_length r)) rs)"
      unfolding cr client_bytes_def fst_conv snd_conv prod.case
      by (rule r_feeds_parse [OF r_parses_varint_u64], rule r_feeds_parse [OF r_parses_varint_u64])
        (use len rs [OF nz, of c] in \<open>simp add: fit [OF len] not_less\<close>)
  qed
  then show ?thesis
    unfolding ds_decode_def ds_bytes_def ds_add_all_def
    by (intro r_feeds_parse [OF r_parses_varint_u64]) (use assms(1) in \<open>simp add: fit not_less\<close>)
qed

lemma ds_add_ranges:
  assumes "ds_inv E ds" and "list_all dr_wf rs"
    and "yforeach (\<lambda>r. ds_add E c (dr_clock_start r) (dr_length r)) rs (ds, a) = (r, ds', a')"
  shows "ds_inv E ds' \<and>
    (r = Inr () \<longrightarrow> ds_abs ds' = ds_abs ds \<union> {i. id_client i = c \<and> unat (id_clock i) \<in> ranges_clocks rs}) \<and>
    (ds_room E (if c \<in> set (ds_order ds) then n else Suc n) (m + length rs) ds \<longrightarrow>
      r = Inr () \<and> ds_room E n m ds') \<and>
    set (ds_order ds') \<subseteq> insert c (set (ds_order ds)) \<and> r \<in> {Inr (), Inl kCapacityExceeded, Inl kOutOfMemory}"
  using assms
proof (induction rs arbitrary: ds a)
  case Nil
  then show ?case by (auto simp: op_simps ds_room_def hm_room_def)
next
  case (Cons x rs)
  obtain r1 ds1 a1 where add: "ds_add E c (dr_clock_start x) (dr_length x) (ds, a) = (r1, ds1, a1)"
    by (metis prod.collapse)
  have wf: "dr_wf \<lparr>dr_clock_start = dr_clock_start x, dr_length = dr_length x\<rparr>"
    using Cons.prems(2) by (simp add: dr_wf_def dr_stop_def)
  note spec = ds_add_spec [OF Cons.prems(1) wf add]
  have run: "run_ids c (dr_clock_start x) (dr_length x) = {i. id_client i = c \<and> unat (id_clock i) \<in> dr_clocks x}"
    by (auto simp: run_ids_def dr_clocks_def dr_start_def dr_stop_def)
  show ?case
  proof (cases r1)
    case (Inl e)
    then have "r = Inl e" "ds' = ds1" using Cons.prems(3) add by (simp_all add: op_simps)
    then show ?thesis using spec(1,3,4,6) Inl by auto
  next
    case (Inr y)
    then have go: "yforeach (\<lambda>r. ds_add E c (dr_clock_start r) (dr_length r)) rs (ds1, a1) = (r, ds', a')"
      using Cons.prems(3) add by (simp add: op_simps)
    have "c \<in> set (ds_order ds1)" using spec(5) Inr by auto
    then show ?thesis
      using Cons.IH [OF spec(1) _ go] Cons.prems(2) spec(2,6) spec(4) [of n "m + length rs"] Inr run
      by auto
  qed
qed

lemma ds_add_all_spec:
  assumes "ds_inv E ds" and "\<forall>(c, rs) \<in> set ps. list_all dr_wf rs"
    and "ds_add_all E ps (ds, a) = (r, ds', a')"
  shows "ds_inv E ds' \<and>
    (r = Inr () \<longrightarrow> ds_abs ds' = ds_abs ds \<union>
      {i. \<exists>rs. (id_client i, rs) \<in> set ps \<and> unat (id_clock i) \<in> ranges_clocks rs}) \<and>
    (ds_room E (n + length ps) (m + length (concat (map snd ps))) ds \<longrightarrow> r = Inr () \<and> ds_room E n m ds') \<and>
    r \<in> {Inr (), Inl kCapacityExceeded, Inl kOutOfMemory}"
  using assms
proof (induction ps arbitrary: ds a)
  case Nil
  then show ?case by (auto simp: op_simps ds_add_all_def)
next
  case (Cons p ps)
  obtain c rs where p: "p = (c, rs)" by fastforce
  obtain r1 ds1 a1 where add: "yforeach (\<lambda>r. ds_add E c (dr_clock_start r) (dr_length r)) rs (ds, a) = (r1, ds1, a1)"
    by (metis prod.collapse)
  have wf: "list_all dr_wf rs" using Cons.prems(2) p by auto
  have room: "ds_room E (n + length (p # ps)) (m + length (concat (map snd (p # ps)))) ds \<Longrightarrow>
      ds_room E (if c \<in> set (ds_order ds) then n + length ps else Suc (n + length ps))
        (m + length (concat (map snd ps)) + length rs) ds"
    by (simp add: ds_room_def hm_room_def p add_ac)
  note spec = ds_add_ranges [OF Cons.prems(1) wf add, of "n + length ps" "m + length (concat (map snd ps))"]
  show ?case
  proof (cases r1)
    case (Inl e)
    then have "r = Inl e" "ds' = ds1"
      using Cons.prems(3) add p by (simp_all add: op_simps ds_add_all_def)
    then show ?thesis using spec room Inl by auto
  next
    case (Inr y)
    then have go: "ds_add_all E ps (ds1, a1) = (r, ds', a')"
      using Cons.prems(3) add p by (simp add: op_simps ds_add_all_def)
    have "\<forall>(c, rs) \<in> set ps. list_all dr_wf rs" using Cons.prems(2) by auto
    then have IH: "ds_inv E ds' \<and>
      (r = Inr () \<longrightarrow> ds_abs ds' = ds_abs ds1 \<union>
        {i. \<exists>rs. (id_client i, rs) \<in> set ps \<and> unat (id_clock i) \<in> ranges_clocks rs}) \<and>
      (ds_room E (n + length ps) (m + length (concat (map snd ps))) ds1 \<longrightarrow> r = Inr () \<and> ds_room E n m ds') \<and>
      r \<in> {Inr (), Inl kCapacityExceeded, Inl kOutOfMemory}"
      using Cons.IH [of ds1 a1] spec go by blast
    moreover have "ds_abs ds1 = ds_abs ds \<union> {i. id_client i = c \<and> unat (id_clock i) \<in> ranges_clocks rs}"
      using spec Inr by simp
    ultimately show ?thesis using spec room p by auto
  qed
qed

text \<open>The items of a delete set stand for the same identifiers as the set.\<close>

lemma ds_items_abs:
  assumes "ds_inv E ds"
  shows "{i. \<exists>rs. (id_client i, rs) \<in> set (ds_items E ds) \<and> unat (id_clock i) \<in> ranges_clocks rs} = ds_abs ds"
    and "\<forall>(c, rs) \<in> set (ds_items E ds). list_all dr_wf rs"
    and "length (ds_items E ds) \<le> kMaxClients"
proof -
  have tr: "tracks (hm_inv E) hm_abs (ds_order ds) (ds_table ds)" using assms by (simp add: ds_inv_def)
  have in_items: "(c, rs) \<in> set (ds_items E ds) \<longleftrightarrow> (\<exists>vec. hm_abs (ds_table ds) c = Some vec \<and> cv_data vec = rs)" for c rs
  proof -
    have "(c, rs) \<in> set (ds_items E ds) \<longleftrightarrow> c \<in> set (ds_order ds) \<and> rs = cv_data (the (hm_get E c (ds_table ds)))"
      by (auto simp: ds_items_def ds_find_def)
    moreover have "c \<in> set (ds_order ds) \<longleftrightarrow> (\<exists>vec. hm_abs (ds_table ds) c = Some vec)"
      using tr by (auto simp: tracks_def)
    ultimately show ?thesis using hm.tracks_get [OF tr, of c] by auto
  qed
  show "{i. \<exists>rs. (id_client i, rs) \<in> set (ds_items E ds) \<and> unat (id_clock i) \<in> ranges_clocks rs} = ds_abs ds"
    by (auto simp: in_items ds_abs_def ds_ranges_def split: option.splits)
  show "\<forall>(c, rs) \<in> set (ds_items E ds). list_all dr_wf rs"
    using assms by (auto simp: in_items ds_inv_def ranges_inv_def)
  show "length (ds_items E ds) \<le> kMaxClients" using assms by (simp add: ds_items_def ds_inv_def)
qed

section \<open>Properties\<close>

text \<open>
C22: Adding a range that does not wrap adds exactly its identifiers to the set and keeps every
client's ranges sorted, separated and non-empty; on failure (the caps, or memory) the set
of identifiers is unchanged.
\<close>

theorem ds_add_union:
  assumes "ds_inv E ds" and "0 < len" and "unat clk + unat len < 2 ^ 64"
    and "ds_add E c clk len (ds, a) = (r, ds', a')"
  shows "ds_inv E ds' \<and>
    ds_abs ds' = (if r = Inr () then ds_abs ds \<union> run_ids c clk len else ds_abs ds) \<and>
    (r = Inr () \<or> r = Inl kCapacityExceeded \<or> r = Inl kOutOfMemory)"
proof -
  have "dr_wf \<lparr>dr_clock_start = clk, dr_length = len\<rparr>"
    using assms(2,3) by (simp add: dr_wf_def dr_stop_def)
  from ds_add_spec [OF assms(1) this assms(4)] show ?thesis by auto
qed

theorem ds_add_union_witness:
  "\<exists>r ds' a'. ds_add bump_env 7 10 5 (ds_empty, 0) = (r, ds', a') \<and> ds_abs ds' = run_ids 7 10 5"
proof -
  obtain r ds' a' where run: "ds_add bump_env 7 10 5 (ds_empty, 0) = (r, ds', a')" by (metis prod.collapse)
  have wf: "dr_wf \<lparr>dr_clock_start = 10, dr_length = 5\<rparr>" by (simp add: dr_wf_def dr_stop_def)
  have "ds_room bump_env (Suc 0) (Suc 0) ds_empty"
    by (rule ds_room_empty [OF bump_env_total]) (simp_all add: kMaxClients_def kMaxPerClientRanges_def)
  then have "r = Inr ()"
    using ds_add_spec(4) [OF ds_inv_empty(1) wf run, of 0 0] by (simp add: ds_empty_def)
  then show ?thesis
    using ds_add_union [OF ds_inv_empty(1) _ _ run] run by (simp add: ds_inv_empty(2))
qed

text \<open>
C23: The binary search of \<open>contains\<close> decides membership in the set of identifiers.
\<close>

theorem ds_contains_iff:
  assumes "ds_inv E ds"
  shows "ds_contains E i ds \<longleftrightarrow> i \<in> ds_abs ds"
  using assms by (rule ds_contains_spec)

theorem ds_contains_iff_witness: "\<not> ds_contains bump_env (Id 1 2) ds_empty"
  using ds_contains_iff [OF ds_inv_empty(1), of bump_env "Id 1 2"] by (simp add: ds_inv_empty(2))

text \<open>
C24: Decoding the encoding of a delete set into an empty one yields the same set of
identifiers, with up to \<open>2 ^ 20\<close> ranges in all; it consumes exactly the encoding.
\<close>

theorem ds_roundtrip:
  assumes "ds_inv E ds" and "length (ds_bytes (ds_items E ds)) \<le> length buf"
    and "alloc_total (he_alloc E')" and "length (concat (map snd (ds_items E ds))) \<le> kMaxPerClientRanges"
  shows "\<exists>w ds' a'. ds_encode E ds (writer_of buf) = (Inr (), w) \<and>
    ds_decode E' (reader_of (w_out w @ rest), ds_empty, a) =
      (Inr (), \<lparr>r_view = w_out w @ rest, r_pos = w_pos w\<rparr>, ds', a') \<and>
    ds_inv E' ds' \<and> ds_abs ds' = ds_abs ds"
proof -
  let ?ps = "ds_items E ds"
  note items = ds_items_abs [OF assms(1)]
  obtain w where w: "ds_encode E ds (writer_of buf) = (Inr (), w)" "w_out w = ds_bytes ?ps"
      "w_pos w = length (ds_bytes ?ps)"
    by (rule w_appends_fits [OF ds_encode_appends w_wf_writer_of, of E ds buf]) (use assms(2) in auto)
  have each: "length rs \<le> length (concat (map snd ps))" if "(c, rs) \<in> set ps"
    for c and rs :: "delete_range list" and ps :: "(u64 \<times> delete_range list) list"
    using that by (induction ps) auto
  have small: "\<forall>(c, rs) \<in> set ?ps. length rs \<le> kMaxPerClientRanges \<and> (\<forall>r \<in> set rs. dr_length r \<noteq> 0)"
    using items(2) assms(4) each by (fastforce simp: list_all_iff dr_wf_def)
  have n: "length ?ps \<le> kMaxPerClientRanges" using items(3) by (simp add: kMaxClients_def kMaxPerClientRanges_def)
  obtain r ds' a' where run: "ds_add_all E' ?ps (ds_empty, a) = (r, ds', a')" by (metis prod.collapse)
  have all: "ds_inv E' ds' \<and> (r = Inr () \<longrightarrow> ds_abs ds' = ds_abs ds) \<and> r = Inr ()"
    using ds_add_all_spec [OF ds_inv_empty(1) items(2) run, of 0 0] items(1,3)
      ds_room_empty [OF assms(3), of "length ?ps" "length (concat (map snd ?ps))"] assms(4)
    by (simp add: ds_inv_empty(2))
  then show ?thesis
    using w r_feeds_whole [OF ds_decode_feeds [OF n small], of E' "(ds_empty, a)" "()" "(ds', a')" rest] run
    by auto
qed

theorem ds_roundtrip_witness:
  "\<exists>w ds' a'. ds_encode bump_env ds_empty (writer_of [9, 9]) = (Inr (), w) \<and>
    ds_decode bump_env (reader_of (w_out w @ [1]), ds_empty, 0) =
      (Inr (), \<lparr>r_view = w_out w @ [1], r_pos = w_pos w\<rparr>, ds', a')"
proof -
  have "ds_items bump_env ds_empty = []" by (simp add: ds_items_def ds_empty_def)
  then show ?thesis
    using ds_roundtrip [OF ds_inv_empty(1) _ bump_env_total, of bump_env "[9, 9]" "[1]" 0]
    by (auto simp: ds_bytes_def varint_bytes.simps)
qed



end
