(* ===== verification/Ycpp_Unicode.thy ===== *)
theory Ycpp_Unicode
  imports Ycpp_Varint
begin

unbundle bit_operations_syntax

text \<open>
  The helpers of ycpp_unicode.h: the number of UTF-16 code units of a UTF-8 payload, and
  the byte offset of a code unit.  The scan only looks at lead bytes.

  Specification: \<open>utf8_encode\<close> is the UTF-8 form of one code point (RFC 3629) and
  \<open>utf16_units\<close> the number of 16-bit units the same code point takes in UTF-16.
\<close>

section \<open>The code\<close>

text \<open>The five-way test of the lead byte: the units to count and the bytes to advance.\<close>

definition utf8_lead :: "u8 \<Rightarrow> u64 \<times> nat" where
  "utf8_lead b =
     (if b AND 0x80 = 0x00 then (1, 1)
      else if b AND 0xE0 = 0xC0 then (1, 2)
      else if b AND 0xF0 = 0xE0 then (1, 3)
      else if b AND 0xF8 = 0xF0 then (2, 4)
      else (1, 1))"

lemma utf8_lead_advance: "utf8_lead b = (u, n) \<Longrightarrow> 0 < n"
  by (auto simp: utf8_lead_def split: if_splits)

function utf16_length_loop :: "bytes \<Rightarrow> nat \<Rightarrow> u64 \<Rightarrow> u64" where
  "utf16_length_loop bs i units =
     (if i < length bs
      then (case utf8_lead (bs ! i) of (u, n) \<Rightarrow> utf16_length_loop bs (i + n) (units + u))
      else units)"
  by pat_completeness auto
termination
  by (relation "measure (\<lambda>(bs, i, units). length bs - i)")
     (auto dest!: utf8_lead_advance [OF sym])

definition utf16_length_of_utf8 :: "bytes \<Rightarrow> u64" where
  "utf16_length_of_utf8 bs = utf16_length_loop bs 0 0"

function utf8_offset_loop :: "bytes \<Rightarrow> u64 \<Rightarrow> nat \<Rightarrow> u64 \<Rightarrow> nat" where
  "utf8_offset_loop bs target i units =
     (if i < length bs \<and> units < target
      then (case utf8_lead (bs ! i) of (u, n) \<Rightarrow> utf8_offset_loop bs target (i + n) (units + u))
      else i)"
  by pat_completeness auto
termination
  by (relation "measure (\<lambda>(bs, target, i, units). length bs - i)")
     (auto dest!: utf8_lead_advance [OF sym])

definition utf8_byte_offset_for_utf16_units :: "bytes \<Rightarrow> u64 \<Rightarrow> nat" where
  "utf8_byte_offset_for_utf16_units bs target =
     (let i = utf8_offset_loop bs target 0 0 in if i > length bs then length bs else i)"

declare utf16_length_loop.simps [simp del] utf8_offset_loop.simps [simp del]

section \<open>Specification\<close>

definition utf8_encode :: "nat \<Rightarrow> bytes" where
  "utf8_encode c =
     (if c < 0x80 then [of_nat c]
      else if c < 0x800 then [of_nat (0xC0 + c div 64), of_nat (0x80 + c mod 64)]
      else if c < 0x10000 then
        [of_nat (0xE0 + c div 4096), of_nat (0x80 + c div 64 mod 64), of_nat (0x80 + c mod 64)]
      else
        [of_nat (0xF0 + c div 262144), of_nat (0x80 + c div 4096 mod 64),
         of_nat (0x80 + c div 64 mod 64), of_nat (0x80 + c mod 64)])"

definition utf16_units :: "nat \<Rightarrow> nat" where
  "utf16_units c = (if c < 0x10000 then 1 else 2)"

definition code_point :: "nat \<Rightarrow> bool" where
  "code_point c \<longleftrightarrow> c < 0x110000"

section \<open>The scan counts code units\<close>

lemma and_high_mask: "(b :: u8) AND NOT (mask k) = push_bit k (drop_bit k b)"
  by (rule bit_word_eqI) (auto simp: bit_and_iff bit_not_iff bit_mask_iff bit_push_bit_iff bit_drop_bit_eq)

lemma unat_high_mask: "unat ((b :: u8) AND NOT (mask k)) = unat b div 2 ^ k * 2 ^ k"
proof -
  have "unat b div 2 ^ k * 2 ^ k \<le> unat b" by (rule div_times_less_eq_dividend)
  also have "\<dots> < 2 ^ 8" using unat_u8 [of b] by simp
  finally have "unat b div 2 ^ k * 2 ^ k < 2 ^ 8" .
  then have "take_bit 8 (push_bit k (unat b div 2 ^ k)) = unat b div 2 ^ k * 2 ^ k"
    by (simp add: push_bit_eq_mult take_bit_nat_eq_self)
  moreover have d: "unat (drop_bit k b) = unat b div 2 ^ k"
    unfolding unat_drop_bit_eq by (rule drop_bit_eq_div)
  have "unat (push_bit k (drop_bit k b)) = take_bit 8 (push_bit k (unat b div 2 ^ k))"
    unfolding d [symmetric] by (simp only: unsigned_push_bit_eq) simp
  ultimately show ?thesis by (simp only: and_high_mask)
qed

lemma lead_tests:
  "(b :: u8) AND 0xE0 = 0xC0 \<longleftrightarrow> unat b div 32 = 6"
  "b AND 0xF0 = 0xE0 \<longleftrightarrow> unat b div 16 = 14"
  "b AND 0xF8 = 0xF0 \<longleftrightarrow> unat b div 8 = 30"
proof -
  have m: "(0xE0 :: u8) = NOT (mask 5)" "(0xF0 :: u8) = NOT (mask 4)" "(0xF8 :: u8) = NOT (mask 3)"
    by (simp_all add: mask_eq_exp_minus_1)
  show "b AND 0xE0 = 0xC0 \<longleftrightarrow> unat b div 32 = 6"
    using unat_high_mask [of b 5] unfolding m(1) [symmetric] word_unat_eq_iff by simp
  show "b AND 0xF0 = 0xE0 \<longleftrightarrow> unat b div 16 = 14"
    using unat_high_mask [of b 4] unfolding m(2) [symmetric] word_unat_eq_iff by simp
  show "b AND 0xF8 = 0xF0 \<longleftrightarrow> unat b div 8 = 30"
    using unat_high_mask [of b 3] unfolding m(3) [symmetric] word_unat_eq_iff by simp
qed

lemma utf8_lead_unat:
  "utf8_lead b =
     (if unat b < 128 then (1, 1) else if unat b div 32 = 6 then (1, 2)
      else if unat b div 16 = 14 then (1, 3) else if unat b div 8 = 30 then (2, 4) else (1, 1))"
  using and_80 [of b] by (simp add: utf8_lead_def lead_tests)

lemma utf8_lead_encode:
  assumes "code_point c"
  shows "utf8_lead (hd (utf8_encode c)) = (of_nat (utf16_units c), length (utf8_encode c))"
    and "utf8_encode c \<noteq> []"
proof -
  have u: "unat (of_nat n :: u8) = n" if "n < 256" for n
    using that by (simp add: unat_of_nat take_bit_nat_eq_self)
  consider "c < 128" | "128 \<le> c" "c < 2048" | "2048 \<le> c" "c < 65536" | "65536 \<le> c" "c < 0x110000"
    using assms unfolding code_point_def by linarith
  then show "utf8_lead (hd (utf8_encode c)) = (of_nat (utf16_units c), length (utf8_encode c))"
  proof cases
    case 2
    then have "c div 64 < 32" "2 \<le> c div 64" by auto
    then show ?thesis using 2 by (simp add: utf8_encode_def utf16_units_def utf8_lead_unat u del: of_nat_add)
  next
    case 3
    then have "c div 4096 < 16" by auto
    then have "(224 + c div 4096) div 16 = 14" "(224 + c div 4096) div 32 = 7" by (auto intro!: div_nat_eqI)
    then show ?thesis using 3 by (simp add: utf8_encode_def utf16_units_def utf8_lead_unat u del: of_nat_add)
  next
    case 4
    then have "c div 262144 < 8" by auto
    then have "(240 + c div 262144) div 8 = 30" "(240 + c div 262144) div 16 = 15"
      "(240 + c div 262144) div 32 = 7" by (auto intro!: div_nat_eqI)
    then show ?thesis using 4 by (simp add: utf8_encode_def utf16_units_def utf8_lead_unat u del: of_nat_add)
  qed (simp add: utf8_encode_def utf16_units_def utf8_lead_unat u)
  show "utf8_encode c \<noteq> []" by (simp add: utf8_encode_def)
qed

lemma encode_at:
  assumes "code_point c"
  shows "(pre @ utf8_encode c @ rest) ! length pre = hd (utf8_encode c)"
    and "length pre < length (pre @ utf8_encode c @ rest)"
  using utf8_lead_encode(2) [OF assms] by (simp_all add: hd_conv_nth nth_append)

abbreviation utf8_string :: "nat list \<Rightarrow> bytes" where
  "utf8_string cs \<equiv> concat (map utf8_encode cs)"

abbreviation utf16_count :: "nat list \<Rightarrow> nat" where
  "utf16_count cs \<equiv> sum_list (map utf16_units cs)"

lemma utf16_length_loop_eq:
  assumes "\<forall>c \<in> set cs. code_point c"
  shows "utf16_length_loop (pre @ utf8_string cs) (length pre) u = u + of_nat (utf16_count cs)"
  using assms
proof (induction cs arbitrary: pre u)
  case Nil
  then show ?case by (simp add: utf16_length_loop.simps)
next
  case (Cons c cs)
  have c: "code_point c" using Cons.prems by simp
  have "utf16_length_loop (pre @ utf8_string (c # cs)) (length pre) u =
      utf16_length_loop ((pre @ utf8_encode c) @ utf8_string cs) (length (pre @ utf8_encode c)) (u + of_nat (utf16_units c))"
    using encode_at [OF c, of pre "utf8_string cs"] utf8_lead_encode [OF c]
    by (subst utf16_length_loop.simps) simp
  also have "\<dots> = u + of_nat (utf16_units c) + of_nat (utf16_count cs)"
    by (rule Cons.IH) (use Cons.prems in simp)
  finally show ?case by (simp add: add.assoc)
qed

lemma utf16_length_utf8_string:
  "\<forall>c \<in> set cs. code_point c \<Longrightarrow> utf16_length_of_utf8 (utf8_string cs) = of_nat (utf16_count cs)"
  using utf16_length_loop_eq [of cs "[]" 0] by (simp add: utf16_length_of_utf8_def)

lemma utf8_offset_loop_eq:
  assumes "\<forall>c \<in> set cs. code_point c" and "u + utf16_count cs < 2 ^ 64"
  shows "utf8_offset_loop (pre @ utf8_string cs @ rest) (of_nat (u + utf16_count cs)) (length pre) (of_nat u)
    = length (pre @ utf8_string cs)"
  using assms
proof (induction cs arbitrary: pre u)
  case Nil
  then show ?case by (simp add: utf8_offset_loop.simps)
next
  case (Cons c cs)
  have c: "code_point c" using Cons.prems by simp
  have "0 < utf16_units c" by (simp add: utf16_units_def)
  then have "(of_nat u :: u64) < of_nat (u + utf16_count (c # cs))"
    using Cons.prems(2) by (simp only: word_less_nat_alt unat_of_nat_small) simp
  then have "utf8_offset_loop (pre @ utf8_string (c # cs) @ rest) (of_nat (u + utf16_count (c # cs))) (length pre) (of_nat u) =
      utf8_offset_loop ((pre @ utf8_encode c) @ utf8_string cs @ rest) (of_nat (u + utf16_count (c # cs)))
        (length (pre @ utf8_encode c)) (of_nat (u + utf16_units c))"
    using encode_at [OF c, of pre "utf8_string cs @ rest"] utf8_lead_encode [OF c]
    by (subst utf8_offset_loop.simps) simp
  then show ?case using Cons.IH [of "u + utf16_units c" "pre @ utf8_encode c"] Cons.prems by (simp add: add.assoc)
qed

lemma utf8_offset_utf8_string:
  assumes "\<forall>c \<in> set cs. code_point c" and "utf16_count cs < 2 ^ 64"
  shows "utf8_byte_offset_for_utf16_units (utf8_string cs @ rest) (of_nat (utf16_count cs)) = length (utf8_string cs)"
  using utf8_offset_loop_eq [of cs 0 "[]" rest] assms
  by (simp add: utf8_byte_offset_for_utf16_units_def)

end
