(* ===== verification/Ycpp_Update.thy ===== *)
theory Ycpp_Update
  imports Ycpp_DeleteSet Ycpp_Item Ycpp_Unicode
begin

unbundle bit_operations_syntax

text \<open>
  The decoder of ycpp_update.h: structs of the updateV1 wire format, and whole updates made of
  per-client runs of structs and a delete set.  The payload of most content kinds is captured
  as the bytes it occupies (\<open>r_capture\<close>, the idiom \<open>ByteView{r.tail().data - consumed,
  consumed}\<close>).  The recursion of \<open>skip_any\<close> counts the nesting levels that are left, 64 at
  depth 0.

  \<open>r_local m\<close>: whatever \<open>m\<close> reads successfully from some input it reads from the bytes it
  consumed, in any surroundings.  It makes a captured payload valid on its own.
\<close>

section \<open>The code\<close>

subsection \<open>Decoded structs\<close>

record decoded_struct =
  s_id :: yid
  s_origin_left :: yid
  s_origin_right :: yid
  s_parent_ref :: parent_ref
  s_parent_id :: yid
  s_parent_name :: bytes
  s_parent_sub :: bytes
  s_content_kind :: content_kind
  s_length :: u64
  s_content_view :: bytes

record decoded_update =
  du_structs :: "decoded_struct list"
  du_cap :: nat
  du_delete_set :: delete_set

definition du_empty :: decoded_update where
  "du_empty = \<lparr>du_structs = [], du_cap = 0, du_delete_set = ds_empty\<rparr>"

definition kInitialCap :: nat where
  "kInitialCap = 32"

definition kMaxStructs :: nat where
  "kMaxStructs = 2 ^ 26"

definition du_ensure_cap :: "'a allocator \<Rightarrow> nat \<Rightarrow> (decoded_update \<times> 'a, unit) op" where
  "du_ensure_cap al need st =
     (let (du, a) = st in
      if need \<le> du_cap du then (Inr (), du, a)
      else if need > kMaxStructs then (Inl kCapacityExceeded, du, a)
      else
        let new_cap = (if du_cap du = 0 then kInitialCap else du_cap du * 2);
            new_cap = round_up_loop new_cap need;
            new_cap = (if new_cap > kMaxStructs then kMaxStructs else new_cap);
            (fresh, a) = al (of_nat (136 * new_cap)) 8 a
        in if fresh = None then (Inl kOutOfMemory, du, a)
           else (Inr (), du\<lparr>du_cap := new_cap\<rparr>, a))"

definition du_push :: "'a allocator \<Rightarrow> decoded_struct \<Rightarrow> (decoded_update \<times> 'a, unit) op" where
  "du_push al s st =
     ytry (du_ensure_cap al (length (du_structs (fst st)) + 1)) (\<lambda>_ (du, a).
       (Inr (), du\<lparr>du_structs := du_structs du @ [s]\<rparr>, a)) st"

definition du_size :: "decoded_update \<Rightarrow> nat" where
  "du_size du = length (du_structs du)"

subsection \<open>Payloads\<close>

definition kMaxClientsPerUpdate :: u64 where
  "kMaxClientsPerUpdate = 4096"

definition kMaxStructsPerClient :: u64 where
  "kMaxStructsPerClient = push_bit 24 1"

definition kMaxAnyDepth :: nat where
  "kMaxAnyDepth = 64"

primrec skip_any_levels :: "nat \<Rightarrow> (reader, unit) op" where
  "skip_any_levels 0 = yfail kIntegrationFailed"
| "skip_any_levels (Suc levels) =
     ytry r_u8 (\<lambda>type.
       if type \<in> {127, 126, 121, 120} then yreturn ()
       else if type = 125 then ytry r_varint_i64 (\<lambda>_. yreturn ())
       else if type = 124 then r_skip 4
       else if type = 123 then r_skip 8
       else if type = 122 then r_skip 8
       else if type = 119 \<or> type = 116 then ytry r_length_prefixed (\<lambda>_. yreturn ())
       else if type = 118 then
         ytry r_varint_u64 (\<lambda>n.
           if n > 65536 then yfail kCapacityExceeded
           else yloop (unat n) (ytry r_length_prefixed (\<lambda>_. skip_any_levels levels)))
       else if type = 117 then
         ytry r_varint_u64 (\<lambda>n.
           if n > 65536 then yfail kCapacityExceeded
           else yloop (unat n) (skip_any_levels levels))
       else yfail kUnsupportedFormat)"

definition skip_any :: "nat \<Rightarrow> (reader, unit) op" where
  "skip_any depth = skip_any_levels (kMaxAnyDepth - depth)"

text \<open>Run a reader operation and return the bytes it consumed as well.\<close>

definition r_capture :: "(reader, 'a) op \<Rightarrow> (reader, 'a \<times> bytes) op" where
  "r_capture m r =
     (case m r of
        (Inl e, r') \<Rightarrow> (Inl e, r')
      | (Inr x, r') \<Rightarrow> (Inr (x, take (r_pos r' - r_pos r) (drop (r_pos r) (r_view r'))), r'))"

definition read_any_array :: "(reader, u64 \<times> bytes) op" where
  "read_any_array = r_capture
     (ytry r_varint_u64 (\<lambda>n.
        if n > 65536 then yfail kCapacityExceeded
        else ytry (yloop (unat n) (skip_any 0)) (\<lambda>_. yreturn n)))"

definition read_json_array :: "(reader, u64 \<times> bytes) op" where
  "read_json_array = r_capture
     (ytry r_varint_u64 (\<lambda>n.
        if n > 65536 then yfail kCapacityExceeded
        else ytry (yloop (unat n) (ytry r_length_prefixed (\<lambda>_. yreturn ()))) (\<lambda>_. yreturn n)))"

definition read_format :: "(reader, unit \<times> bytes) op" where
  "read_format = r_capture
     (ytry r_length_prefixed (\<lambda>key. ytry r_length_prefixed (\<lambda>val. yreturn ())))"

definition read_type_ref :: "(reader, unit \<times> bytes) op" where
  "read_type_ref = r_capture (ytry r_varint_u64 (\<lambda>ref. yreturn ()))"

definition read_doc :: "(reader, unit \<times> bytes) op" where
  "read_doc = r_capture (ytry r_length_prefixed (\<lambda>guid. skip_any 0))"

definition read_move :: "(reader, unit \<times> bytes) op" where
  "read_move = r_capture
     (ytry r_varint_u64 (\<lambda>a. ytry r_varint_u64 (\<lambda>b. ytry r_varint_u64 (\<lambda>c. ytry r_varint_u64 (\<lambda>d.
      ytry r_u8 (\<lambda>prio. yreturn ()))))))"

definition read_id :: "(reader, yid) op" where
  "read_id = ytry r_varint_u64 (\<lambda>client. ytry r_varint_u64 (\<lambda>clock. yreturn (Id client clock)))"

text \<open>The out-parameters \<open>length\<close> and \<open>payload\<close>, in this order.\<close>

fun read_content_payload :: "content_kind \<Rightarrow> (reader, u64 \<times> bytes) op" where
  "read_content_payload (kRaw b) = yfail kUnsupportedFormat"
| "read_content_payload kString =
     ytry r_length_prefixed (\<lambda>payload.
       let len = utf16_length_of_utf8 payload in yreturn (if len = 0 then 1 else len, payload))"
| "read_content_payload kBinary = ytry r_length_prefixed (\<lambda>payload. yreturn (1, payload))"
| "read_content_payload kEmbed = ytry r_length_prefixed (\<lambda>payload. yreturn (1, payload))"
| "read_content_payload kJson =
     ytry read_json_array (\<lambda>(len, payload). yreturn (if len = 0 then 1 else len, payload))"
| "read_content_payload kAny =
     ytry read_any_array (\<lambda>(len, payload). yreturn (if len = 0 then 1 else len, payload))"
| "read_content_payload kFormat = ytry read_format (\<lambda>(_, payload). yreturn (1, payload))"
| "read_content_payload kType = ytry read_type_ref (\<lambda>(_, payload). yreturn (1, payload))"
| "read_content_payload kDoc = ytry read_doc (\<lambda>(_, payload). yreturn (1, payload))"
| "read_content_payload kMove = ytry read_move (\<lambda>(_, payload). yreturn (1, payload))"
| "read_content_payload _ =
     ytry r_varint_u64 (\<lambda>len. if len = 0 then yfail kCorruptInput else yreturn (len, []))"

subsection \<open>Structs\<close>

definition read_parent :: "u8 \<Rightarrow> (reader, parent_ref \<times> yid \<times> bytes) op" where
  "read_parent info =
     (if info_has_parent_info info then
        ytry r_varint_u64 (\<lambda>parent_tag.
          if parent_tag = 1 then
            ytry r_length_prefixed (\<lambda>parent_name. yreturn (kRootName, kInvalidId, parent_name))
          else if parent_tag = 0 then
            ytry read_id (\<lambda>parent_id. yreturn (kId, parent_id, []))
          else yfail kCorruptInput)
      else yreturn (kNone, kInvalidId, []))"

definition decode_one_struct :: "u64 \<Rightarrow> u64 \<Rightarrow> (reader, decoded_struct) op" where
  "decode_one_struct client clock =
     ytry r_u8 (\<lambda>info.
       if \<not> content_kind_is_known (info AND kInfoMaskContentKind) then yfail kUnsupportedFormat
       else
         ytry (if info_has_left_origin info then read_id else yreturn kInvalidId) (\<lambda>origin_left.
         ytry (if info_has_right_origin info then read_id else yreturn kInvalidId) (\<lambda>origin_right.
         ytry (read_parent info) (\<lambda>(parent_ref, parent_id, parent_name).
         ytry (if info_has_parent_sub info \<and> info_has_parent_info info then r_length_prefixed
               else yreturn []) (\<lambda>parent_sub.
         ytry (read_content_payload (info_content_kind info)) (\<lambda>(len, view).
         yreturn \<lparr>s_id = Id client clock, s_origin_left = origin_left, s_origin_right = origin_right,
           s_parent_ref = parent_ref, s_parent_id = parent_id, s_parent_name = parent_name,
           s_parent_sub = parent_sub, s_content_kind = info_content_kind info, s_length = len,
           s_content_view = view\<rparr>))))))"

subsection \<open>Updates\<close>

text \<open>The inner loop; the clock advances by the length of each struct.\<close>

primrec decode_structs :: "'a allocator \<Rightarrow> nat \<Rightarrow> u64 \<Rightarrow> u64 \<Rightarrow> (reader \<times> decoded_update \<times> 'a, unit) op" where
  "decode_structs al 0 client clock = yreturn ()"
| "decode_structs al (Suc n) client clock =
     ytry (yfst (decode_one_struct client clock)) (\<lambda>s.
     ytry (ysnd (du_push al s)) (\<lambda>_.
     decode_structs al n client (clock + (if s_length s = 0 then 1 else s_length s))))"

text \<open>Decoding into the member \<open>delete_set_\<close>.\<close>

definition du_decode_delete_set :: "(u64, 'a) hm_env \<Rightarrow> (reader \<times> decoded_update \<times> 'a, unit) op" where
  "du_decode_delete_set E st =
     (let (r, du, a) = st in
      case ds_decode E (r, du_delete_set du, a) of
        (res, r, ds, a) \<Rightarrow> (res, r, du\<lparr>du_delete_set := ds\<rparr>, a))"

definition decode_client :: "(u64, 'a) hm_env \<Rightarrow> (reader \<times> decoded_update \<times> 'a, unit) op" where
  "decode_client E =
     ytry (yfst r_varint_u64) (\<lambda>n_structs.
       if n_structs > kMaxStructsPerClient then yfail kCapacityExceeded
       else
         ytry (yfst r_varint_u64) (\<lambda>client.
         ytry (yfst r_varint_u64) (\<lambda>clock.
         decode_structs (he_alloc E) (unat n_structs) client clock)))"

text \<open>The statements behind the construction of the reader.\<close>

definition decode_update_body :: "(u64, 'a) hm_env \<Rightarrow> (reader \<times> decoded_update \<times> 'a, unit) op" where
  "decode_update_body E =
     ytry (yfst r_varint_u64) (\<lambda>n_clients.
       if n_clients > kMaxClientsPerUpdate then yfail kCapacityExceeded
       else
         ytry (yloop (unat n_clients) (decode_client E)) (\<lambda>_.
         ytry (du_decode_delete_set E) (\<lambda>_ (r, st).
           if \<not> r_eof r then (Inl kCorruptInput, r, st) else (Inr (), r, st))))"

definition decode_update_v1 :: "(u64, 'a) hm_env \<Rightarrow> bytes \<Rightarrow> (decoded_update \<times> 'a, unit) op" where
  "decode_update_v1 E bs st =
     (case decode_update_body E (reader_of bs, st) of (res, r, st) \<Rightarrow> (res, st))"

section \<open>Safety\<close>

lemma r_safe_loop [r_safe_intros]: "r_safe m \<Longrightarrow> r_safe (yloop n m)"
  by (induction n) (auto intro!: r_safe_intros)

lemma r_safe_if [r_safe_intros]: "(b \<Longrightarrow> r_safe m) \<Longrightarrow> (\<not> b \<Longrightarrow> r_safe m') \<Longrightarrow> r_safe (if b then m else m')"
  by simp

lemma r_safe_prod [r_safe_intros]: "(\<And>x y. r_safe (f x y)) \<Longrightarrow> r_safe (case p of (x, y) \<Rightarrow> f x y)"
  by (cases p) simp

lemma r_safe_capture [r_safe_intros]:
  assumes "r_safe m"
  shows "r_safe (r_capture m)"
proof -
  have "snd (r_capture m r) = snd (m r)" for r
    by (simp add: r_capture_def split: prod.splits sum.splits)
  then show ?thesis using assms by (simp add: r_safe_def)
qed

lemma r_safe_skip_any_levels: "r_safe (skip_any_levels n)"
proof (induction n)
  case (Suc n)
  then show ?case unfolding skip_any_levels.simps by (intro r_safe_intros)
qed (simp add: r_safe_intros)

lemma r_safe_skip_any [r_safe_intros]: "r_safe (skip_any depth)"
  by (simp add: skip_any_def r_safe_skip_any_levels)

lemma r_safe_read_id [r_safe_intros]: "r_safe read_id"
  unfolding read_id_def by (intro r_safe_intros)

lemma r_safe_payload [r_safe_intros]: "r_safe (read_content_payload k)"
  by (cases k) (auto simp: Let_def read_json_array_def read_any_array_def read_format_def read_type_ref_def
      read_doc_def read_move_def intro!: r_safe_intros)

lemma r_safe_read_parent [r_safe_intros]: "r_safe (read_parent info)"
  unfolding read_parent_def by (intro r_safe_intros)

lemma r_safe_decode_one_struct [r_safe_intros]: "r_safe (decode_one_struct client clock)"
  unfolding decode_one_struct_def by (intro r_safe_intros)

section \<open>Locality\<close>

definition r_local :: "(reader, 'a) op \<Rightarrow> bool" where
  "r_local m \<longleftrightarrow> (\<forall>r x r'. r_wf r \<longrightarrow> m r = (Inr x, r') \<longrightarrow>
     (\<exists>bs rest. drop (r_pos r) (r_view r) = bs @ rest \<and> r' = r\<lparr>r_pos := r_pos r + length bs\<rparr> \<and>
        r_parses m bs x))"

named_theorems r_local_intros "reader operations that depend only on the bytes they consume"

lemma r_localE:
  assumes "r_local m" and "r_wf r" and "m r = (Inr x, r')"
  obtains bs rest where "drop (r_pos r) (r_view r) = bs @ rest" "r' = r\<lparr>r_pos := r_pos r + length bs\<rparr>"
    "r_parses m bs x" "r_wf r'"
proof -
  obtain bs rest where bs: "drop (r_pos r) (r_view r) = bs @ rest" "r' = r\<lparr>r_pos := r_pos r + length bs\<rparr>"
    "r_parses m bs x"
    using assms unfolding r_local_def by blast
  have "length (drop (r_pos r) (r_view r)) = length bs + length rest" by (simp add: bs(1))
  then have "r_wf r'" using assms(2) bs(2) by (simp add: r_wf_def)
  with bs that show ?thesis by blast
qed

lemma r_local_return [r_local_intros]: "r_local (yreturn x)"
  unfolding r_local_def
proof (intro allI impI)
  fix r r' :: reader and y
  assume "yreturn x r = (Inr y, r')"
  then show "\<exists>bs rest. drop (r_pos r) (r_view r) = bs @ rest \<and> r' = r\<lparr>r_pos := r_pos r + length bs\<rparr> \<and>
      r_parses (yreturn x) bs y"
    by (intro exI [of _ "[]"] exI [of _ "drop (r_pos r) (r_view r)"]) (auto simp: op_simps r_parses_return)
qed

lemma r_local_fail [r_local_intros]: "r_local (yfail e)"
  by (simp add: r_local_def op_simps)

lemma r_local_try [r_local_intros]:
  assumes m: "r_local m" and k: "\<And>x. r_local (k x)"
  shows "r_local (ytry m k)"
  unfolding r_local_def
proof (intro allI impI)
  fix r y r2
  assume wf: "r_wf r" and run: "ytry m k r = (Inr y, r2)"
  obtain x r1 where x: "m r = (Inr x, r1)" and y: "k x r1 = (Inr y, r2)"
    using run by (rule ytry_InrE)
  obtain bs rest where 1: "drop (r_pos r) (r_view r) = bs @ rest" "r1 = r\<lparr>r_pos := r_pos r + length bs\<rparr>"
    "r_parses m bs x" "r_wf r1" by (rule r_localE [OF m wf x])
  obtain bs' rest' where 2: "drop (r_pos r1) (r_view r1) = bs' @ rest'" "r2 = r1\<lparr>r_pos := r_pos r1 + length bs'\<rparr>"
    "r_parses (k x) bs' y" "r_wf r2" by (rule r_localE [OF k 1(4) y])
  have "rest = bs' @ rest'"
    using 2(1) arg_cong [OF 1(1), of "drop (length bs)"] by (simp add: 1(2) add.commute)
  then show "\<exists>bs rest. drop (r_pos r) (r_view r) = bs @ rest \<and> r2 = r\<lparr>r_pos := r_pos r + length bs\<rparr> \<and>
      r_parses (ytry m k) bs y"
    using 1 2 r_parses_try [of m bs x k bs' y, OF 1(3) 2(3)] by (intro exI [of _ "bs @ bs'"] exI [of _ rest']) simp
qed

lemma r_local_if [r_local_intros]: "(b \<Longrightarrow> r_local m) \<Longrightarrow> (\<not> b \<Longrightarrow> r_local m') \<Longrightarrow> r_local (if b then m else m')"
  by simp

lemma r_local_prod [r_local_intros]: "(\<And>x y. r_local (f x y)) \<Longrightarrow> r_local (case p of (x, y) \<Rightarrow> f x y)"
  by (cases p) simp

lemma r_local_loop [r_local_intros]: "r_local m \<Longrightarrow> r_local (yloop n m)"
  by (induction n) (auto intro!: r_local_intros)

lemma r_local_u8 [r_local_intros]: "r_local r_u8"
  unfolding r_local_def
proof (intro allI impI)
  fix r x r'
  assume "r_wf r" and run: "r_u8 r = (Inr x, r')"
  then have *: "r_pos r < length (r_view r)" "x = r_view r ! r_pos r" "r' = r\<lparr>r_pos := r_pos r + 1\<rparr>"
    by (auto simp: r_u8_def r_wf_def r_remaining_def split: if_splits)
  show "\<exists>bs rest. drop (r_pos r) (r_view r) = bs @ rest \<and> r' = r\<lparr>r_pos := r_pos r + length bs\<rparr> \<and> r_parses r_u8 bs x"
    by (rule exI [of _ "[x]"], rule exI [of _ "drop (Suc (r_pos r)) (r_view r)"])
      (simp add: * Cons_nth_drop_Suc r_parses_u8 [unfolded *(2)])
qed

lemma varint_decode_take:
  assumes "n \<le> length v" and "varint_decode_u64 v n = Inr (x, k)"
  shows "varint_decode_u64 (take k v @ rest) (k + length rest) = Inr (x, k)" and "k \<le> n"
proof -
  have *: "0 < k" "k \<le> n" "k \<le> 10" "leb128_wf (take k v)" "unat x = leb128_value (take k v)"
    using assms(2) varint_decode_iff [OF assms(1), of x k] by auto
  then show "varint_decode_u64 (take k v @ rest) (k + length rest) = Inr (x, k)"
    using assms(1) by (subst varint_decode_iff) auto
  show "k \<le> n" by fact
qed

lemma r_parses_varint_consumed:
  assumes "n \<le> length v" and "varint_decode_u64 v n = Inr (x, k)"
  shows "r_parses r_varint_u64 (take k v) x"
    and "r_parses r_varint_i64 (take k v) (zigzag_decode_i64 x)"
proof -
  define w where "w = take k v"
  have k: "k = length w" using varint_decode_take(2) [OF assms] assms(1) by (simp add: w_def)
  have "varint_decode_u64 (w @ rest) (length w + length rest) = Inr (x, length w)" for rest
    using varint_decode_take(1) [OF assms, of rest] by (simp only: w_def [symmetric] k [symmetric])
  then show "r_parses r_varint_u64 (take k v) x" "r_parses r_varint_i64 (take k v) (zigzag_decode_i64 x)"
    by (simp_all add: w_def [symmetric] r_parses_def r_varint_u64_def r_varint_i64_def varint_decode_i64_def
        r_remaining_def)
qed

lemma r_local_varint_u64 [r_local_intros]: "r_local r_varint_u64"
  unfolding r_local_def
proof (intro allI impI)
  fix r x r'
  assume "r_wf r" and run: "r_varint_u64 r = (Inr x, r')"
  then obtain k where k: "varint_decode_u64 (drop (r_pos r) (r_view r)) (r_remaining r) = Inr (x, k)"
    "r' = r\<lparr>r_pos := r_pos r + k\<rparr>"
    by (auto simp: r_varint_u64_def split: sum.splits)
  have len: "r_remaining r \<le> length (drop (r_pos r) (r_view r))" by (simp add: r_remaining_def)
  then show "\<exists>bs rest. drop (r_pos r) (r_view r) = bs @ rest \<and> r' = r\<lparr>r_pos := r_pos r + length bs\<rparr> \<and>
      r_parses r_varint_u64 bs x"
    using r_parses_varint_consumed(1) [OF len k(1)] varint_decode_take(2) [OF len k(1)] k(2)
    by (intro exI [of _ "take k (drop (r_pos r) (r_view r))"] exI [of _ "drop k (drop (r_pos r) (r_view r))"])
      (auto simp: min_def simp del: drop_drop)
qed

lemma r_local_varint_i64 [r_local_intros]: "r_local r_varint_i64"
  unfolding r_local_def
proof (intro allI impI)
  fix r x r'
  assume "r_wf r" and run: "r_varint_i64 r = (Inr x, r')"
  then obtain y k where k: "varint_decode_u64 (drop (r_pos r) (r_view r)) (r_remaining r) = Inr (y, k)"
    "x = zigzag_decode_i64 y" "r' = r\<lparr>r_pos := r_pos r + k\<rparr>"
    by (auto simp: r_varint_i64_def varint_decode_i64_def split: sum.splits)
  have len: "r_remaining r \<le> length (drop (r_pos r) (r_view r))" by (simp add: r_remaining_def)
  then show "\<exists>bs rest. drop (r_pos r) (r_view r) = bs @ rest \<and> r' = r\<lparr>r_pos := r_pos r + length bs\<rparr> \<and>
      r_parses r_varint_i64 bs x"
    using r_parses_varint_consumed(2) [OF len k(1)] varint_decode_take(2) [OF len k(1)] k(2,3)
    by (intro exI [of _ "take k (drop (r_pos r) (r_view r))"] exI [of _ "drop k (drop (r_pos r) (r_view r))"])
      (auto simp: min_def simp del: drop_drop)
qed

text \<open>Reading a number of raw bytes behind whatever came before.\<close>

lemma r_local_take:
  assumes "\<And>r. m r = (if n > r_remaining r then (Inl e, r)
      else (Inr (f (take n (drop (r_pos r) (r_view r)))), r\<lparr>r_pos := r_pos r + n\<rparr>))"
  shows "r_local m"
  unfolding r_local_def
proof (intro allI impI)
  fix r x r'
  assume wf: "r_wf r" and run: "m r = (Inr x, r')"
  let ?bs = "take n (drop (r_pos r) (r_view r))"
  have *: "n \<le> r_remaining r" "x = f ?bs" "r' = r\<lparr>r_pos := r_pos r + n\<rparr>"
    using run by (auto simp: assms split: if_splits)
  then have len: "length ?bs = n" by (simp add: r_remaining_def)
  then have "r_parses m ?bs x"
    unfolding r_parses_def assms using * by (simp add: r_remaining_def)
  then show "\<exists>bs rest. drop (r_pos r) (r_view r) = bs @ rest \<and> r' = r\<lparr>r_pos := r_pos r + length bs\<rparr> \<and> r_parses m bs x"
    using * len by (intro exI [of _ ?bs] exI [of _ "drop n (drop (r_pos r) (r_view r))"]) (simp del: drop_drop)
qed

lemma r_local_skip [r_local_intros]: "r_local (r_skip n)"
  by (rule r_local_take [where f = "\<lambda>_. ()" and e = kOutOfBounds]) (simp add: r_skip_def)

lemma r_local_length_prefixed [r_local_intros]: "r_local r_length_prefixed"
  unfolding r_length_prefixed_def
  by (intro r_local_try r_local_varint_u64, rule r_local_take [where f = "\<lambda>bs. bs" and e = kOutOfBounds]) simp

lemma r_parses_capture: "r_parses m bs x \<Longrightarrow> r_parses (r_capture m) bs (x, bs)"
  by (simp add: r_parses_def r_capture_def)

lemma r_local_capture [r_local_intros]:
  assumes "r_local m"
  shows "r_local (r_capture m)"
  unfolding r_local_def
proof (intro allI impI)
  fix r y r'
  assume wf: "r_wf r" and run: "r_capture m r = (Inr y, r')"
  obtain x where x: "m r = (Inr x, r')" "y = (x, take (r_pos r' - r_pos r) (drop (r_pos r) (r_view r')))"
    using run by (auto simp: r_capture_def split: prod.splits sum.splits)
  obtain bs rest where *: "drop (r_pos r) (r_view r) = bs @ rest" "r' = r\<lparr>r_pos := r_pos r + length bs\<rparr>"
    "r_parses m bs x" by (rule r_localE [OF assms wf x(1)])
  then show "\<exists>bs rest. drop (r_pos r) (r_view r) = bs @ rest \<and> r' = r\<lparr>r_pos := r_pos r + length bs\<rparr> \<and>
      r_parses (r_capture m) bs y"
    using x(2) r_parses_capture [OF *(3)] by auto
qed

section \<open>What the decoder accepts\<close>

text \<open>The wire form of a payload, and when it stands for a length and a view.\<close>

fun payload_bytes :: "content_kind \<Rightarrow> u64 \<Rightarrow> bytes \<Rightarrow> bytes" where
  "payload_bytes kGc len view = varint_bytes len"
| "payload_bytes kSkip len view = varint_bytes len"
| "payload_bytes kDeleted len view = varint_bytes len"
| "payload_bytes kString len view = prefixed_bytes view"
| "payload_bytes kBinary len view = prefixed_bytes view"
| "payload_bytes kEmbed len view = prefixed_bytes view"
| "payload_bytes _ len view = view"

definition payload_wf :: "content_kind \<Rightarrow> u64 \<Rightarrow> bytes \<Rightarrow> bool" where
  "payload_wf k len view \<longleftrightarrow> len \<noteq> 0 \<and> r_parses (read_content_payload k) (payload_bytes k len view) (len, view)"

lemma r_local_skip_any_levels: "r_local (skip_any_levels n)"
proof (induction n)
  case (Suc n)
  then show ?case unfolding skip_any_levels.simps by (intro r_local_intros)
qed (simp add: r_local_intros)

lemma r_local_skip_any [r_local_intros]: "r_local (skip_any depth)"
  by (simp add: skip_any_def r_local_skip_any_levels)

lemma r_local_read_id [r_local_intros]: "r_local read_id"
  unfolding read_id_def by (intro r_local_intros)

lemma length_prefixed_short:
  assumes "r_length_prefixed r = (Inr bs, r')"
  shows "length bs < 2 ^ 64"
proof -
  obtain len :: u64 and r1 :: reader where "(if unat len > r_remaining r1 then (Inl kOutOfBounds, r1)
      else (Inr (take (unat len) (drop (r_pos r1) (r_view r1))), r1\<lparr>r_pos := r_pos r1 + unat len\<rparr>)) = (Inr bs, r')"
    using assms unfolding r_length_prefixed_def by (rule ytry_InrE)
  then have "bs = take (unat len) (drop (r_pos r1) (r_view r1))" by (auto split: if_splits)
  then show ?thesis using unat_u64 [of len] by simp
qed

text \<open>Captured bytes are those that were consumed.\<close>

lemma r_capture_bytes:
  assumes "r_local m" and "r_wf r" and "r_capture m r = (Inr (x, bs), r')"
  shows "r_parses m bs x"
proof -
  have x: "m r = (Inr x, r')" "bs = take (r_pos r' - r_pos r) (drop (r_pos r) (r_view r'))"
    using assms(3) by (auto simp: r_capture_def split: prod.splits sum.splits)
  obtain bs' rest where "drop (r_pos r) (r_view r) = bs' @ rest" "r' = r\<lparr>r_pos := r_pos r + length bs'\<rparr>"
    "r_parses m bs' x" by (rule r_localE [OF assms(1,2) x(1)])
  then show ?thesis using x(2) by simp
qed

lemma r_parses_map: "r_parses m bs x \<Longrightarrow> r_parses (ytry m (\<lambda>x. yreturn (f x))) bs (f x)"
  using r_parses_try [OF _ r_parses_return, of m bs x "\<lambda>x. f x"] by simp

text \<open>The three shapes of a payload: a run length, a prefixed string, captured bytes.\<close>

lemma payload_wf_run:
  assumes shape: "read_content_payload k = ytry r_varint_u64 (\<lambda>len. if len = 0 then yfail kCorruptInput else yreturn (len, []))"
      "payload_bytes k len view = varint_bytes len"
    and run: "read_content_payload k r = (Inr (len, view), r')"
  shows "payload_wf k len view"
proof -
  have *: "len \<noteq> 0" "view = []" using run by (auto simp: shape op_simps split: prod.splits sum.splits if_splits)
  then have "r_parses (if len = 0 then yfail kCorruptInput else yreturn (len, [])) [] (len, view)"
    by (simp add: r_parses_return)
  from r_parses_try [of _ _ _ "\<lambda>len. if len = 0 then yfail kCorruptInput else yreturn (len, [])",
      OF r_parses_varint_u64 this] show ?thesis using *(1) by (simp add: payload_wf_def shape)
qed

lemma payload_wf_prefixed:
  assumes shape: "read_content_payload k = ytry r_length_prefixed (\<lambda>p. yreturn (f p, p))"
      "payload_bytes k len view = prefixed_bytes view" "\<And>p. f p \<noteq> 0"
    and run: "read_content_payload k r = (Inr (len, view), r')"
  shows "payload_wf k len view"
proof -
  obtain r1 where v: "r_length_prefixed r = (Inr view, r1)" and len: "len = f view"
    using run unfolding shape by (auto simp: yreturn_apply elim!: ytry_InrE)
  have "r_parses r_length_prefixed (prefixed_bytes view) view"
    by (rule r_parses_length_prefixed [OF length_prefixed_short [OF v]])
  from r_parses_map [OF this, of "\<lambda>p. (f p, p)"] show ?thesis
    using shape(2,3) by (simp add: payload_wf_def shape(1) len)
qed

lemma payload_wf_captured:
  assumes shape: "read_content_payload k = ytry (r_capture m) (\<lambda>(x, p). yreturn (f x, p))"
      "payload_bytes k len view = view" "\<And>x. f x \<noteq> 0" and m: "r_local m"
    and wf: "r_wf r" and run: "read_content_payload k r = (Inr (len, view), r')"
  shows "payload_wf k len view"
proof -
  obtain x r1 where v: "r_capture m r = (Inr (x, view), r1)" and len: "len = f x"
    using run unfolding shape by (auto simp: yreturn_apply elim!: ytry_InrE)
  from r_parses_map [OF r_parses_capture [OF r_capture_bytes [OF m wf v]], of "\<lambda>(x, p). (f x, p)"]
  show ?thesis using shape(2,3) by (simp add: payload_wf_def shape(1) len split_def)
qed

lemma read_content_payload_wf:
  assumes wf: "r_wf r" and run: "read_content_payload k r = (Inr (len, view), r')"
  shows "payload_wf k len view"
proof (cases k)
  case kJson
  show ?thesis using wf run unfolding kJson
    by (rule payload_wf_captured [where f = "\<lambda>n. if n = 0 then 1 else n", rotated 4])
      (auto simp: read_json_array_def intro!: r_local_intros)
next
  case kAny
  show ?thesis using wf run unfolding kAny
    by (rule payload_wf_captured [where f = "\<lambda>n. if n = 0 then 1 else n", rotated 4])
      (auto simp: read_any_array_def intro!: r_local_intros)
next
  case kFormat
  show ?thesis using wf run unfolding kFormat
    by (rule payload_wf_captured [where f = "\<lambda>_. 1", rotated 4])
      (auto simp: read_format_def intro!: r_local_intros)
next
  case kType
  show ?thesis using wf run unfolding kType
    by (rule payload_wf_captured [where f = "\<lambda>_. 1", rotated 4])
      (auto simp: read_type_ref_def intro!: r_local_intros)
next
  case kDoc
  show ?thesis using wf run unfolding kDoc
    by (rule payload_wf_captured [where f = "\<lambda>_. 1", rotated 4])
      (auto simp: read_doc_def intro!: r_local_intros)
next
  case kMove
  show ?thesis using wf run unfolding kMove
    by (rule payload_wf_captured [where f = "\<lambda>_. 1", rotated 4])
      (auto simp: read_move_def intro!: r_local_intros)
next
  case kString
  show ?thesis using run unfolding kString
    by (rule payload_wf_prefixed [where f = "\<lambda>p. if utf16_length_of_utf8 p = 0 then 1 else utf16_length_of_utf8 p", rotated 3])
      (auto simp: Let_def)
next
  case kBinary
  show ?thesis using run unfolding kBinary by (rule payload_wf_prefixed [where f = "\<lambda>_. 1", rotated 3]) auto
next
  case kEmbed
  show ?thesis using run unfolding kEmbed by (rule payload_wf_prefixed [where f = "\<lambda>_. 1", rotated 3]) auto
next
  case kGc
  show ?thesis using run unfolding kGc by (rule payload_wf_run [rotated 2]) simp_all
next
  case kSkip
  show ?thesis using run unfolding kSkip by (rule payload_wf_run [rotated 2]) simp_all
next
  case kDeleted
  show ?thesis using run unfolding kDeleted by (rule payload_wf_run [rotated 2]) simp_all
qed (use run in \<open>simp add: yfail_apply\<close>)

section \<open>Whole updates\<close>

text \<open>Structs with consecutive clocks, as one client's run of an update.\<close>

primrec clock_chain :: "u64 \<Rightarrow> u64 \<Rightarrow> decoded_struct list \<Rightarrow> bool" where
  "clock_chain client clock [] \<longleftrightarrow> True"
| "clock_chain client clock (s # ss) \<longleftrightarrow> s_id s = Id client clock \<and> clock_chain client (clock + s_length s) ss"

definition struct_ok :: "decoded_struct \<Rightarrow> bool" where
  "struct_ok s \<longleftrightarrow> kind_named (s_content_kind s) \<and> payload_wf (s_content_kind s) (s_length s) (s_content_view s)"

lemma guard_Inr: "(if b then yfail e else m) r = (Inr x, r') \<longleftrightarrow> \<not> b \<and> m r = (Inr x, r')"
  by (simp add: yfail_apply)

text \<open>The steps of a successful decode.\<close>

lemma decode_one_structE:
  assumes run: "decode_one_struct client clock r = (Inr s, r')"
  obtains info r1 ol r2 rt r3 ref pid name r4 sub r5 len view where
      "r_u8 r = (Inr info, r1)" and "content_kind_is_known (info AND kInfoMaskContentKind)"
    and "(if info_has_left_origin info then read_id else yreturn kInvalidId) r1 = (Inr ol, r2)"
    and "(if info_has_right_origin info then read_id else yreturn kInvalidId) r2 = (Inr rt, r3)"
    and "read_parent info r3 = (Inr (ref, pid, name), r4)"
    and "(if info_has_parent_sub info \<and> info_has_parent_info info then r_length_prefixed
      else yreturn []) r4 = (Inr sub, r5)"
    and "read_content_payload (info_content_kind info) r5 = (Inr (len, view), r')"
    and "s = \<lparr>s_id = Id client clock, s_origin_left = ol, s_origin_right = rt,
           s_parent_ref = ref, s_parent_id = pid, s_parent_name = name,
           s_parent_sub = sub, s_content_kind = info_content_kind info, s_length = len,
           s_content_view = view\<rparr>"
  using run unfolding decode_one_struct_def
  by (auto simp: yreturn_apply guard_Inr elim!: ytry_InrE)

text \<open>The reader stays well formed through them, and moves.\<close>

lemma decode_one_struct_reader:
  assumes wf: "r_wf r" and info: "r_u8 r = (Inr info, r1)"
    and ol: "(if info_has_left_origin info then read_id else yreturn kInvalidId) r1 = (Inr ol, r2)"
    and rt: "(if info_has_right_origin info then read_id else yreturn kInvalidId) r2 = (Inr rt, r3)"
    and par: "read_parent info r3 = (Inr par, r4)"
    and sub: "(if info_has_parent_sub info \<and> info_has_parent_info info then r_length_prefixed
      else yreturn []) r4 = (Inr sub, r5)"
    and pay: "read_content_payload (info_content_kind info) r5 = (Inr res, r')"
  shows "r_wf r5" and "r_pos r < r_pos r'"
proof -
  have safe: "r_safe (if info_has_left_origin info then read_id else yreturn kInvalidId)"
    "r_safe (if info_has_right_origin info then read_id else yreturn kInvalidId)"
    "r_safe (if info_has_parent_sub info \<and> info_has_parent_info info then r_length_prefixed else yreturn [])"
    by (intro r_safe_intros)+
  note s1 = r_safeD [OF r_safe_u8 wf info]
  note s2 = r_safeD [OF safe(1) s1(3) ol]
  note s3 = r_safeD [OF safe(2) s2(3) rt]
  note s4 = r_safeD [OF r_safe_read_parent s3(3) par]
  note s5 = r_safeD [OF safe(3) s4(3) sub]
  note s6 = r_safeD [OF r_safe_payload s5(3) pay]
  have "r_pos r1 = r_pos r + 1" using info by (auto simp: r_u8_def split: if_splits)
  then show "r_pos r < r_pos r'" using s2(2) s3(2) s4(2) s5(2) s6(2) by simp
  show "r_wf r5" by (rule s5)
qed

lemma decode_one_struct_ok:
  assumes wf: "r_wf r" and run: "decode_one_struct client clock r = (Inr s, r')"
  shows "s_id s = Id client clock" and "struct_ok s" and "r_pos r < r_pos r'"
  using run
proof (atomize (full), cases rule: decode_one_structE)
  case (1 info r1 ol r2 rt r3 ref pid name r4 sub r5 len view)
  note rd = decode_one_struct_reader [OF wf 1(1,3-7)]
  show "s_id s = Id client clock \<and> struct_ok s \<and> r_pos r < r_pos r'"
    using rd(2) kind_named_of_byte [OF 1(2)] read_content_payload_wf [OF rd(1) 1(7)]
    by (simp add: struct_ok_def 1(8) info_content_kind_def)
qed

lemma du_push_spec:
  assumes "du_push al s (du, a) = (r, du', a')"
  shows "du_structs du' = (if r = Inr () then du_structs du @ [s] else du_structs du)"
    and "du_delete_set du' = du_delete_set du" and "r \<in> {Inr (), Inl kCapacityExceeded, Inl kOutOfMemory}"
proof -
  obtain r1 d1 a1 where cap: "du_ensure_cap al (length (du_structs du) + 1) (du, a) = (r1, d1, a1)"
    by (metis prod.collapse)
  have c: "du_structs d1 = du_structs du" "du_delete_set d1 = du_delete_set du"
    "r1 \<in> {Inr (), Inl kCapacityExceeded, Inl kOutOfMemory}"
    using cap by (auto simp: du_ensure_cap_def Let_def split: if_splits prod.splits)
  have "(r, du', a') = (if r1 = Inr () then (Inr (), d1\<lparr>du_structs := du_structs d1 @ [s]\<rparr>, a1) else (r1, d1, a1))"
    using assms cap by (auto simp: du_push_def op_simps split: sum.splits)
  then show "du_structs du' = (if r = Inr () then du_structs du @ [s] else du_structs du)"
    "du_delete_set du' = du_delete_set du" "r \<in> {Inr (), Inl kCapacityExceeded, Inl kOutOfMemory}"
    using c by (auto split: if_splits)
qed

text \<open>
  One step of the loop nest, on every outcome: the reader stays in its view, and the structs
  delivered are no more than the bytes consumed.
\<close>

definition delivers :: "reader \<times> decoded_update \<times> 'a \<Rightarrow> decoded_struct list \<Rightarrow> reader \<times> decoded_update \<times> 'a \<Rightarrow> bool" where
  "delivers st ss st' \<longleftrightarrow> r_wf (fst st') \<and> r_view (fst st') = r_view (fst st) \<and>
     r_pos (fst st) + length ss \<le> r_pos (fst st') \<and>
     du_structs (fst (snd st')) = du_structs (fst (snd st)) @ ss \<and> list_all struct_ok ss"

lemma delivers_refl: "r_wf (fst st) \<Longrightarrow> delivers st [] st"
  by (simp add: delivers_def)

lemma delivers_trans: "delivers st ss st1 \<Longrightarrow> delivers st1 ss' st2 \<Longrightarrow> delivers st (ss @ ss') st2"
  by (auto simp: delivers_def)

lemma delivers_read:
  assumes "r_safe m" and "r_wf (fst st)" and "yfst m st = (res, st')"
  shows "delivers st [] st'"
  using assms r_safeD [OF assms(1,2)]
  by (auto simp: delivers_def yfst_def split: prod.splits)

lemma decode_structs_delivers:
  assumes "r_wf (fst st)" and "decode_structs al n client clock st = (res, st')"
  shows "\<exists>ss. delivers st ss st' \<and> clock_chain client clock ss \<and> (res = Inr () \<longrightarrow> length ss = n)"
  using assms
proof (induction n arbitrary: clock st)
  case 0
  then show ?case by (auto simp: op_simps intro!: delivers_refl exI [of _ "[]"])
next
  case (Suc n)
  obtain r du a where st: "st = (r, du, a)" by (metis prod.collapse)
  have wf: "r_wf r" using Suc.prems(1) st by simp
  obtain r1 res1 where one: "decode_one_struct client clock r = (res1, r1)" by fastforce
  have d1: "delivers st [] (r1, du, a)"
    using delivers_read [OF r_safe_decode_one_struct Suc.prems(1), of client clock] one by (simp add: st yfst_def)
  show ?case
  proof (cases res1)
    case (Inl e)
    then have "st' = (r1, du, a)" "res = Inl e" using Suc.prems(2) one by (simp_all add: st op_simps)
    then show ?thesis using d1 by (intro exI [of _ "[]"]) simp
  next
    case (Inr s)
    note ok = decode_one_struct_ok [OF wf one [unfolded Inr]]
    obtain res2 du2 a2 where push: "du_push al s (du, a) = (res2, du2, a2)" by (metis prod.collapse)
    note p = du_push_spec [OF push]
    have d2: "delivers st (if res2 = Inr () then [s] else []) (r1, du2, a2)"
      using d1 ok p(1) by (auto simp: delivers_def st)
    show ?thesis
    proof (cases "res2 = Inr ()")
      case False
      then obtain e where "res2 = Inl e" by (cases res2) auto
      then have "st' = (r1, du2, a2)" "res = Inl e" using Suc.prems(2) one Inr push by (simp_all add: st op_simps)
      then show ?thesis using d2 False by (intro exI [of _ "[]"]) simp
    next
      case True
      have "s_length s \<noteq> 0" using ok(2) by (simp add: struct_ok_def payload_wf_def)
      then have run: "decode_structs al n client (clock + s_length s) (r1, du2, a2) = (res, st')"
        using Suc.prems(2) one Inr push True by (simp add: st op_simps)
      obtain ss where ss: "delivers (r1, du2, a2) ss st'" "clock_chain client (clock + s_length s) ss"
        "res = Inr () \<longrightarrow> length ss = n"
        using Suc.IH [OF _ run] d1 by (auto simp: delivers_def)
      have "delivers st (s # ss) st'" using delivers_trans [OF d2 ss(1)] True by simp
      then show ?thesis using ss(2,3) ok(1) by (intro exI [of _ "s # ss"]) simp
    qed
  qed
qed

text \<open>Runs of several clients.\<close>

definition runs_of :: "(u64 \<times> u64 \<times> decoded_struct list) list \<Rightarrow> bool" where
  "runs_of runs \<longleftrightarrow> list_all (\<lambda>(client, clock, ss). clock_chain client clock ss) runs"

definition runs_structs :: "(u64 \<times> u64 \<times> decoded_struct list) list \<Rightarrow> decoded_struct list" where
  "runs_structs runs = concat (map (\<lambda>(client, clock, ss). ss) runs)"

lemma decode_client_delivers:
  assumes wf: "r_wf (fst st)" and run: "decode_client E st = (res, st')"
  shows "\<exists>runs. delivers st (runs_structs runs) st' \<and> runs_of runs \<and> length runs \<le> 1"
proof -
  obtain res1 st1 where n: "yfst r_varint_u64 st = (res1, st1)" by (metis surj_pair)
  note d1 = delivers_read [OF r_safe_varint_u64 wf n]
  obtain res2 st2 where c: "yfst r_varint_u64 st1 = (res2, st2)" by (metis surj_pair)
  have d2: "delivers st1 [] st2" using delivers_read [OF r_safe_varint_u64 _ c] d1 by (simp add: delivers_def)
  obtain res3 st3 where k: "yfst r_varint_u64 st2 = (res3, st3)" by (metis surj_pair)
  have d3: "delivers st2 [] st3" using delivers_read [OF r_safe_varint_u64 _ k] d2 by (simp add: delivers_def)
  note d12 = delivers_trans [OF d1 d2] and d13 = delivers_trans [OF delivers_trans [OF d1 d2] d3]
  have empty: "?thesis" if "delivers st [] st'"
    using that by (intro exI [of _ "[]"]) (simp add: runs_structs_def runs_of_def)
  consider "st' = st1" | "st' = st2" | "st' = st3" |
    (go) n client clock where "decode_structs (he_alloc E) n client clock st3 = (res, st')"
    using run n c k unfolding decode_client_def
    by (auto simp: op_simps split: sum.splits if_splits prod.splits)
  then show ?thesis
  proof cases
    case go
    obtain ss where ss: "delivers st3 ss st'" "clock_chain client clock ss"
      using decode_structs_delivers [OF _ go] d3 by (auto simp: delivers_def)
    then show ?thesis using delivers_trans [OF d13 ss(1)]
      by (intro exI [of _ "[(client, clock, ss)]"]) (simp add: runs_structs_def runs_of_def)
  qed (use empty d1 d12 d13 in auto)
qed

lemma decode_clients_delivers:
  assumes "r_wf (fst st)" and "yloop n (decode_client E) st = (res, st')"
  shows "\<exists>runs. delivers st (runs_structs runs) st' \<and> runs_of runs \<and> length runs \<le> n"
  using assms
proof (induction n arbitrary: st)
  case 0
  then show ?case by (auto simp: op_simps runs_structs_def runs_of_def intro!: delivers_refl exI [of _ "[]"])
next
  case (Suc n)
  obtain res1 st1 where one: "decode_client E st = (res1, st1)" by (metis surj_pair)
  obtain runs where r: "delivers st (runs_structs runs) st1" "runs_of runs" "length runs \<le> 1"
    using decode_client_delivers [OF Suc.prems(1) one] by blast
  show ?case
  proof (cases res1)
    case (Inl e)
    then have "st' = st1" using Suc.prems(2) one by (simp add: op_simps)
    then show ?thesis using r by (intro exI [of _ runs]) simp
  next
    case (Inr u)
    then have "yloop n (decode_client E) st1 = (res, st')" using Suc.prems(2) one by (simp add: op_simps)
    then obtain runs' where r': "delivers st1 (runs_structs runs') st'" "runs_of runs'" "length runs' \<le> n"
      using Suc.IH [of st1] r(1) by (auto simp: delivers_def)
    then show ?thesis using r delivers_trans [OF r(1) r'(1)]
      by (intro exI [of _ "runs @ runs'"]) (simp add: runs_structs_def runs_of_def)
  qed
qed

lemma ytry_cases:
  assumes "ytry m k s = (res, s')"
  obtains (fails) e where "m s = (Inl e, s')" "res = Inl e"
    | (goes_on) x s1 where "m s = (Inr x, s1)" "k x s1 = (res, s')"
  using assms by (auto simp: ytry_def split: prod.splits sum.splits)

lemma decode_tail_keeps:
  assumes "ytry (du_decode_delete_set E) (\<lambda>_ (r, st).
      if \<not> r_eof r then (Inl kCorruptInput, r, st) else (Inr (), r, st)) st = (res, st')"
  shows "du_structs (fst (snd st')) = du_structs (fst (snd st))"
  using assms
  by (rule ytry_cases) (auto simp: du_decode_delete_set_def split: prod.splits if_splits)

lemma decode_body_delivers:
  assumes wf: "r_wf (fst st)" and run: "decode_update_body E st = (res, st')"
  shows "\<exists>runs st2. delivers st (runs_structs runs) st2 \<and> runs_of runs \<and> length runs \<le> 4096 \<and>
    du_structs (fst (snd st')) = du_structs (fst (snd st2))"
  using run unfolding decode_update_body_def
proof (cases rule: ytry_cases)
  case (fails e)
  then show ?thesis using delivers_read [OF r_safe_varint_u64 wf fails(1)]
    by (intro exI [of _ "[]"] exI [of _ st']) (simp add: runs_structs_def runs_of_def)
next
  case (goes_on n st1)
  note d1 = delivers_read [OF r_safe_varint_u64 wf goes_on(1)]
  show ?thesis
  proof (cases "n > kMaxClientsPerUpdate")
    case True
    then have "st' = st1" using goes_on(2) by (simp add: yfail_apply)
    then show ?thesis using d1
      by (intro exI [of _ "[]"] exI [of _ st1]) (simp add: runs_structs_def runs_of_def)
  next
    case False
    then have n: "unat n \<le> 4096" by (simp add: kMaxClientsPerUpdate_def word_le_nat_alt linorder_not_less)
    obtain res2 st2 where l: "yloop (unat n) (decode_client E) st1 = (res2, st2)" by (metis surj_pair)
    obtain runs where r: "delivers st1 (runs_structs runs) st2" "runs_of runs" "length runs \<le> unat n"
      using decode_clients_delivers [OF _ l] d1 by (auto simp: delivers_def)
    have "du_structs (fst (snd st')) = du_structs (fst (snd st2))"
      using goes_on(2) False l decode_tail_keeps [of E st2]
      by (cases res2) (simp_all add: ytry_Inl ytry_Inr)
    then show ?thesis using delivers_trans [OF d1 r(1)] r(2,3) n
      by (intro exI [of _ runs] exI [of _ st2]) simp
  qed
qed

section \<open>Properties\<close>

text \<open>
C13: Decoding is safe and linear on every input, well formed or hostile, and whatever it returns:
the structs handed out are at most as many as the input has bytes, come in at most 4096 runs of
consecutive clocks per client, and each has a known content kind, a positive length and a
payload that parses on its own.
\<close>

theorem decode_update_bounded:
  assumes "decode_update_v1 E bs (du_empty, a) = (res, du, a')"
  shows "length (du_structs du) \<le> length bs \<and> list_all struct_ok (du_structs du) \<and>
    (\<exists>runs. du_structs du = runs_structs runs \<and> runs_of runs \<and> length runs \<le> 4096)"
proof -
  obtain r where run: "decode_update_body E (reader_of bs, du_empty, a) = (res, r, du, a')"
    using assms by (auto simp: decode_update_v1_def split: prod.splits)
  have wf: "r_wf (fst (reader_of bs, du_empty, a))" by simp
  obtain runs st2 where d: "delivers (reader_of bs, du_empty, a) (runs_structs runs) st2" "runs_of runs"
    "length runs \<le> 4096" "du_structs du = du_structs (fst (snd st2))"
    using decode_body_delivers [OF wf run] by auto
  have "length (runs_structs runs) \<le> r_pos (fst st2)" "r_pos (fst st2) \<le> length bs"
    using d(1) by (auto simp: delivers_def reader_of_def r_wf_def)
  then show ?thesis using d by (auto simp: delivers_def du_empty_def)
qed

text \<open>One client with one deleted run of five clocks from clock 3 on.\<close>

theorem decode_update_bounded_witness:
  "\<exists>du. decode_update_v1 bump_env [1, 1, 7, 3, 0x41, 1, 2, 5, 0] (du_empty, 0) = (Inr (), du, 4352) \<and>
    length (du_structs du) \<le> 9 \<and> map s_length (du_structs du) = [5]"
proof -
  define s where "s = \<lparr>s_id = Id 7 3, s_origin_left = kInvalidId, s_origin_right = Id 1 2, s_parent_ref = kNone,
    s_parent_id = kInvalidId, s_parent_name = [], s_parent_sub = [], s_content_kind = kDeleted, s_length = 5,
    s_content_view = []\<rparr>"
  have run: "decode_update_v1 bump_env [1, 1, 7, 3, 0x41, 1, 2, 5, 0] (du_empty, 0) =
      (Inr (), \<lparr>du_structs = [s], du_cap = 32, du_delete_set = ds_empty\<rparr>, 4352)"
    unfolding s_def by code_simp
  then show ?thesis using decode_update_bounded [OF run] by (auto simp: s_def)
qed

end
