(* ===== verification/Ycpp_Encode.thy ===== *)
theory Ycpp_Encode
  imports Ycpp_Update
begin

unbundle bit_operations_syntax

text \<open>
  The struct encoder of ycpp_doc.h (namespace \<open>detail_encode\<close>) and its agreement with the
  decoder.  \<open>struct_bytes s\<close> is the wire form of a struct; \<open>write_struct\<close> appends the form of the
  struct an item stands for, and \<open>decode_one_struct\<close> reads it back.
\<close>

section \<open>The code\<close>

definition write_id :: "yid \<Rightarrow> (writer, unit) op" where
  "write_id i = ytry (w_varint_u64 (id_client i)) (\<lambda>_. ytry (w_varint_u64 (id_clock i)) (\<lambda>_. yreturn ()))"

definition build_info_byte :: "item \<Rightarrow> u8" where
  "build_info_byte it =
     (let info = kind_byte (it_content_kind it) AND kInfoMaskContentKind;
          info = (if is_valid (it_origin_left it) then info OR kInfoFlagHasLeftOrigin else info);
          info = (if is_valid (it_origin_right it) then info OR kInfoFlagHasRightOrigin else info);
          skip_like = (it_content_kind it = kGc \<or> it_content_kind it = kSkip)
      in if length (it_parent_sub it) > 0 \<and> \<not> skip_like then info OR kInfoFlagHasParentSub else info)"

fun write_content_view :: "content_kind \<Rightarrow> u64 \<Rightarrow> bytes \<Rightarrow> (writer, unit) op" where
  "write_content_view (kRaw b) len view = yfail kUnsupportedFormat"
| "write_content_view kString len view = w_length_prefixed view"
| "write_content_view kBinary len view = w_length_prefixed view"
| "write_content_view kEmbed len view = w_length_prefixed view"
| "write_content_view kAny len view = w_bytes view"
| "write_content_view kJson len view = w_bytes view"
| "write_content_view kFormat len view = w_bytes view"
| "write_content_view kType len view = w_bytes view"
| "write_content_view kDoc len view = w_bytes view"
| "write_content_view kMove len view = w_bytes view"
| "write_content_view _ len view = w_varint_u64 (if len = 0 then 1 else len)"

definition write_content_payload :: "item \<Rightarrow> (writer, unit) op" where
  "write_content_payload it = write_content_view (it_content_kind it) (it_length it) (it_content_view it)"

definition write_parent :: "item \<Rightarrow> (writer, unit) op" where
  "write_parent it =
     (if it_parent_ref it = kRootName then
        ytry (w_varint_u64 1) (\<lambda>_. w_length_prefixed (it_parent_name it))
      else if it_parent_ref it = kId then
        ytry (w_varint_u64 0) (\<lambda>_. write_id (it_parent_id it))
      else yfail kInternal)"

definition write_struct :: "item \<Rightarrow> (writer, unit) op" where
  "write_struct it =
     (let info = build_info_byte it in
      ytry (w_u8 info) (\<lambda>_.
      ytry (if info_has_left_origin info then write_id (it_origin_left it) else yreturn ()) (\<lambda>_.
      ytry (if info_has_right_origin info then write_id (it_origin_right it) else yreturn ()) (\<lambda>_.
      ytry (if info_has_parent_info info then write_parent it else yreturn ()) (\<lambda>_.
      ytry (if info_has_parent_sub info \<and> info_has_parent_info info then w_length_prefixed (it_parent_sub it)
            else yreturn ()) (\<lambda>_.
      write_content_payload it))))))"

section \<open>The wire form of a struct\<close>

definition skip_like :: "content_kind \<Rightarrow> bool" where
  "skip_like k \<longleftrightarrow> k = kGc \<or> k = kSkip"

definition id_bytes :: "yid \<Rightarrow> bytes" where
  "id_bytes i = varint_bytes (id_client i) @ varint_bytes (id_clock i)"

definition origin_bytes :: "yid \<Rightarrow> bytes" where
  "origin_bytes i = (if is_valid i then id_bytes i else [])"

text \<open>The info byte of a struct, given the flag for the map key.\<close>

definition s_info :: "bool \<Rightarrow> decoded_struct \<Rightarrow> u8" where
  "s_info b s = info_byte (s_content_kind s) (is_valid (s_origin_left s)) (is_valid (s_origin_right s)) b"

text \<open>A struct with an origin takes its parent from there and carries no parent fields.\<close>

definition has_parent :: "decoded_struct \<Rightarrow> bool" where
  "has_parent s \<longleftrightarrow> \<not> is_valid (s_origin_left s) \<and> \<not> is_valid (s_origin_right s) \<and> \<not> skip_like (s_content_kind s)"

definition parent_bytes :: "decoded_struct \<Rightarrow> bytes" where
  "parent_bytes s =
     (if \<not> has_parent s then []
      else if s_parent_ref s = kRootName then varint_bytes 1 @ prefixed_bytes (s_parent_name s)
      else varint_bytes 0 @ id_bytes (s_parent_id s))"

definition sub_bytes :: "decoded_struct \<Rightarrow> bytes" where
  "sub_bytes s = (if has_parent s \<and> s_parent_sub s \<noteq> [] then prefixed_bytes (s_parent_sub s) else [])"

definition flagged_bytes :: "bool \<Rightarrow> decoded_struct \<Rightarrow> bytes" where
  "flagged_bytes b s = [s_info b s] @ origin_bytes (s_origin_left s) @ origin_bytes (s_origin_right s) @
     parent_bytes s @ sub_bytes s @ payload_bytes (s_content_kind s) (s_length s) (s_content_view s)"

definition struct_bytes :: "decoded_struct \<Rightarrow> bytes" where
  "struct_bytes s = flagged_bytes (s_parent_sub s \<noteq> []) s"

definition parent_wf :: "decoded_struct \<Rightarrow> bool" where
  "parent_wf s \<longleftrightarrow> length (s_parent_sub s) < 2 ^ 64 \<and>
     (if has_parent s then
        s_parent_ref s = kRootName \<and> s_parent_id s = kInvalidId \<and> length (s_parent_name s) < 2 ^ 64 \<or>
        s_parent_ref s = kId \<and> s_parent_name s = []
      else s_parent_ref s = kNone \<and> s_parent_id s = kInvalidId \<and> s_parent_name s = [] \<and> s_parent_sub s = [])"

text \<open>The structs the wire format can express.\<close>

definition struct_wf :: "decoded_struct \<Rightarrow> bool" where
  "struct_wf s \<longleftrightarrow> kind_named (s_content_kind s) \<and> parent_wf s \<and>
     payload_wf (s_content_kind s) (s_length s) (s_content_view s)"

lemma s_info_fields:
  assumes "kind_named (s_content_kind s)"
  shows "info_content_kind (s_info b s) = s_content_kind s"
    and "info_has_left_origin (s_info b s) = is_valid (s_origin_left s)"
    and "info_has_right_origin (s_info b s) = is_valid (s_origin_right s)"
    and "info_has_parent_sub (s_info b s) = b"
    and "info_has_parent_info (s_info b s) = has_parent s"
  unfolding s_info_def info_has_parent_info_def has_parent_def info_byte_fields [OF assms]
  by (auto simp: skip_like_def)

lemma info_known:
  assumes "kind_named (info_content_kind info)"
  shows "content_kind_is_known (info AND kInfoMaskContentKind)"
proof -
  have "kind_byte (info_content_kind info) = info AND kInfoMaskContentKind" by (simp add: info_content_kind_def)
  then show ?thesis
    using assms by (cases "info_content_kind info") (auto simp: content_kind_is_known_def kind_named_def)
qed

section \<open>Decoding what is written\<close>

lemma r_parses_id: "r_parses read_id (id_bytes i) i"
  unfolding read_id_def id_bytes_def
  using r_parses_map [of r_varint_u64 "varint_bytes (id_clock i)" "id_clock i" "Id (id_client i)"]
  by (intro r_parses_try [OF r_parses_varint_u64]) (simp add: r_parses_varint_u64)

lemma r_parses_origin:
  "r_parses (if is_valid i then read_id else yreturn kInvalidId) (origin_bytes i) i"
  by (auto simp: origin_bytes_def is_valid_def r_parses_id r_parses_return)

lemma r_parses_parent:
  assumes "kind_named (s_content_kind s)" and "parent_wf s"
  shows "r_parses (read_parent (s_info b s)) (parent_bytes s) (s_parent_ref s, s_parent_id s, s_parent_name s)"
proof (cases "has_parent s")
  case False
  then show ?thesis using assms by (simp add: read_parent_def s_info_fields parent_bytes_def parent_wf_def r_parses_return)
next
  case True
  show ?thesis
  proof (cases "s_parent_ref s = kRootName")
    case root: True
    then have "length (s_parent_name s) < 2 ^ 64" "s_parent_id s = kInvalidId"
      using assms(2) True by (auto simp: parent_wf_def)
    then have "r_parses (ytry r_length_prefixed (\<lambda>n. yreturn (kRootName, kInvalidId, n)))
        (prefixed_bytes (s_parent_name s)) (s_parent_ref s, s_parent_id s, s_parent_name s)"
      using r_parses_map [OF r_parses_length_prefixed, of "s_parent_name s" "\<lambda>n. (kRootName, kInvalidId, n)"] root
      by simp
    then show ?thesis
      using True root assms(1) unfolding read_parent_def parent_bytes_def
      by (simp add: s_info_fields) (intro r_parses_try [OF r_parses_varint_u64], simp)
  next
    case False
    then have *: "s_parent_ref s = kId" "s_parent_name s = []" using assms(2) True by (auto simp: parent_wf_def)
    then have "r_parses (ytry read_id (\<lambda>i. yreturn (kId, i, [])))
        (id_bytes (s_parent_id s)) (s_parent_ref s, s_parent_id s, s_parent_name s)"
      using r_parses_map [OF r_parses_id [of "s_parent_id s"], of "\<lambda>i. (kId, i, [])"] by simp
    then show ?thesis
      using True False assms(1) unfolding read_parent_def parent_bytes_def
      by (simp add: s_info_fields) (intro r_parses_try [OF r_parses_varint_u64], simp)
  qed
qed

lemma r_parses_sub:
  assumes "kind_named (s_content_kind s)" and "parent_wf s"
    and "has_parent s \<Longrightarrow> b = (s_parent_sub s \<noteq> [])"
  shows "r_parses (if info_has_parent_sub (s_info b s) \<and> info_has_parent_info (s_info b s) then r_length_prefixed
    else yreturn []) (sub_bytes s) (s_parent_sub s)"
  using assms by (auto simp: s_info_fields sub_bytes_def parent_wf_def has_parent_def r_parses_return
      r_parses_length_prefixed)

lemma r_parses_flagged:
  assumes wf: "struct_wf s" and b: "has_parent s \<Longrightarrow> b = (s_parent_sub s \<noteq> [])"
  shows "r_parses (decode_one_struct (id_client (s_id s)) (id_clock (s_id s))) (flagged_bytes b s) s"
proof -
  have k: "kind_named (s_content_kind s)" and p: "parent_wf s"
    and pay: "r_parses (read_content_payload (s_content_kind s))
      (payload_bytes (s_content_kind s) (s_length s) (s_content_view s)) (s_length s, s_content_view s)"
    using wf by (auto simp: struct_wf_def payload_wf_def)
  have known: "content_kind_is_known (s_info b s AND kInfoMaskContentKind)"
    by (rule info_known) (simp add: s_info_fields k)
  define f where "f = (\<lambda>(len, view). \<lparr>s_id = Id (id_client (s_id s)) (id_clock (s_id s)),
    s_origin_left = s_origin_left s, s_origin_right = s_origin_right s, s_parent_ref = s_parent_ref s,
    s_parent_id = s_parent_id s, s_parent_name = s_parent_name s, s_parent_sub = s_parent_sub s,
    s_content_kind = s_content_kind s, s_length = len, s_content_view = view\<rparr>)"
  have "f (s_length s, s_content_view s) = s" by (cases s) (simp add: f_def)
  then have fin: "r_parses (ytry (read_content_payload (s_content_kind s)) (\<lambda>(len, view). yreturn (f (len, view))))
      (payload_bytes (s_content_kind s) (s_length s) (s_content_view s)) s"
    using r_parses_map [OF pay, of f] by (simp add: split_def)
  show ?thesis
    unfolding decode_one_struct_def flagged_bytes_def
    apply (rule r_parses_try [OF r_parses_u8])
    apply (simp only: known s_info_fields(1-3) [OF k] not_True_eq_False if_False)
    apply (rule r_parses_try [OF r_parses_origin])
    apply (rule r_parses_try [OF r_parses_origin])
    apply (rule r_parses_try [OF r_parses_parent [OF k p]])
    apply (simp only: prod.case)
    apply (rule r_parses_try [OF r_parses_sub [OF k p b]])
     apply assumption
    apply (rule fin [unfolded f_def prod.case])
    done
qed

text \<open>
  Conversely every struct the decoder delivers has a wire form, with one exception: an origin
  that is spelled out on the wire and equals the sentinel \<open>kInvalidId\<close> reads as no origin, and
  the struct is left with neither origin nor parent.
\<close>

definition anchored :: "decoded_struct \<Rightarrow> bool" where
  "anchored s \<longleftrightarrow> (has_parent s \<longrightarrow> s_parent_ref s \<noteq> kNone)"

lemma read_parent_result:
  assumes "read_parent info r = (Inr (ref, pid, name), r')"
  shows "if info_has_parent_info info
    then ref = kRootName \<and> pid = kInvalidId \<and> length name < 2 ^ 64 \<or> ref = kId \<and> name = []
    else ref = kNone \<and> pid = kInvalidId \<and> name = []"
  using assms unfolding read_parent_def
  by (auto simp: yreturn_apply yfail_apply elim!: ytry_InrE split: if_splits dest!: length_prefixed_short)

lemma decode_one_struct_parent:
  assumes run: "decode_one_struct client clock r = (Inr s, r')" and "anchored s"
  shows "parent_wf s"
  using run
proof (cases rule: decode_one_structE)
  case (1 info r1 ol r2 rt r3 ref pid name r4 sub r5 len view)
  note s = 1(8)
  have "length sub < 2 ^ 64" "\<not> info_has_parent_info info \<Longrightarrow> sub = []"
    using 1(6) length_prefixed_short by (auto simp: yreturn_apply split: if_splits)
  moreover have "info_has_parent_info info \<Longrightarrow> has_parent s"
    using 1(3,4) by (auto simp: s has_parent_def info_has_parent_info_def skip_like_def yreturn_apply is_valid_def)
  ultimately show ?thesis
    using read_parent_result [OF 1(5)] assms(2)
    by (auto simp: s parent_wf_def anchored_def split: if_splits)
qed

lemma decoded_struct_wf:
  assumes "r_wf r" and "decode_one_struct client clock r = (Inr s, r')" and "anchored s"
  shows "struct_wf s"
  using decode_one_struct_ok [OF assms(1,2)] decode_one_struct_parent [OF assms(2,3)]
  by (simp add: struct_wf_def struct_ok_def)

section \<open>Writing\<close>

text \<open>The struct an item stands for on the wire.\<close>

definition wire_struct :: "item \<Rightarrow> decoded_struct" where
  "wire_struct it =
     (let s = \<lparr>s_id = it_id it, s_origin_left = it_origin_left it, s_origin_right = it_origin_right it,
        s_parent_ref = it_parent_ref it, s_parent_id = it_parent_id it, s_parent_name = it_parent_name it,
        s_parent_sub = it_parent_sub it, s_content_kind = it_content_kind it,
        s_length = it_length it, s_content_view = it_content_view it\<rparr>
      in if has_parent s then s
         else s\<lparr>s_parent_ref := kNone, s_parent_id := kInvalidId, s_parent_name := [], s_parent_sub := []\<rparr>)"

definition item_flag :: "item \<Rightarrow> bool" where
  "item_flag it \<longleftrightarrow> it_parent_sub it \<noteq> [] \<and> \<not> skip_like (it_content_kind it)"

lemma wire_struct_simps [simp]:
  "s_id (wire_struct it) = it_id it" "s_origin_left (wire_struct it) = it_origin_left it"
  "s_origin_right (wire_struct it) = it_origin_right it" "s_content_kind (wire_struct it) = it_content_kind it"
  "s_length (wire_struct it) = it_length it" "s_content_view (wire_struct it) = it_content_view it"
  by (simp_all add: wire_struct_def Let_def)

lemma wire_struct_parent:
  "has_parent (wire_struct it) \<longleftrightarrow> \<not> is_valid (it_origin_left it) \<and> \<not> is_valid (it_origin_right it) \<and>
     \<not> skip_like (it_content_kind it)"
  "has_parent (wire_struct it) \<Longrightarrow> s_parent_ref (wire_struct it) = it_parent_ref it"
  "has_parent (wire_struct it) \<Longrightarrow> s_parent_id (wire_struct it) = it_parent_id it"
  "has_parent (wire_struct it) \<Longrightarrow> s_parent_name (wire_struct it) = it_parent_name it"
  "has_parent (wire_struct it) \<Longrightarrow> s_parent_sub (wire_struct it) = it_parent_sub it"
  by (auto simp: wire_struct_def Let_def has_parent_def)

lemma build_info_byte_eq: "build_info_byte it = s_info (item_flag it) (wire_struct it)"
  by (simp add: build_info_byte_def s_info_def info_byte_def item_flag_def skip_like_def Let_def)

lemma w_appends_id: "w_appends (write_id i) (id_bytes i)"
  unfolding write_id_def id_bytes_def
  using w_appends_try [of "w_varint_u64 (id_clock i)" "varint_bytes (id_clock i)" "\<lambda>_. yreturn ()" "[]"]
  by (intro w_appends_try w_appends_varint_u64) (simp add: w_appends_varint_u64 w_appends_return)

lemma w_appends_payload:
  assumes "payload_wf k len view" and "kind_named k"
  shows "w_appends (write_content_view k len view) (payload_bytes k len view)"
  using assms by (cases k) (auto simp: payload_wf_def kind_named_def intro: w_appends_intros)

lemma w_appends_if: "(b \<Longrightarrow> w_appends m bs) \<Longrightarrow> w_appends (if b then m else yreturn ()) (if b then bs else [])"
  by (simp add: w_appends_return)

lemma w_appends_struct:
  assumes wf: "struct_wf (wire_struct it)"
  shows "w_appends (write_struct it) (flagged_bytes (item_flag it) (wire_struct it))"
proof -
  let ?s = "wire_struct it" and ?b = "item_flag it"
  have k: "kind_named (s_content_kind ?s)" and p: "parent_wf ?s" using wf by (auto simp: struct_wf_def)
  have "w_appends (write_parent it) (parent_bytes ?s)" if "has_parent ?s"
    using p that wire_struct_parent(2-4) [OF that]
    by (auto simp: parent_wf_def write_parent_def parent_bytes_def
        intro!: w_appends_try w_appends_varint_u64 w_appends_length_prefixed w_appends_id)
  then have par: "w_appends (if has_parent ?s then write_parent it else yreturn ()) (parent_bytes ?s)"
    by (auto simp: parent_bytes_def w_appends_return)
  have sub: "w_appends (if ?b \<and> has_parent ?s then w_length_prefixed (it_parent_sub it) else yreturn ()) (sub_bytes ?s)"
    using wire_struct_parent(5) [of it]
    by (auto simp: sub_bytes_def item_flag_def wire_struct_parent(1) w_appends_return intro: w_appends_length_prefixed)
  have pay: "w_appends (write_content_payload it)
      (payload_bytes (it_content_kind it) (it_length it) (it_content_view it))"
    using w_appends_payload wf by (simp add: write_content_payload_def struct_wf_def)
  show ?thesis
    unfolding write_struct_def flagged_bytes_def Let_def build_info_byte_eq s_info_fields [OF k]
    unfolding wire_struct_simps origin_bytes_def
    by (intro w_appends_try w_appends_u8 w_appends_if w_appends_id par sub pay)
qed

text \<open>An item with the fields of a struct, as integration copies them.\<close>

definition struct_item :: "decoded_struct \<Rightarrow> item" where
  "struct_item s = item_default\<lparr>it_id := s_id s, it_origin_left := s_origin_left s,
     it_origin_right := s_origin_right s, it_parent_ref := s_parent_ref s, it_parent_id := s_parent_id s,
     it_parent_name := s_parent_name s, it_parent_sub := s_parent_sub s,
     it_content_kind := s_content_kind s, it_length := s_length s, it_content_view := s_content_view s\<rparr>"

lemma wire_struct_item: "struct_wf s \<Longrightarrow> wire_struct (struct_item s) = s"
  by (cases s) (auto simp: wire_struct_def struct_item_def struct_wf_def parent_wf_def has_parent_def Let_def)

lemma item_flag_struct: "struct_wf s \<Longrightarrow> item_flag (struct_item s) \<longleftrightarrow> s_parent_sub s \<noteq> []"
  by (auto simp: item_flag_def struct_item_def struct_wf_def parent_wf_def has_parent_def split: if_splits)

interpretation struct_codec: wire_codec "\<lambda>s. write_struct (struct_item s)" "decode_one_struct client clock"
    struct_bytes "\<lambda>s. struct_wf s \<and> s_id s = Id client clock"
proof unfold_locales
  fix s assume s: "struct_wf s \<and> s_id s = Id client clock"
  then show "w_appends (write_struct (struct_item s)) (struct_bytes s)"
    using w_appends_struct [of "struct_item s"] by (simp add: wire_struct_item item_flag_struct struct_bytes_def)
  show "r_parses (decode_one_struct client clock) (struct_bytes s) s"
    using r_parses_flagged [of s "s_parent_sub s \<noteq> []"] s by (simp add: struct_bytes_def)
qed

section \<open>Properties\<close>

text \<open>
C12: Whatever struct the decoder delivers from arbitrary bytes, the encoder writes back into a form
that decodes to the same struct (identifiers, origins, parent, key, kind, length and payload),
for any bytes behind it; only a struct left with neither origin nor parent is excepted.
\<close>

theorem struct_decode_encode_decode:
  assumes "r_wf r" and "decode_one_struct client clock r = (Inr s, r')" and "anchored s"
    and "length (struct_bytes s) \<le> length buf"
  shows "\<exists>w. write_struct (struct_item s) (writer_of buf) = (Inr (), w) \<and>
    decode_one_struct client clock (reader_of (w_out w @ rest)) =
      (Inr s, \<lparr>r_view = w_out w @ rest, r_pos = w_pos w\<rparr>)"
proof -
  have "struct_wf s \<and> s_id s = Id client clock"
    using decoded_struct_wf [OF assms(1-3)] decode_one_struct_ok(1) [OF assms(1,2)] by blast
  from struct_codec.roundtrip [OF this assms(4)] show ?thesis by blast
qed

text \<open>A deleted run of five clocks whose right origin is item (1, 2).\<close>

theorem struct_decode_encode_decode_witness:
  "\<exists>s r' w. decode_one_struct 7 3 (reader_of [0x41, 1, 2, 5]) = (Inr s, r') \<and> s_length s = 5 \<and>
    s_origin_right s = Id 1 2 \<and>
    write_struct (struct_item s) (writer_of (replicate 8 0)) = (Inr (), w) \<and>
    decode_one_struct 7 3 (reader_of (w_out w @ [9])) = (Inr s, \<lparr>r_view = w_out w @ [9], r_pos = w_pos w\<rparr>)"
proof -
  define s where "s = \<lparr>s_id = Id 7 3, s_origin_left = kInvalidId, s_origin_right = Id 1 2, s_parent_ref = kNone,
    s_parent_id = kInvalidId, s_parent_name = [], s_parent_sub = [], s_content_kind = kDeleted, s_length = 5,
    s_content_view = []\<rparr>"
  have run: "decode_one_struct 7 3 (reader_of [0x41, 1, 2, 5]) = (Inr s, \<lparr>r_view = [0x41, 1, 2, 5], r_pos = 4\<rparr>)"
    unfolding s_def by code_simp
  have "anchored s" by (simp add: anchored_def has_parent_def s_def is_valid_def kInvalidId_def)
  moreover have "length (struct_bytes s) \<le> length (replicate 8 (0 :: u8))"
    by (simp add: s_def struct_bytes_def flagged_bytes_def origin_bytes_def id_bytes_def parent_bytes_def sub_bytes_def
        has_parent_def is_valid_def kInvalidId_def varint_bytes.simps)
  ultimately show ?thesis
    using struct_decode_encode_decode [OF _ run, of "replicate 8 0" "[9]"] run by (auto simp: s_def)
qed

end
