(* ===== verification/Ycpp_YMap.thy ===== *)
theory Ycpp_YMap
  imports Ycpp_StructStore "HOL-Library.List_Lexorder"
begin

unbundle bit_operations_syntax

text \<open>
  The last-writer-wins map of ycpp_ymap.h: a hash map from keys to the item at the head of the
  key's list.  \<open>ym_sorts_right_of\<close> is the order that decides which of two items of a key wins; it
  climbs the chains of left origins of both.

  \<open>up by_id h p xs\<close>: \<open>xs\<close> is the chain of left origins from \<open>p\<close> to its root.  Read from the root,
  the identifiers on it are the path of \<open>p\<close>, and the order of the code is the lexicographic order
  of the paths.
\<close>

section \<open>The code\<close>

text \<open>The functors \<open>ByteViewHash\<close> and \<open>ByteViewEq\<close>; \<open>memcmp\<close> compares the bytes.\<close>

definition byte_view_hash :: "bytes \<Rightarrow> u64" where
  "byte_view_hash v = foldl (\<lambda>h b. (h XOR ucast b) * fnv_prime) 0xcbf29ce484222325 v"

definition byte_view_eq :: "bytes \<Rightarrow> bytes \<Rightarrow> bool" where
  "byte_view_eq a b \<longleftrightarrow>
     (if length a \<noteq> length b then False else if length a = 0 then True
      else list_all (\<lambda>(x, y). x = y) (zip a b))"

text \<open>A hash map with \<open>ByteView\<close> keys that draws on the same allocator as \<open>E\<close>; \<open>n\<close> is the size of an entry.\<close>

definition view_env :: "('k, 'a) hm_env \<Rightarrow> nat \<Rightarrow> (bytes, 'a) hm_env" where
  "view_env E n = \<lparr>he_hash = byte_view_hash, he_alloc = he_alloc E, he_entry_bytes = n, he_entry_align = 8\<rparr>"

text \<open>The value of an entry is an \<open>Item*\<close>, null as \<open>None\<close>.\<close>

type_synonym ymap = "(bytes, addr option) hashmap"

definition ym_raw_head :: "(bytes, 'a) hm_env \<Rightarrow> bytes \<Rightarrow> ymap \<Rightarrow> addr option" where
  "ym_raw_head E key m = (case hm_get E key m of None \<Rightarrow> None | Some v \<Rightarrow> v)"

definition ym_get :: "(bytes, 'a) hm_env \<Rightarrow> item_heap \<Rightarrow> bytes \<Rightarrow> ymap \<Rightarrow> addr option" where
  "ym_get E h key m =
     (case hm_get E key m of
        None \<Rightarrow> None
      | Some None \<Rightarrow> None
      | Some (Some p) \<Rightarrow> if deleted (h p) then None else Some p)"

definition kMaxOriginChain :: nat where
  "kMaxOriginChain = 256"

definition ym_origin_of :: "(yid \<Rightarrow> addr option) \<Rightarrow> item_heap \<Rightarrow> addr \<Rightarrow> addr option" where
  "ym_origin_of by_id h p = (if \<not> is_valid (it_origin_left (h p)) then None else by_id (it_origin_left (h p)))"

text \<open>The first loop: the chain of \<open>b\<close>, or the discovery of \<open>a\<close> on it.\<close>

primrec ym_chain :: "nat \<Rightarrow> (yid \<Rightarrow> addr option) \<Rightarrow> item_heap \<Rightarrow> addr \<Rightarrow> addr option \<Rightarrow> addr list \<Rightarrow> bool \<times> addr list" where
  "ym_chain 0 by_id h a c chain_b = (False, chain_b)"
| "ym_chain (Suc n) by_id h a c chain_b =
     (case c of
        None \<Rightarrow> (False, chain_b)
      | Some p \<Rightarrow> if p = a then (True, chain_b)
                  else ym_chain n by_id h a (ym_origin_of by_id h p) (chain_b @ [p]))"

primrec ym_index :: "addr \<Rightarrow> addr list \<Rightarrow> nat \<Rightarrow> nat option" where
  "ym_index c [] j = None"
| "ym_index c (x # xs) j = (if x \<noteq> c then ym_index c xs (j + 1) else Some j)"

text \<open>The second loop: the position in \<open>chain_b\<close> where the chain of \<open>a\<close> meets it, and \<open>child_a\<close>.\<close>

primrec ym_climb ::
    "nat \<Rightarrow> (yid \<Rightarrow> addr option) \<Rightarrow> item_heap \<Rightarrow> addr list \<Rightarrow> addr option \<Rightarrow> addr option \<Rightarrow> nat option \<times> addr option" where
  "ym_climb 0 by_id h chain_b c child_a = (None, child_a)"
| "ym_climb (Suc n) by_id h chain_b c child_a =
     (case c of
        None \<Rightarrow> (None, child_a)
      | Some p \<Rightarrow>
          (case ym_index p chain_b 0 of
             Some j \<Rightarrow> (Some j, child_a)
           | None \<Rightarrow> ym_climb n by_id h chain_b (ym_origin_of by_id h p) (Some p)))"

definition ym_sorts_right_of :: "(yid \<Rightarrow> addr option) \<Rightarrow> item_heap \<Rightarrow> addr \<Rightarrow> addr \<Rightarrow> bool" where
  "ym_sorts_right_of by_id h a b =
     (let (found, chain_b) = ym_chain kMaxOriginChain by_id h a (Some b) [] in
      if found then True
      else
        (case ym_climb kMaxOriginChain by_id h chain_b (Some a) None of
           (Some j, child_a) \<Rightarrow>
             if j = 0 then False
             else id_less (it_id (h (the child_a))) (it_id (h (chain_b ! (j - 1))))
         | (None, child_a) \<Rightarrow>
             id_less (it_id (h (the child_a))) (it_id (h (chain_b ! (length chain_b - 1))))))"

text \<open>The item that lost, if any; the caller marks it deleted.\<close>

definition ym_integrate ::
    "(bytes, 'a) hm_env \<Rightarrow> (yid \<Rightarrow> addr option) \<Rightarrow> item_heap \<Rightarrow> addr \<Rightarrow> ymap \<times> 'a \<Rightarrow> addr option \<times> ymap \<times> 'a" where
  "ym_integrate E by_id h item st =
     (let key = it_parent_sub (h item); (m, a) = st in
      case hm_get E key m of
        None \<Rightarrow> (None, snd (hm_insert E key (Some item) (m, a)))
      | Some None \<Rightarrow> (None, hm_assign E key (Some item) m, a)
      | Some (Some prior) \<Rightarrow>
          if ym_sorts_right_of by_id h prior item
          then (Some prior, hm_assign E key (Some item) m, a)
          else (Some item, m, a))"

definition ym_for_each :: "item_heap \<Rightarrow> (bytes \<Rightarrow> addr \<Rightarrow> 's \<Rightarrow> 's) \<Rightarrow> ymap \<Rightarrow> 's \<Rightarrow> 's" where
  "ym_for_each h f m =
     hm_for_each (\<lambda>(key, head) s.
       case head of None \<Rightarrow> s | Some p \<Rightarrow> if deleted (h p) then s else f key p s) m"

definition ym_live_key_count :: "ymap \<Rightarrow> nat" where
  "ym_live_key_count m = hm_size m"

lemma byte_view_eq_iff: "byte_view_eq a b \<longleftrightarrow> a = b"
proof -
  have "length a = length b \<Longrightarrow> list_all (\<lambda>(x, y). x = y) (zip a b) \<longleftrightarrow> a = b"
    by (induction a b rule: list_induct2) auto
  then show ?thesis by (auto simp: byte_view_eq_def)
qed

section \<open>Chains of origins\<close>

inductive up :: "(yid \<Rightarrow> addr option) \<Rightarrow> item_heap \<Rightarrow> addr \<Rightarrow> addr list \<Rightarrow> bool" for by_id h where
  root: "ym_origin_of by_id h p = None \<Longrightarrow> up by_id h p [p]"
| step: "ym_origin_of by_id h p = Some q \<Longrightarrow> up by_id h q xs \<Longrightarrow> up by_id h p (p # xs)"

inductive_cases upE: "up by_id h p xs"

lemma up_Cons: "up by_id h p xs \<Longrightarrow> \<exists>ys. xs = p # ys"
  by (erule upE) auto

lemma up_fun: "up by_id h p xs \<Longrightarrow> up by_id h p ys \<Longrightarrow> xs = ys"
proof (induction arbitrary: ys rule: up.induct)
  case (step p q xs)
  from step.prems show ?case
  proof (rule upE)
    fix r zs
    assume r: "ys = p # zs" "ym_origin_of by_id h p = Some r" "up by_id h r zs"
    then have "r = q" using step.hyps(1) by simp
    then show "p # xs = ys" using step.IH [of zs] r by simp
  qed (use step.hyps(1) in simp)
qed (auto elim: upE)

text \<open>From an item on the chain upwards, the chain is the item's own.\<close>

lemma up_tail: "up by_id h p (us @ c # zs) \<Longrightarrow> up by_id h c (c # zs)"
proof (induction us arbitrary: p)
  case Nil
  then show ?case using up_Cons [OF Nil] by simp
next
  case (Cons u us)
  then show ?case by (auto elim: upE)
qed

lemma up_distinct: "up by_id h p xs \<Longrightarrow> distinct xs"
proof (induction rule: up.induct)
  case (step p q xs)
  have "p \<notin> set xs"
  proof
    assume "p \<in> set xs"
    then obtain us zs where xs: "xs = us @ p # zs" by (metis split_list)
    have "up by_id h p (p # zs)" using up_tail step.hyps(2) xs by simp
    moreover have "up by_id h p (p # xs)" using step.hyps by (rule up.step)
    ultimately show False using up_fun [of by_id h p "p # zs" "p # xs"] xs by simp
  qed
  then show ?case using step.IH by simp
qed simp

lemma ym_chain_up:
  "up by_id h p xs \<Longrightarrow> length xs \<le> n \<Longrightarrow> (if a \<in> set xs then fst (ym_chain n by_id h a (Some p) acc)
     else ym_chain n by_id h a (Some p) acc = (False, acc @ xs))"
proof (induction arbitrary: n acc rule: up.induct)
  case (root p)
  then obtain k where n: "n = Suc k" by (cases n) auto
  have "ym_chain k by_id h a None bs = (False, bs)" for bs by (cases k) auto
  then show ?case using root by (auto simp: n)
next
  case (step p q xs)
  then obtain k where n: "n = Suc k" by (cases n) auto
  show ?case using step.IH [of k "acc @ [p]"] step.hyps step.prems by (auto simp: n)
qed

lemma ym_index_None: "ym_index c xs j = None \<longleftrightarrow> c \<notin> set xs"
  by (induction xs arbitrary: j) auto

lemma ym_index_Some: "c \<notin> set us \<Longrightarrow> ym_index c (us @ c # zs) j = Some (j + length us)"
  by (induction us arbitrary: j) auto

lemma ym_climb_meet:
  "up by_id h p (us @ c # zs) \<Longrightarrow> length us < n \<Longrightarrow> set us \<inter> set ys = {} \<Longrightarrow> ym_index c ys 0 = Some j \<Longrightarrow>
     ym_climb n by_id h ys (Some p) child = (Some j, if us = [] then child else Some (last us))"
proof (induction us arbitrary: p n child)
  case Nil
  then show ?case using up_Cons [OF Nil(1)] by (cases n) auto
next
  case (Cons u us)
  obtain q where q: "p = u" "ym_origin_of by_id h p = Some q" "up by_id h q (us @ c # zs)"
    using Cons.prems(1) by (auto elim: upE)
  obtain k where n: "n = Suc k" using Cons.prems(2) by (cases n) auto
  have "ym_index p ys 0 = None" using Cons.prems(3) q(1) by (simp add: ym_index_None)
  then show ?case using Cons.IH [OF q(3), of k "Some p"] Cons.prems q by (auto simp: n)
qed

lemma ym_climb_apart:
  "up by_id h p xs \<Longrightarrow> length xs \<le> n \<Longrightarrow> set xs \<inter> set ys = {} \<Longrightarrow>
     ym_climb n by_id h ys (Some p) child = (None, Some (last xs))"
proof (induction arbitrary: n child rule: up.induct)
  case (root p)
  then obtain k where n: "n = Suc k" by (cases n) auto
  have "ym_climb k by_id h ys None (Some p) = (None, Some p)" by (cases k) auto
  moreover have "ym_index p ys 0 = None" using root by (simp add: ym_index_None)
  ultimately show ?case using root.hyps by (auto simp: n)
next
  case (step p q xs)
  then obtain k where n: "n = Suc k" by (cases n) auto
  have "ym_index p ys 0 = None" using step.prems by (simp add: ym_index_None)
  then show ?case using step.IH [of k "Some p"] step.prems step.hyps up_Cons [OF step.hyps(2)] by (auto simp: n)
qed

section \<open>The order\<close>

definition id_path :: "item_heap \<Rightarrow> addr list \<Rightarrow> yid list" where
  "id_path h xs = rev (map (\<lambda>p. it_id (h p)) xs)"

lemma id_path_append: "id_path h (us @ zs) = id_path h zs @ id_path h us"
  by (simp add: id_path_def)

lemma id_path_last: "us \<noteq> [] \<Longrightarrow> \<exists>r. id_path h us = it_id (h (last us)) # r"
  by (cases us rule: rev_cases) (simp_all add: id_path_def)

lemma id_path_less:
  assumes "us \<noteq> []" and "vs \<noteq> []" and "it_id (h (last us)) \<noteq> it_id (h (last vs))"
  shows "id_path h (us @ zs) < id_path h (vs @ zs) \<longleftrightarrow> id_less (it_id (h (last us))) (it_id (h (last vs)))"
proof -
  have cancel: "(xs :: yid list) @ ys < xs @ zs \<longleftrightarrow> ys < zs" for xs ys zs by (induction xs) auto
  obtain r s where "id_path h us = it_id (h (last us)) # r" "id_path h vs = it_id (h (last vs)) # s"
    using id_path_last assms(1,2) by blast
  then show ?thesis using assms(3) by (simp add: id_path_append cancel less_yid_def)
qed

text \<open>Two chains share exactly the part above where they first meet.\<close>

lemma up_meet:
  assumes a: "up by_id h a xs" and b: "up by_id h b ys"
  obtains (apart) "set xs \<inter> set ys = {}"
    | (meet) us vs c zs where "xs = us @ c # zs" and "ys = vs @ c # zs" and "set us \<inter> set ys = {}" and "set vs \<inter> set xs = {}"
proof (cases "\<exists>x \<in> set xs. x \<in> set ys")
  case True
  then obtain us c zs where xs: "xs = us @ c # zs" "c \<in> set ys" "\<forall>x \<in> set us. x \<notin> set ys"
    using split_list_first_prop [of xs "\<lambda>x. x \<in> set ys"] by auto
  then obtain vs ws where ys: "ys = vs @ c # ws" by (metis split_list)
  have "c # ws = c # zs" using up_tail a b xs(1) ys up_fun by metis
  moreover have "x \<notin> set xs" if x: "x \<in> set vs" for x
    using x xs(1,3) ys \<open>c # ws = c # zs\<close> up_distinct [OF b] by auto
  ultimately show ?thesis using meet [of us c zs vs] xs ys by auto
qed (use apart in blast)

lemma ym_sorts_right_of_path:
  assumes a: "up by_id h a xs" and b: "up by_id h b ys" and ne: "a \<noteq> b"
    and len: "length xs \<le> kMaxOriginChain" "length ys \<le> kMaxOriginChain"
    and inj: "inj_on (\<lambda>p. it_id (h p)) (set xs \<union> set ys)"
  shows "ym_sorts_right_of by_id h a b \<longleftrightarrow> id_path h xs < id_path h ys"
proof -
  have ids: "it_id (h x) \<noteq> it_id (h y)" if "x \<in> set xs" "y \<in> set ys" "x \<notin> set ys \<or> y \<notin> set xs" for x y
    using inj that by (auto dest: inj_onD)
  obtain xs' where xs': "xs = a # xs'" using up_Cons [OF a] by auto
  obtain ys' where ys': "ys = b # ys'" using up_Cons [OF b] by auto
  have less: "xs < (xs :: yid list) @ y # zs" for xs y zs by (induction xs) auto
  show ?thesis
  proof (cases "a \<in> set ys")
    case True
    then have "fst (ym_chain kMaxOriginChain by_id h a (Some b) [])" using ym_chain_up [OF b len(2), of a "[]"] by simp
    moreover have "id_path h xs < id_path h ys"
    proof -
      obtain vs zs where ys: "ys = vs @ a # zs" using True by (metis split_list)
      then have "xs = a # zs" using up_fun [OF a up_tail] b by blast
      moreover have "vs \<noteq> []" using ys ys' ne by auto
      ultimately show ?thesis using ys id_path_last [of vs h] less by (auto simp: id_path_append)
    qed
    ultimately show ?thesis by (auto simp: ym_sorts_right_of_def split: prod.splits)
  next
    case False
    then have chain: "ym_chain kMaxOriginChain by_id h a (Some b) [] = (False, ys)"
      using ym_chain_up [OF b len(2), of a "[]"] by simp
    from a b show ?thesis
    proof (cases rule: up_meet)
      case apart
      then have "ym_climb kMaxOriginChain by_id h ys (Some a) None = (None, Some (last xs))"
        by (rule ym_climb_apart [OF a len(1)])
      moreover have "it_id (h (last xs)) \<noteq> it_id (h (last ys))"
        by (rule ids) (use apart xs' ys' in auto)
      ultimately show ?thesis
        using id_path_less [of xs ys h "[]"] xs' ys' chain by (simp add: ym_sorts_right_of_def last_conv_nth)
    next
      case (meet us vs c zs)
      have c: "c \<notin> set vs" using up_distinct [OF b] meet(2) by auto
      have us: "us \<noteq> []" using False meet xs' by (cases us) auto
      have climb: "ym_climb kMaxOriginChain by_id h ys (Some a) None = (Some (length vs), Some (last us))"
        using ym_climb_meet [of by_id h a us c zs kMaxOriginChain ys "length vs" None] a meet len(1) us
          ym_index_Some [OF c, of zs 0] by auto
      show ?thesis
      proof (cases "vs = []")
        case True
        have "id_path h ys < id_path h xs"
          using meet(1,2) True us id_path_last [of us h] less by (auto simp: id_path_append)
        then show ?thesis using chain climb True by (auto simp: ym_sorts_right_of_def)
      next
        case vs: False
        have "it_id (h (last us)) \<noteq> it_id (h (last vs))"
          by (rule ids) (use meet us vs in \<open>auto simp: disjoint_iff\<close>)
        moreover have "ys ! (length vs - 1) = last vs"
          using vs meet(2) by (simp add: nth_append last_conv_nth)
        ultimately show ?thesis
          using chain climb vs us meet(1,2) id_path_less [OF us vs, of h "c # zs"] by (simp add: ym_sorts_right_of_def)
      qed
    qed
  qed
qed

section \<open>The heads of a map\<close>

text \<open>
  A run of integrations, each with the resolution of identifiers its time knows.  The contract of
  \<open>integrate\<close>: at each time the chain of every item integrated so far resolves, \<open>anc\<close> being the
  chains.
\<close>

type_synonym ym_step = "(yid \<Rightarrow> addr option) \<times> addr"

definition ym_run :: "(bytes, 'a) hm_env \<Rightarrow> item_heap \<Rightarrow> ym_step list \<Rightarrow> ymap \<times> 'a \<Rightarrow> ymap \<times> 'a" where
  "ym_run E h = fold (\<lambda>(by_id, p) st. snd (ym_integrate E by_id h p st))"

definition ym_contract :: "item_heap \<Rightarrow> (addr \<Rightarrow> addr list) \<Rightarrow> ym_step list \<Rightarrow> bool" where
  "ym_contract h anc steps \<longleftrightarrow> distinct (map snd steps) \<and>
     (\<forall>i < length steps. \<forall>j \<le> i. up (fst (steps ! i)) h (snd (steps ! j)) (anc (snd (steps ! j)))) \<and>
     (\<forall>p \<in> snd ` set steps. length (anc p) \<le> kMaxOriginChain) \<and>
     inj_on (\<lambda>p. it_id (h p)) (\<Union>p \<in> snd ` set steps. set (anc p))"

text \<open>The head the order selects for a key: the last of its items in the order of the identifier paths.\<close>

definition ym_last :: "item_heap \<Rightarrow> (addr \<Rightarrow> addr list) \<Rightarrow> addr set \<Rightarrow> bytes \<Rightarrow> addr option \<Rightarrow> bool" where
  "ym_last h anc S key head \<longleftrightarrow>
     (case head of
        None \<Rightarrow> \<forall>p \<in> S. it_parent_sub (h p) \<noteq> key
      | Some w \<Rightarrow> w \<in> S \<and> it_parent_sub (h w) = key \<and>
          (\<forall>p \<in> S. it_parent_sub (h p) = key \<longrightarrow> id_path h (anc p) \<le> id_path h (anc w)))"

definition ym_rel :: "(bytes, 'a) hm_env \<Rightarrow> item_heap \<Rightarrow> (addr \<Rightarrow> addr list) \<Rightarrow> addr set \<Rightarrow> nat \<Rightarrow> ymap \<Rightarrow> bool" where
  "ym_rel E h anc S n m \<longleftrightarrow> hm_inv E m \<and> hm_room E n m \<and>
     (\<forall>key. \<exists>head. hm_abs m key = map_option Some head \<and> ym_last h anc S key head)"

lemma hm_insert_room:
  assumes "hm_inv E m" and "hm_room E (Suc n) m" and "hm_abs m k = None"
    and "hm_insert E k v (m, a) = (r, m', a')"
  shows "hm_inv E m' \<and> hm_abs m' = (hm_abs m)(k \<mapsto> v) \<and> hm_room E n m'"
proof (rule hm_insert_spec [OF assms(1), of k v a])
  fix m1 a1 assume "hm_insert E k v (m, a) = (None, m1, a1)" and "alloc_total (he_alloc E) \<Longrightarrow> 3 * kMaxCap < 4 * (hm_size m + hm_tombs m)"
  then show ?thesis using assms(2) by (simp add: hm_room_def)
qed (use assms in \<open>auto simp: hm_room_def\<close>)

lemma ym_integrate_rel:
  assumes rel: "ym_rel E h anc S (Suc n) m" and new: "p \<notin> S"
    and chains: "\<forall>q \<in> insert p S. up by_id h q (anc q) \<and> length (anc q) \<le> kMaxOriginChain"
    and inj: "inj_on (\<lambda>q. it_id (h q)) (\<Union>q \<in> insert p S. set (anc q))"
    and run: "ym_integrate E by_id h p (m, a) = (loser, m', a')"
  shows "ym_rel E h anc (insert p S) n m'"
proof -
  define key where "key = it_parent_sub (h p)"
  have inv: "hm_inv E m" and room: "hm_room E (Suc n) m" using rel by (auto simp: ym_rel_def)
  have less: "hm_room E n m" using room by (simp add: hm_room_def)
  have get: "hm_get E key m = hm_abs m key" using hm_get_abs [OF hm_inv_core [OF inv]] by simp
  have other: "ym_last h anc (insert p S) k head \<longleftrightarrow> ym_last h anc S k head" if "k \<noteq> key" for k head
    using that new by (auto simp: ym_last_def key_def split: option.splits)
  obtain head where head: "hm_abs m key = map_option Some head" "ym_last h anc S key head"
    using rel by (auto simp: ym_rel_def)
  have concl: "ym_rel E h anc (insert p S) n m1"
    if "hm_inv E m1" "hm_room E n m1" "hm_abs m1 = (hm_abs m)(key \<mapsto> Some w)" "ym_last h anc (insert p S) key (Some w)" for m1 w
    unfolding ym_rel_def
  proof (intro conjI allI that)
    fix k
    obtain hd1 where "hm_abs m k = map_option Some hd1" "ym_last h anc S k hd1" using rel by (auto simp: ym_rel_def)
    then show "\<exists>head. hm_abs m1 k = map_option Some head \<and> ym_last h anc (insert p S) k head"
      by (cases "k = key") (use that other [of k hd1] in \<open>auto intro: exI [of _ "Some w"]\<close>)
  qed
  show ?thesis
  proof (cases head)
    case None
    have "hm_insert E key (Some p) (m, a) = (fst (hm_insert E key (Some p) (m, a)), m', a')"
      using run get head None by (simp add: ym_integrate_def key_def [symmetric] prod_eq_iff)
    then have "hm_inv E m' \<and> hm_abs m' = (hm_abs m)(key \<mapsto> Some p) \<and> hm_room E n m'"
      using hm_insert_room [OF inv room] head None by simp
    moreover have "ym_last h anc (insert p S) key (Some p)"
      using head(2) None by (auto simp: ym_last_def key_def)
    ultimately show ?thesis using concl by blast
  next
    case (Some w)
    have w: "w \<in> S" "it_parent_sub (h w) = key" using head(2) Some by (auto simp: ym_last_def)
    have sorts: "ym_sorts_right_of by_id h w p \<longleftrightarrow> id_path h (anc w) < id_path h (anc p)"
      by (rule ym_sorts_right_of_path) (use chains inj w(1) new in \<open>auto intro: inj_on_subset\<close>)
    show ?thesis
    proof (cases "ym_sorts_right_of by_id h w p")
      case True
      then have m': "m' = hm_assign E key (Some p) m"
        using run get head Some by (simp add: ym_integrate_def key_def [symmetric])
      have "ym_last h anc (insert p S) key (Some p)"
        using head(2) Some sorts True by (auto simp: ym_last_def key_def intro: order.trans less_imp_le)
      then show ?thesis
        using head Some hm_assign_spec [OF inv, where k = key and v = "Some p"] less by (auto simp: m' intro!: concl)
    next
      case False
      then have "m' = m" using run get head Some by (simp add: ym_integrate_def key_def [symmetric])
      moreover have "ym_last h anc (insert p S) key (Some w)"
        using head(2) Some sorts False by (auto simp: ym_last_def)
      moreover have "hm_abs m = (hm_abs m)(key \<mapsto> Some w)" using head Some by auto
      ultimately show ?thesis using inv less concl by simp
    qed
  qed
qed

lemma ym_contract_snoc:
  assumes "ym_contract h anc (steps @ [(by_id, p)])"
  shows "ym_contract h anc steps"
    and "p \<notin> snd ` set steps"
    and "\<forall>q \<in> insert p (snd ` set steps). up by_id h q (anc q) \<and> length (anc q) \<le> kMaxOriginChain"
    and "inj_on (\<lambda>q. it_id (h q)) (\<Union>q \<in> insert p (snd ` set steps). set (anc q))"
proof -
  have up: "up (fst ((steps @ [(by_id, p)]) ! i)) h (snd ((steps @ [(by_id, p)]) ! j)) (anc (snd ((steps @ [(by_id, p)]) ! j)))"
    if "i \<le> length steps" "j \<le> i" for i j
    using assms that by (auto simp: ym_contract_def)
  have "up (fst (steps ! i)) h (snd (steps ! j)) (anc (snd (steps ! j)))" if "i < length steps" "j \<le> i" for i j
    using up [of i j] that by (simp add: nth_append)
  then show "ym_contract h anc steps"
    using assms by (auto simp: ym_contract_def intro: inj_on_subset)
  have old: "up by_id h q (anc q)" if mem: "q \<in> snd ` set steps" for q
  proof -
    obtain x where x: "x \<in> set steps" "q = snd x" using mem by blast
    obtain j where "j < length steps" "steps ! j = x" using x(1) by (metis in_set_conv_nth)
    then show ?thesis using up [of "length steps" j] x(2) by (simp add: nth_append)
  qed
  have "up by_id h p (anc p)" using up [of "length steps" "length steps"] by simp
  then show "\<forall>q \<in> insert p (snd ` set steps). up by_id h q (anc q) \<and> length (anc q) \<le> kMaxOriginChain"
    using assms old by (simp add: ym_contract_def)
qed (use assms in \<open>auto simp: ym_contract_def\<close>)

lemma ym_run_rel:
  assumes "alloc_total (he_alloc E)" and "4 * (length steps + n) \<le> 3 * kMaxCap" and "ym_contract h anc steps"
  shows "ym_rel E h anc (snd ` set steps) n (fst (ym_run E h steps (hm_empty, a)))"
  using assms(2,3)
proof (induction steps arbitrary: n rule: rev_induct)
  case Nil
  then show ?case
    using assms(1) by (auto simp: ym_run_def ym_rel_def hm_room_def hm_core_empty ym_last_def intro!: exI [of _ None])
      (simp add: hm_empty_def)
next
  case (snoc s steps)
  obtain by_id p where s: "s = (by_id, p)" by fastforce
  obtain m a1 where m: "ym_run E h steps (hm_empty, a) = (m, a1)" by fastforce
  obtain loser m' a' where i: "ym_integrate E by_id h p (m, a1) = (loser, m', a')" by (metis surj_pair)
  have "ym_rel E h anc (snd ` set steps) (Suc n) m"
    using snoc.IH [of "Suc n"] snoc.prems ym_contract_snoc(1) m by (simp add: s)
  from ym_integrate_rel [OF this _ _ _ i] ym_contract_snoc(2-4) [OF snoc.prems(2) [unfolded s]]
  show ?case using m i by (simp add: s ym_run_def)
qed

lemma ym_head_rel:
  assumes "ym_rel E h anc S n m"
  shows "ym_last h anc S key (ym_raw_head E key m)"
proof -
  obtain head where "hm_abs m key = map_option Some head" "ym_last h anc S key head" using assms by (auto simp: ym_rel_def)
  moreover have "hm_get E key m = hm_abs m key" using assms hm_get_abs [OF hm_inv_core, of E m key] by (simp add: ym_rel_def)
  ultimately show ?thesis by (cases head) (simp_all add: ym_raw_head_def)
qed

text \<open>What of an item decides: its key and the identifiers of its chain, root first.\<close>

definition ym_records :: "item_heap \<Rightarrow> (addr \<Rightarrow> addr list) \<Rightarrow> ym_step list \<Rightarrow> (bytes \<times> yid list) set" where
  "ym_records h anc steps = (\<lambda>p. (it_parent_sub (h p), id_path h (anc p))) ` snd ` set steps"

lemma ym_last_unique:
  assumes "ym_last h anc S key a" and "ym_last h' anc' S' key b"
    and "(\<lambda>p. (it_parent_sub (h p), id_path h (anc p))) ` S = (\<lambda>p. (it_parent_sub (h' p), id_path h' (anc' p))) ` S'"
    and heads: "\<forall>p \<in> S. \<exists>ys. anc p = p # ys" "\<forall>p \<in> S'. \<exists>ys. anc' p = p # ys"
  shows "map_option (\<lambda>p. it_id (h p)) a = map_option (\<lambda>p. it_id (h' p)) b"
proof -
  have there: "\<exists>q \<in> S'. it_parent_sub (h' q) = it_parent_sub (h p) \<and> id_path h' (anc' q) = id_path h (anc p)" if "p \<in> S" for p
    using imageI [OF that, of "\<lambda>p. (it_parent_sub (h p), id_path h (anc p))"] unfolding assms(3) by auto
  have hither: "\<exists>q \<in> S. it_parent_sub (h q) = it_parent_sub (h' p) \<and> id_path h (anc q) = id_path h' (anc' p)" if "p \<in> S'" for p
    using imageI [OF that, of "\<lambda>p. (it_parent_sub (h' p), id_path h' (anc' p))"] unfolding assms(3) [symmetric] by auto
  show ?thesis
  proof (cases a)
    case None
    then have "b = None" using assms(1,2) hither by (fastforce simp: ym_last_def split: option.splits)
    then show ?thesis using None by simp
  next
    case (Some v)
    then have v: "v \<in> S" "it_parent_sub (h v) = key" using assms(1) by (auto simp: ym_last_def)
    then obtain w where w: "b = Some w" using there [of v] assms(2) by (auto simp: ym_last_def split: option.splits)
    then have w': "w \<in> S'" "it_parent_sub (h' w) = key" using assms(2) by (auto simp: ym_last_def)
    have "id_path h (anc v) \<le> id_path h' (anc' w)"
      using there [OF v(1)] v(2) assms(2) w by (auto simp: ym_last_def)
    moreover have "id_path h' (anc' w) \<le> id_path h (anc v)"
      using hither [OF w'(1)] w'(2) assms(1) Some by (auto simp: ym_last_def)
    ultimately have "last (id_path h (anc v)) = last (id_path h' (anc' w))" by simp
    moreover have "last (id_path h (anc v)) = it_id (h v)" "last (id_path h' (anc' w)) = it_id (h' w)"
      using heads v(1) w'(1) by (auto simp: id_path_def last_rev)
    ultimately show ?thesis using Some w by simp
  qed
qed

section \<open>Properties\<close>

text \<open>
C17: Last writer wins, and everywhere the same: two replicas that integrate the same map items, in
different orders and with different memory, keep for every key a head with the same identifier, as
long as origins resolve when an item arrives and chains have at most 256 items.
\<close>

theorem map_convergence:
  assumes "ym_contract h anc xs" and "alloc_total (he_alloc E)" and "4 * length xs \<le> 3 * kMaxCap"
    and "ym_contract h' anc' ys" and "alloc_total (he_alloc E')" and "4 * length ys \<le> 3 * kMaxCap"
    and "ym_records h anc xs = ym_records h' anc' ys"
  shows "map_option (\<lambda>p. it_id (h p)) (ym_raw_head E key (fst (ym_run E h xs (hm_empty, a)))) =
    map_option (\<lambda>p. it_id (h' p)) (ym_raw_head E' key (fst (ym_run E' h' ys (hm_empty, a'))))"
proof -
  have chains: "\<forall>p \<in> snd ` set steps. \<exists>zs. c p = p # zs" if "ym_contract g c steps" for g c steps
    using that up_Cons by (fastforce simp: ym_contract_def in_set_conv_nth)
  have "ym_rel E h anc (snd ` set xs) 0 (fst (ym_run E h xs (hm_empty, a)))"
    "ym_rel E' h' anc' (snd ` set ys) 0 (fst (ym_run E' h' ys (hm_empty, a')))"
    by (rule ym_run_rel; use assms in simp)+
  then have "ym_last h anc (snd ` set xs) key (ym_raw_head E key (fst (ym_run E h xs (hm_empty, a))))"
    "ym_last h' anc' (snd ` set ys) key (ym_raw_head E' key (fst (ym_run E' h' ys (hm_empty, a'))))"
    by (auto dest: ym_head_rel)
  then show ?thesis
    using ym_last_unique chains [OF assms(1)] chains [OF assms(4)] assms(7) unfolding ym_records_def by blast
qed

definition demo_writes :: item_heap where
  "demo_writes = (\<lambda>_. item_default)
     (1 := item_default\<lparr>it_id := Id 1 0, it_parent_sub := [107]\<rparr>,
      2 := item_default\<lparr>it_id := Id 2 0, it_parent_sub := [107], it_origin_left := Id 1 0\<rparr>,
      3 := item_default\<lparr>it_id := Id 3 0, it_parent_sub := [107], it_origin_left := Id 1 0\<rparr>)"

definition demo_resolve :: "yid \<Rightarrow> addr option" where
  "demo_resolve i = Some (id_client i)"

definition demo_chain :: "addr \<Rightarrow> addr list" where
  "demo_chain p = (if p = 1 then [1] else [p, 1])"

lemma demo_up: "p \<in> {1, 2, 3} \<Longrightarrow> up demo_resolve demo_writes p (demo_chain p)"
proof -
  have "up demo_resolve demo_writes 1 [1]"
    by (rule up.root) (simp add: ym_origin_of_def demo_writes_def item_default_def is_valid_def)
  moreover have "ym_origin_of demo_resolve demo_writes p = Some 1" if "p \<in> {2, 3}" for p
    using that by (auto simp: ym_origin_of_def demo_writes_def demo_resolve_def is_valid_def kInvalidId_def)
  ultimately show "p \<in> {1, 2, 3} \<Longrightarrow> up demo_resolve demo_writes p (demo_chain p)"
    by (auto simp: demo_chain_def intro: up.step)
qed

lemma demo_contract:
  assumes "set ps = {1, 2, 3}" and "distinct ps"
  shows "ym_contract demo_writes demo_chain (map (\<lambda>p. (demo_resolve, p)) ps)"
proof -
  have "up demo_resolve demo_writes (ps ! j) (demo_chain (ps ! j))" if "j < length ps" for j
    using demo_up assms(1) nth_mem [OF that] by simp
  moreover have "snd ` set (map (\<lambda>p. (demo_resolve, p)) ps) = {1, 2, 3}" using assms(1) by (simp add: image_image)
  ultimately show ?thesis
    unfolding ym_contract_def using assms(2)
    by (auto simp: comp_def demo_chain_def kMaxOriginChain_def inj_on_def demo_writes_def)
qed

theorem map_convergence_witness:
  "map_option (\<lambda>p. it_id (demo_writes p)) (ym_raw_head (view_env bump_env 24) [107]
      (fst (ym_run (view_env bump_env 24) demo_writes [(demo_resolve, 1), (demo_resolve, 2), (demo_resolve, 3)] (hm_empty, 4096)))) =
   map_option (\<lambda>p. it_id (demo_writes p)) (ym_raw_head (view_env bump_env 24) [107]
      (fst (ym_run (view_env bump_env 24) demo_writes [(demo_resolve, 1), (demo_resolve, 3), (demo_resolve, 2)] (hm_empty, 512))))"
  by (rule map_convergence [where anc = demo_chain and anc' = demo_chain])
    (use demo_contract [of "[1, 2, 3]"] demo_contract [of "[1, 3, 2]"] bump_env_total in
      \<open>auto simp: view_env_def kMaxCap_def ym_records_def\<close>)

end
