(* ===== verification/Ycpp_YText.thy ===== *)
theory Ycpp_YText
  imports Ycpp_YArray
begin

text \<open>
  The text facade of ycpp_ytext.h over a sequence: the length in bytes, the concatenated text, and
  the delta with the active formats.  The callbacks are functions on a state of the caller's.

  \<open>text_of h ps\<close> is the concatenation of the payloads of the live items.
\<close>

section \<open>The code\<close>

definition yt_length :: "item_heap \<Rightarrow> addr option \<Rightarrow> u64 option" where
  "yt_length h start = ya_length h start"

definition yt_byte_length :: "item_heap \<Rightarrow> addr option \<Rightarrow> nat option" where
  "yt_byte_length h start = ya_for_each (\<lambda>it _ n. n + length (it_content_view (h it))) h start 0"

text \<open>The body of the copying loop: a failure is kept, and nothing more is written after it.\<close>

definition yt_copy_chunk :: "bytes \<Rightarrow> unit result \<times> writer \<Rightarrow> unit result \<times> writer" where
  "yt_copy_chunk chunk st =
     (let (acc, w) = st in
      if acc \<noteq> Inr () then (acc, w)
      else if length chunk = 0 then (acc, w)
      else case w_bytes chunk w of (s, w) \<Rightarrow> (if s \<noteq> Inr () then s else acc, w))"

definition yt_copy_into :: "item_heap \<Rightarrow> addr option \<Rightarrow> writer \<Rightarrow> (unit result \<times> writer) option" where
  "yt_copy_into h start w = ya_for_each (\<lambda>it _. yt_copy_chunk (it_content_view (h it))) h start (Inr (), w)"

definition yt_for_each_chunk :: "(bytes \<Rightarrow> 's \<Rightarrow> 's) \<Rightarrow> item_heap \<Rightarrow> addr option \<Rightarrow> 's \<Rightarrow> 's option" where
  "yt_for_each_chunk f h start = ya_for_each (\<lambda>it _. f (it_content_view (h it))) h start"

text \<open>The entries of \<open>delta\<close>, by their \<open>DeltaKind\<close> with the fields that kind uses.\<close>

datatype delta_entry =
    kInsert (de_text: bytes) (de_active_formats: "bytes list")
  | kFormatEntry (de_payload: bytes) (de_is_deleted: bool)

definition kMaxActiveFormats :: nat where
  "kMaxActiveFormats = 32"

partial_function (option) yt_delta_loop ::
    "(delta_entry \<Rightarrow> 's \<Rightarrow> 's) \<Rightarrow> item_heap \<Rightarrow> addr option \<Rightarrow> bytes list \<Rightarrow> 's \<Rightarrow> 's option" where
  "yt_delta_loop on_entry h it active s =
     (case it of
        None \<Rightarrow> Some s
      | Some p \<Rightarrow>
          let x = h p in
          if it_content_kind x = kFormat then
            yt_delta_loop on_entry h (it_right x)
              (if \<not> deleted x \<and> length active < kMaxActiveFormats then active @ [it_content_view x] else active)
              (on_entry (kFormatEntry (it_content_view x) (deleted x)) s)
          else if deleted x then yt_delta_loop on_entry h (it_right x) active s
          else if length (it_content_view x) = 0 then yt_delta_loop on_entry h (it_right x) active s
          else yt_delta_loop on_entry h (it_right x) active (on_entry (kInsert (it_content_view x) active) s))"

definition yt_delta :: "(delta_entry \<Rightarrow> 's \<Rightarrow> 's) \<Rightarrow> item_heap \<Rightarrow> addr option \<Rightarrow> 's \<Rightarrow> 's option" where
  "yt_delta on_entry h start s = yt_delta_loop on_entry h start [] s"

section \<open>What they read\<close>

definition text_of :: "item_heap \<Rightarrow> addr list \<Rightarrow> bytes" where
  "text_of h ps = concat (map (\<lambda>p. it_content_view (h p)) (live h ps))"

lemma text_of_simps [simp]:
  "text_of h [] = []"
  "text_of h (p # ps) = (if deleted (h p) then text_of h ps else it_content_view (h p) @ text_of h ps)"
  by (simp_all add: text_of_def)

lemma byte_length_chain:
  "chain h s ps \<Longrightarrow> ya_for_each_loop (\<lambda>it _ n. n + length (it_content_view (h it))) h s k n = Some (n + length (text_of h ps))"
proof (induction ps arbitrary: s k n)
  case (Cons p ps)
  then show ?case by (subst ya_for_each_loop.simps) simp
qed (simp add: ya_for_each_loop.simps)

text \<open>The copying loop is a sequence of writes that stops at the first failure.\<close>

definition write_chunk :: "bytes \<Rightarrow> (writer, unit) op" where
  "write_chunk chunk = (if chunk = [] then yreturn () else w_bytes chunk)"

lemma copy_chunk_fold:
  "fold yt_copy_chunk cs (acc, w) = (if acc = Inr () then yforeach write_chunk cs w else (acc, w))"
proof (induction cs arbitrary: acc w)
  case (Cons c cs)
  have "yt_copy_chunk c (acc, w) = (if acc = Inr () then write_chunk c w else (acc, w))"
    by (auto simp: yt_copy_chunk_def write_chunk_def op_simps split: prod.splits)
  then show ?case
    using Cons.IH by (auto simp: op_simps split: prod.splits sum.splits)
qed (simp add: op_simps)

lemma copy_chain:
  "chain h s ps \<Longrightarrow> ya_for_each_loop (\<lambda>it _. yt_copy_chunk (it_content_view (h it))) h s k st =
     Some (fold yt_copy_chunk (map (\<lambda>p. it_content_view (h p)) (live h ps)) st)"
proof (induction ps arbitrary: s k st)
  case (Cons p ps)
  then show ?case by (subst ya_for_each_loop.simps) simp
qed (simp add: ya_for_each_loop.simps)

lemma copy_appends: "w_appends (yforeach write_chunk cs) (concat cs)"
proof -
  have "w_appends (yforeach write_chunk cs) (concat (map (\<lambda>c. c) cs))"
    by (rule w_appends_foreach) (auto simp: write_chunk_def intro: w_appends_intros)
  then show ?thesis by simp
qed

text \<open>The entries in order.\<close>

primrec delta_of :: "item_heap \<Rightarrow> bytes list \<Rightarrow> addr list \<Rightarrow> delta_entry list" where
  "delta_of h active [] = []"
| "delta_of h active (p # ps) =
     (if it_content_kind (h p) = kFormat then
        kFormatEntry (it_content_view (h p)) (deleted (h p)) #
        delta_of h (take kMaxActiveFormats (active @ (if deleted (h p) then [] else [it_content_view (h p)]))) ps
      else if deleted (h p) \<or> it_content_view (h p) = [] then delta_of h active ps
      else kInsert (it_content_view (h p)) active # delta_of h active ps)"

lemma delta_chain:
  "chain h s ps \<Longrightarrow> length active \<le> kMaxActiveFormats \<Longrightarrow>
     yt_delta_loop f h s active st = Some (fold f (delta_of h active ps) st)"
proof (induction ps arbitrary: s active st)
  case (Cons p ps)
  have take: "take kMaxActiveFormats (active @ xs) =
      (if xs \<noteq> [] \<and> length active < kMaxActiveFormats then active @ xs else active)" if "length xs \<le> 1" for xs
    using that Cons.prems(2) by (cases xs) auto
  show ?case
    using Cons by (subst yt_delta_loop.simps) (auto simp: Let_def take)
qed (simp add: yt_delta_loop.simps)

definition inserted_text :: "delta_entry list \<Rightarrow> bytes" where
  "inserted_text es = concat (map (\<lambda>e. case e of kInsert t _ \<Rightarrow> t | kFormatEntry _ _ \<Rightarrow> []) es)"

lemma delta_text: "inserted_text (delta_of h active ps) = text_of h (filter (\<lambda>p. it_content_kind (h p) \<noteq> kFormat) ps)"
  by (induction ps arbitrary: active) (auto simp: inserted_text_def)

lemma collect_entries: "fold (\<lambda>e es. es @ [e]) xs acc = acc @ (xs :: delta_entry list)"
  by (induction xs arbitrary: acc) auto

lemma delta_formats_bounded:
  "length active \<le> kMaxActiveFormats \<Longrightarrow> kInsert t fs \<in> set (delta_of h active ps) \<Longrightarrow> length fs \<le> kMaxActiveFormats"
proof (induction ps arbitrary: active)
  case (Cons p ps)
  have mark: "length (take kMaxActiveFormats (active @ xs)) \<le> kMaxActiveFormats" for xs by simp
  show ?case
    using Cons.IH [OF mark] Cons.IH Cons.prems by (auto simp del: take_append split: if_splits)
qed simp

section \<open>Properties\<close>


definition demo_text :: item_heap where
  "demo_text p =
     (if p = 1 then item_default\<lparr>it_content_kind := kFormat, it_content_view := [98], it_right := Some 2\<rparr>
      else item_default\<lparr>it_content_kind := kString, it_content_view := [104, 105]\<rparr>)"


text \<open>
Format marks leak into the text: with a live format item in the list, \<open>copy_into\<close> writes its raw key
and value among the characters, where \<open>delta\<close> reports the same document without them.
\<close>

theorem ytext_format_leaks:
  assumes "chain h start ps" and "p \<in> set ps" and "it_content_kind (h p) = kFormat"
    and "\<not> deleted (h p)" and "it_content_view (h p) \<noteq> []"
  shows "\<exists>n es. yt_byte_length h start = Some n \<and> yt_delta (\<lambda>e es. es @ [e]) h start [] = Some es \<and>
    length (inserted_text es) < n"
proof -
  have "length (text_of h (filter (\<lambda>p. it_content_kind (h p) \<noteq> kFormat) ps)) < length (text_of h ps)"
  proof -
    have le: "length (text_of h (filter P qs)) \<le> length (text_of h qs)" for P qs
      by (induction qs) auto
    have app: "text_of h (xs @ ys) = text_of h xs @ text_of h ys" for xs ys
      by (simp add: text_of_def live_def)
    obtain xs ys where ps: "ps = xs @ p # ys" using assms(2) by (metis split_list)
    have "0 < length (it_content_view (h p))" using assms(5) by simp
    then show ?thesis
      using le [of "\<lambda>p. it_content_kind (h p) \<noteq> kFormat" xs] le [of "\<lambda>p. it_content_kind (h p) \<noteq> kFormat" ys] assms(3,4)
      unfolding ps by (simp add: app del: length_greater_0_conv)
  qed
  then show ?thesis
    using byte_length_chain [OF assms(1), of 0 0] delta_chain [OF assms(1), of "[]" "\<lambda>e es. es @ [e]" "[]"]
      delta_text [of h "[]" ps]
    by (simp add: yt_byte_length_def ya_for_each_def yt_delta_def collect_entries)
qed

theorem ytext_format_leaks_witness:
  "\<exists>n es. yt_byte_length demo_text (Some 1) = Some n \<and> yt_delta (\<lambda>e es. es @ [e]) demo_text (Some 1) [] = Some es \<and>
    length (inserted_text es) < n"
  by (rule ytext_format_leaks [of _ _ "[1, 2]" 1]) (simp_all add: demo_text_def item_default_def deleted_def)

end
