(* ===== verification/Ycpp_Move.thy ===== *)
theory Ycpp_Move
  imports Ycpp_YArray
begin

text \<open>
  The move operation of ycpp_move.h: decoding its payload, and the relocation of the source range
  behind the move item by rewriting the links of the list.  The loop that looks for the end of the
  range has no bound of its own, so it is a partial function.
\<close>

section \<open>The code\<close>

record move_op =
  mv_start_id :: yid
  mv_end_id :: yid
  mv_priority :: u8

definition decode_move :: "bytes \<Rightarrow> move_op result" where
  "decode_move payload =
     fst (ytry r_varint_u64 (\<lambda>sc.
          ytry r_varint_u64 (\<lambda>sk.
          ytry r_varint_u64 (\<lambda>ec.
          ytry r_varint_u64 (\<lambda>ek.
          ytry r_u8 (\<lambda>priority.
            yreturn \<lparr>mv_start_id = Id sc sk, mv_end_id = Id ec ek, mv_priority = priority\<rparr>)))))
       (reader_of payload))"

text \<open>The assignments \<open>p->left = v\<close> and \<open>p->right = v\<close>, guarded by a test for null where the code has one.\<close>

definition set_left :: "addr \<Rightarrow> addr option \<Rightarrow> item_heap \<Rightarrow> item_heap" where
  "set_left p v h = h(p := (h p)\<lparr>it_left := v\<rparr>)"

definition set_right :: "addr \<Rightarrow> addr option \<Rightarrow> item_heap \<Rightarrow> item_heap" where
  "set_right p v h = h(p := (h p)\<lparr>it_right := v\<rparr>)"

definition set_left_opt :: "addr option \<Rightarrow> addr option \<Rightarrow> item_heap \<Rightarrow> item_heap" where
  "set_left_opt p v h = (case p of None \<Rightarrow> h | Some p \<Rightarrow> set_left p v h)"

definition set_right_opt :: "addr option \<Rightarrow> addr option \<Rightarrow> item_heap \<Rightarrow> item_heap" where
  "set_right_opt p v h = (case p of None \<Rightarrow> h | Some p \<Rightarrow> set_right p v h)"

partial_function (option) mv_relink ::
    "item_heap \<Rightarrow> addr option \<Rightarrow> addr option \<Rightarrow> addr option \<Rightarrow> item_heap option" where
  "mv_relink h cursor after new_after =
     (case cursor of
        None \<Rightarrow> Some h
      | Some c \<Rightarrow>
          if cursor = after then Some h
          else
            let next = it_right (h c) in
            if next = after \<or> next = None
            then Some (set_left_opt new_after (Some c) (set_right c new_after h))
            else mv_relink h next after new_after)"

text \<open>The lookup in the store is the parameter \<open>by_id\<close>; no result means that the loop does not end.\<close>

definition apply_move :: "(yid \<Rightarrow> addr option) \<Rightarrow> addr \<Rightarrow> move_op \<Rightarrow> item_heap \<Rightarrow> (unit result \<times> item_heap) option" where
  "apply_move by_id move mv h =
     (case by_id (mv_start_id mv) of
        None \<Rightarrow> Some (Inl kPendingReference, h)
      | Some src_first \<Rightarrow>
          let after = by_id (mv_end_id mv);
              before = it_left (h src_first);
              h = set_right_opt before after h;
              h = set_left_opt after before h;
              new_after = it_right (h move);
              h = set_left src_first (Some move) h;
              h = set_right move (Some src_first) h
          in map_option (\<lambda>h. (Inr (), h)) (mv_relink h (Some src_first) after new_after))"

section \<open>Rewriting the links\<close>

lemma set_simps [simp]:
  "it_left (set_left p v h q) = (if q = p then v else it_left (h q))" "it_right (set_left p v h q) = it_right (h q)"
  "it_right (set_right p v h q) = (if q = p then v else it_right (h q))" "it_left (set_right p v h q) = it_left (h q)"
  by (simp_all add: set_left_def set_right_def)

lemma same_content_set [simp]:
  "same_content (set_left p v h q) (h q)" "same_content (set_right p v h q) (h q)"
  "same_content (set_left_opt x v h q) (h q)" "same_content (set_right_opt x v h q) (h q)"
  by (auto simp: same_content_def set_left_def set_right_def set_left_opt_def set_right_opt_def split: option.split)

lemma same_content_trans: "same_content x y \<Longrightarrow> same_content y z \<Longrightarrow> same_content x z"
  by (simp add: same_content_def)

lemma dls_set_right_last:
  assumes "dls h prev s (ps @ [l]) e" and "l \<notin> set ps"
  shows "dls (set_right l e' h) prev s (ps @ [l]) e'"
proof -
  have "dls (set_right l e' h) prev s ps m = dls h prev s ps m" for m
    using assms(2) by (intro dls_cong) auto
  then show ?thesis using assms(1) by (auto simp: dls_append)
qed

lemma dls_set_left_first:
  assumes "dls h prev s (p # ps) e" and "p \<notin> set ps"
  shows "dls (set_left p prev' h) prev' s (p # ps) e"
proof -
  have "dls (set_left p prev' h) (Some p) m ps e = dls h (Some p) m ps e" for m
    using assms(2) by (intro dls_cong) auto
  then show ?thesis using assms(1) by auto
qed

lemma dls_set_left_opt_first:
  assumes "dls h prev s ps None" and "distinct ps"
  shows "dls (set_left_opt s prev' h) prev' s ps None"
proof (cases ps)
  case (Cons p qs)
  then have "s = Some p" using assms(1) by simp
  then show ?thesis using Cons dls_set_left_first [of h prev s p qs None prev'] assms by (simp add: set_left_opt_def)
qed (use assms in simp)

lemma dls_set_other:
  "p \<notin> set ps \<Longrightarrow> dls (set_left p v h) prev s ps e = dls h prev s ps e"
  "p \<notin> set ps \<Longrightarrow> dls (set_right p v h) prev s ps e = dls h prev s ps e"
  "q \<notin> Some ` set ps \<Longrightarrow> dls (set_left_opt q v h) prev s ps e = dls h prev s ps e"
  by (auto intro!: dls_cong simp: set_left_opt_def split: option.split)

lemma dls_hd: "dls h prev s ps e \<Longrightarrow> ps \<noteq> [] \<Longrightarrow> s = Some (hd ps)"
  by (cases ps) auto

lemma relink_walk:
  "dls h prev s (cs @ [l]) after \<Longrightarrow> after \<notin> Some ` set (cs @ [l]) \<Longrightarrow>
     mv_relink h s after na = Some (set_left_opt na (Some l) (set_right l na h))"
proof (induction cs arbitrary: prev s)
  case Nil
  then show ?case by (subst mv_relink.simps) auto
next
  case (Cons c cs)
  have s: "s = Some c" "dls h (Some c) (it_right (h c)) (cs @ [l]) after" using Cons.prems(1) by simp_all
  have "it_right (h c) = Some (hd (cs @ [l]))" by (rule dls_hd [OF s(2)]) simp
  moreover have "Some (hd (cs @ [l])) \<noteq> after" using Cons.prems(2) by (cases cs) auto
  moreover have "mv_relink h (it_right (h c)) after na = Some (set_left_opt na (Some l) (set_right l na h))"
    by (rule Cons.IH [OF s(2)]) (use Cons.prems(2) in auto)
  ultimately show ?case using s(1) Cons.prems(2) by (subst mv_relink.simps) auto
qed

text \<open>
  The relocation: \<open>src\<close> is the range from the item of the start id up to, and without, that of the end
  id; what precedes it is not empty, and the move item is not in it.
\<close>

lemma apply_move_relocates:
  assumes list: "dll h start (xs @ src @ ys)" and xs: "xs \<noteq> []" and src: "src \<noteq> []"
    and ids: "by_id (mv_start_id mv) = Some (hd src)" "by_id (mv_end_id mv) = (case ys of [] \<Rightarrow> None | e # _ \<Rightarrow> Some e)"
    and m: "xs @ ys = A @ m # B"
  shows "\<exists>h'. apply_move by_id m mv h = Some (Inr (), h') \<and> dll h' start (A @ m # src @ B) \<and>
    (\<forall>p. same_content (h' p) (h p))"
proof -
  obtain xs' x where x: "xs = xs' @ [x]" using xs by (metis rev_exhaust)
  obtain src' l where l: "src = src' @ [l]" using src by (metis rev_exhaust)
  define f where "f = hd src"
  define after where "after = (case ys of [] \<Rightarrow> None | e # _ \<Rightarrow> Some e)"
  have dist: "distinct (xs @ src @ ys)" using list by (simp add: dll_def)
  have dist': "distinct (A @ m # B)" unfolding m [symmetric] using dist by (auto simp: disjoint_iff)
  have m_src: "m \<notin> set src" "set src \<inter> set A = {}" "set src \<inter> set B = {}"
  proof -
    have "set src \<inter> set (xs @ ys) = {}" using dist by auto
    then show "m \<notin> set src" "set src \<inter> set A = {}" "set src \<inter> set B = {}" unfolding m by auto
  qed
  have f_src: "f \<in> set src" "f \<notin> set xs" "f \<notin> set ys"
    using hd_in_set [OF src] dist by (auto simp: f_def disjoint_iff)
  obtain i j where seg: "dls h None start xs i" "dls h (Some x) i src j" "dls h (last_of (Some x) src) j ys None"
    using list x by (auto simp: dll_def dls_append)
  have j: "j = after" using seg(3) by (cases ys) (simp_all add: after_def)
  have i: "i = Some f" using dls_hd [OF seg(2) src] by (simp add: f_def)
  have before: "it_left (h f) = Some x" using seg(2) src by (cases src) (auto simp: f_def)
  define h1 where "h1 = set_left_opt after (Some x) (set_right x after h)"
  have after_x: "after \<noteq> Some x" "after \<notin> Some ` set src" "after \<notin> Some ` set xs"
    using dist x by (auto simp: after_def split: list.splits)
  have xs1: "dls h1 None start xs after"
  proof -
    have "dls (set_right x after h) None start xs after"
      unfolding x by (rule dls_set_right_last) (use seg(1) dist x in auto)
    then show ?thesis unfolding h1_def using after_x(3) by (simp add: dls_set_other)
  qed
  have ys1: "dls h1 (Some x) after ys None"
  proof -
    have "x \<notin> set ys" "distinct ys" using dist x by auto
    then show ?thesis
      unfolding h1_def using seg(3) j by (intro dls_set_left_opt_first) (auto simp: dls_set_other)
  qed
  have src1: "dls h1 (Some x) (Some f) src after"
    using seg(2) i j after_x(2) dist x by (auto simp: h1_def dls_set_other)
  have "dls h1 None start (xs @ ys) None" using xs1 ys1 x by (auto simp: dls_append)
  then have "dls h1 None start ((A @ [m]) @ B) None" by (simp add: m)
  then obtain na where na: "dls h1 None start (A @ [m]) na" "dls h1 (Some m) na B None"
    unfolding dls_append by auto
  have na_m: "it_right (h1 m) = na" using na(1) by (auto simp: dls_append)
  define h2 where "h2 = set_right m (Some f) (set_left f (Some m) h1)"
  have fA: "f \<notin> set A" "f \<noteq> m" "f \<notin> set B" using f_src m_src by auto
  have A2: "dls h2 None start (A @ [m]) (Some f)"
    unfolding h2_def by (rule dls_set_right_last) (use na(1) fA dist' in \<open>auto simp: dls_set_other\<close>)
  have B2: "dls h2 (Some m) na B None" using na(2) fA dist' by (auto simp: h2_def dls_set_other)
  have src2: "dls h2 (Some m) (Some f) src after"
  proof -
    obtain fs where fs: "src = f # fs" using src by (cases src) (auto simp: f_def)
    have "dls (set_left f (Some m) h1) (Some m) (Some f) src after"
      using dls_set_left_first [of h1 "Some x" "Some f" f fs after "Some m"] src1 dist by (simp add: fs)
    then show ?thesis using m_src(1) by (simp add: h2_def dls_set_other)
  qed
  define h4 where "h4 = set_left_opt na (Some l) (set_right l na h2)"
  have run: "mv_relink h2 (Some f) after na = Some h4"
    unfolding h4_def by (rule relink_walk) (use src2 after_x(2) l in auto)
  have l_out: "l \<notin> set (A @ [m])" "l \<notin> set B" "l \<notin> set src'" using m_src dist l by auto
  have na_out: "na \<notin> Some ` set (A @ [m])" "na \<notin> Some ` set src"
    using na(2) dist' m_src(3) by (cases B; auto)+
  have "dls h4 None start (A @ [m]) (Some f)" using A2 l_out na_out by (simp add: h4_def dls_set_other)
  moreover have "dls h4 (Some m) (Some f) src na"
  proof -
    have "dls (set_right l na h2) (Some m) (Some f) src na"
      unfolding l by (rule dls_set_right_last) (use src2 l l_out in auto)
    then show ?thesis unfolding h4_def using na_out(2) by (simp add: dls_set_other)
  qed
  moreover have "dls h4 (Some l) na B None"
    unfolding h4_def by (rule dls_set_left_opt_first) (use B2 l_out dist' in \<open>auto simp: dls_set_other\<close>)
  ultimately have "dls h4 None start ((A @ [m]) @ src @ B) None"
    unfolding dls_append l by auto
  moreover have "distinct ((A @ [m]) @ src @ B)" using dist' m_src dist by auto
  ultimately have "dll h4 start (A @ m # src @ B)" by (simp add: dll_def)
  moreover have "apply_move by_id m mv h = Some (Inr (), h4)"
  proof -
    have "set_right_opt (it_left (h f)) after h = set_right x after h" by (simp add: before set_right_opt_def)
    then show ?thesis
      using run ids na_m before
      by (simp add: apply_move_def f_def [symmetric] after_def [symmetric] h1_def h2_def Let_def)
  qed
  moreover have "same_content (h4 p) (h p)" for p
    unfolding h4_def h2_def h1_def by (meson same_content_trans same_content_set)
  ultimately show ?thesis by blast
qed

text \<open>Around a cycle that does not contain the end of the range the walk never stops.\<close>

lemma mv_relink_cycle:
  assumes "\<And>c. c \<in> C \<Longrightarrow> it_right (h c) \<in> Some ` C" and "after \<notin> Some ` C"
  shows "mv_relink h' s after' na = Some r \<Longrightarrow> h' = h \<longrightarrow> after' = after \<longrightarrow> s \<notin> Some ` C"
proof (erule mv_relink.raw_induct [rotated], intro impI notI)
  fix mv h' s after' na r
  assume IH: "\<And>h' s after' na r. mv h' s after' na = Some r \<Longrightarrow> h' = h \<longrightarrow> after' = after \<longrightarrow> s \<notin> Some ` C"
    and run: "(case s of None \<Rightarrow> Some h' | Some c \<Rightarrow> if s = after' then Some h'
      else let next = it_right (h' c) in if next = after' \<or> next = None
        then Some (set_left_opt na (Some c) (set_right c na h')) else mv h' next after' na) = Some r"
    and eq: "h' = h" "after' = after" and s: "s \<in> Some ` C"
  obtain c where c: "s = Some c" "c \<in> C" using s by auto
  have "it_right (h c) \<in> Some ` C" by (rule assms(1) [OF c(2)])
  then show False using IH run eq c assms(2) by (auto simp: Let_def split: if_splits)
qed

section \<open>Properties\<close>

text \<open>
C29: A move relocates its range: when the list is \<open>xs @ src @ ys\<close>, the ids of the operation name the first
item of \<open>src\<close> and of \<open>ys\<close>, something precedes the range, and the move item \<open>m\<close> is outside it, the
call returns, \<open>src\<close> follows \<open>m\<close>, the order is otherwise kept, and only links are changed.
\<close>

theorem move_relocates_range:
  assumes "dll h start (xs @ src @ ys)" and "xs \<noteq> []" and "src \<noteq> []"
    and "by_id (mv_start_id mv) = Some (hd src)" and "by_id (mv_end_id mv) = (case ys of [] \<Rightarrow> None | e # _ \<Rightarrow> Some e)"
    and "xs @ ys = A @ m # B"
  shows "\<exists>h'. apply_move by_id m mv h = Some (Inr (), h') \<and> dll h' start (A @ m # src @ B) \<and>
    (\<forall>p. same_content (h' p) (h p))"
  using assms by (rule apply_move_relocates)

definition demo_links :: "addr list \<Rightarrow> item_heap" where
  "demo_links ps p = item_default\<lparr>it_id := Id 1 p,
     it_left := (if p \<in> set (tl ps) then Some (p - 1) else None),
     it_right := (if p \<in> set (butlast ps) then Some (p + 1) else None)\<rparr>"

definition demo_move :: "u64 \<Rightarrow> u64 \<Rightarrow> move_op" where
  "demo_move a b = \<lparr>mv_start_id = Id 1 a, mv_end_id = Id 1 b, mv_priority = 0\<rparr>"

definition demo_by_id :: "yid \<Rightarrow> addr option" where
  "demo_by_id i = (if id_client i = 1 \<and> 1 \<le> id_clock i \<and> id_clock i \<le> 4 then Some (id_clock i) else None)"

lemma demo_links_dll: "dll (demo_links [1, 2, 3, 4]) (Some 1) [1, 2, 3, 4]"
  by (simp add: dll_def demo_links_def)

theorem move_relocates_range_witness:
  "\<exists>h'. apply_move demo_by_id 4 (demo_move 2 3) (demo_links [1, 2, 3, 4]) = Some (Inr (), h') \<and>
    dll h' (Some 1) [1, 3, 4, 2]"
  using move_relocates_range [of "demo_links [1, 2, 3, 4]" "Some 1" "[1]" "[2]" "[3, 4]" demo_by_id "demo_move 2 3" "[1, 3]" 4 "[]"]
    demo_links_dll
  by (auto simp: demo_by_id_def demo_move_def)

text \<open>
C30: A move whose own item lies in its source range does not return: the walk for the end of the range
runs around the cycle that the first two link updates have closed.  Any peer can send such a move.
\<close>

theorem move_into_itself_hangs:
  assumes "dll h start (xs @ src @ m # mid @ ys)" and "src \<noteq> []"
    and "by_id (mv_start_id mv) = Some (hd src)" and "by_id (mv_end_id mv) = (case ys of [] \<Rightarrow> None | e # _ \<Rightarrow> Some e)"
  shows "apply_move by_id m mv h = None"
proof -
  define after where "after = (case ys of [] \<Rightarrow> None | e # _ \<Rightarrow> Some e)"
  define f where "f = hd src"
  define h1 where "h1 = set_left_opt after (it_left (h f)) (set_right_opt (it_left (h f)) after h)"
  define h2 where "h2 = set_right m (Some f) (set_left f (Some m) h1)"
  have dist: "distinct (xs @ src @ m # mid @ ys)" using assms(1) by (simp add: dll_def)
  obtain i j where seg: "dls h None start xs i" "dls h (last_of None xs) i src (Some m)"
    using assms(1) by (auto simp: dll_def dls_append)
  have before: "it_left (h f) \<notin> Some ` set src"
    using seg(2) assms(2) dist last_in_set [of xs]
    by (cases src; cases "xs = []") (auto simp: f_def last_of_def disjoint_iff)
  have right: "it_right (h2 c) \<in> Some ` set (src @ [m])" if c: "c \<in> set (src @ [m])" for c
  proof (cases "c = m")
    case True
    then show ?thesis using assms(2) by (auto simp: h2_def f_def)
  next
    case False
    then have c: "c \<in> set src" using c by simp
    then obtain us vs where src: "src = us @ c # vs" by (metis split_list)
    have "it_right (h2 c) = it_right (h c)"
      using False before c by (auto simp: h2_def h1_def set_left_opt_def set_right_opt_def split: option.split)
    moreover have "it_right (h c) = (case vs of [] \<Rightarrow> Some m | v # _ \<Rightarrow> Some v)"
      using seg(2) unfolding src by (cases vs) (auto simp: dls_append)
    ultimately show ?thesis unfolding src by (cases vs) auto
  qed
  have "after \<notin> Some ` set (src @ [m])" using dist by (auto simp: after_def split: list.splits)
  moreover have "f \<in> set (src @ [m])" using assms(2) by (simp add: f_def)
  ultimately have "mv_relink h2 (Some f) after na \<noteq> Some r" for na r
    using mv_relink_cycle [of "set (src @ [m])" h2 after h2 "Some f" after na r] right by blast
  then have "mv_relink h2 (Some f) after na = None" for na by (cases "mv_relink h2 (Some f) after na") auto
  then show ?thesis
    using assms(3,4)
    by (simp add: apply_move_def f_def [symmetric] after_def [symmetric] h1_def [symmetric] h2_def [symmetric] Let_def)
qed

theorem move_into_itself_hangs_witness:
  "apply_move demo_by_id 3 (demo_move 2 4) (demo_links [1, 2, 3, 4]) = None"
  using move_into_itself_hangs [of "demo_links [1, 2, 3, 4]" "Some 1" "[1]" "[2]" 3 "[]" "[4]" demo_by_id "demo_move 2 4"]
    demo_links_dll
  by (auto simp: demo_by_id_def demo_move_def)

text \<open>
  The anchor \<open>start_\<close> of the list is not touched: moving the first item away leaves the list, read
  from its anchor, without the items the range was moved over.
\<close>

lemma move_from_head_loses_items:
  "\<exists>h'. apply_move demo_by_id 4 (demo_move 1 2) (demo_links [1, 2, 3, 4]) = Some (Inr (), h') \<and>
    chain (demo_links [1, 2, 3, 4]) (Some 1) [1, 2, 3, 4] \<and> chain h' (Some 1) [1]"
proof -
  have "mv_relink h (Some 1) (Some 2) na = Some (set_left_opt na (Some 1) (set_right 1 na h))"
    if "it_right (h 1) = Some 2" for h na
    using that by (simp add: mv_relink.simps)
  then show ?thesis
    by (simp add: apply_move_def demo_by_id_def demo_move_def demo_links_def set_left_opt_def set_right_opt_def Let_def)
qed

end
