(* ===== verification/Ycpp_SubDoc.thy ===== *)
theory Ycpp_SubDoc
  imports Ycpp_YMap
begin

text \<open>
  The registry of sub-documents of ycpp_subdoc.h: a hash map from guids to references, beside the
  array of the guids in the order of their registration.
\<close>

section \<open>The code\<close>

definition kMaxSubDocs :: nat where
  "kMaxSubDocs = 1024"

record sub_doc_ref =
  sd_id :: yid
  sd_guid :: bytes
  sd_opts_payload :: bytes

record sub_docs =
  sd_by_guid :: "(bytes, sub_doc_ref) hashmap"
  sd_order :: "bytes list"

definition sd_empty :: sub_docs where
  "sd_empty = \<lparr>sd_by_guid = hm_empty, sd_order = []\<rparr>"

definition sd_install :: "(bytes, 'a) hm_env \<Rightarrow> yid \<Rightarrow> bytes \<Rightarrow> (sub_docs \<times> 'a, unit) op" where
  "sd_install E i content_view st =
     (case r_length_prefixed (reader_of content_view) of
        (Inl e, r) \<Rightarrow> (Inl e, st)
      | (Inr guid_view, r) \<Rightarrow>
          let (sd, a) = st;
              opts_view = drop (r_pos r) content_view;
              (owned_guid, a) = clone_view (he_alloc E) guid_view a;
              (owned_opts, a) = clone_view (he_alloc E) opts_view a
          in if owned_guid = None \<or> owned_opts = None then (Inl kOutOfMemory, sd, a)
             else let guid = the owned_guid in
               if hm_get E guid (sd_by_guid sd) \<noteq> None then (Inr (), sd, a)
               else if length (sd_order sd) \<ge> kMaxSubDocs then (Inl kCapacityExceeded, sd, a)
               else
                 let ref = \<lparr>sd_id = i, sd_guid = guid, sd_opts_payload = the owned_opts\<rparr>;
                     (inserted, table, a) = hm_add E guid ref (sd_by_guid sd, a)
                 in if \<not> inserted then (Inl kOutOfMemory, sd\<lparr>sd_by_guid := table\<rparr>, a)
                    else (Inr (), \<lparr>sd_by_guid = table, sd_order = sd_order sd @ [guid]\<rparr>, a))"

definition sd_find :: "(bytes, 'a) hm_env \<Rightarrow> bytes \<Rightarrow> sub_docs \<Rightarrow> sub_doc_ref option" where
  "sd_find E guid sd = hm_get E guid (sd_by_guid sd)"

definition sd_count :: "sub_docs \<Rightarrow> nat" where
  "sd_count sd = length (sd_order sd)"

definition sd_for_each :: "(bytes, 'a) hm_env \<Rightarrow> (sub_doc_ref \<Rightarrow> 's \<Rightarrow> 's) \<Rightarrow> sub_docs \<Rightarrow> 's \<Rightarrow> 's" where
  "sd_for_each E f sd = fold (\<lambda>guid. f (the (hm_get E guid (sd_by_guid sd)))) (sd_order sd)"

section \<open>The registry\<close>

definition sd_inv :: "(bytes, 'a) hm_env \<Rightarrow> sub_docs \<Rightarrow> bool" where
  "sd_inv E sd \<longleftrightarrow> tracks (hm_inv E) hm_abs (sd_order sd) (sd_by_guid sd) \<and> length (sd_order sd) \<le> kMaxSubDocs \<and>
     (\<forall>g ref. hm_abs (sd_by_guid sd) g = Some ref \<longrightarrow> sd_guid ref = g)"

lemma sd_inv_empty: "sd_inv E sd_empty" "sd_find E g sd_empty = None"
  by (simp_all add: sd_inv_def sd_empty_def tracks_def hm_core_empty sd_find_def hm_get_abs)

lemma sd_find_abs: "sd_inv E sd \<Longrightarrow> sd_find E g sd = hm_abs (sd_by_guid sd) g"
  using hm.tracks_get [of E "sd_order sd" "sd_by_guid sd" g] by (simp add: sd_inv_def sd_find_def)

text \<open>A successful parse of the payload leaves the registration of the guid.\<close>

lemma sd_install_spec:
  assumes inv: "sd_inv E sd" and parse: "r_length_prefixed (reader_of cv) = (Inr guid, rd)"
    and run: "sd_install E i cv (sd, a) = (r, sd', a')"
  shows "sd_inv E sd'"
    and "sd_find E g sd' = (if r = Inr () \<and> g = guid \<and> sd_find E g sd = None
      then Some \<lparr>sd_id = i, sd_guid = guid, sd_opts_payload = drop (r_pos rd) cv\<rparr> else sd_find E g sd)"
    and "r \<in> {Inr (), Inl kOutOfMemory, Inl kCapacityExceeded}"
    and "hm_room E 1 (sd_by_guid sd) \<Longrightarrow> length (sd_order sd) < kMaxSubDocs \<Longrightarrow> r = Inr ()"
proof -
  have tr: "tracks (hm_inv E) hm_abs (sd_order sd) (sd_by_guid sd)" using inv by (simp add: sd_inv_def)
  then have hm: "hm_inv E (sd_by_guid sd)" by (simp add: tracks_def)
  obtain og a1 where og: "clone_view (he_alloc E) guid a = (og, a1)" by (metis surj_pair)
  obtain oo a2 where oo: "clone_view (he_alloc E) (drop (r_pos rd) cv) a1 = (oo, a2)" by (metis surj_pair)
  have owned: "og = None \<or> og = Some guid" "oo = None \<or> oo = Some (drop (r_pos rd) cv)"
    using clone_view_Some [of "he_alloc E" guid a] clone_view_Some [of "he_alloc E" "drop (r_pos rd) cv" a1] og oo
    by (cases og; cases oo; simp)+
  have total: "og = Some guid \<and> oo = Some (drop (r_pos rd) cv)" if "hm_room E 1 (sd_by_guid sd)"
    using that clone_view_total [OF _ og] clone_view_total [OF _ oo] by (simp add: hm_room_def)
  let ?ref = "\<lparr>sd_id = i, sd_guid = guid, sd_opts_payload = drop (r_pos rd) cv\<rparr>"
  have all: "sd_inv E sd' \<and> (\<forall>g. sd_find E g sd' = (if r = Inr () \<and> g = guid \<and> sd_find E g sd = None then Some ?ref
      else sd_find E g sd)) \<and> r \<in> {Inr (), Inl kOutOfMemory, Inl kCapacityExceeded} \<and>
    (hm_room E 1 (sd_by_guid sd) \<longrightarrow> length (sd_order sd) < kMaxSubDocs \<longrightarrow> r = Inr ())"
  proof (cases "og = None \<or> oo = None")
    case True
    then have "r = Inl kOutOfMemory" "sd' = sd" using run parse og oo by (auto simp: sd_install_def)
    then show ?thesis using inv total True by auto
  next
    case False
    then have o: "og = Some guid" "oo = Some (drop (r_pos rd) cv)" using owned by auto
    show ?thesis
    proof (cases "hm_get E guid (sd_by_guid sd) \<noteq> None \<or> length (sd_order sd) \<ge> kMaxSubDocs")
      case True
      then have "sd' = sd" "r = (if hm_get E guid (sd_by_guid sd) \<noteq> None then Inr () else Inl kCapacityExceeded)"
        using run parse og oo o by (auto simp: sd_install_def Let_def split: if_splits)
      then show ?thesis using inv True by (auto simp: sd_find_def)
    next
      case new: False
      then have none: "hm_get E guid (sd_by_guid sd) = None" by simp
      obtain ok t a3 where add: "hm_add E guid ?ref (sd_by_guid sd, a2) = (ok, t, a3)" by (metis prod.collapse)
      note tadd = hm.tracks_add [OF tr none add] and abs = hm_add_spec(2) [OF hm add]
      have run': "r = (if ok then Inr () else Inl kOutOfMemory)"
        "sd' = (if ok then \<lparr>sd_by_guid = t, sd_order = sd_order sd @ [guid]\<rparr> else sd\<lparr>sd_by_guid := t\<rparr>)"
        using run parse og oo o new add by (auto simp: sd_install_def Let_def)
      have inv': "sd_inv E sd'" using run' tadd(1,2) abs new inv by (auto simp: sd_inv_def)
      have "hm_abs (sd_by_guid sd') = (if ok then (hm_abs (sd_by_guid sd))(guid \<mapsto> ?ref) else hm_abs (sd_by_guid sd))"
        using abs run' by simp
      moreover have "hm_abs (sd_by_guid sd) guid = None"
        using none sd_find_abs [OF inv, of guid] by (simp add: sd_find_def)
      ultimately show ?thesis
        using inv' run'(1) tadd(3) [of 0] by (auto simp: sd_find_abs [OF inv'] sd_find_abs [OF inv])
    qed
  qed
  then show "sd_inv E sd'"
    "sd_find E g sd' = (if r = Inr () \<and> g = guid \<and> sd_find E g sd = None then Some ?ref else sd_find E g sd)"
    "r \<in> {Inr (), Inl kOutOfMemory, Inl kCapacityExceeded}"
    "hm_room E 1 (sd_by_guid sd) \<Longrightarrow> length (sd_order sd) < kMaxSubDocs \<Longrightarrow> r = Inr ()"
    by blast+
qed

text \<open>A payload that does not start with a length-prefixed guid changes nothing.\<close>

lemma sd_install_corrupt:
  "r_length_prefixed (reader_of cv) = (Inl e, rd) \<Longrightarrow> sd_install E i cv st = (Inl e, st)"
  by (simp add: sd_install_def)

lemma sd_install_inv:
  assumes "sd_inv E sd" and "sd_install E i cv (sd, a) = (r, sd', a')"
  shows "sd_inv E sd'"
proof -
  obtain x rd where "r_length_prefixed (reader_of cv) = (x, rd)" by (metis surj_pair)
  then show ?thesis
    using assms sd_install_corrupt [of cv _ rd E i "(sd, a)"] sd_install_spec(1) [of E sd cv _ rd i a r sd' a'] by (cases x) auto
qed

section \<open>Properties\<close>

text \<open>
C40: Registering a sub-document is idempotent: the first registration of a guid wins, and its id and
options stay; every other entry is untouched, and a failed call registers nothing.
\<close>

theorem subdoc_first_registration_wins:
  assumes "sd_inv E sd" and "length guid < 2 ^ 64"
    and "sd_install E i (prefixed_bytes guid @ opts) (sd, a) = (r, sd', a')"
  shows "sd_inv E sd' \<and> sd_find E g sd' = (if r = Inr () \<and> g = guid \<and> sd_find E g sd = None
    then Some \<lparr>sd_id = i, sd_guid = guid, sd_opts_payload = opts\<rparr> else sd_find E g sd)"
proof -
  note spec = sd_install_spec [OF assms(1) r_parses_whole [OF r_parses_length_prefixed [OF assms(2)], of opts] assms(3)]
  have "drop (r_pos \<lparr>r_view = prefixed_bytes guid @ opts, r_pos = length (prefixed_bytes guid)\<rparr>) (prefixed_bytes guid @ opts) = opts"
    by simp
  from spec(1) spec(2) [of g, unfolded this] show ?thesis by (rule conjI)
qed

theorem subdoc_first_registration_wins_witness:
  "\<exists>sd' a'. sd_install (view_env bump_env 64) (Id 1 0) (prefixed_bytes [7] @ [127]) (sd_empty, 0) = (Inr (), sd', a') \<and>
    sd_find (view_env bump_env 64) [7] sd' = Some \<lparr>sd_id = Id 1 0, sd_guid = [7], sd_opts_payload = [127]\<rparr>"
proof -
  let ?E = "view_env bump_env 64"
  obtain r sd' a' where run: "sd_install ?E (Id 1 0) (prefixed_bytes [7] @ [127]) (sd_empty, 0) = (r, sd', a')"
    by (metis prod.collapse)
  have "hm_room ?E 1 (sd_by_guid sd_empty)"
    using bump_env_total by (simp add: hm_room_def view_env_def sd_empty_def hm_empty_def kMaxCap_def)
  then have "r = Inr ()"
    using sd_install_spec(4) [OF sd_inv_empty(1) r_parses_whole [OF r_parses_length_prefixed] run]
    by (simp add: sd_empty_def kMaxSubDocs_def)
  then show ?thesis
    using subdoc_first_registration_wins [OF sd_inv_empty(1) _ run, of "[7]"] run sd_inv_empty(2) [of ?E "[7]"] by auto
qed

end
