(* ===== verification/Ycpp_Arena.thy ===== *)
theory Ycpp_Arena
  imports Ycpp_Prelude
begin

unbundle bit_operations_syntax

text \<open>
  The bump allocator of ycpp_arena.h.  A block is its address, its capacity and its fill mark;
  the linked list of blocks is a list, newest first.  \<open>std::malloc\<close> and \<open>std::free\<close> belong to the
  environment: parameters \<open>mal\<close> and \<open>mfree\<close> on a state of their own, with \<open>malloc_ok\<close> as what the
  C library promises.

  \<open>alloc_contract\<close> is the promise of the concept \<open>Allocator\<close> to the classes that draw on it: what
  \<open>alloc\<close> returns is aligned and disjoint from everything handed out before.
\<close>

section \<open>The code\<close>

definition kDefaultBlockBytes :: u64 where
  "kDefaultBlockBytes = 64 * 1024"

definition kMaxBlocks :: nat where
  "kMaxBlocks = 4096"

definition kDefaultAlign :: u64 where
  "kDefaultAlign = 8"

definition kBlockHeaderBytes :: u64 where
  "kBlockHeaderBytes = 32"

record block =
  bk_addr :: u64
  bk_cap :: u64
  bk_off :: u64

record arena =
  ar_block_bytes :: u64
  ar_blocks :: "block list"
  ar_used :: u64
  ar_n_blocks :: nat

type_synonym 'm mallocator = "u64 \<Rightarrow> 'm \<Rightarrow> u64 option \<times> 'm"

definition arena_new :: "u64 \<Rightarrow> arena" where
  "arena_new block_bytes = \<lparr>ar_block_bytes = block_bytes, ar_blocks = [], ar_used = 0, ar_n_blocks = 0\<rparr>"

definition allocate_block :: "'m mallocator \<Rightarrow> u64 \<Rightarrow> 'm \<Rightarrow> block option \<times> 'm" where
  "allocate_block mal cap m =
     (case mal (kBlockHeaderBytes + cap) m of
        (None, m) \<Rightarrow> (None, m)
      | (Some raw, m) \<Rightarrow> (Some \<lparr>bk_addr = raw, bk_cap = cap, bk_off = 0\<rparr>, m))"

text \<open>The pointer and the block with its new fill mark, or \<open>None\<close> when it does not fit.\<close>

definition bump_from :: "block \<Rightarrow> u64 \<Rightarrow> u64 \<Rightarrow> (u64 \<times> block) option" where
  "bump_from b n align =
     (let base = bk_addr b + kBlockHeaderBytes;
          raw_off = bk_off b;
          cur_addr = base + raw_off;
          aligned = (cur_addr + (align - 1)) AND NOT (align - 1);
          pad = aligned - cur_addr
      in if raw_off + pad + n > bk_cap b then None
         else Some (aligned, b\<lparr>bk_off := raw_off + pad + n\<rparr>))"

definition alloc_oversize_block ::
    "'m mallocator \<Rightarrow> u64 \<Rightarrow> u64 \<Rightarrow> arena \<times> 'm \<Rightarrow> u64 option \<times> arena \<times> 'm" where
  "alloc_oversize_block mal n align st =
     (let (ar, m) = st in
      if ar_n_blocks ar \<ge> kMaxBlocks then (None, ar, m)
      else
        (case allocate_block mal (n + align) m of
           (None, m) \<Rightarrow> (None, ar, m)
         | (Some b, m) \<Rightarrow>
             let put = (\<lambda>b. case ar_blocks ar of head # rest \<Rightarrow> head # b # rest | [] \<Rightarrow> [b]);
                 ar = ar\<lparr>ar_n_blocks := ar_n_blocks ar + 1\<rparr>
             in (case bump_from b n align of
                   None \<Rightarrow> (None, ar\<lparr>ar_blocks := put b\<rparr>, m)
                 | Some (p, b) \<Rightarrow> (Some p, ar\<lparr>ar_blocks := put b, ar_used := ar_used ar + n\<rparr>, m))))"

definition ar_alloc :: "'m mallocator \<Rightarrow> (arena \<times> 'm) allocator" where
  "ar_alloc mal n align st =
     (let (ar, m) = st in
      if n = 0 then (None, ar, m)
      else if n + align > ar_block_bytes ar then alloc_oversize_block mal n align (ar, m)
      else
        (case (case ar_blocks ar of [] \<Rightarrow> None | head # _ \<Rightarrow> bump_from head n align) of
           Some (p, head) \<Rightarrow>
             (Some p, ar\<lparr>ar_blocks := head # tl (ar_blocks ar), ar_used := ar_used ar + n\<rparr>, m)
         | None \<Rightarrow>
             if ar_n_blocks ar \<ge> kMaxBlocks then (None, ar, m)
             else
               (case allocate_block mal (ar_block_bytes ar) m of
                  (None, m) \<Rightarrow> (None, ar, m)
                | (Some nb, m) \<Rightarrow>
                    let ar = ar\<lparr>ar_n_blocks := ar_n_blocks ar + 1\<rparr> in
                    (case bump_from nb n align of
                       None \<Rightarrow> (None, ar\<lparr>ar_blocks := nb # ar_blocks ar\<rparr>, m)
                     | Some (p, nb) \<Rightarrow>
                         (Some p, ar\<lparr>ar_blocks := nb # ar_blocks ar, ar_used := ar_used ar + n\<rparr>, m)))))"

definition ar_free :: "u64 \<Rightarrow> arena \<Rightarrow> arena" where
  "ar_free n ar = (if n \<le> ar_used ar then ar\<lparr>ar_used := ar_used ar - n\<rparr> else ar\<lparr>ar_used := 0\<rparr>)"

definition ar_reset :: "(u64 \<Rightarrow> 'm \<Rightarrow> 'm) \<Rightarrow> arena \<times> 'm \<Rightarrow> arena \<times> 'm" where
  "ar_reset mfree st =
     (let (ar, m) = st
      in (ar\<lparr>ar_blocks := [], ar_used := 0, ar_n_blocks := 0\<rparr>, fold (\<lambda>b. mfree (bk_addr b)) (ar_blocks ar) m))"

text \<open>The move constructor: the new arena, and the emptied source.\<close>

definition ar_move :: "arena \<Rightarrow> arena \<times> arena" where
  "ar_move o' = (o', o'\<lparr>ar_blocks := [], ar_used := 0, ar_n_blocks := 0\<rparr>)"

section \<open>Contracts\<close>

text \<open>The addresses of \<open>n\<close> bytes at \<open>p\<close>.\<close>

definition bytes_at :: "u64 \<Rightarrow> u64 \<Rightarrow> nat set" where
  "bytes_at p n = {unat p ..< unat p + unat n}"

text \<open>
  What \<open>malloc\<close> promises: memory that is in use by nobody and does not reach the top of the
  address space; \<open>regs m\<close> is the memory in use.
\<close>

definition malloc_ok :: "'m mallocator \<Rightarrow> ('m \<Rightarrow> nat set) \<Rightarrow> bool" where
  "malloc_ok mal regs \<longleftrightarrow>
     (\<forall>n m p m'. mal n m = (Some p, m') \<longrightarrow>
        p \<noteq> 0 \<and> unat p + unat n < 2 ^ 64 \<and> bytes_at p n \<inter> regs m = {} \<and> regs m' = regs m \<union> bytes_at p n) \<and>
     (\<forall>n m m'. mal n m = (None, m') \<longrightarrow> regs m' = regs m)"

text \<open>Requests for which the sums in the code do not wrap.\<close>

definition sane_request :: "u64 \<Rightarrow> u64 \<Rightarrow> bool" where
  "sane_request n align \<longleftrightarrow> (\<exists>k < 12. align = 2 ^ k) \<and> unat n \<le> 2 ^ 61"

definition alloc_contract :: "('a \<Rightarrow> bool) \<Rightarrow> ('a \<Rightarrow> nat set) \<Rightarrow> 'a allocator \<Rightarrow> bool" where
  "alloc_contract ok taken al \<longleftrightarrow>
     (\<forall>n align a r a'. ok a \<longrightarrow> sane_request n align \<longrightarrow> al n align a = (r, a') \<longrightarrow>
        ok a' \<and> taken a \<subseteq> taken a' \<and>
        (\<forall>p. r = Some p \<longrightarrow> p \<noteq> 0 \<and> unat p + unat n < 2 ^ 64 \<and> unat align dvd unat p \<and>
           bytes_at p n \<inter> taken a = {} \<and> bytes_at p n \<subseteq> taken a'))"

locale region_alloc =
  fixes ok :: "'a \<Rightarrow> bool" and taken :: "'a \<Rightarrow> nat set" and al :: "'a allocator"
  assumes contract: "alloc_contract ok taken al"
begin

lemma alloc_keeps: "ok a \<Longrightarrow> sane_request n align \<Longrightarrow> al n align a = (r, a') \<Longrightarrow> ok a'"
  and alloc_mono: "ok a \<Longrightarrow> sane_request n align \<Longrightarrow> al n align a = (r, a') \<Longrightarrow> taken a \<subseteq> taken a'"
  and alloc_Some: "ok a \<Longrightarrow> sane_request n align \<Longrightarrow> al n align a = (Some p, a') \<Longrightarrow>
    p \<noteq> 0 \<and> unat p + unat n < 2 ^ 64 \<and> unat align dvd unat p \<and>
    bytes_at p n \<inter> taken a = {} \<and> bytes_at p n \<subseteq> taken a'"
  using contract unfolding alloc_contract_def by blast+

end

section \<open>The arena meets the contract\<close>

definition payload :: "block \<Rightarrow> nat set" where
  "payload b = {unat (bk_addr b) + 32 ..< unat (bk_addr b) + 32 + unat (bk_cap b)}"

definition filled :: "block \<Rightarrow> nat set" where
  "filled b = {unat (bk_addr b) + 32 ..< unat (bk_addr b) + 32 + unat (bk_off b)}"

definition block_ok :: "block \<Rightarrow> bool" where
  "block_ok b \<longleftrightarrow> unat (bk_addr b) + 32 + unat (bk_cap b) < 2 ^ 64 \<and> bk_off b \<le> bk_cap b \<and> bk_addr b \<noteq> 0 \<and>
     unat (bk_cap b) \<le> 2 ^ 62"

definition arena_inv :: "'m mallocator \<Rightarrow> ('m \<Rightarrow> nat set) \<Rightarrow> arena \<times> 'm \<Rightarrow> bool" where
  "arena_inv mal regs st \<longleftrightarrow> malloc_ok mal regs \<and> unat (ar_block_bytes (fst st)) \<le> 2 ^ 61 \<and>
     (\<forall>b \<in> set (ar_blocks (fst st)). block_ok b \<and> payload b \<subseteq> regs (snd st)) \<and>
     sorted_wrt (\<lambda>b c. payload b \<inter> payload c = {}) (ar_blocks (fst st)) \<and>
     ar_n_blocks (fst st) = length (ar_blocks (fst st)) \<and> ar_n_blocks (fst st) \<le> kMaxBlocks"

definition arena_taken :: "arena \<times> 'm \<Rightarrow> nat set" where
  "arena_taken st = (\<Union>b \<in> set (ar_blocks (fst st)). filled b)"

lemma unat_pow2:
  assumes "k < 64"
  shows "unat (2 ^ k :: u64) = 2 ^ k"
proof -
  have "(2 :: nat) ^ k < 2 ^ 64" using assms by (intro power_strict_increasing) auto
  then show ?thesis using unat_of_nat_small [of "2 ^ k"] by simp
qed

lemma align_up:
  fixes cur :: u64
  assumes k: "k < 64" and aligned: "aligned = (cur + (2 ^ k - 1)) AND NOT (2 ^ k - 1)"
  shows "unat (aligned - cur) < 2 ^ k" and "2 ^ k dvd unat aligned"
proof -
  have m: "(2 ^ k - 1 :: u64) = mask k" by (simp add: mask_eq_exp_minus_1)
  define x where "x = cur + mask k"
  have split: "x = (x AND mask k) + aligned"
    unfolding aligned m x_def [symmetric]
    by (subst disjunctive_add) (auto simp: bit_simps bit_eq_iff)
  have push: "aligned = push_bit k (drop_bit k x)"
    unfolding aligned m x_def [symmetric] by (rule bit_word_eqI) (auto simp: bit_simps)
  have "unat (take_bit k aligned) = 0" unfolding push by (simp add: take_bit_push_bit)
  then show "2 ^ k dvd unat aligned"
    unfolding unsigned_take_bit_eq by (simp only: take_bit_eq_mod mod_eq_0_iff_dvd)
  have le: "x AND mask k \<le> mask k" by (simp add: word_and_le1)
  have "aligned - cur = mask k - (x AND mask k)"
    using split m by (simp add: x_def algebra_simps)
  then have "unat (aligned - cur) = unat (mask k :: u64) - unat (x AND mask k)"
    using le by (simp add: unat_sub)
  moreover have "unat (mask k :: u64) < 2 ^ k"
    unfolding mask_eq_take_bit_minus_one unsigned_take_bit_eq by (rule take_bit_nat_less_exp)
  ultimately show "unat (aligned - cur) < 2 ^ k" by linarith
qed

lemma filled_payload: "block_ok b \<Longrightarrow> filled b \<subseteq> payload b"
  by (auto simp: filled_def payload_def block_ok_def word_le_nat_alt)

lemma bump_from_spec:
  assumes req: "sane_request n align" and ok: "block_ok b" and run: "bump_from b n align = Some (p, b')"
  shows "block_ok b'" and "payload b' = payload b" and "filled b \<subseteq> filled b'"
    and "p \<noteq> 0 \<and> unat p + unat n < 2 ^ 64 \<and> unat align dvd unat p"
    and "bytes_at p n \<inter> filled b = {}" and "bytes_at p n \<subseteq> filled b'"
proof -
  obtain k where k: "k < 12" "align = 2 ^ k" using req by (auto simp: sane_request_def)
  have n: "unat n \<le> 2 ^ 61" using req by (simp add: sane_request_def)
  define cur where "cur = bk_addr b + kBlockHeaderBytes + bk_off b"
  define aligned where "aligned = (cur + (2 ^ k - 1)) AND NOT (2 ^ k - 1)"
  define pad where "pad = aligned - cur"
  have b: "unat (bk_addr b) + 32 + unat (bk_cap b) < 2 ^ 64" "unat (bk_off b) \<le> unat (bk_cap b)"
    "unat (bk_cap b) \<le> 2 ^ 62"
    using ok by (auto simp: block_ok_def word_le_nat_alt)
  have cur: "unat cur = unat (bk_addr b) + 32 + unat (bk_off b)"
    using b by (simp add: cur_def kBlockHeaderBytes_def unat_word_ariths)
  have "unat pad < 2 ^ k" "2 ^ k dvd unat aligned"
    using align_up [OF _ aligned_def] k(1) by (simp_all add: pad_def)
  moreover have "(2 :: nat) ^ k \<le> 2 ^ 12" using k(1) by (intro power_increasing) auto
  ultimately have pad: "unat pad < 2 ^ 12" and dvd: "2 ^ k dvd unat aligned" by auto
  have off: "unat (bk_off b + pad + n) = unat (bk_off b) + unat pad + unat n"
    using b n pad by (simp add: unat_word_ariths)
  have "bump_from b n align =
      (if bk_off b + pad + n > bk_cap b then None else Some (aligned, b\<lparr>bk_off := bk_off b + pad + n\<rparr>))"
    unfolding bump_from_def Let_def k(2) pad_def aligned_def cur_def ..
  then have fits: "unat (bk_off b) + unat pad + unat n \<le> unat (bk_cap b)" and p: "p = aligned"
    and b': "b' = b\<lparr>bk_off := bk_off b + pad + n\<rparr>"
    using run off by (auto simp: word_le_nat_alt not_less split: if_splits)
  have "aligned = cur + pad" by (simp add: pad_def)
  then have al: "unat aligned = unat (bk_addr b) + 32 + unat (bk_off b) + unat pad"
    using cur b fits by (simp add: unat_word_ariths)
  show "block_ok b'" using ok fits off by (simp add: b' block_ok_def word_le_nat_alt)
  show "payload b' = payload b" by (simp add: b' payload_def)
  show "filled b \<subseteq> filled b'" using off by (auto simp: b' filled_def)
  show "bytes_at p n \<inter> filled b = {}" using al by (auto simp: p bytes_at_def filled_def)
  show "bytes_at p n \<subseteq> filled b'" using al off by (auto simp: p b' bytes_at_def filled_def)
  have "p \<noteq> 0" using al by (auto simp: p)
  moreover have "unat align = 2 ^ k" using unat_pow2 [of k] k by simp
  ultimately show "p \<noteq> 0 \<and> unat p + unat n < 2 ^ 64 \<and> unat align dvd unat p"
    using al b fits dvd by (simp add: p)
qed

lemma allocate_block_spec:
  assumes mal: "malloc_ok mal regs" and cap: "unat cap \<le> 2 ^ 62" and run: "allocate_block mal cap m = (r, m')"
  shows "regs m \<subseteq> regs m'"
    and "r = Some b \<Longrightarrow> block_ok b \<and> payload b \<subseteq> regs m' \<and> payload b \<inter> regs m = {} \<and> filled b = {}"
proof -
  have size: "unat (kBlockHeaderBytes + cap) = 32 + unat cap"
    using cap by (simp add: kBlockHeaderBytes_def unat_word_ariths)
  show "regs m \<subseteq> regs m'"
    using mal run by (fastforce simp: malloc_ok_def allocate_block_def split: option.splits prod.splits)
  assume r: "r = Some b"
  then have raw: "mal (kBlockHeaderBytes + cap) m = (Some (bk_addr b), m')" "bk_cap b = cap" "bk_off b = 0"
    using run by (auto simp: allocate_block_def split: option.splits prod.splits)
  have "bk_addr b \<noteq> 0 \<and> unat (bk_addr b) + (32 + unat cap) < 2 ^ 64 \<and>
      bytes_at (bk_addr b) (kBlockHeaderBytes + cap) \<inter> regs m = {} \<and>
      regs m' = regs m \<union> bytes_at (bk_addr b) (kBlockHeaderBytes + cap)"
    using mal raw(1) size unfolding malloc_ok_def by metis
  moreover have "payload b \<subseteq> bytes_at (bk_addr b) (kBlockHeaderBytes + cap)"
    using raw(2) size by (auto simp: payload_def bytes_at_def)
  ultimately show "block_ok b \<and> payload b \<subseteq> regs m' \<and> payload b \<inter> regs m = {} \<and> filled b = {}"
    using raw cap by (auto simp: block_ok_def filled_def)
qed

text \<open>What one call does to the list of blocks: a block was filled further, or a new one was linked in.\<close>

lemma sorted_wrt_remap:
  assumes "sorted_wrt (\<lambda>b c. payload b \<inter> payload c = {}) (xs @ b # ys)" and "payload b' = payload b"
  shows "sorted_wrt (\<lambda>b c. payload b \<inter> payload c = {}) (xs @ b' # ys)"
  using assms by (auto simp: sorted_wrt_append)

lemma arena_inv_fill:
  assumes inv: "arena_inv mal regs (ar, m)" and bs: "ar_blocks ar = xs @ b # ys"
    and req: "sane_request n align" and bump: "bump_from b n align = Some (p, b')"
    and new: "ar' = ar\<lparr>ar_blocks := xs @ b' # ys, ar_used := u\<rparr>"
  shows "arena_inv mal regs (ar', m) \<and> arena_taken (ar, m) \<subseteq> arena_taken (ar', m) \<and>
    p \<noteq> 0 \<and> unat p + unat n < 2 ^ 64 \<and> unat align dvd unat p \<and>
    bytes_at p n \<inter> arena_taken (ar, m) = {} \<and> bytes_at p n \<subseteq> arena_taken (ar', m)"
proof -
  have ok: "block_ok c" "payload c \<subseteq> regs m" if "c \<in> set (xs @ b # ys)" for c
    using inv bs that unfolding arena_inv_def by fastforce+
  have b: "block_ok b" using ok(1) by simp
  note bump = bump_from_spec [OF req b bump]
  have dis: "sorted_wrt (\<lambda>b c. payload b \<inter> payload c = {}) (xs @ b # ys)"
    using inv bs by (simp add: arena_inv_def)
  have "bytes_at p n \<inter> filled c = {}" if c: "c \<in> set xs \<union> set ys" for c
  proof -
    have "payload c \<inter> payload b = {}" using dis c by (auto simp: sorted_wrt_append)
    moreover have "filled c \<subseteq> payload c" using c ok(1) by (intro filled_payload) auto
    moreover have "bytes_at p n \<subseteq> payload b"
      using bump(6) filled_payload [OF bump(1)] bump(2) by blast
    ultimately show ?thesis by blast
  qed
  then have "bytes_at p n \<inter> arena_taken (ar, m) = {}" using bump(5) bs by (auto simp: arena_taken_def)
  moreover have "arena_taken (ar, m) \<subseteq> arena_taken (ar', m)" "bytes_at p n \<subseteq> arena_taken (ar', m)"
    using bump(3,6) bs new by (auto simp: arena_taken_def)
  moreover have "arena_inv mal regs (ar', m)"
    using inv bs new ok bump(1,2) sorted_wrt_remap [OF dis bump(2)] unfolding arena_inv_def by (auto simp: sorted_wrt_append)
  ultimately show ?thesis using bump(4) by blast
qed

lemma arena_inv_link:
  assumes inv: "arena_inv mal regs (ar, m)" and bs: "ar_blocks ar = xs @ ys" and room: "ar_n_blocks ar < kMaxBlocks"
    and cap: "unat cap \<le> 2 ^ 62" and new: "allocate_block mal cap m = (Some b, m')"
  shows "arena_inv mal regs (ar\<lparr>ar_n_blocks := ar_n_blocks ar + 1, ar_blocks := xs @ b # ys\<rparr>, m') \<and>
    arena_taken (ar\<lparr>ar_n_blocks := ar_n_blocks ar + 1, ar_blocks := xs @ b # ys\<rparr>, m') = arena_taken (ar, m)"
proof -
  have mal: "malloc_ok mal regs" using inv by (simp add: arena_inv_def)
  note b = allocate_block_spec [OF mal cap new]
  have b': "block_ok b" "payload b \<subseteq> regs m'" "payload b \<inter> regs m = {}" "filled b = {}" using b(2) by blast+
  have old: "block_ok c \<and> payload c \<subseteq> regs m \<and> payload c \<subseteq> regs m'" if "c \<in> set (xs @ ys)" for c
    using inv bs that b(1) unfolding arena_inv_def by fastforce
  have "payload c \<inter> payload b = {}" "payload b \<inter> payload c = {}" if "c \<in> set (xs @ ys)" for c
    using old [OF that] b'(3) by blast+
  then have "sorted_wrt (\<lambda>b c. payload b \<inter> payload c = {}) (xs @ b # ys)"
    using inv bs by (auto simp: arena_inv_def sorted_wrt_append)
  then show ?thesis using inv old b' bs room by (auto simp: arena_inv_def arena_taken_def)
qed

text \<open>The result of a call: the invariant, nothing taken back, and a good pointer if there is one.\<close>

definition alloc_good :: "'m mallocator \<Rightarrow> ('m \<Rightarrow> nat set) \<Rightarrow> u64 \<Rightarrow> u64 \<Rightarrow> arena \<times> 'm \<Rightarrow> u64 option \<times> arena \<times> 'm \<Rightarrow> bool" where
  "alloc_good mal regs n align st res \<longleftrightarrow>
     arena_inv mal regs (snd res) \<and> arena_taken st \<subseteq> arena_taken (snd res) \<and>
     (\<forall>p. fst res = Some p \<longrightarrow> p \<noteq> 0 \<and> unat p + unat n < 2 ^ 64 \<and> unat align dvd unat p \<and>
        bytes_at p n \<inter> arena_taken st = {} \<and> bytes_at p n \<subseteq> arena_taken (snd res))"

lemma alloc_good_same: "arena_inv mal regs st \<Longrightarrow> alloc_good mal regs n align st (None, st)"
  by (simp add: alloc_good_def)

lemma arena_inv_malloc:
  assumes "arena_inv mal regs (ar, m)" and "allocate_block mal cap m = (None, m')"
  shows "arena_inv mal regs (ar, m')" and "arena_taken (ar, m') = arena_taken (ar, m)"
proof -
  have "regs m' = regs m"
    using assms unfolding arena_inv_def malloc_ok_def
    by (auto simp: allocate_block_def split: option.splits prod.splits)
  then show "arena_inv mal regs (ar, m')" "arena_taken (ar, m') = arena_taken (ar, m)"
    using assms(1) by (simp_all add: arena_inv_def arena_taken_def)
qed

lemma alloc_good_fresh:
  assumes inv: "arena_inv mal regs (ar, m)" and bs: "ar_blocks ar = xs @ ys" and room: "ar_n_blocks ar < kMaxBlocks"
    and cap: "unat cap \<le> 2 ^ 62" and req: "sane_request n align"
  shows "alloc_good mal regs n align (ar, m)
    (case allocate_block mal cap m of
       (None, m) \<Rightarrow> (None, ar, m)
     | (Some b, m) \<Rightarrow>
         (case bump_from b n align of
            None \<Rightarrow> (None, ar\<lparr>ar_n_blocks := ar_n_blocks ar + 1, ar_blocks := xs @ b # ys\<rparr>, m)
          | Some (p, b) \<Rightarrow> (Some p, ar\<lparr>ar_n_blocks := ar_n_blocks ar + 1, ar_blocks := xs @ b # ys,
              ar_used := ar_used ar + n\<rparr>, m)))"
proof -
  obtain r m' where mal: "allocate_block mal cap m = (r, m')" by (metis surj_pair)
  show ?thesis
  proof (cases r)
    case None
    then show ?thesis using mal arena_inv_malloc [OF inv] by (simp add: alloc_good_def)
  next
    case (Some b)
    let ?ar = "ar\<lparr>ar_n_blocks := ar_n_blocks ar + 1, ar_blocks := xs @ b # ys\<rparr>"
    note link = arena_inv_link [OF inv bs room cap mal [unfolded Some]]
    show ?thesis
    proof (cases "bump_from b n align")
      case None
      then show ?thesis using mal Some link by (simp add: alloc_good_def)
    next
      case (Some pb)
      obtain p b' where pb: "pb = (p, b')" by (metis surj_pair)
      have "arena_inv mal regs (?ar, m')" using link by simp
      note fill = arena_inv_fill [where ar' = "?ar\<lparr>ar_blocks := xs @ b' # ys, ar_used := ar_used ar + n\<rparr>", OF this _ req Some [unfolded pb]]
      show ?thesis using fill [of xs ys "ar_used ar + n"] mal \<open>r = Some b\<close> Some pb link by (simp add: alloc_good_def)
    qed
  qed
qed

lemma alloc_oversize_good:
  assumes inv: "arena_inv mal regs (ar, m)" and req: "sane_request n align"
  shows "alloc_good mal regs n align (ar, m) (alloc_oversize_block mal n align (ar, m))"
proof (cases "ar_n_blocks ar \<ge> kMaxBlocks")
  case True
  then show ?thesis using alloc_good_same [OF inv] by (simp add: alloc_oversize_block_def)
next
  case False
  obtain k where k: "k < 12" "align = 2 ^ k" using req by (auto simp: sane_request_def)
  have "(2 :: nat) ^ k \<le> 2 ^ 11" using k(1) by (intro power_increasing) auto
  then have cap: "unat (n + align) \<le> 2 ^ 62"
    using req k unat_pow2 [of k] by (simp add: sane_request_def unat_word_ariths)
  define xs where "xs = take 1 (ar_blocks ar)"
  define ys where "ys = drop 1 (ar_blocks ar)"
  have bs: "ar_blocks ar = xs @ ys" by (simp add: xs_def ys_def)
  have put: "(case ar_blocks ar of head # rest \<Rightarrow> head # b # rest | [] \<Rightarrow> [b]) = xs @ b # ys" for b
    by (cases "ar_blocks ar") (simp_all add: xs_def ys_def)
  show ?thesis
    using alloc_good_fresh [OF inv bs _ cap req] False unfolding put [symmetric]
    by (simp add: alloc_oversize_block_def Let_def cong: option.case_cong)
qed

lemma ar_alloc_good:
  assumes inv: "arena_inv mal regs st" and req: "sane_request n align"
  shows "alloc_good mal regs n align st (ar_alloc mal n align st)"
proof -
  obtain ar m where st: "st = (ar, m)" by (metis surj_pair)
  have inv': "arena_inv mal regs (ar, m)" using inv st by simp
  have bytes: "unat (ar_block_bytes ar) \<le> 2 ^ 62" using inv' by (simp add: arena_inv_def)
  consider (zero) "n = 0" | (big) "n \<noteq> 0" "n + align > ar_block_bytes ar"
    | (bump) b bs p b' where "n \<noteq> 0" "\<not> n + align > ar_block_bytes ar" "ar_blocks ar = b # bs" "bump_from b n align = Some (p, b')"
    | (fresh) "n \<noteq> 0" "\<not> n + align > ar_block_bytes ar" "(case ar_blocks ar of [] \<Rightarrow> None | head # _ \<Rightarrow> bump_from head n align) = None"
    by (cases "ar_blocks ar"; cases "bump_from (hd (ar_blocks ar)) n align") auto
  then show ?thesis
  proof cases
    case zero
    then show ?thesis using alloc_good_same [OF inv'] st by (simp add: ar_alloc_def)
  next
    case big
    then show ?thesis using alloc_oversize_good [OF inv' req] st by (simp add: ar_alloc_def)
  next
    case bump
    have "ar_blocks ar = [] @ b # bs" using bump(3) by simp
    from arena_inv_fill [OF inv' this req bump(4), of "ar\<lparr>ar_blocks := b' # bs, ar_used := ar_used ar + n\<rparr>" "ar_used ar + n"]
    show ?thesis using bump st by (simp add: ar_alloc_def alloc_good_def)
  next
    case fresh
    show ?thesis
    proof (cases "ar_n_blocks ar \<ge> kMaxBlocks")
      case True
      then show ?thesis using fresh alloc_good_same [OF inv'] st by (simp add: ar_alloc_def)
    next
      case False
      have bs: "ar_blocks ar = [] @ ar_blocks ar" by simp
      show ?thesis
        using alloc_good_fresh [OF inv' bs _ bytes req] False fresh st
        by (simp add: ar_alloc_def Let_def cong: option.case_cong prod.case_cong)
    qed
  qed
qed

interpretation arena: region_alloc "arena_inv mal regs" arena_taken "ar_alloc mal"
  by unfold_locales (use ar_alloc_good in \<open>fastforce simp: alloc_contract_def alloc_good_def\<close>)

end
