(* ===== verification/Ycpp_Pool.thy ===== *)
theory Ycpp_Pool
  imports Ycpp_Arena
begin

unbundle bit_operations_syntax

text \<open>
  The free-list pool of ycpp_pool.h.  The slots of a slab follow its header; the intrusive
  free list is the list of the addresses on it.  The template parameter \<open>T\<close> enters with its size
  and alignment.

  Inside the contract of the allocator, \<open>pool_used\<close> is the set of the slots that are handed out:
  \<open>acquire\<close> adds a slot that was not in it, \<open>release\<close> takes one out, and slots never overlap.
\<close>

section \<open>The code\<close>

record slot_type =
  st_size :: nat
  st_align :: u64

record pool =
  po_slab_slots :: nat
  po_slabs :: "u64 list"
  po_free :: "u64 list"
  po_live :: nat

definition kMaxSlabs :: nat where
  "kMaxSlabs = 4096"

definition pool_new :: "nat \<Rightarrow> pool" where
  "pool_new slab_slots = \<lparr>po_slab_slots = slab_slots, po_slabs = [], po_free = [], po_live = 0\<rparr>"

definition kSlabHeaderBytes :: "slot_type \<Rightarrow> u64" where
  "kSlabHeaderBytes T = (16 + st_align T - 1) AND NOT (st_align T - 1)"

definition pool_pop_free :: "pool \<Rightarrow> u64 option \<times> pool" where
  "pool_pop_free pl =
     (case po_free pl of [] \<Rightarrow> (None, pl) | n # rest \<Rightarrow> (Some n, pl\<lparr>po_free := rest\<rparr>))"

text \<open>The loop pushes the slots from the last one down to slot 1; slot 0 is returned.\<close>

definition pool_grow_one :: "slot_type \<Rightarrow> 'a allocator \<Rightarrow> pool \<times> 'a \<Rightarrow> u64 option \<times> pool \<times> 'a" where
  "pool_grow_one T al st =
     (let (pl, a) = st in
      if length (po_slabs pl) \<ge> kMaxSlabs then (None, pl, a)
      else
        (case al (kSlabHeaderBytes T + of_nat (st_size T * po_slab_slots pl)) (st_align T) a of
           (None, a) \<Rightarrow> (None, pl, a)
         | (Some s, a) \<Rightarrow>
             let base = s + kSlabHeaderBytes T;
                 free = fold (\<lambda>i fs. (base + of_nat (i * st_size T)) # fs) (rev [1..<po_slab_slots pl]) (po_free pl)
             in (Some base, pl\<lparr>po_slabs := s # po_slabs pl, po_free := free\<rparr>, a)))"

definition pool_acquire :: "slot_type \<Rightarrow> 'a allocator \<Rightarrow> pool \<times> 'a \<Rightarrow> u64 option \<times> pool \<times> 'a" where
  "pool_acquire T al st =
     (let (pl, a) = st;
          (slot, pl) = pool_pop_free pl;
          (slot, pl, a) = (if slot = None then pool_grow_one T al (pl, a) else (slot, pl, a))
      in if slot = None then (None, pl, a) else (slot, pl\<lparr>po_live := po_live pl + 1\<rparr>, a))"

definition pool_release :: "u64 \<Rightarrow> pool \<Rightarrow> pool" where
  "pool_release p pl = pl\<lparr>po_free := p # po_free pl, po_live := po_live pl - 1\<rparr>"

text \<open>The move constructor: the new pool, and the emptied source.  Move assignment asserts that nothing is live.\<close>

definition pool_move :: "pool \<Rightarrow> pool \<times> pool" where
  "pool_move o' = (o', o'\<lparr>po_slabs := [], po_free := [], po_live := 0\<rparr>)"

definition pool_move_assign :: "bool \<Rightarrow> pool \<Rightarrow> pool \<Rightarrow> (pool \<times> pool) option" where
  "pool_move_assign same_object pl o' =
     (if same_object then Some (pl, o') else if po_live pl \<noteq> 0 then None else Some (pool_move o'))"

section \<open>Slots\<close>

text \<open>The sizes for which no sum in the code wraps: every type the program pools is far below.\<close>

definition slot_type_ok :: "slot_type \<Rightarrow> bool" where
  "slot_type_ok T \<longleftrightarrow> (\<exists>k < 5. st_align T = 2 ^ k) \<and> 0 < st_size T \<and> st_size T \<le> 2 ^ 20"

definition slab_ok :: "nat \<Rightarrow> bool" where
  "slab_ok n \<longleftrightarrow> 0 < n \<and> n \<le> 2 ^ 20"

definition slab_slots :: "slot_type \<Rightarrow> nat \<Rightarrow> u64 \<Rightarrow> u64 list" where
  "slab_slots T n s = map (\<lambda>i. s + kSlabHeaderBytes T + of_nat (i * st_size T)) [0..<n]"

definition slab_bytes :: "slot_type \<Rightarrow> nat \<Rightarrow> u64" where
  "slab_bytes T n = kSlabHeaderBytes T + of_nat (st_size T * n)"

definition pool_slots :: "slot_type \<Rightarrow> pool \<Rightarrow> u64 set" where
  "pool_slots T pl = (\<Union>s \<in> set (po_slabs pl). set (slab_slots T (po_slab_slots pl) s))"

definition pool_used :: "slot_type \<Rightarrow> pool \<Rightarrow> u64 set" where
  "pool_used T pl = pool_slots T pl - set (po_free pl)"

definition pool_inv :: "('a \<Rightarrow> nat set) \<Rightarrow> slot_type \<Rightarrow> pool \<times> 'a \<Rightarrow> bool" where
  "pool_inv taken T st \<longleftrightarrow> (let (pl, a) = st in
     slot_type_ok T \<and> slab_ok (po_slab_slots pl) \<and>
     distinct (po_free pl) \<and> set (po_free pl) \<subseteq> pool_slots T pl \<and>
     (\<forall>s \<in> set (po_slabs pl). unat s + unat (slab_bytes T (po_slab_slots pl)) < 2 ^ 64 \<and>
        bytes_at s (slab_bytes T (po_slab_slots pl)) \<subseteq> taken a) \<and>
     sorted_wrt (\<lambda>s t. bytes_at s (slab_bytes T (po_slab_slots pl)) \<inter> bytes_at t (slab_bytes T (po_slab_slots pl)) = {})
       (po_slabs pl) \<and>
     po_live pl = card (pool_used T pl))"

text \<open>A move hands over every slot in use.\<close>

lemma pool_move_inv:
  assumes "pool_inv taken T (pl, a)" and "pool_move pl = (new, old)"
  shows "pool_inv taken T (new, a)" and "pool_inv taken T (old, a)"
    and "pool_used T new = pool_used T pl" and "pool_used T old = {}"
proof -
  have "new = pl" "old = pl\<lparr>po_slabs := [], po_free := [], po_live := 0\<rparr>" using assms(2) by (auto simp: pool_move_def)
  then show "pool_inv taken T (new, a)" "pool_inv taken T (old, a)" "pool_used T new = pool_used T pl" "pool_used T old = {}"
    using assms(1) by (simp_all add: pool_inv_def pool_used_def pool_slots_def)
qed

lemma header_bound: "slot_type_ok T \<Longrightarrow> unat (kSlabHeaderBytes T) \<le> 32"
proof -
  assume "slot_type_ok T"
  then obtain k where k: "k < 5" "st_align T = 2 ^ k" by (auto simp: slot_type_ok_def)
  then have "k \<in> {0, 1, 2, 3, 4}" by auto
  then show ?thesis using k(2) by (auto simp: kSlabHeaderBytes_def)
qed

lemma slab_bytes_unat:
  assumes "slot_type_ok T" and "slab_ok n"
  shows "unat (slab_bytes T n) = unat (kSlabHeaderBytes T) + st_size T * n" and "st_size T * n \<le> 2 ^ 40"
proof -
  have "st_size T * n \<le> 2 ^ 20 * 2 ^ 20"
    using assms by (intro mult_le_mono) (auto simp: slot_type_ok_def slab_ok_def)
  then show le: "st_size T * n \<le> 2 ^ 40" by simp
  then show "unat (slab_bytes T n) = unat (kSlabHeaderBytes T) + st_size T * n"
    using header_bound [OF assms(1)] unat_of_nat_small [of "st_size T * n"]
    by (simp add: slab_bytes_def unat_word_ariths)
qed

lemma sane_slab_request:
  assumes "slot_type_ok T" and "slab_ok n"
  shows "sane_request (slab_bytes T n) (st_align T)"
proof -
  have "unat (slab_bytes T n) \<le> 2 ^ 61" using slab_bytes_unat [OF assms] header_bound [OF assms(1)] by simp
  moreover have "\<exists>k < 12. st_align T = 2 ^ k"
    using assms(1) unfolding slot_type_ok_def by (metis less_trans numeral_less_iff semiring_norm(76,77,78,81))
  ultimately show ?thesis by (simp add: sane_request_def)
qed

text \<open>A slot lies in its slab, and two slots of a slab do not overlap.\<close>

lemma slot_address:
  assumes T: "slot_type_ok T" "slab_ok n" and s: "unat s + unat (slab_bytes T n) < 2 ^ 64" and i: "i < n"
  shows "unat (s + kSlabHeaderBytes T + of_nat (i * st_size T)) = unat s + unat (kSlabHeaderBytes T) + i * st_size T"
    and "i * st_size T + st_size T \<le> st_size T * n"
proof -
  have "(i + 1) * st_size T \<le> n * st_size T" using i by (intro mult_le_mono1) simp
  then show le: "i * st_size T + st_size T \<le> st_size T * n" by (simp add: algebra_simps)
  then have "unat (of_nat (i * st_size T) :: u64) = i * st_size T"
    using slab_bytes_unat [OF T] by (intro unat_of_nat_small) simp
  then show "unat (s + kSlabHeaderBytes T + of_nat (i * st_size T)) = unat s + unat (kSlabHeaderBytes T) + i * st_size T"
    using s slab_bytes_unat [OF T] le by (simp add: unat_word_ariths)
qed

lemma slots_in_slab:
  assumes T: "slot_type_ok T" "slab_ok n" and s: "unat s + unat (slab_bytes T n) < 2 ^ 64"
    and p: "p \<in> set (slab_slots T n s)"
  shows "bytes_at p (of_nat (st_size T)) \<subseteq> bytes_at s (slab_bytes T n)" and "unat p \<in> bytes_at s (slab_bytes T n)"
proof -
  obtain i where i: "i < n" "p = s + kSlabHeaderBytes T + of_nat (i * st_size T)" using p by (auto simp: slab_slots_def)
  have size: "unat (of_nat (st_size T) :: u64) = st_size T" "0 < st_size T"
    using T(1) unat_of_nat_small [of "st_size T"] by (auto simp: slot_type_ok_def)
  then show "bytes_at p (of_nat (st_size T)) \<subseteq> bytes_at s (slab_bytes T n)" "unat p \<in> bytes_at s (slab_bytes T n)"
    using slot_address [OF T s i(1)] i slab_bytes_unat(1) [OF T] by (auto simp: bytes_at_def)
qed

lemma distinct_slab_slots:
  assumes T: "slot_type_ok T" "slab_ok n" and s: "unat s + unat (slab_bytes T n) < 2 ^ 64"
  shows "distinct (slab_slots T n s)"
  unfolding distinct_conv_nth
proof (intro allI impI)
  fix i j
  assume "i < length (slab_slots T n s)" "j < length (slab_slots T n s)" and ne: "i \<noteq> j"
  then have ij: "i < n" "j < n" by (simp_all add: slab_slots_def)
  have "i * st_size T \<noteq> j * st_size T" using ne T(1) by (auto simp: slot_type_ok_def)
  then show "slab_slots T n s ! i \<noteq> slab_slots T n s ! j"
    using slot_address(1) [OF T s ij(1)] slot_address(1) [OF T s ij(2)] ij
    by (auto simp: slab_slots_def dest: arg_cong [of _ _ unat])
qed

lemma fold_push: "fold (\<lambda>i fs. f i # fs) (rev xs) ys = map f xs @ ys"
  by (induction xs arbitrary: ys) auto

lemma slab_slots_hd:
  assumes "slab_ok n"
  shows "slab_slots T n s = (s + kSlabHeaderBytes T) #
    map (\<lambda>i. s + kSlabHeaderBytes T + of_nat (i * st_size T)) [1..<n]"
  using assms by (simp add: slab_slots_def slab_ok_def upt_conv_Cons)

section \<open>The pool under the allocator's contract\<close>

lemma pool_inv_slots_disjoint:
  assumes inv: "pool_inv taken T (pl, a)" and p: "p \<in> pool_slots T pl" and q: "q \<in> set (slab_slots T (po_slab_slots pl) s)"
    and s: "bytes_at s (slab_bytes T (po_slab_slots pl)) \<inter> taken a = {}" "unat s + unat (slab_bytes T (po_slab_slots pl)) < 2 ^ 64"
  shows "p \<noteq> q"
proof -
  have T: "slot_type_ok T" "slab_ok (po_slab_slots pl)" using inv by (simp_all add: pool_inv_def)
  obtain t where t: "t \<in> set (po_slabs pl)" "p \<in> set (slab_slots T (po_slab_slots pl) t)"
    using p by (auto simp: pool_slots_def)
  have "unat t + unat (slab_bytes T (po_slab_slots pl)) < 2 ^ 64" "bytes_at t (slab_bytes T (po_slab_slots pl)) \<subseteq> taken a"
    using inv t(1) by (auto simp: pool_inv_def)
  then have "unat p \<in> taken a" using slots_in_slab(2) [OF T _ t(2)] by blast
  moreover have "unat q \<in> bytes_at s (slab_bytes T (po_slab_slots pl))" by (rule slots_in_slab(2) [OF T s(2) q])
  ultimately show ?thesis using s(1) by auto
qed

lemma finite_pool_slots: "finite (pool_slots T pl)"
  by (simp add: pool_slots_def)

context region_alloc
begin

lemma pool_grow:
  assumes a: "ok a" and inv: "pool_inv taken T (pl, a)" and free: "po_free pl = []"
    and run: "pool_grow_one T al (pl, a) = (r, pl', a')"
  shows "ok a'" and "taken a \<subseteq> taken a'" and "r = None \<Longrightarrow> pl' = pl"
    and "r = Some p \<Longrightarrow> p \<notin> pool_slots T pl \<and> pool_used T pl' = insert p (pool_used T pl) \<and>
      pool_inv taken T (pl'\<lparr>po_live := po_live pl' + 1\<rparr>, a')"
proof -
  let ?n = "po_slab_slots pl"
  let ?bytes = "slab_bytes T ?n"
  have T: "slot_type_ok T" "slab_ok ?n" using inv by (simp_all add: pool_inv_def)
  obtain s a1 where al: "al ?bytes (st_align T) a = (s, a1)" by (metis surj_pair)
  note req = sane_slab_request [OF T]
  have r: "(r, pl', a') = (if length (po_slabs pl) \<ge> kMaxSlabs then (None, pl, a)
      else case s of None \<Rightarrow> (None, pl, a1)
        | Some s \<Rightarrow> (Some (s + kSlabHeaderBytes T), pl\<lparr>po_slabs := s # po_slabs pl,
            po_free := map (\<lambda>i. s + kSlabHeaderBytes T + of_nat (i * st_size T)) [1..<?n]\<rparr>, a1))"
    using run al free by (auto simp: pool_grow_one_def Let_def slab_bytes_def fold_push split: if_splits option.splits)
  show "ok a'" "taken a \<subseteq> taken a'" "r = None \<Longrightarrow> pl' = pl"
    using r a alloc_keeps [OF a req al] alloc_mono [OF a req al] by (auto split: if_splits option.splits)
  assume "r = Some p"
  then obtain s' where s: "s = Some s'" and p: "p = s' + kSlabHeaderBytes T" and a': "a' = a1"
    and pl': "pl' = pl\<lparr>po_slabs := s' # po_slabs pl,
      po_free := map (\<lambda>i. s' + kSlabHeaderBytes T + of_nat (i * st_size T)) [1..<?n]\<rparr>"
    using r by (auto split: if_splits option.splits)
  have good: "unat s' + unat ?bytes < 2 ^ 64" "bytes_at s' ?bytes \<inter> taken a = {}" "bytes_at s' ?bytes \<subseteq> taken a'"
    using alloc_Some [OF a req al [unfolded s]] a' by auto
  have hd: "slab_slots T ?n s' = p # po_free pl'" using slab_slots_hd [OF T(2)] by (simp add: p pl')
  have dis: "distinct (p # po_free pl')" using distinct_slab_slots [OF T good(1)] hd by simp
  have new: "q \<notin> pool_slots T pl" if "q \<in> set (slab_slots T ?n s')" for q
    using pool_inv_slots_disjoint [OF inv _ that good(2,1)] by blast
  have slots: "pool_slots T pl' = insert p (set (po_free pl')) \<union> pool_slots T pl"
    using hd by (simp add: pool_slots_def pl')
  have used: "pool_used T pl = pool_slots T pl" using free by (simp add: pool_used_def)
  then have used': "pool_used T pl' = insert p (pool_used T pl)"
    using slots dis new hd by (auto simp: pool_used_def)
  have fresh: "p \<notin> pool_slots T pl" using new hd by simp
  have "card (pool_used T pl') = po_live pl' + 1"
    using inv used used' fresh finite_pool_slots [of T pl] by (simp add: pool_inv_def pl')
  moreover have "bytes_at t ?bytes \<subseteq> taken a'" "bytes_at s' ?bytes \<inter> bytes_at t ?bytes = {}" if t: "t \<in> set (po_slabs pl)" for t
  proof -
    have "bytes_at t ?bytes \<subseteq> taken a" using inv t by (simp add: pool_inv_def)
    then show "bytes_at t ?bytes \<subseteq> taken a'" "bytes_at s' ?bytes \<inter> bytes_at t ?bytes = {}"
      using good(2) \<open>taken a \<subseteq> taken a'\<close> by blast+
  qed
  moreover have "sorted_wrt (\<lambda>s t. bytes_at s ?bytes \<inter> bytes_at t ?bytes = {}) (po_slabs pl)"
    using inv by (simp add: pool_inv_def)
  moreover have "unat t + unat ?bytes < 2 ^ 64" if "t \<in> set (po_slabs pl)" for t
    using inv that by (auto simp: pool_inv_def)
  moreover have "po_slabs pl' = s' # po_slabs pl" "po_slab_slots pl' = ?n" "distinct (po_free pl')"
    using dis by (simp_all add: pl')
  moreover have "pool_slots T (pl'\<lparr>po_live := l\<rparr>) = pool_slots T pl'" "pool_used T (pl'\<lparr>po_live := l\<rparr>) = pool_used T pl'" for l
    by (simp_all add: pool_slots_def pool_used_def)
  ultimately have "pool_inv taken T (pl'\<lparr>po_live := po_live pl' + 1\<rparr>, a')"
    unfolding pool_inv_def using T good(1,3) slots by (auto simp del: Int_iff)
  then show "p \<notin> pool_slots T pl \<and> pool_used T pl' = insert p (pool_used T pl) \<and>
      pool_inv taken T (pl'\<lparr>po_live := po_live pl' + 1\<rparr>, a')"
    using fresh used' by simp
qed

lemma pool_acquire_spec:
  assumes a: "ok a" and inv: "pool_inv taken T (pl, a)" and run: "pool_acquire T al (pl, a) = (r, pl', a')"
  shows "ok a'" and "taken a \<subseteq> taken a'" and "pool_inv taken T (pl', a')"
    and "r = Some p \<Longrightarrow> p \<notin> pool_used T pl \<and> pool_used T pl' = insert p (pool_used T pl)"
    and "r = None \<Longrightarrow> pl' = pl"
proof -
  have T: "slot_type_ok T" "slab_ok (po_slab_slots pl)" using inv by (simp_all add: pool_inv_def)
  have "ok a' \<and> taken a \<subseteq> taken a' \<and> pool_inv taken T (pl', a') \<and> (r = None \<longrightarrow> pl' = pl) \<and>
    (\<forall>p. r = Some p \<longrightarrow> p \<notin> pool_used T pl \<and> pool_used T pl' = insert p (pool_used T pl))"
  proof (cases "po_free pl")
    case Nil
    obtain r1 pl1 a1 where g: "pool_grow_one T al (pl, a) = (r1, pl1, a1)" by (metis prod.collapse)
    note grow = pool_grow [OF a inv Nil g]
    have r: "(r, pl', a') = (if r1 = None then (None, pl1, a1) else (r1, pl1\<lparr>po_live := po_live pl1 + 1\<rparr>, a1))"
      using run g Nil by (simp add: pool_acquire_def pool_pop_free_def split: if_splits)
    have mono: "pool_inv taken T (pl, a1)" if "pl1 = pl"
      using inv grow(2) by (fastforce simp: pool_inv_def)
    show ?thesis
    proof (cases r1)
      case None
      then show ?thesis using r grow(1,2) grow(3) [OF None] mono by simp
    next
      case (Some p)
      have "p \<notin> pool_used T pl" using grow(4) [OF Some] by (simp add: pool_used_def)
      then show ?thesis using r grow(1,2) grow(4) [OF Some] Some by (simp add: pool_used_def pool_slots_def)
    qed
  next
    case (Cons p rest)
    then have r: "r = Some p" "pl' = pl\<lparr>po_free := rest, po_live := po_live pl + 1\<rparr>" "a' = a"
      using run by (simp_all add: pool_acquire_def pool_pop_free_def)
    have p: "p \<in> pool_slots T pl" "p \<notin> set rest" using inv Cons by (auto simp: pool_inv_def)
    then have used: "pool_used T pl' = insert p (pool_used T pl)" "p \<notin> pool_used T pl"
      using Cons r by (auto simp: pool_used_def pool_slots_def)
    have "finite (pool_used T pl)" using finite_pool_slots [of T pl] by (simp add: pool_used_def)
    then have "pool_inv taken T (pl', a)"
      using inv used Cons r by (auto simp: pool_inv_def pool_slots_def)
    then show ?thesis using r a used by simp
  qed
  then show "ok a'" "taken a \<subseteq> taken a'" "pool_inv taken T (pl', a')" "r = None \<Longrightarrow> pl' = pl"
    "r = Some p \<Longrightarrow> p \<notin> pool_used T pl \<and> pool_used T pl' = insert p (pool_used T pl)" by blast+
qed

end

lemma pool_release_spec:
  assumes inv: "pool_inv taken T (pl, a)" and p: "p \<in> pool_used T pl"
  shows "pool_inv taken T (pool_release p pl, a)" and "pool_used T (pool_release p pl) = pool_used T pl - {p}"
proof -
  show used: "pool_used T (pool_release p pl) = pool_used T pl - {p}"
    by (auto simp: pool_used_def pool_release_def pool_slots_def)
  have "finite (pool_used T pl)" using finite_pool_slots [of T pl] by (simp add: pool_used_def)
  then show "pool_inv taken T (pool_release p pl, a)"
    using inv p used by (auto simp: pool_inv_def pool_release_def pool_used_def pool_slots_def)
qed

text \<open>Two slots of a pool never overlap.\<close>

lemma slab_slots_apart:
  assumes T: "slot_type_ok T" "slab_ok n" and s: "unat s + unat (slab_bytes T n) < 2 ^ 64"
    and pq: "p \<in> set (slab_slots T n s)" "q \<in> set (slab_slots T n s)" "p \<noteq> q"
  shows "bytes_at p (of_nat (st_size T)) \<inter> bytes_at q (of_nat (st_size T)) = {}"
proof -
  obtain i j where i: "i < n" "p = s + kSlabHeaderBytes T + of_nat (i * st_size T)"
    and j: "j < n" "q = s + kSlabHeaderBytes T + of_nat (j * st_size T)"
    using pq by (auto simp: slab_slots_def)
  have size: "unat (of_nat (st_size T) :: u64) = st_size T"
    using T(1) unat_of_nat_small [of "st_size T"] by (auto simp: slot_type_ok_def)
  have "i < j \<or> j < i" using pq(3) i j by (cases i j rule: linorder_cases) auto
  moreover have "m * st_size T + st_size T \<le> l * st_size T" if "m < l" for m l
    using mult_le_mono1 [of "Suc m" l "st_size T"] that by simp
  ultimately show ?thesis
    using slot_address(1) [OF T s i(1), folded i(2)] slot_address(1) [OF T s j(1), folded j(2)] size
    by (fastforce simp: bytes_at_def)
qed

lemma pool_slots_apart:
  assumes inv: "pool_inv taken T (pl, a)" and p: "p \<in> pool_slots T pl" and q: "q \<in> pool_slots T pl" and ne: "p \<noteq> q"
  shows "bytes_at p (of_nat (st_size T)) \<inter> bytes_at q (of_nat (st_size T)) = {}"
proof -
  let ?n = "po_slab_slots pl" and ?b = "slab_bytes T (po_slab_slots pl)"
  have T: "slot_type_ok T" "slab_ok ?n" using inv by (simp_all add: pool_inv_def)
  obtain s t where s: "s \<in> set (po_slabs pl)" "p \<in> set (slab_slots T ?n s)"
    and t: "t \<in> set (po_slabs pl)" "q \<in> set (slab_slots T ?n t)"
    using p q by (auto simp: pool_slots_def)
  have end_ok: "unat s + unat ?b < 2 ^ 64" "unat t + unat ?b < 2 ^ 64" using inv s t by (auto simp: pool_inv_def)
  show ?thesis
  proof (cases "s = t")
    case True
    then show ?thesis using slab_slots_apart [OF T end_ok(1) s(2)] t(2) ne by simp
  next
    case False
    obtain i j where ij: "i < length (po_slabs pl)" "j < length (po_slabs pl)" "po_slabs pl ! i = s" "po_slabs pl ! j = t"
      using s t by (metis in_set_conv_nth)
    have "sorted_wrt (\<lambda>s t. bytes_at s ?b \<inter> bytes_at t ?b = {}) (po_slabs pl)" using inv by (simp add: pool_inv_def)
    then have "bytes_at s ?b \<inter> bytes_at t ?b = {}"
      using ij False by (cases i j rule: linorder_cases) (auto simp: sorted_wrt_iff_nth_less)
    then show ?thesis
      using slots_in_slab(1) [OF T end_ok(1) s(2)] slots_in_slab(1) [OF T end_ok(2) t(2)] by blast
  qed
qed

section \<open>Properties\<close>

text \<open>A concrete \<open>malloc\<close>: it hands out the address space from the bottom up.\<close>

definition demo_malloc :: "nat mallocator" where
  "demo_malloc n m = (if 0 < m \<and> m + unat n < 2 ^ 64 then (Some (of_nat m), m + unat n) else (None, m))"

lemma demo_malloc_ok: "malloc_ok demo_malloc (\<lambda>m. {..<m})"
proof -
  have nz: "(of_nat m :: u64) \<noteq> 0" if "0 < m" "m < 2 ^ 64" for m
    using that unat_of_nat_small [of m] by (metis less_numeral_extra(3) unat_0)
  show ?thesis
    unfolding malloc_ok_def demo_malloc_def
    by (auto simp: bytes_at_def unat_of_nat_small nz split: if_splits)
qed




definition demo_pool :: "slot_type \<times> pool" where
  "demo_pool = (\<lparr>st_size = 160, st_align = 8\<rparr>, pool_new 4)"


text \<open>
A request near the top of the size type wraps both sums of the code: instead of failing, \<open>alloc\<close>
with \<open>SIZE_MAX\<close> returns a pointer into an ordinary block, and moves the fill mark back by a byte.
\<close>

theorem arena_huge_request_succeeds:
  assumes "ar_blocks ar = b # bs" and "64 \<le> ar_block_bytes ar"
    and "(bk_addr b + kBlockHeaderBytes + bk_off b) AND 7 = 0" and "0 < bk_off b" and "bk_off b \<le> bk_cap b"
  shows "ar_alloc mal (- 1) 8 (ar, m) =
    (Some (bk_addr b + kBlockHeaderBytes + bk_off b),
     ar\<lparr>ar_blocks := b\<lparr>bk_off := bk_off b - 1\<rparr> # bs, ar_used := ar_used ar - 1\<rparr>, m)"
proof -
  define x where "x = bk_addr b + kBlockHeaderBytes + bk_off b"
  have x: "\<not> bit x n \<or> \<not> bit (7 :: u64) n" for n
    using assms(3) by (metis bit_and_iff bit_0_eq bot_apply bot_bool_def x_def)
  have off: "x - (bk_addr b + kBlockHeaderBytes) = bk_off b" by (simp add: x_def)
  have "(x + 7) AND NOT 7 = x"
    unfolding disjunctive_add [OF x] by (rule bit_word_eqI) (use x in \<open>auto simp: bit_simps\<close>)
  then have "bump_from b (- 1) 8 = (if bk_off b - 1 > bk_cap b then None else Some (x, b\<lparr>bk_off := bk_off b - 1\<rparr>))"
    using off by (simp add: bump_from_def Let_def x_def [symmetric])
  moreover have "\<not> bk_off b - 1 > bk_cap b"
    using assms(4,5) by (simp add: word_less_nat_alt word_le_nat_alt unat_sub)
  moreover have "\<not> (7 :: u64) > ar_block_bytes ar"
    using assms(2) by (simp add: word_less_nat_alt word_le_nat_alt)
  ultimately show ?thesis using assms(1) by (simp add: ar_alloc_def x_def)
qed

theorem arena_huge_request_succeeds_witness:
  "ar_alloc demo_malloc (- 1) 8
      (\<lparr>ar_block_bytes = 64, ar_blocks = [\<lparr>bk_addr = 4096, bk_cap = 64, bk_off = 8\<rparr>], ar_used = 8, ar_n_blocks = 1\<rparr>, 0) =
    (Some 4136, \<lparr>ar_block_bytes = 64, ar_blocks = [\<lparr>bk_addr = 4096, bk_cap = 64, bk_off = 7\<rparr>], ar_used = 7, ar_n_blocks = 1\<rparr>, 0)"
  by (subst arena_huge_request_succeeds [where b = "\<lparr>bk_addr = 4096, bk_cap = 64, bk_off = 8\<rparr>" and bs = "[]"])
    (simp_all add: kBlockHeaderBytes_def)

end
