(* ===== verification/Ycpp_Doc.thy ===== *)
theory Ycpp_Doc
  imports Ycpp_Encode Ycpp_YMap Ycpp_YText Ycpp_Move Ycpp_SubDoc Ycpp_Pool
begin

text \<open>
  The document of ycpp_doc.h, which ties the components together: the pools, the store of items,
  the delete set, the maps and sequences by root name, the sub-documents and the local clock.  The
  objects the pools hold (items, maps, sequences) live in heaps from addresses to their contents.

  Operations of the code that may loop on the links of a list, or that read through the entry
  pointer of an insertion that can be null, are partial: \<open>Some (r, d)\<close> is a call that returns, \<open>None\<close>
  one without a defined outcome.
\<close>

section \<open>State\<close>

record 'a doc =
  d_alloc :: 'a
  d_heap :: item_heap
  d_item_pool :: pool
  d_map_heap :: "addr \<Rightarrow> ymap"
  d_map_pool :: pool
  d_array_heap :: "addr \<Rightarrow> addr option"
  d_array_pool :: pool
  d_store :: struct_store
  d_deletes :: delete_set
  d_roots :: "(bytes, addr) hashmap"
  d_arrays :: "(bytes, addr) hashmap"
  d_sub_docs :: sub_docs
  d_client_id :: u64
  d_next_clock :: u64

definition item_slot :: slot_type where
  "item_slot = \<lparr>st_size = 160, st_align = 8\<rparr>"

definition map_slot :: slot_type where
  "map_slot = \<lparr>st_size = 56, st_align = 8\<rparr>"

definition array_slot :: slot_type where
  "array_slot = \<lparr>st_size = 8, st_align = 8\<rparr>"

definition doc_new :: "u64 \<Rightarrow> 'a \<Rightarrow> 'a doc" where
  "doc_new client a = \<lparr>d_alloc = a, d_heap = (\<lambda>_. item_default), d_item_pool = pool_new 256,
     d_map_heap = (\<lambda>_. hm_empty), d_map_pool = pool_new 8,
     d_array_heap = (\<lambda>_. None), d_array_pool = pool_new 8,
     d_store = ss_empty, d_deletes = ds_empty, d_roots = hm_empty, d_arrays = hm_empty,
     d_sub_docs = sd_empty, d_client_id = client, d_next_clock = 0\<rparr>"

text \<open>Partial operations and the early return of \<open>YCPP_TRY\<close> in them.\<close>

type_synonym ('s, 'r) pop = "'s \<Rightarrow> ('r result \<times> 's) option"

definition ptry :: "('s, 'a) pop \<Rightarrow> ('a \<Rightarrow> ('s, 'b) pop) \<Rightarrow> ('s, 'b) pop" where
  "ptry m k s = (case m s of None \<Rightarrow> None | Some (Inl e, s) \<Rightarrow> Some (Inl e, s) | Some (Inr x, s) \<Rightarrow> k x s)"

text \<open>Calls on one component of the document.\<close>

definition doc_clone :: "(u64, 'a) hm_env \<Rightarrow> bytes \<Rightarrow> 'a doc \<Rightarrow> bytes option \<times> 'a doc" where
  "doc_clone E v d = (case clone_view (he_alloc E) v (d_alloc d) of (owned, a) \<Rightarrow> (owned, d\<lparr>d_alloc := a\<rparr>))"

definition doc_acquire_item :: "(u64, 'a) hm_env \<Rightarrow> 'a doc \<Rightarrow> addr option \<times> 'a doc" where
  "doc_acquire_item E d =
     (case pool_acquire item_slot (he_alloc E) (d_item_pool d, d_alloc d) of
        (it, pl, a) \<Rightarrow> (it, d\<lparr>d_item_pool := pl, d_alloc := a,
          d_heap := (case it of None \<Rightarrow> d_heap d | Some p \<Rightarrow> (d_heap d)(p := item_default))\<rparr>))"

definition doc_release_item :: "addr \<Rightarrow> 'a doc \<Rightarrow> 'a doc" where
  "doc_release_item it d = d\<lparr>d_item_pool := pool_release it (d_item_pool d)\<rparr>"

definition doc_append :: "(u64, 'a) hm_env \<Rightarrow> addr \<Rightarrow> ('a doc, unit) op" where
  "doc_append E it d =
     (case ss_append E (d_heap d) it (d_store d, d_alloc d) of
        (r, ss, a) \<Rightarrow> (r, d\<lparr>d_store := ss, d_alloc := a\<rparr>))"

definition doc_delete :: "(u64, 'a) hm_env \<Rightarrow> u64 \<Rightarrow> u64 \<Rightarrow> u64 \<Rightarrow> ('a doc, unit) op" where
  "doc_delete E client clk len d =
     (case ds_add E client clk len (d_deletes d, d_alloc d) of
        (r, ds, a) \<Rightarrow> (r, d\<lparr>d_deletes := ds, d_alloc := a\<rparr>))"

definition doc_find :: "(u64, 'a) hm_env \<Rightarrow> 'a doc \<Rightarrow> yid \<Rightarrow> addr option" where
  "doc_find E d i = ss_find_by_id E (d_heap d) i (d_store d)"

text \<open>The length an item takes on the clock, \<open>it->length == 0 ? 1 : it->length\<close>, and the id of its last clock.\<close>

definition run_length :: "item \<Rightarrow> u64" where
  "run_length it = (if it_length it = 0 then 1 else it_length it)"

definition last_clock_id :: "item \<Rightarrow> yid" where
  "last_clock_id it = Id (id_client (it_id it)) (id_clock (it_id it) + run_length it - 1)"

section \<open>Roots\<close>

definition find_map :: "(u64, 'a) hm_env \<Rightarrow> bytes \<Rightarrow> 'a doc \<Rightarrow> addr option" where
  "find_map E name d = hm_get (view_env E 24) name (d_roots d)"

text \<open>
  When the insertion fails for want of memory its entry pointer is null, and the code reads
  \<open>entry->value\<close> all the same.
\<close>

definition get_or_create_map :: "(u64, 'a) hm_env \<Rightarrow> bytes \<Rightarrow> 'a doc \<Rightarrow> (addr option \<times> 'a doc) option" where
  "get_or_create_map E name d =
     (case hm_get (view_env E 24) name (d_roots d) of
        Some m \<Rightarrow> Some (Some m, d)
      | None \<Rightarrow>
          let (owned, d) = doc_clone E name d in
          if owned = None then Some (None, d)
          else
            (case pool_acquire map_slot (he_alloc E) (d_map_pool d, d_alloc d) of
               (None, pl, a) \<Rightarrow> Some (None, d\<lparr>d_map_pool := pl, d_alloc := a\<rparr>)
             | (Some m, pl, a) \<Rightarrow>
                 let d = d\<lparr>d_map_pool := pl, d_map_heap := (d_map_heap d)(m := hm_empty)\<rparr> in
                 (case hm_insert (view_env E 24) (the owned) m (d_roots d, a) of
                    (None, roots, a) \<Rightarrow> None
                  | (Some (i, inserted), roots, a) \<Rightarrow>
                      let d = d\<lparr>d_roots := roots, d_alloc := a\<rparr> in
                      if \<not> inserted
                      then Some (Some (hm_value roots i), d\<lparr>d_map_pool := pool_release m (d_map_pool d)\<rparr>)
                      else Some (Some m, d))))"

definition get_or_create_array :: "(u64, 'a) hm_env \<Rightarrow> bytes \<Rightarrow> 'a doc \<Rightarrow> (addr option \<times> 'a doc) option" where
  "get_or_create_array E name d =
     (case hm_get (view_env E 24) name (d_arrays d) of
        Some arr \<Rightarrow> Some (Some arr, d)
      | None \<Rightarrow>
          let (owned, d) = doc_clone E name d in
          if owned = None then Some (None, d)
          else
            (case pool_acquire array_slot (he_alloc E) (d_array_pool d, d_alloc d) of
               (None, pl, a) \<Rightarrow> Some (None, d\<lparr>d_array_pool := pl, d_alloc := a\<rparr>)
             | (Some arr, pl, a) \<Rightarrow>
                 let d = d\<lparr>d_array_pool := pl, d_array_heap := (d_array_heap d)(arr := None)\<rparr> in
                 (case hm_insert (view_env E 24) (the owned) arr (d_arrays d, a) of
                    (None, arrays, a) \<Rightarrow> None
                  | (Some (i, inserted), arrays, a) \<Rightarrow>
                      let d = d\<lparr>d_arrays := arrays, d_alloc := a\<rparr> in
                      if \<not> inserted
                      then Some (Some (hm_value arrays i), d\<lparr>d_array_pool := pool_release arr (d_array_pool d)\<rparr>)
                      else Some (Some arr, d))))"

section \<open>Installing an item\<close>

definition bump_clock_for :: "addr \<Rightarrow> 'a doc \<Rightarrow> 'a doc" where
  "bump_clock_for it d =
     (let x = d_heap d it in
      if id_client (it_id x) = d_client_id d then
        let e = id_clock (it_id x) + run_length x
        in if e > d_next_clock d then d\<lparr>d_next_clock := e\<rparr> else d
      else d)"

definition install_bare :: "(u64, 'a) hm_env \<Rightarrow> addr \<Rightarrow> ('a doc, unit) op" where
  "install_bare E it d =
     (case doc_append E it d of
        (Inl e, d) \<Rightarrow> (Inl e, doc_release_item it d)
      | (Inr _, d) \<Rightarrow> (Inr (), bump_clock_for it d))"

definition install_into_map :: "(u64, 'a) hm_env \<Rightarrow> addr \<Rightarrow> addr \<Rightarrow> ('a doc, unit) op" where
  "install_into_map E it m d =
     (case doc_append E it d of
        (Inl e, d) \<Rightarrow> (Inl e, doc_release_item it d)
      | (Inr _, d) \<Rightarrow>
          let (loser, mm, a) = ym_integrate (view_env E 24) (doc_find E d) (d_heap d) it (d_map_heap d m, d_alloc d);
              d = d\<lparr>d_map_heap := (d_map_heap d)(m := mm), d_alloc := a\<rparr>
          in (case loser of
                None \<Rightarrow> (Inr (), bump_clock_for it d)
              | Some l \<Rightarrow>
                  let d = d\<lparr>d_heap := (d_heap d)(l := set_deleted (d_heap d l))\<rparr>; x = d_heap d l
                  in ytry (doc_delete E (id_client (it_id x)) (id_clock (it_id x)) (run_length x))
                       (\<lambda>_ d. (Inr (), bump_clock_for it d)) d))"

text \<open>The move operation of an installed item; the returned pending reference of \<open>apply_move\<close> is dropped.\<close>

definition doc_apply_move :: "(u64, 'a) hm_env \<Rightarrow> addr \<Rightarrow> ('a doc, unit) pop" where
  "doc_apply_move E it d =
     (if it_content_kind (d_heap d it) = kMove then
        (case decode_move (it_content_view (d_heap d it)) of
           Inl _ \<Rightarrow> Some (Inr (), d)
         | Inr mv \<Rightarrow>
             (case apply_move (doc_find E d) it mv (d_heap d) of
                None \<Rightarrow> None
              | Some (as, h) \<Rightarrow>
                  Some (if as \<noteq> Inr () \<and> as \<noteq> Inl kPendingReference then as else Inr (), d\<lparr>d_heap := h\<rparr>)))
      else Some (Inr (), d))"

definition install_into_array :: "(u64, 'a) hm_env \<Rightarrow> addr \<Rightarrow> addr \<Rightarrow> ('a doc, unit) pop" where
  "install_into_array E it arr d =
     (case doc_append E it d of
        (Inl e, d) \<Rightarrow> Some (Inl e, doc_release_item it d)
      | (Inr _, d) \<Rightarrow>
          (case ya_integrate E (d_store d) it (d_heap d, d_array_heap d arr) of
             (Inl e, h, start) \<Rightarrow> Some (Inl e, d\<lparr>d_heap := h, d_array_heap := (d_array_heap d)(arr := start)\<rparr>)
           | (Inr _, h, start) \<Rightarrow>
               ptry (doc_apply_move E it) (\<lambda>_ d. Some (Inr (), bump_clock_for it d))
                 (d\<lparr>d_heap := h, d_array_heap := (d_array_heap d)(arr := start)\<rparr>)))"

section \<open>Local edits\<close>

text \<open>The fields a local edit gives its item; the rest is as the constructor left it.\<close>

definition local_item :: "'a doc \<Rightarrow> yid \<Rightarrow> yid \<Rightarrow> bytes \<Rightarrow> bytes \<Rightarrow> bytes \<Rightarrow> item" where
  "local_item d origin_left origin_right name key value =
     (let n = utf16_length_of_utf8 value in
      item_default\<lparr>it_id := Id (d_client_id d) (d_next_clock d), it_origin_left := origin_left,
        it_origin_right := origin_right, it_parent_ref := kRootName, it_parent_name := name,
        it_parent_sub := key, it_content_kind := kString, it_length := (if n = 0 then 1 else n),
        it_content_view := value\<rparr>)"

definition map_set_string :: "(u64, 'a) hm_env \<Rightarrow> bytes \<Rightarrow> bytes \<Rightarrow> bytes \<Rightarrow> ('a doc, yid) pop" where
  "map_set_string E root_name key value d =
     (case get_or_create_map E root_name d of
        None \<Rightarrow> None
      | Some (None, d) \<Rightarrow> Some (Inl kOutOfMemory, d)
      | Some (Some m, d) \<Rightarrow>
          let (it, d) = doc_acquire_item E d in
          (case it of
             None \<Rightarrow> Some (Inl kOutOfMemory, d)
           | Some it \<Rightarrow>
               let (owned_name, d) = doc_clone E root_name d;
                   (owned_key, d) = doc_clone E key d;
                   (owned_value, d) = doc_clone E value d
               in if owned_name = None \<or> owned_key = None \<or> owned_value = None
                  then Some (Inl kOutOfMemory, doc_release_item it d)
                  else
                    let prior = ym_raw_head (view_env E 24) (the owned_key) (d_map_heap d m);
                        origin_left = (case prior of None \<Rightarrow> kInvalidId | Some p \<Rightarrow> last_clock_id (d_heap d p));
                        x = local_item d origin_left kInvalidId (the owned_name) (the owned_key) (the owned_value);
                        d = d\<lparr>d_heap := (d_heap d)(it := x)\<rparr>
                    in Some (ytry (install_into_map E it m) (\<lambda>_ d. (Inr (it_id (d_heap d it)), d)) d)))"

definition emit_array_item ::
    "(u64, 'a) hm_env \<Rightarrow> addr \<Rightarrow> bytes \<Rightarrow> yid \<Rightarrow> yid \<Rightarrow> bytes \<Rightarrow> ('a doc, yid) pop" where
  "emit_array_item E arr root_name origin_left origin_right value d =
     (let (it, d) = doc_acquire_item E d in
      case it of
        None \<Rightarrow> Some (Inl kOutOfMemory, d)
      | Some it \<Rightarrow>
          let (owned_name, d) = doc_clone E root_name d;
              (owned_value, d) = doc_clone E value d
          in if owned_name = None \<or> owned_value = None
             then Some (Inl kOutOfMemory, doc_release_item it d)
             else
               let x = local_item d origin_left origin_right (the owned_name) [] (the owned_value);
                   d = d\<lparr>d_heap := (d_heap d)(it := x)\<rparr>
               in ptry (install_into_array E it arr) (\<lambda>_ d. Some (Inr (it_id (d_heap d it)), d)) d)"

text \<open>
  The walk to an index among the live items: the predecessor, the successor and the number of live
  items seen, or the status it returns early with.
\<close>

partial_function (option) seek_index ::
    "item_heap \<Rightarrow> addr option \<Rightarrow> u64 \<Rightarrow> u64 \<Rightarrow> addr option \<Rightarrow> (addr option \<times> addr option \<times> u64) result option" where
  "seek_index h it index live_seen predecessor =
     (case it of
        None \<Rightarrow> Some (Inr (predecessor, None, live_seen))
      | Some p \<Rightarrow>
          if deleted (h p) then seek_index h (it_right (h p)) index live_seen predecessor
          else if live_seen = index then Some (Inr (predecessor, Some p, live_seen))
          else if live_seen + 1 > index then Some (Inl kOutOfBounds)
          else seek_index h (it_right (h p)) index (live_seen + 1) (Some p))"

definition array_insert_at :: "(u64, 'a) hm_env \<Rightarrow> bytes \<Rightarrow> u64 \<Rightarrow> bytes \<Rightarrow> ('a doc, yid) pop" where
  "array_insert_at E root_name index value d =
     (case get_or_create_array E root_name d of
        None \<Rightarrow> None
      | Some (None, d) \<Rightarrow> Some (Inl kOutOfMemory, d)
      | Some (Some arr, d) \<Rightarrow>
          (case seek_index (d_heap d) (d_array_heap d arr) index 0 None of
             None \<Rightarrow> None
           | Some (Inl e) \<Rightarrow> Some (Inl e, d)
           | Some (Inr (predecessor, successor, live_seen)) \<Rightarrow>
               let live_total = live_seen + (if predecessor \<noteq> None then 1 else 0) in
               if successor = None \<and> index > live_total then Some (Inl kOutOfBounds, d)
               else
                 let origin_left = (case predecessor of None \<Rightarrow> kInvalidId | Some p \<Rightarrow> last_clock_id (d_heap d p));
                     origin_right = (case successor of None \<Rightarrow> kInvalidId | Some s \<Rightarrow> it_id (d_heap d s))
                 in emit_array_item E arr root_name origin_left origin_right value d))"

partial_function (option) live_tail :: "item_heap \<Rightarrow> addr option \<Rightarrow> addr option \<Rightarrow> addr option option" where
  "live_tail h it tail =
     (case it of
        None \<Rightarrow> Some tail
      | Some p \<Rightarrow> live_tail h (it_right (h p)) (if \<not> deleted (h p) then Some p else tail))"

definition text_append :: "(u64, 'a) hm_env \<Rightarrow> bytes \<Rightarrow> bytes \<Rightarrow> ('a doc, yid) pop" where
  "text_append E root_name value d =
     (case get_or_create_array E root_name d of
        None \<Rightarrow> None
      | Some (None, d) \<Rightarrow> Some (Inl kOutOfMemory, d)
      | Some (Some arr, d) \<Rightarrow>
          (case live_tail (d_heap d) (d_array_heap d arr) None of
             None \<Rightarrow> None
           | Some tail \<Rightarrow>
               let origin_left = (case tail of None \<Rightarrow> kInvalidId | Some p \<Rightarrow> last_clock_id (d_heap d p))
               in emit_array_item E arr root_name origin_left kInvalidId value d))"

definition array_delete_at :: "(u64, 'a) hm_env \<Rightarrow> bytes \<Rightarrow> u64 \<Rightarrow> ('a doc, unit) pop" where
  "array_delete_at E root_name index d =
     (case get_or_create_array E root_name d of
        None \<Rightarrow> None
      | Some (None, d) \<Rightarrow> Some (Inl kOutOfMemory, d)
      | Some (Some arr, d) \<Rightarrow>
          (case ya_at (d_heap d) (d_array_heap d arr) index of
             None \<Rightarrow> None
           | Some None \<Rightarrow> Some (Inl kOutOfBounds, d)
           | Some (Some target) \<Rightarrow>
               let d = d\<lparr>d_heap := ya_mark_deleted target (d_heap d)\<rparr>; x = d_heap d target
               in Some (doc_delete E (id_client (it_id x)) (id_clock (it_id x)) (run_length x) d)))"

section \<open>Applying updates\<close>

definition is_value_kind :: "content_kind \<Rightarrow> bool" where
  "is_value_kind k \<longleftrightarrow> k = kString \<or> k = kJson \<or> k = kBinary \<or> k = kAny"

definition is_sequence_kind :: "content_kind \<Rightarrow> bool" where
  "is_sequence_kind k \<longleftrightarrow> is_value_kind k \<or> k = kFormat \<or> k = kMove \<or> k = kEmbed"

definition kMaxParentHops :: nat where
  "kMaxParentHops = 1024"

definition some_origin :: "item \<Rightarrow> yid" where
  "some_origin x = (if is_valid (it_origin_left x) then it_origin_left x
     else if is_valid (it_origin_right x) then it_origin_right x else kInvalidId)"

primrec inherit_loop :: "nat \<Rightarrow> (yid \<Rightarrow> addr option) \<Rightarrow> item_heap \<Rightarrow> yid \<Rightarrow> item \<Rightarrow> item" where
  "inherit_loop 0 by_id h cursor x = x"
| "inherit_loop (Suc hops) by_id h cursor x =
     (if \<not> is_valid cursor then x
      else
        (case by_id cursor of
           None \<Rightarrow> x
         | Some pred \<Rightarrow>
             let p = h pred in
             if it_parent_ref p \<noteq> kNone then
               x\<lparr>it_parent_ref := it_parent_ref p, it_parent_id := it_parent_id p, it_parent_name := it_parent_name p,
                 it_parent_sub := (if length (it_parent_sub x) = 0 then it_parent_sub p else it_parent_sub x)\<rparr>
             else inherit_loop hops by_id h (some_origin p) x))"

definition inherit_parent_from_origin :: "(yid \<Rightarrow> addr option) \<Rightarrow> item_heap \<Rightarrow> item \<Rightarrow> item" where
  "inherit_parent_from_origin by_id h x = inherit_loop kMaxParentHops by_id h (some_origin x) x"

text \<open>Where an item with its parent resolved goes.\<close>

definition doc_route :: "(u64, 'a) hm_env \<Rightarrow> addr \<Rightarrow> ('a doc, unit) pop" where
  "doc_route E it d =
     (let x = d_heap d it;
          is_map_value = (it_parent_ref x = kRootName \<and> length (it_parent_sub x) > 0 \<and> is_value_kind (it_content_kind x));
          is_array_item = (it_parent_ref x = kRootName \<and> length (it_parent_sub x) = 0 \<and> is_sequence_kind (it_content_kind x))
      in
      if is_map_value then
        (case get_or_create_map E (it_parent_name x) d of
           None \<Rightarrow> None
         | Some (None, d) \<Rightarrow> Some (Inl kOutOfMemory, doc_release_item it d)
         | Some (Some m, d) \<Rightarrow> Some (install_into_map E it m d))
      else if is_array_item then
        (case get_or_create_array E (it_parent_name x) d of
           None \<Rightarrow> None
         | Some (None, d) \<Rightarrow> Some (Inl kOutOfMemory, doc_release_item it d)
         | Some (Some arr, d) \<Rightarrow> install_into_array E it arr d)
      else if it_content_kind x = kDoc then
        (case sd_install (view_env E 64) (it_id x) (it_content_view x) (d_sub_docs d, d_alloc d) of
           (Inl e, sd, a) \<Rightarrow> Some (Inl e, doc_release_item it (d\<lparr>d_sub_docs := sd, d_alloc := a\<rparr>))
         | (Inr _, sd, a) \<Rightarrow> Some (install_bare E it (d\<lparr>d_sub_docs := sd, d_alloc := a\<rparr>)))
      else Some (install_bare E it d))"

definition apply_one :: "(u64, 'a) hm_env \<Rightarrow> decoded_struct \<Rightarrow> ('a doc, unit) pop" where
  "apply_one E s d =
     (if doc_find E d (s_id s) \<noteq> None then Some (Inr (), d)
      else if s_parent_ref s = kNone \<and> is_valid (s_origin_left s) \<and> doc_find E d (s_origin_left s) = None
        then Some (Inl kPendingReference, d)
      else if s_parent_ref s = kNone \<and> is_valid (s_origin_right s) \<and> doc_find E d (s_origin_right s) = None
        then Some (Inl kPendingReference, d)
      else
        let (it, d) = doc_acquire_item E d in
        (case it of
           None \<Rightarrow> Some (Inl kOutOfMemory, d)
         | Some it \<Rightarrow>
             let (owned_name, d) = doc_clone E (s_parent_name s) d;
                 (owned_sub, d) = doc_clone E (s_parent_sub s) d;
                 (owned_view, d) = doc_clone E (s_content_view s) d
             in if owned_name = None \<or> owned_sub = None \<or> owned_view = None
                then Some (Inl kOutOfMemory, doc_release_item it d)
                else
                  let x = (struct_item s)\<lparr>it_parent_name := the owned_name, it_parent_sub := the owned_sub,
                        it_content_view := the owned_view\<rparr>;
                      d = d\<lparr>d_heap := (d_heap d)(it := x)\<rparr>;
                      x = (if it_parent_ref x = kNone then inherit_parent_from_origin (doc_find E d) (d_heap d) x else x)
                  in doc_route E it (d\<lparr>d_heap := (d_heap d)(it := x)\<rparr>)))"

text \<open>One pass over the structs, each with its \<open>done\<close> flag; the flag of the result is \<open>progress\<close>.\<close>

fun apply_pass :: "(u64, 'a) hm_env \<Rightarrow> (decoded_struct \<times> bool) list \<Rightarrow> ('a doc, (decoded_struct \<times> bool) list \<times> bool) pop" where
  "apply_pass E [] d = Some (Inr ([], False), d)"
| "apply_pass E ((s, True) # xs) d =
     ptry (apply_pass E xs) (\<lambda>(ys, progress) d. Some (Inr ((s, True) # ys, progress), d)) d"
| "apply_pass E ((s, False) # xs) d =
     (case apply_one E s d of
        None \<Rightarrow> None
      | Some (Inr _, d) \<Rightarrow>
          ptry (apply_pass E xs) (\<lambda>(ys, progress) d. Some (Inr ((s, True) # ys, True), d)) d
      | Some (Inl e, d) \<Rightarrow>
          if e = kPendingReference
          then ptry (apply_pass E xs) (\<lambda>(ys, progress) d. Some (Inr ((s, False) # ys, progress), d)) d
          else Some (Inl e, d))"

definition remaining :: "(decoded_struct \<times> bool) list \<Rightarrow> nat" where
  "remaining xs = length (filter (\<lambda>x. \<not> snd x) xs)"

text \<open>The passes, at most \<open>n + 1\<close>, until nothing remains or a pass makes no progress.\<close>

primrec apply_passes :: "(u64, 'a) hm_env \<Rightarrow> nat \<Rightarrow> (decoded_struct \<times> bool) list \<Rightarrow> ('a doc, (decoded_struct \<times> bool) list) pop" where
  "apply_passes E 0 xs d = Some (Inr xs, d)"
| "apply_passes E (Suc fuel) xs d =
     (if remaining xs = 0 then Some (Inr xs, d)
      else ptry (apply_pass E xs)
        (\<lambda>(ys, progress) d. if \<not> progress then Some (Inr ys, d) else apply_passes E fuel ys d) d)"

definition apply_structs :: "(u64, 'a) hm_env \<Rightarrow> decoded_struct list \<Rightarrow> ('a doc, unit) pop" where
  "apply_structs E ss d =
     (if length ss = 0 then Some (Inr (), d)
      else
        let (flags, a) = (if length ss \<le> 256 then (Some 0, d_alloc d) else he_alloc E (of_nat (length ss)) 1 (d_alloc d));
            d = d\<lparr>d_alloc := a\<rparr>
        in if flags = None then Some (Inl kOutOfMemory, d)
           else ptry (apply_passes E (length ss + 1) (map (\<lambda>s. (s, False)) ss))
             (\<lambda>xs d. Some (if remaining xs > 0 then Inl kPendingReference else Inr (), d)) d)"

definition mark_range_deleted :: "(u64, 'a) hm_env \<Rightarrow> u64 \<Rightarrow> u64 \<Rightarrow> u64 \<Rightarrow> 'a doc \<Rightarrow> 'a doc" where
  "mark_range_deleted E client clock_start len d =
     fold (\<lambda>off d. case doc_find E d (Id client (clock_start + of_nat off)) of
        None \<Rightarrow> d
      | Some p \<Rightarrow> d\<lparr>d_heap := (d_heap d)(p := set_deleted (d_heap d p))\<rparr>) [0..<unat len] d"

definition apply_deletes :: "(u64, 'a) hm_env \<Rightarrow> (u64 \<times> delete_range list) list \<Rightarrow> ('a doc, unit) op" where
  "apply_deletes E =
     yforeach (\<lambda>(client, rs). yforeach (\<lambda>r.
       ytry (doc_delete E client (dr_clock_start r) (dr_length r)) (\<lambda>_ d.
         (Inr (), mark_range_deleted E client (dr_clock_start r) (dr_length r) d))) rs)"

definition apply_update_v1 :: "(u64, 'a) hm_env \<Rightarrow> bytes \<Rightarrow> ('a doc, unit) pop" where
  "apply_update_v1 E bs d =
     (case decode_update_v1 E bs (du_empty, d_alloc d) of
        (Inl e, du, a) \<Rightarrow> Some (Inl e, d\<lparr>d_alloc := a\<rparr>)
      | (Inr _, du, a) \<Rightarrow>
          ptry (apply_structs E (du_structs du))
            (\<lambda>_ d. Some (apply_deletes E (ds_items E (du_delete_set du)) d)) (d\<lparr>d_alloc := a\<rparr>))"

text \<open>The stubs of ycpp_update_v2.h.\<close>

definition apply_update_v2 :: "bytes \<Rightarrow> ('a doc, unit) op" where
  "apply_update_v2 bs d = (Inl kUnsupportedFormat, d)"

definition encode_diff_v2 :: "'a doc \<Rightarrow> ((u64, 'b) hm_env \<times> state_vector) option \<Rightarrow> (writer, unit) op" where
  "encode_diff_v2 d since w = (Inl kUnsupportedFormat, w)"

section \<open>Reading the document out\<close>

definition doc_state_vector :: "(u64, 'a) hm_env \<Rightarrow> (u64, 'b) hm_env \<Rightarrow> 'a doc \<Rightarrow> (state_vector \<times> 'b, unit) op" where
  "doc_state_vector E E' d =
     yforeach (\<lambda>(client, items). sv_set E' client (ss_state E (d_heap d) client (d_store d))) (ss_items E (d_store d))"

text \<open>The clock a peer has reached for a client; a null state vector counts as empty.\<close>

definition since_clock :: "((u64, 'b) hm_env \<times> state_vector) option \<Rightarrow> u64 \<Rightarrow> u64" where
  "since_clock since client = (case since of None \<Rightarrow> 0 | Some (E', sv) \<Rightarrow> sv_get E' client sv)"

definition encode_client :: "item_heap \<Rightarrow> u64 \<Rightarrow> u64 \<Rightarrow> addr list \<Rightarrow> (writer, unit) op" where
  "encode_client h since client items =
     (let emit = dropWhile (\<lambda>p. id_clock (it_id (h p)) < since) items in
      if length emit = 0 then yreturn ()
      else
        ytry (w_varint_u64 (of_nat (length emit))) (\<lambda>_.
        ytry (w_varint_u64 client) (\<lambda>_.
        ytry (w_varint_u64 (id_clock (it_id (h (hd emit))))) (\<lambda>_.
        yforeach (\<lambda>p. write_struct (h p)) emit))))"

definition encode_diff_v1 :: "(u64, 'a) hm_env \<Rightarrow> 'a doc \<Rightarrow> ((u64, 'b) hm_env \<times> state_vector) option \<Rightarrow> (writer, unit) op" where
  "encode_diff_v1 E d since =
     (let h = d_heap d;
          clients = ss_items E (d_store d);
          n = length (filter (\<lambda>(client, items). \<exists>p \<in> set items. id_clock (it_id (h p)) \<ge> since_clock since client) clients)
      in ytry (w_varint_u64 (of_nat n)) (\<lambda>_.
         ytry (yforeach (\<lambda>(client, items). encode_client h (since_clock since client) client items) clients) (\<lambda>_.
         ds_encode E (d_deletes d))))"

section \<open>Compaction\<close>

definition id_range_contains :: "yid \<Rightarrow> item \<Rightarrow> bool" where
  "id_range_contains origin target \<longleftrightarrow>
     (if \<not> is_valid origin \<or> id_client origin \<noteq> id_client (it_id target) \<or> id_clock origin < id_clock (it_id target)
      then False else id_clock origin - id_clock (it_id target) < run_length target)"

definition is_origin_referent :: "(u64, 'a) hm_env \<Rightarrow> 'a doc \<Rightarrow> item \<Rightarrow> bool" where
  "is_origin_referent E d target \<longleftrightarrow>
     (\<exists>(client, items) \<in> set (ss_items E (d_store d)). \<exists>p \<in> set items.
        id_range_contains (it_origin_left (d_heap d p)) target \<or> id_range_contains (it_origin_right (d_heap d p)) target)"

definition compact_item :: "(u64, 'a) hm_env \<Rightarrow> addr \<Rightarrow> nat \<times> 'a doc \<Rightarrow> nat \<times> 'a doc" where
  "compact_item E p st =
     (let (compacted, d) = st; x = d_heap d p in
      if \<not> deleted x \<or> it_content_kind x = kSkip \<or> it_content_kind x = kGc \<or> is_origin_referent E d x
      then (compacted, d)
      else (compacted + 1, d\<lparr>d_heap := (d_heap d)(p := x\<lparr>it_content_kind := kSkip, it_content_view := []\<rparr>)\<rparr>))"

definition doc_compact :: "(u64, 'a) hm_env \<Rightarrow> 'a doc \<Rightarrow> nat \<times> 'a doc" where
  "doc_compact E d = fold (\<lambda>(client, items). fold (compact_item E) items) (ss_items E (d_store d)) (0, d)"

end
