(* ===== verification/Ycpp_Tombstones.thy ===== *)
theory Ycpp_Tombstones
  imports Ycpp_Converge Ycpp_Doc
begin

text \<open>
  Where convergence ends.  \<open>array_insert_at\<close> of ycpp_doc.h takes the live neighbours of an index as
  the origins of the new item and passes over deleted items in between.  Then the right origin can be
  a descendant of the left origin through a deleted item, the case that \<open>right_ok\<close> excludes,
  and two replicas that receive the same items in different orders show different documents.
\<close>

section \<open>The run\<close>

text \<open>Items that arrive one after the other, and the deletion of one.\<close>

primrec install_all ::
    "(u64, 'a) hm_env \<Rightarrow> (addr \<times> item) list \<Rightarrow> (item_heap \<times> addr option \<times> struct_store \<times> 'a, unit) op" where
  "install_all E [] st = (Inr (), st)"
| "install_all E (y # ys) st =
     (case ya_install E (fst y) ((fst st)(fst y := snd y), snd st) of
        (Inl e, st) \<Rightarrow> (Inl e, st)
      | (Inr _, st) \<Rightarrow> install_all E ys st)"

definition delete_in :: "addr \<Rightarrow> item_heap \<times> 'b \<Rightarrow> item_heap \<times> 'b" where
  "delete_in p st = (ya_mark_deleted p (fst st), snd st)"

text \<open>
  The first client writes \<open>l\<close>, \<open>d\<close> and \<open>r\<close>, each behind the one before.  The third client has seen
  \<open>l\<close> and \<open>d\<close> and appends \<open>e\<close>.  The second has seen \<open>l\<close>, \<open>d\<close> and \<open>r\<close>, deletes \<open>d\<close> and inserts \<open>x\<close> between
  the two items left.
\<close>

definition cast :: "addr \<Rightarrow> item" where
  "cast p = item_default\<lparr>
     it_id := (if p = 160 then Id 1 0 else if p = 320 then Id 1 1 else if p = 480 then Id 1 2
               else if p = 640 then Id 3 0 else Id 2 0),
     it_origin_left := (if p = 160 then kInvalidId else if p = 320 \<or> p = 800 then Id 1 0 else Id 1 1),
     it_origin_right := (if p = 800 then Id 1 2 else kInvalidId),
     it_length := 1, it_content_kind := kString, it_content_view := [ucast p]\<rparr>"

definition cast_now :: "addr \<Rightarrow> item" where
  "cast_now = cast(320 := set_deleted (cast 320))"

lemma cast_simps [simp]:
  "it_id (cast 160) = Id 1 0" "it_id (cast 320) = Id 1 1" "it_id (cast 480) = Id 1 2" "it_id (cast 640) = Id 3 0"
  "it_id (cast 800) = Id 2 0" "it_origin_left (cast 160) = kInvalidId" "it_origin_left (cast 320) = Id 1 0"
  "it_origin_left (cast 480) = Id 1 1" "it_origin_left (cast 640) = Id 1 1" "it_origin_left (cast 800) = Id 1 0"
  "it_origin_right (cast 160) = kInvalidId" "it_origin_right (cast 320) = kInvalidId"
  "it_origin_right (cast 480) = kInvalidId" "it_origin_right (cast 640) = kInvalidId"
  "it_origin_right (cast 800) = Id 1 2" "it_length (cast p) = 1" "item_width (cast p) = 1"
  "strip (cast p) = cast p" "\<not> deleted (cast p)" "last_id (cast p) = it_id (cast p)"
  "item_start (cast p) = unat (id_clock (it_id (cast p)))"
  by (simp_all add: cast_def item_default_def item_start_def item_width_def strip_def deleted_def last_id_def)

lemma cast_now_simps [simp]:
  "it_id (cast_now p) = it_id (cast p)" "it_origin_left (cast_now p) = it_origin_left (cast p)"
  "it_origin_right (cast_now p) = it_origin_right (cast p)" "it_length (cast_now p) = 1" "item_width (cast_now p) = 1"
  "last_id (cast_now p) = it_id (cast p)" "item_start (cast_now p) = unat (id_clock (it_id (cast p)))"
  "p \<noteq> 320 \<Longrightarrow> cast_now p = cast p"
  by (simp_all add: cast_now_def set_deleted_def item_width_def item_start_def last_id_def)

lemma cast_now_deleted [simp]: "deleted (cast_now 320)"
  by (simp add: cast_now_def)

lemmas cast_eval = kMaxPerClientItems_def kMaxConflict_def origin_ptr_def is_valid_def kInvalidId_def last_of_def

lemma put_item:
  assumes "describes E c (Suc n) ptrs ps (h, r)" and "p \<notin> set ps" and "0 < it_length (c p)"
    and "item_start (c p) + item_width (c p) < 2 ^ 64"
    and "item_start (c p) = span c (ptrs (id_client (it_id (c p))))"
    and "length (ptrs (id_client (it_id (c p)))) < kMaxPerClientItems" and "ps = xs @ ys @ zs"
    and "\<And>by_id. \<forall>q \<in> set ps. by_id (it_id (c q)) = Some q \<and> by_id (last_id (c q)) = Some q \<Longrightarrow>
      origin_ptr by_id (it_origin_left (c p)) = last_of None xs \<and>
      scan_list by_id c p (origin_ptr by_id (it_origin_right (c p))) (ys @ zs) (last_of None xs) [] [] =
        Inr (last_of None (xs @ ys))"
  obtains h' r' where "ya_install E p (h(p := c p), r) = (Inr (), h', r')"
    and "describes E c n (ptrs(id_client (it_id (c p)) := ptrs (id_client (it_id (c p))) @ [p])) (xs @ ys @ p # zs) (h', r')"
proof -
  obtain start ss a where r: "r = (start, ss, a)" by (metis prod.collapse)
  show ?thesis using describes_install [OF assms(1) [unfolded r] assms(2-8)] that by (auto simp: r)
qed

lemma cast_base:
  obtains st where "install_all bump_env [(160, cast 160), (320, cast 320), (480, cast 480)]
      ((\<lambda>_. item_default), None, ss_empty, 0) = (Inr (), st)"
    and "describes bump_env cast_now (Suc (Suc 0)) ((\<lambda>_. [])(1 := [160, 320, 480])) [160, 320, 480] (delete_in 320 st)"
proof -
  let ?n = "Suc (Suc 0)"
  have 0: "describes bump_env cast (Suc (Suc (Suc ?n))) (\<lambda>_. []) [] ((\<lambda>_. item_default), None, ss_empty, 0)"
    by (simp add: describes_empty ss_room_bump)
  obtain h1 r1 where 1: "ya_install bump_env 160 ((\<lambda>_. item_default)(160 := cast 160), None, ss_empty, 0) = (Inr (), h1, r1)"
    "describes bump_env cast (Suc (Suc ?n)) ((\<lambda>_. [])(1 := [160])) [160] (h1, r1)"
    by (rule put_item [OF 0, of 160 "[]" "[]" "[]"]) (simp_all add: cast_eval)
  obtain h2 r2 where 2: "ya_install bump_env 320 (h1(320 := cast 320), r1) = (Inr (), h2, r2)"
    "describes bump_env cast (Suc ?n) ((\<lambda>_. [])(1 := [160, 320])) [160, 320] (h2, r2)"
    by (rule put_item [OF 1(2), of 320 "[160]" "[]" "[]"]) (simp_all add: cast_eval)
  obtain h3 r3 where 3: "ya_install bump_env 480 (h2(480 := cast 480), r2) = (Inr (), h3, r3)"
    "describes bump_env cast ?n ((\<lambda>_. [])(1 := [160, 320, 480])) [160, 320, 480] (h3, r3)"
    by (rule put_item [OF 2(2), of 480 "[160, 320]" "[]" "[]"]) (simp_all add: cast_eval)
  have "install_all bump_env [(160, cast 160), (320, cast 320), (480, cast 480)]
      ((\<lambda>_. item_default), None, ss_empty, 0) = (Inr (), h3, r3)"
    using 1(1) 2(1) 3(1) by simp
  moreover have "describes bump_env cast_now ?n ((\<lambda>_. [])(1 := [160, 320, 480])) [160, 320, 480] (delete_in 320 (h3, r3))"
    using describes_delete [OF 3(2), of 320] by (simp add: delete_in_def cast_now_def)
  ultimately show ?thesis by (rule that)
qed

text \<open>The walk of \<open>array_insert_at\<close> to index 1 finds \<open>l\<close> and \<open>r\<close>.\<close>

lemma cast_seek:
  assumes "describes E cast_now n ptrs [160, 320, 480] (h, start, ss, a)"
  shows "seek_index h start 1 0 None = Some (Inr (Some 160, Some 480, 1))"
    and "last_clock_id (h 160) = Id 1 0" and "it_id (h 480) = Id 1 2"
proof -
  have D: "chain h start [160, 320, 480]" "\<And>q. q \<in> set [160, 320, 480] \<Longrightarrow> same_content (h q) (cast_now q)"
    using assms by (auto simp: describes_def dest: dll_chain)
  have del: "\<not> deleted (h 160)" "deleted (h 320)" "\<not> deleted (h 480)"
    using D(2) [THEN same_contentD(6)] by simp_all
  have links: "start = Some 160" "it_right (h 160) = Some 320" "it_right (h 320) = Some 480" using D(1) by simp_all
  show "seek_index h start 1 0 None = Some (Inr (Some 160, Some 480, 1))"
    by (simp add: links del seek_index.simps [of h "Some 160"] seek_index.simps [of h "Some 320"]
        seek_index.simps [of h "Some 480"])
  have "it_id (h 160) = Id 1 0" "it_length (h 160) = 1" "it_id (h 480) = Id 1 2"
    using D(2) [THEN same_contentD(1)] D(2) [THEN same_contentD(4)] by simp_all
  then show "last_clock_id (h 160) = Id 1 0" "it_id (h 480) = Id 1 2"
    by (simp_all add: last_clock_id_def run_length_def)
qed

lemma cast_insert_first:
  assumes "describes bump_env cast_now (Suc (Suc 0)) ((\<lambda>_. [])(1 := [160, 320, 480])) [160, 320, 480] st"
  obtains st' where "install_all bump_env [(800, cast 800), (640, cast 640)] st = (Inr (), st')"
    and "describes bump_env cast_now 0 ((\<lambda>_. [])(1 := [160, 320, 480], 2 := [800], 3 := [640])) [160, 320, 640, 800, 480] st'"
proof -
  obtain h r where st: "st = (h, r)" by (metis prod.collapse)
  obtain h1 r1 where 1: "ya_install bump_env 800 (h(800 := cast 800), r) = (Inr (), h1, r1)"
    "describes bump_env cast_now (Suc 0) ((\<lambda>_. [])(1 := [160, 320, 480], 2 := [800])) [160, 320, 800, 480] (h1, r1)"
    by (rule put_item [OF assms [unfolded st], of 800 "[160]" "[320]" "[480]"]) (simp_all add: cast_eval)
  obtain h2 r2 where 2: "ya_install bump_env 640 (h1(640 := cast 640), r1) = (Inr (), h2, r2)"
    "describes bump_env cast_now 0 ((\<lambda>_. [])(1 := [160, 320, 480], 2 := [800], 3 := [640])) [160, 320, 640, 800, 480] (h2, r2)"
    by (rule put_item [OF 1(2), of 640 "[160, 320]" "[]" "[800, 480]"]) (simp_all add: cast_eval)
  show ?thesis by (rule that [OF _ 2(2)]) (use 1(1) 2(1) st in simp)
qed

lemma cast_append_first:
  assumes "describes bump_env cast_now (Suc (Suc 0)) ((\<lambda>_. [])(1 := [160, 320, 480])) [160, 320, 480] st"
  obtains st' where "install_all bump_env [(640, cast 640), (800, cast 800)] st = (Inr (), st')"
    and "describes bump_env cast_now 0 ((\<lambda>_. [])(1 := [160, 320, 480], 3 := [640], 2 := [800])) [160, 320, 800, 480, 640] st'"
proof -
  obtain h r where st: "st = (h, r)" by (metis prod.collapse)
  obtain h1 r1 where 1: "ya_install bump_env 640 (h(640 := cast 640), r) = (Inr (), h1, r1)"
    "describes bump_env cast_now (Suc 0) ((\<lambda>_. [])(1 := [160, 320, 480], 3 := [640])) [160, 320, 480, 640] (h1, r1)"
    by (rule put_item [OF assms [unfolded st], of 640 "[160, 320]" "[480]" "[]"]) (simp_all add: cast_eval)
  obtain h2 r2 where 2: "ya_install bump_env 800 (h1(800 := cast 800), r1) = (Inr (), h2, r2)"
    "describes bump_env cast_now 0 ((\<lambda>_. [])(1 := [160, 320, 480], 3 := [640], 2 := [800])) [160, 320, 800, 480, 640] (h2, r2)"
    by (rule put_item [OF 1(2), of 800 "[160]" "[320]" "[480, 640]"]) (simp_all add: cast_eval)
  show ?thesis by (rule that [OF _ 2(2)]) (use 1(1) 2(1) st in simp)
qed

section \<open>Property\<close>

text \<open>
C8: Inserting next to a deleted item can make replicas diverge.  With \<open>d\<close> deleted between \<open>l\<close> and \<open>r\<close>,
\<open>array_insert_at\<close> at index 1 gives \<open>x\<close> the origins \<open>l\<close> and \<open>r\<close>.  A replica that receives \<open>x\<close> and
then \<open>e\<close>, which a third client has appended to \<open>d\<close>, shows \<open>l e x r\<close>; one that receives them in
the other order shows \<open>l x r e\<close>.  No call fails.
\<close>

theorem insert_at_tombstone_diverges:
  "\<exists>st t u. install_all bump_env [(160, cast 160), (320, cast 320), (480, cast 480)]
      ((\<lambda>_. item_default), None, ss_empty, 0) = (Inr (), st) \<and>
    (case delete_in 320 st of (h, start, _) \<Rightarrow>
       seek_index h start 1 0 None = Some (Inr (Some 160, Some 480, 1)) \<and>
       it_origin_left (cast 800) = last_clock_id (h 160) \<and> it_origin_right (cast 800) = it_id (h 480)) \<and>
    install_all bump_env [(800, cast 800), (640, cast 640)] (delete_in 320 st) = (Inr (), t) \<and>
    install_all bump_env [(640, cast 640), (800, cast 800)] (delete_in 320 st) = (Inr (), u) \<and>
    ya_document t = Some [cast 160, cast 640, cast 800, cast 480] \<and>
    ya_document u = Some [cast 160, cast 800, cast 480, cast 640]"
proof -
  obtain st where 1: "install_all bump_env [(160, cast 160), (320, cast 320), (480, cast 480)]
      ((\<lambda>_. item_default), None, ss_empty, 0) = (Inr (), st)"
    and 2: "describes bump_env cast_now (Suc (Suc 0)) ((\<lambda>_. [])(1 := [160, 320, 480])) [160, 320, 480] (delete_in 320 st)"
    by (rule cast_base)
  obtain h start ss a where d: "delete_in 320 st = (h, start, ss, a)" by (metis prod.collapse)
  obtain t where t: "install_all bump_env [(800, cast 800), (640, cast 640)] (delete_in 320 st) = (Inr (), t)"
    "ya_document t = Some [cast 160, cast 640, cast 800, cast 480]"
    by (rule cast_insert_first [OF 2]) (use describes_document in force)
  obtain u where u: "install_all bump_env [(640, cast 640), (800, cast 800)] (delete_in 320 st) = (Inr (), u)"
    "ya_document u = Some [cast 160, cast 800, cast 480, cast 640]"
    by (rule cast_append_first [OF 2]) (use describes_document in force)
  show ?thesis using 1 t u cast_seek [OF 2 [unfolded d]] d by (intro exI [of _ st] exI [of _ t] exI [of _ u]) simp
qed

end
