(* ===== verification/Ycpp_Ring.thy ===== *)
theory Ycpp_Ring
  imports Ycpp_Prelude
begin

unbundle bit_operations_syntax

text \<open>
  The single-producer single-consumer ring of ycpp_ring.h, first as sequential operations, then as
  the interleaving of the two threads: a step is one access to shared memory (the load of the other
  side's index, the slot, the store of the own index).  A release store and the acquire load that
  reads it order the slot access between them, which the interleaving expresses.

  \<open>ring_rel xs ys r\<close>: after pushing \<open>xs\<close> and popping \<open>ys\<close> the ring holds what is left of \<open>xs\<close>.
\<close>

section \<open>The code\<close>

text \<open>\<open>buf_\<close> is null as \<open>None\<close>; its initial contents are whatever the memory holds.\<close>

record 'v ring =
  rg_buf :: "'v list option"
  rg_mask :: u64
  rg_head :: u64
  rg_tail :: u64

definition ring_new :: "'v ring" where
  "ring_new = \<lparr>rg_buf = None, rg_mask = 0, rg_head = 0, rg_tail = 0\<rparr>"

definition rg_init :: "'a allocator \<Rightarrow> u64 \<Rightarrow> u64 \<Rightarrow> 'v list \<Rightarrow> nat \<Rightarrow> 'v ring \<times> 'a \<Rightarrow> bool \<times> 'v ring \<times> 'a" where
  "rg_init al elem_bytes align memory capacity st =
     (let (r, a) = st in
      if rg_buf r \<noteq> None then (False, r, a)
      else
        (case al (elem_bytes * of_nat capacity) align a of
           (None, a) \<Rightarrow> (False, r, a)
         | (Some _, a) \<Rightarrow>
             (True, \<lparr>rg_buf = Some (take capacity memory), rg_mask = of_nat capacity - 1, rg_head = 0, rg_tail = 0\<rparr>, a)))"

definition rg_capacity :: "'v ring \<Rightarrow> u64" where
  "rg_capacity r = rg_mask r + 1"

definition rg_slot :: "'v ring \<Rightarrow> u64 \<Rightarrow> nat" where
  "rg_slot r i = unat (i AND rg_mask r)"

definition rg_full :: "'v ring \<Rightarrow> bool" where
  "rg_full r \<longleftrightarrow> (rg_head r + 1) AND rg_mask r = rg_tail r AND rg_mask r"

definition rg_vacant :: "'v ring \<Rightarrow> bool" where
  "rg_vacant r \<longleftrightarrow> rg_tail r AND rg_mask r = rg_head r AND rg_mask r"

definition rg_write :: "'v \<Rightarrow> 'v ring \<Rightarrow> 'v ring" where
  "rg_write v r = r\<lparr>rg_buf := map_option (\<lambda>buf. buf[rg_slot r (rg_head r) := v]) (rg_buf r)\<rparr>"

definition rg_read :: "'v ring \<Rightarrow> 'v" where
  "rg_read r = the (rg_buf r) ! rg_slot r (rg_tail r)"

definition rg_try_push :: "'v \<Rightarrow> 'v ring \<Rightarrow> bool \<times> 'v ring" where
  "rg_try_push v r =
     (if rg_full r then (False, r)
      else let r = rg_write v r in (True, r\<lparr>rg_head := rg_head r + 1\<rparr>))"

definition rg_try_pop :: "'v ring \<Rightarrow> 'v option \<times> 'v ring" where
  "rg_try_pop r =
     (if rg_vacant r then (None, r)
      else let v = rg_read r in (Some v, r\<lparr>rg_tail := rg_tail r + 1\<rparr>))"

definition rg_size_approx :: "'v ring \<Rightarrow> u64" where
  "rg_size_approx r = (rg_head r - rg_tail r) AND rg_mask r"

definition rg_empty_approx :: "'v ring \<Rightarrow> bool" where
  "rg_empty_approx r \<longleftrightarrow> rg_size_approx r = 0"

section \<open>The two threads\<close>

text \<open>Where \<open>try_push\<close> and \<open>try_pop\<close> stand between two accesses to shared memory.\<close>

datatype 'v producer = PIdle | PChecked 'v | PWritten
datatype 'v consumer = CIdle | CChecked | CRead 'v

datatype 'v event = Push 'v | PushFull | Pop 'v | PopEmpty | Tau

record 'v duo =
  du_ring :: "'v ring"
  du_prod :: "'v producer"
  du_cons :: "'v consumer"

inductive ring_step :: "'v duo \<Rightarrow> 'v event \<Rightarrow> 'v duo \<Rightarrow> bool" where
  push_full: "du_prod s = PIdle \<Longrightarrow> rg_full (du_ring s) \<Longrightarrow> ring_step s PushFull s"
| push_check: "du_prod s = PIdle \<Longrightarrow> \<not> rg_full (du_ring s) \<Longrightarrow> ring_step s Tau (s\<lparr>du_prod := PChecked v\<rparr>)"
| push_write: "du_prod s = PChecked v \<Longrightarrow>
    ring_step s (Push v) (s\<lparr>du_ring := rg_write v (du_ring s), du_prod := PWritten\<rparr>)"
| push_store: "du_prod s = PWritten \<Longrightarrow>
    ring_step s Tau (s\<lparr>du_ring := (du_ring s)\<lparr>rg_head := rg_head (du_ring s) + 1\<rparr>, du_prod := PIdle\<rparr>)"
| pop_empty: "du_cons s = CIdle \<Longrightarrow> rg_vacant (du_ring s) \<Longrightarrow> ring_step s PopEmpty s"
| pop_check: "du_cons s = CIdle \<Longrightarrow> \<not> rg_vacant (du_ring s) \<Longrightarrow> ring_step s Tau (s\<lparr>du_cons := CChecked\<rparr>)"
| pop_read: "du_cons s = CChecked \<Longrightarrow>
    ring_step s (Pop (rg_read (du_ring s))) (s\<lparr>du_cons := CRead (rg_read (du_ring s))\<rparr>)"
| pop_store: "du_cons s = CRead v \<Longrightarrow>
    ring_step s Tau (s\<lparr>du_ring := (du_ring s)\<lparr>rg_tail := rg_tail (du_ring s) + 1\<rparr>, du_cons := CIdle\<rparr>)"

inductive ring_run :: "'v duo \<Rightarrow> 'v event list \<Rightarrow> 'v duo \<Rightarrow> bool" where
  stop: "ring_run s [] s"
| more: "ring_run s es t \<Longrightarrow> ring_step t e u \<Longrightarrow> ring_run s (es @ [e]) u"

definition pushed :: "'v event list \<Rightarrow> 'v list" where
  "pushed es = List.map_filter (\<lambda>e. case e of Push v \<Rightarrow> Some v | _ \<Rightarrow> None) es"

definition popped :: "'v event list \<Rightarrow> 'v list" where
  "popped es = List.map_filter (\<lambda>e. case e of Pop v \<Rightarrow> Some v | _ \<Rightarrow> None) es"

text \<open>The two calls run alone are three steps of their thread.\<close>

lemma try_push_steps:
  assumes "\<not> rg_full r"
  shows "ring_run \<lparr>du_ring = r, du_prod = PIdle, du_cons = c\<rparr> [Tau, Push v, Tau]
    \<lparr>du_ring = snd (rg_try_push v r), du_prod = PIdle, du_cons = c\<rparr>"
proof -
  let ?s = "\<lparr>du_ring = r, du_prod = PIdle, du_cons = c\<rparr>"
  have "ring_run ?s ([] @ [Tau]) (?s\<lparr>du_prod := PChecked v\<rparr>)"
    by (rule ring_run.more [OF ring_run.stop ring_step.push_check]) (use assms in simp_all)
  from ring_run.more [OF this ring_step.push_write [of _ v]]
  have "ring_run ?s ([Tau] @ [Push v]) (?s\<lparr>du_ring := rg_write v r, du_prod := PWritten\<rparr>)" by simp
  from ring_run.more [OF this ring_step.push_store]
  show ?thesis using assms by (simp add: rg_try_push_def Let_def)
qed

lemma try_pop_steps:
  assumes "\<not> rg_vacant r"
  shows "ring_run \<lparr>du_ring = r, du_prod = p, du_cons = CIdle\<rparr> [Tau, Pop (rg_read r), Tau]
    \<lparr>du_ring = snd (rg_try_pop r), du_prod = p, du_cons = CIdle\<rparr>"
proof -
  let ?s = "\<lparr>du_ring = r, du_prod = p, du_cons = CIdle\<rparr>"
  have "ring_run ?s ([] @ [Tau]) (?s\<lparr>du_cons := CChecked\<rparr>)"
    by (rule ring_run.more [OF ring_run.stop ring_step.pop_check]) (use assms in simp_all)
  from ring_run.more [OF this ring_step.pop_read]
  have "ring_run ?s ([Tau] @ [Pop (rg_read r)]) (?s\<lparr>du_cons := CRead (rg_read r)\<rparr>)" by simp
  from ring_run.more [OF this ring_step.pop_store]
  show ?thesis using assms by (simp add: rg_try_pop_def Let_def)
qed

section \<open>The queue in the ring\<close>

text \<open>The capacity is \<open>2 ^ k\<close>; \<open>h\<close> values were written and \<open>t\<close> read in all.\<close>

definition ring_ok :: "nat \<Rightarrow> 'v ring \<Rightarrow> bool" where
  "ring_ok k r \<longleftrightarrow> 0 < k \<and> k < 64 \<and> rg_mask r = 2 ^ k - 1 \<and> (\<exists>buf. rg_buf r = Some buf \<and> length buf = 2 ^ k)"

definition ring_rel :: "nat \<Rightarrow> 'v list \<Rightarrow> nat \<Rightarrow> 'v ring \<Rightarrow> bool" where
  "ring_rel k xs t r \<longleftrightarrow> ring_ok k r \<and> t \<le> length xs \<and> length xs - t < 2 ^ k \<and>
     (\<forall>i. t \<le> i \<longrightarrow> i < length xs \<longrightarrow> the (rg_buf r) ! (i mod 2 ^ k) = xs ! i)"

lemma index_mod:
  assumes "k < 64"
  shows "unat ((of_nat n :: u64) AND (2 ^ k - 1)) = n mod 2 ^ k"
proof -
  have "unat (of_nat n :: u64) mod 2 ^ k = n mod 2 ^ 64 mod 2 ^ k"
    by (simp add: unat_of_nat take_bit_eq_mod)
  moreover have "n mod 2 ^ 64 mod 2 ^ k = n mod (2 ^ k :: nat)"
    using assms by (intro mod_mod_cancel le_imp_power_dvd) simp
  ultimately show ?thesis unfolding unat_and_pred_pow2 by simp
qed

lemma index_eq:
  assumes "k < 64"
  shows "(of_nat m :: u64) AND (2 ^ k - 1) = of_nat n AND (2 ^ k - 1) \<longleftrightarrow> m mod 2 ^ k = n mod 2 ^ k"
  using index_mod [OF assms] by (metis word_unat_eq_iff)

lemma mod_window:
  assumes "t \<le> (h :: nat)" and "h - t < c"
  shows "(h + 1) mod c = t mod c \<longleftrightarrow> h - t = c - 1" and "t mod c = h mod c \<longleftrightarrow> h = t"
    and "t \<le> i \<Longrightarrow> i < h \<Longrightarrow> i mod c = h mod c \<longleftrightarrow> False"
proof -
  have eq: "a mod c = b mod c \<longleftrightarrow> c dvd b - a" if "a \<le> b" for a b
    using mod_eq_dvd_iff_nat [OF that, of c] by auto
  have dvd: "c dvd d \<longleftrightarrow> d = 0 \<or> d = c" if "d < 2 * c" for d
  proof
    assume "c dvd d"
    then obtain m where m: "d = c * m" by (elim dvdE)
    then have "m < 2" using that by (cases "c = 0") auto
    then show "d = 0 \<or> d = c" using m by (auto simp: less_2_cases_iff)
  qed auto
  have "t mod c = (h + 1) mod c \<longleftrightarrow> h + 1 - t = 0 \<or> h + 1 - t = c"
    using eq [of t "h + 1"] dvd [of "h + 1 - t"] assms by linarith
  then show "(h + 1) mod c = t mod c \<longleftrightarrow> h - t = c - 1"
    unfolding eq_commute [of "(h + 1) mod c"] using assms by linarith
  show "t mod c = h mod c \<longleftrightarrow> h = t"
    unfolding eq [OF assms(1)] using dvd [of "h - t"] assms by linarith
  show "i mod c = h mod c \<longleftrightarrow> False" if "t \<le> i" "i < h"
  proof -
    have "h - i \<noteq> 0" "h - i \<noteq> c" "h - i < 2 * c" using assms that by linarith+
    then show ?thesis unfolding eq [OF less_imp_le [OF that(2)]] using dvd [of "h - i"] by simp
  qed
qed

lemma ring_full_iff:
  assumes "ring_rel k xs t r" and "rg_head r = of_nat (length xs)" and "rg_tail r = of_nat t"
  shows "rg_full r \<longleftrightarrow> length xs - t = 2 ^ k - 1"
  using assms index_eq [of k "length xs + 1" t] mod_window(1) [of t "length xs" "2 ^ k"]
  by (simp add: rg_full_def ring_rel_def ring_ok_def add.commute)

lemma ring_vacant_iff:
  assumes "ring_rel k xs t r" and "rg_head r = of_nat (length xs)" and "rg_tail r = of_nat t"
  shows "rg_vacant r \<longleftrightarrow> t = length xs"
  using assms index_eq [of k t "length xs"] mod_window(2) [of t "length xs" "2 ^ k"]
  by (auto simp: rg_vacant_def ring_rel_def ring_ok_def)

lemma ring_rel_write:
  assumes rel: "ring_rel k xs t r" and h: "rg_head r = of_nat (length xs)" and room: "length xs - t < 2 ^ k - 1"
  shows "ring_rel k (xs @ [v]) t (rg_write v r)"
proof -
  obtain buf where buf: "rg_buf r = Some buf" "length buf = 2 ^ k" and k: "k < 64" "rg_mask r = 2 ^ k - 1"
    using rel by (auto simp: ring_rel_def ring_ok_def)
  have slot: "rg_slot r (rg_head r) = length xs mod 2 ^ k"
    using index_mod [OF k(1), of "length xs"] by (simp add: rg_slot_def h k(2))
  have "buf[length xs mod 2 ^ k := v] ! (i mod 2 ^ k) = (xs @ [v]) ! i" if "t \<le> i" "i < length xs + 1" for i
    using that rel buf mod_window(3) [of t "length xs" "2 ^ k" i]
    by (cases "i = length xs") (auto simp: ring_rel_def nth_append nth_list_update)
  then show ?thesis using rel buf slot room by (auto simp: ring_rel_def ring_ok_def rg_write_def)
qed

lemma ring_rel_read:
  assumes rel: "ring_rel k xs t r" and t: "rg_tail r = of_nat t" and "t < length xs"
  shows "rg_read r = xs ! t"
proof -
  have "rg_slot r (rg_tail r) = t mod 2 ^ k"
    using rel index_mod [of k t] by (simp add: rg_slot_def t ring_rel_def ring_ok_def)
  then show ?thesis using rel assms(3) by (simp add: rg_read_def ring_rel_def)
qed

lemma ring_rel_fields:
  "ring_rel k xs t (r\<lparr>rg_head := h\<rparr>) = ring_rel k xs t r" "ring_rel k xs t (r\<lparr>rg_tail := u\<rparr>) = ring_rel k xs t r"
  by (simp_all add: ring_rel_def ring_ok_def)

lemma ring_rel_drop: "ring_rel k xs t r \<Longrightarrow> t < length xs \<Longrightarrow> ring_rel k xs (Suc t) r"
  by (auto simp: ring_rel_def)

section \<open>Every interleaving\<close>

lemma event_simps [simp]:
  "pushed [] = []" "popped [] = []"
  "pushed (es @ [Push v]) = pushed es @ [v]" "popped (es @ [Push v]) = popped es"
  "pushed (es @ [Pop v]) = pushed es" "popped (es @ [Pop v]) = popped es @ [v]"
  "pushed (es @ [Tau]) = pushed es" "popped (es @ [Tau]) = popped es"
  "pushed (es @ [PushFull]) = pushed es" "popped (es @ [PushFull]) = popped es"
  "pushed (es @ [PopEmpty]) = pushed es" "popped (es @ [PopEmpty]) = popped es"
  by (simp_all add: pushed_def popped_def map_filter_def)

definition duo_inv :: "nat \<Rightarrow> 'v event list \<Rightarrow> 'v duo \<Rightarrow> bool" where
  "duo_inv k es s \<longleftrightarrow> (\<exists>n t. rg_head (du_ring s) = of_nat n \<and> rg_tail (du_ring s) = of_nat t \<and> t \<le> n \<and>
     ring_rel k (pushed es) t (du_ring s) \<and>
     length (pushed es) = (if du_prod s = PWritten then Suc n else n) \<and>
     ((\<exists>v. du_prod s = PChecked v) \<longrightarrow> n - t < 2 ^ k - 1) \<and>
     (du_cons s \<noteq> CIdle \<longrightarrow> t < n) \<and>
     popped es = take (if \<exists>v. du_cons s = CRead v then Suc t else t) (pushed es))"

lemma ring_rel_take: "ring_rel k xs t r \<Longrightarrow> t \<le> n \<Longrightarrow> ring_rel k (take n xs) t r"
  by (auto simp: ring_rel_def)

lemma duo_inv_step:
  assumes inv: "duo_inv k es s" and step: "ring_step s e s'"
  shows "duo_inv k (es @ [e]) s'"
proof -
  obtain n t where i: "rg_head (du_ring s) = of_nat n" "rg_tail (du_ring s) = of_nat t" "t \<le> n"
    "ring_rel k (pushed es) t (du_ring s)" "length (pushed es) = (if du_prod s = PWritten then Suc n else n)"
    "(\<exists>v. du_prod s = PChecked v) \<longrightarrow> n - t < 2 ^ k - 1" "du_cons s \<noteq> CIdle \<longrightarrow> t < n"
    "popped es = take (if \<exists>v. du_cons s = CRead v then Suc t else t) (pushed es)"
    using inv unfolding duo_inv_def by blast
  have "ring_rel k (take n (pushed es)) t (du_ring s)" by (rule ring_rel_take [OF i(4,3)])
  moreover have "length (take n (pushed es)) = n" using i(5) by (auto split: if_splits)
  ultimately have full: "rg_full (du_ring s) \<longleftrightarrow> n - t = 2 ^ k - 1" and vacant: "rg_vacant (du_ring s) \<longleftrightarrow> t = n"
    using ring_full_iff [of k "take n (pushed es)" t "du_ring s"] ring_vacant_iff [of k "take n (pushed es)" t "du_ring s"] i(1,2)
    by simp_all
  have window: "n - t < 2 ^ k" using i(4,5) by (auto simp: ring_rel_def split: if_splits)
  from step show ?thesis
  proof cases
    case push_full
    then show ?thesis using inv by (simp add: duo_inv_def)
  next
    case (push_check v)
    then have "n - t < 2 ^ k - 1" using full window by linarith
    then show ?thesis using push_check i unfolding duo_inv_def by (intro exI [of _ n] exI [of _ t]) auto
  next
    case (push_write v)
    have "ring_rel k (pushed es @ [v]) t (rg_write v (du_ring s))"
      by (rule ring_rel_write [OF i(4)]) (use push_write i(1,5,6) in auto)
    moreover have "t \<le> length (pushed es)" "t < n \<Longrightarrow> Suc t \<le> length (pushed es)" using i(3,5) by auto
    ultimately show ?thesis
      using push_write i unfolding duo_inv_def
      by (intro exI [of _ n] exI [of _ t]) (auto simp: rg_write_def)
  next
    case push_store
    then show ?thesis
      using i unfolding duo_inv_def by (intro exI [of _ "Suc n"] exI [of _ t]) (auto simp: ring_rel_fields)
  next
    case pop_empty
    then show ?thesis using inv by (simp add: duo_inv_def)
  next
    case pop_check
    then have "t < n" using vacant i(3) by simp
    then show ?thesis using pop_check i unfolding duo_inv_def by (intro exI [of _ n] exI [of _ t]) auto
  next
    case pop_read
    then have t: "t < n" "t < length (pushed es)" using i(5,7) by auto
    have "rg_read (du_ring s) = pushed es ! t" by (rule ring_rel_read [OF i(4,2) t(2)])
    then show ?thesis
      using pop_read i t unfolding duo_inv_def
      by (intro exI [of _ n] exI [of _ t]) (auto simp: take_Suc_conv_app_nth)
  next
    case (pop_store v)
    then have t: "t < n" "t < length (pushed es)" using i(5,7) by auto
    have "ring_rel k (pushed es) (Suc t) (du_ring s)" by (rule ring_rel_drop [OF i(4) t(2)])
    then show ?thesis
      using pop_store i t unfolding duo_inv_def
      by (intro exI [of _ n] exI [of _ "Suc t"]) (auto simp: ring_rel_fields)
  qed
qed

definition duo_init :: "nat \<Rightarrow> 'v duo \<Rightarrow> bool" where
  "duo_init k s \<longleftrightarrow> ring_ok k (du_ring s) \<and> rg_head (du_ring s) = 0 \<and> rg_tail (du_ring s) = 0 \<and>
     du_prod s = PIdle \<and> du_cons s = CIdle"

lemma duo_inv_run: "ring_run s es s' \<Longrightarrow> duo_init k s \<Longrightarrow> duo_inv k es s'"
proof (induction rule: ring_run.induct)
  case (stop s)
  then show ?case
    unfolding duo_inv_def duo_init_def by (intro exI [of _ 0]) (auto simp: ring_rel_def)
qed (auto intro: duo_inv_step)

section \<open>Properties\<close>

text \<open>
C31: In every interleaving of the producer and the consumer, whatever has been popped is a prefix of what
was pushed: no value is lost, repeated, reordered or read before it was written; and the ring
never holds more than one value less than its capacity.
\<close>

theorem ring_fifo:
  assumes "duo_init k s" and "ring_run s es s'"
  shows "popped es = take (length (popped es)) (pushed es) \<and> length (pushed es) \<le> length (popped es) + (2 ^ k - 1)"
proof -
  obtain n t where i: "t \<le> n" "ring_rel k (pushed es) t (du_ring s')"
    "length (pushed es) = (if du_prod s' = PWritten then Suc n else n)" "du_cons s' \<noteq> CIdle \<longrightarrow> t < n"
    "popped es = take (if \<exists>v. du_cons s' = CRead v then Suc t else t) (pushed es)"
    using duo_inv_run [OF assms(2,1)] unfolding duo_inv_def by blast
  have "length (popped es) = (if \<exists>v. du_cons s' = CRead v then Suc t else t)"
    unfolding i(5) using i(1,3,4) by auto
  then show ?thesis using i(2,5) by (auto simp: ring_rel_def)
qed

definition demo_ring :: "nat ring" where
  "demo_ring = fst (snd (rg_init (\<lambda>n align a. (Some a, a + n)) 8 8 [0, 0, 0, 0] 4 (ring_new, 64 :: u64)))"

lemma demo_ring_ok: "duo_init 2 \<lparr>du_ring = demo_ring, du_prod = PIdle, du_cons = CIdle\<rparr>"
  by (simp add: demo_ring_def duo_init_def ring_ok_def rg_init_def ring_new_def)

lemma ring_run_trans: "ring_run t fs u \<Longrightarrow> ring_run s es t \<Longrightarrow> ring_run s (es @ fs) u"
proof (induction rule: ring_run.induct)
  case (more s fs t e u)
  then show ?case using ring_run.more [of _ "es @ fs"] by simp
qed simp

theorem ring_fifo_witness:
  "popped [Tau, Push (7 :: nat), Tau, Tau, Pop 7, Tau] = take 1 [7] \<and> length [7 :: nat] \<le> 1 + 3"
proof -
  let ?es = "[Tau, Push (7 :: nat), Tau] @ [Tau, Pop 7, Tau]"
  have full: "\<not> rg_full demo_ring" by code_simp
  have vacant: "\<not> rg_vacant (snd (rg_try_push 7 demo_ring))" "rg_read (snd (rg_try_push 7 demo_ring)) = 7" by code_simp+
  have "ring_run \<lparr>du_ring = demo_ring, du_prod = PIdle, du_cons = CIdle\<rparr> ?es
    \<lparr>du_ring = snd (rg_try_pop (snd (rg_try_push 7 demo_ring))), du_prod = PIdle, du_cons = CIdle\<rparr>"
    by (rule ring_run_trans [OF _ try_push_steps [OF full]]) (use try_pop_steps [OF vacant(1), of PIdle] vacant(2) in simp)
  from ring_fifo [OF demo_ring_ok this] show ?thesis by (simp add: pushed_def popped_def map_filter_def)
qed

definition ring_holds :: "nat \<Rightarrow> 'v list \<Rightarrow> 'v ring \<Rightarrow> bool" where
  "ring_holds k q r \<longleftrightarrow> (\<exists>xs t. ring_rel k xs t r \<and> rg_head r = of_nat (length xs) \<and> rg_tail r = of_nat t \<and> q = drop t xs)"

lemma ring_holds_vacant: "duo_init k s \<Longrightarrow> ring_holds k [] (du_ring s)"
  unfolding ring_holds_def by (rule exI [of _ "[]"], rule exI [of _ 0]) (simp add: duo_init_def ring_rel_def)

text \<open>
C32: The ring refines a bounded queue: a push appends unless one slot less than the capacity is taken, a
pop takes the front unless the queue is empty, a failed call changes nothing, and with neither
thread active the approximate size is the length of the queue.
\<close>

theorem ring_refines_queue:
  assumes "ring_holds k q r"
  shows "(case rg_try_push v r of (ok, r') \<Rightarrow>
      ok = (length q < 2 ^ k - 1) \<and> ring_holds k (if ok then q @ [v] else q) r' \<and> (\<not> ok \<longrightarrow> r' = r)) \<and>
    (case rg_try_pop r of (x, r') \<Rightarrow>
      (case q of [] \<Rightarrow> x = None \<and> r' = r | y # q' \<Rightarrow> x = Some y \<and> ring_holds k q' r')) \<and>
    unat (rg_size_approx r) = length q"
proof -
  obtain xs t where i: "ring_rel k xs t r" "rg_head r = of_nat (length xs)" "rg_tail r = of_nat t" "q = drop t xs"
    using assms by (auto simp: ring_holds_def)
  have k: "k < 64" "rg_mask r = 2 ^ k - 1" "t \<le> length xs" "length xs - t < 2 ^ k"
    using i(1) by (simp_all add: ring_rel_def ring_ok_def)
  have len: "length q = length xs - t" by (simp add: i(4))
  have full: "rg_full r \<longleftrightarrow> length q = 2 ^ k - 1" and vacant: "rg_vacant r \<longleftrightarrow> q = []"
    using ring_full_iff [OF i(1-3)] ring_vacant_iff [OF i(1-3)] k(3) by (auto simp: i(4))
  have push: "ring_holds k (q @ [v]) (snd (rg_try_push v r))" if "length q < 2 ^ k - 1"
  proof -
    have "ring_rel k (xs @ [v]) t (rg_write v r)"
      by (rule ring_rel_write [OF i(1,2)]) (use that len in simp)
    then show ?thesis
      using that full i k(3) unfolding ring_holds_def
      by (intro exI [of _ "xs @ [v]"] exI [of _ t]) (auto simp: rg_try_push_def Let_def ring_rel_fields rg_write_def)
  qed
  have pop: "rg_read r = hd q \<and> ring_holds k (tl q) (snd (rg_try_pop r))" if "q \<noteq> []"
  proof -
    have t: "t < length xs" using that by (simp add: i(4))
    have "rg_read r = hd q" using ring_rel_read [OF i(1,3) t] t by (simp add: i(4) hd_drop_conv_nth)
    moreover have "ring_holds k (tl q) (snd (rg_try_pop r))"
      using ring_rel_drop [OF i(1) t] that vacant i(2-4) unfolding ring_holds_def
      by (intro exI [of _ xs] exI [of _ "Suc t"]) (auto simp: rg_try_pop_def Let_def ring_rel_fields drop_Suc tl_drop)
    ultimately show ?thesis by simp
  qed
  have "rg_head r - rg_tail r = of_nat (length q)" using i(2,3) k(3) len by (simp add: of_nat_diff)
  then have size: "unat (rg_size_approx r) = length q"
    using index_mod [OF k(1), of "length q"] k(2,4) len by (simp add: rg_size_approx_def)
  have "length q \<le> 2 ^ k - 1" using k(4) len by linarith
  then show ?thesis
    using push pop full vacant size assms
    by (cases q) (auto simp: rg_try_push_def rg_try_pop_def Let_def)
qed

theorem ring_refines_queue_witness:
  "fst (rg_try_push 7 demo_ring) \<and> unat (rg_size_approx demo_ring) = 0 \<and> fst (rg_try_pop demo_ring) = None"
proof -
  have "ring_holds 2 [] demo_ring" using ring_holds_vacant [OF demo_ring_ok] by simp
  from ring_refines_queue [OF this, of 7] show ?thesis by (auto split: prod.splits)
qed

end
