(* ===== verification/Ycpp_Awareness.thy ===== *)
theory Ycpp_Awareness
  imports Ycpp_HashMap Ycpp_Codec
begin

text \<open>
  The presence map of ycpp_awareness.h: per client a clock and an opaque state, in a hash map
  beside the array of the clients in the order they were first seen.

  \<open>aw_abs\<close> is the finite map a table stands for; \<open>aw_join\<close> is the merge of one remote record into it,
  a join: the record with the highest clock wins.
\<close>

section \<open>The code\<close>

definition aw_kMaxClients :: nat where
  "aw_kMaxClients = 4096"

definition kMaxStateBytes :: nat where
  "kMaxStateBytes = 2 ^ 16"

record aw_entry =
  ae_clock :: u64
  ae_state :: bytes

record awareness =
  aw_table :: "(u64, aw_entry) hashmap"
  aw_order :: "u64 list"

definition aw_empty :: awareness where
  "aw_empty = \<lparr>aw_table = hm_empty, aw_order = []\<rparr>"

text \<open>The end of \<open>publish\<close> and \<open>merge_remote\<close> for a client that is not in the table.\<close>

definition aw_insert_new :: "(u64, 'a) hm_env \<Rightarrow> u64 \<Rightarrow> aw_entry \<Rightarrow> (awareness \<times> 'a, unit) op" where
  "aw_insert_new E client entry st =
     (let (aw, a) = st;
          (inserted, table, a) = hm_add E client entry (aw_table aw, a)
      in if \<not> inserted then (Inl kOutOfMemory, aw\<lparr>aw_table := table\<rparr>, a)
         else (Inr (), \<lparr>aw_table = table, aw_order = aw_order aw @ [client]\<rparr>, a))"

definition aw_publish :: "(u64, 'a) hm_env \<Rightarrow> u64 \<Rightarrow> bytes \<Rightarrow> (awareness \<times> 'a, unit) op" where
  "aw_publish E client state st =
     (let (aw, a) = st in
      if length state > kMaxStateBytes then (Inl kCapacityExceeded, aw, a)
      else
        (case clone_view (he_alloc E) state a of
           (None, a) \<Rightarrow> (Inl kOutOfMemory, aw, a)
         | (Some owned, a) \<Rightarrow>
             (case hm_get E client (aw_table aw) of
                Some hit \<Rightarrow>
                  (Inr (), aw\<lparr>aw_table := hm_assign E client \<lparr>ae_clock = ae_clock hit + 1, ae_state = owned\<rparr> (aw_table aw)\<rparr>, a)
              | None \<Rightarrow>
                  if length (aw_order aw) \<ge> aw_kMaxClients then (Inl kCapacityExceeded, aw, a)
                  else aw_insert_new E client \<lparr>ae_clock = 1, ae_state = owned\<rparr> (aw, a))))"

definition aw_merge_remote :: "(u64, 'a) hm_env \<Rightarrow> u64 \<Rightarrow> u64 \<Rightarrow> bytes \<Rightarrow> (awareness \<times> 'a, unit) op" where
  "aw_merge_remote E client clock state st =
     (let (aw, a) = st in
      case hm_get E client (aw_table aw) of
        Some hit \<Rightarrow>
          if clock \<le> ae_clock hit then (Inr (), aw, a)
          else
            (case clone_view (he_alloc E) state a of
               (None, a) \<Rightarrow> (Inl kOutOfMemory, aw, a)
             | (Some owned, a) \<Rightarrow>
                 (Inr (), aw\<lparr>aw_table := hm_assign E client \<lparr>ae_clock = clock, ae_state = owned\<rparr> (aw_table aw)\<rparr>, a))
      | None \<Rightarrow>
          if length (aw_order aw) \<ge> aw_kMaxClients then (Inl kCapacityExceeded, aw, a)
          else
            (case clone_view (he_alloc E) state a of
               (None, a) \<Rightarrow> (Inl kOutOfMemory, aw, a)
             | (Some owned, a) \<Rightarrow> aw_insert_new E client \<lparr>ae_clock = clock, ae_state = owned\<rparr> (aw, a)))"

definition aw_apply :: "(u64, 'a) hm_env \<Rightarrow> bytes \<Rightarrow> (awareness \<times> 'a, unit) op" where
  "aw_apply E wire st =
     (case ytry (yfst r_varint_u64) (\<lambda>n.
        if unat n > aw_kMaxClients then yfail kCapacityExceeded
        else
          ytry (yloop (unat n)
            (ytry (yfst r_varint_u64) (\<lambda>client.
             ytry (yfst r_varint_u64) (\<lambda>clock.
             ytry (yfst r_length_prefixed) (\<lambda>state.
               ysnd (aw_merge_remote E client clock state)))))) (\<lambda>_ (r, st).
          if \<not> r_eof r then (Inl kCorruptInput, r, st) else (Inr (), r, st))) (reader_of wire, st) of
        (res, _, st) \<Rightarrow> (res, st))"

definition aw_items :: "(u64, 'a) hm_env \<Rightarrow> awareness \<Rightarrow> (u64 \<times> aw_entry) list" where
  "aw_items E aw = map (\<lambda>client. (client, the (hm_get E client (aw_table aw)))) (aw_order aw)"

definition aw_encode_all :: "(u64, 'a) hm_env \<Rightarrow> awareness \<Rightarrow> (writer, unit) op" where
  "aw_encode_all E aw =
     ytry (w_varint_u64 (of_nat (length (aw_order aw)))) (\<lambda>_.
       yforeach (\<lambda>client.
         let hit = the (hm_get E client (aw_table aw)) in
         ytry (w_varint_u64 client) (\<lambda>_.
         ytry (w_varint_u64 (ae_clock hit)) (\<lambda>_. w_length_prefixed (ae_state hit)))) (aw_order aw))"

definition aw_get :: "(u64, 'a) hm_env \<Rightarrow> u64 \<Rightarrow> awareness \<Rightarrow> aw_entry option" where
  "aw_get E client aw = hm_get E client (aw_table aw)"

definition aw_client_count :: "awareness \<Rightarrow> nat" where
  "aw_client_count aw = length (aw_order aw)"

definition aw_for_each :: "(u64, 'a) hm_env \<Rightarrow> (u64 \<Rightarrow> aw_entry \<Rightarrow> 's \<Rightarrow> 's) \<Rightarrow> awareness \<Rightarrow> 's \<Rightarrow> 's" where
  "aw_for_each E f aw = fold (\<lambda>(client, entry). f client entry) (aw_items E aw)"

section \<open>Invariant and abstraction\<close>

definition aw_inv :: "(u64, 'a) hm_env \<Rightarrow> awareness \<Rightarrow> bool" where
  "aw_inv E aw \<longleftrightarrow> tracks (hm_inv E) hm_abs (aw_order aw) (aw_table aw) \<and> length (aw_order aw) \<le> aw_kMaxClients"

definition aw_abs :: "awareness \<Rightarrow> u64 \<Rightarrow> aw_entry option" where
  "aw_abs aw = hm_abs (aw_table aw)"

text \<open>A record on the wire, and what merging it means.\<close>

type_synonym aw_record = "u64 \<times> aw_entry"

definition aw_join :: "(u64 \<Rightarrow> aw_entry option) \<Rightarrow> aw_record \<Rightarrow> u64 \<Rightarrow> aw_entry option" where
  "aw_join m r = (case m (fst r) of
     None \<Rightarrow> m(fst r \<mapsto> snd r)
   | Some e \<Rightarrow> if ae_clock (snd r) \<le> ae_clock e then m else m(fst r \<mapsto> snd r))"

lemma aw_inv_empty: "aw_inv E aw_empty" "aw_abs aw_empty = Map.empty" "aw_order aw_empty = []"
  by (simp_all add: aw_inv_def aw_abs_def aw_empty_def tracks_def hm_core_empty)

definition aw_room :: "(u64, 'a) hm_env \<Rightarrow> nat \<Rightarrow> awareness \<Rightarrow> bool" where
  "aw_room E n aw \<longleftrightarrow> hm_room E n (aw_table aw) \<and> length (aw_order aw) + n \<le> aw_kMaxClients"

lemma aw_room_empty: "alloc_total (he_alloc E) \<Longrightarrow> n \<le> aw_kMaxClients \<Longrightarrow> aw_room E n aw_empty"
  by (simp add: aw_room_def hm_room_def aw_empty_def hm_empty_def aw_kMaxClients_def kMaxCap_def)

lemma aw_get_abs: "aw_inv E aw \<Longrightarrow> hm_get E client (aw_table aw) = aw_abs aw client"
  using hm.tracks_get [of E "aw_order aw" "aw_table aw" client] by (simp add: aw_abs_def aw_inv_def)

lemma aw_known: "aw_inv E aw \<Longrightarrow> client \<in> set (aw_order aw) \<longleftrightarrow> aw_abs aw client \<noteq> None"
  by (auto simp: aw_inv_def tracks_def aw_abs_def)

lemma aw_assign_spec:
  assumes inv: "aw_inv E aw" and known: "aw_abs aw client = Some hit"
    and aw': "aw' = aw\<lparr>aw_table := hm_assign E client entry (aw_table aw)\<rparr>"
  shows "aw_inv E aw' \<and> aw_abs aw' = (aw_abs aw)(client \<mapsto> entry) \<and> (aw_room E n aw \<longrightarrow> aw_room E n aw')"
proof -
  have tr: "tracks (hm_inv E) hm_abs (aw_order aw) (aw_table aw)" using inv by (simp add: aw_inv_def)
  then have hm: "hm_inv E (aw_table aw)" by (simp add: tracks_def)
  have "client \<in> set (aw_order aw)" using aw_known [OF inv] known by simp
  then show ?thesis
    using inv known aw' hm.tracks_assign [OF tr] hm_assign_spec(2,3) [OF hm]
    by (simp add: aw_inv_def aw_abs_def aw_room_def)
qed

lemma aw_insert_new_spec:
  assumes inv: "aw_inv E aw" and new: "aw_abs aw client = None" and room: "length (aw_order aw) < aw_kMaxClients"
    and run: "aw_insert_new E client entry (aw, a) = (r, aw', a')"
  shows "aw_inv E aw' \<and> r \<in> {Inr (), Inl kOutOfMemory} \<and>
    aw_abs aw' = (if r = Inr () then (aw_abs aw)(client \<mapsto> entry) else aw_abs aw) \<and>
    aw_order aw' = (if r = Inr () then aw_order aw @ [client] else aw_order aw) \<and>
    (aw_room E (Suc n) aw \<longrightarrow> r = Inr () \<and> aw_room E n aw')"
proof -
  have tr: "tracks (hm_inv E) hm_abs (aw_order aw) (aw_table aw)" using inv by (simp add: aw_inv_def)
  then have hm: "hm_inv E (aw_table aw)" by (simp add: tracks_def)
  have none: "hm_get E client (aw_table aw) = None" using aw_get_abs [OF inv] new by simp
  obtain ok t a1 where add: "hm_add E client entry (aw_table aw, a) = (ok, t, a1)" by (metis prod.collapse)
  have r: "r = (if ok then Inr () else Inl kOutOfMemory)"
    "aw' = (if ok then \<lparr>aw_table = t, aw_order = aw_order aw @ [client]\<rparr> else aw\<lparr>aw_table := t\<rparr>)"
    using run add by (auto simp: aw_insert_new_def split: if_splits)
  then show ?thesis
    using hm.tracks_add [OF tr none add] hm_add_spec(2) [OF hm add] room inv
    by (auto simp: aw_abs_def aw_inv_def aw_room_def)
qed

lemma aw_merge_spec:
  assumes inv: "aw_inv E aw" and run: "aw_merge_remote E client clock state (aw, a) = (r, aw', a')"
  shows "aw_inv E aw'"
    and "aw_abs aw' = (if r = Inr () then aw_join (aw_abs aw) (client, \<lparr>ae_clock = clock, ae_state = state\<rparr>) else aw_abs aw)"
    and "r = Inr () \<Longrightarrow> aw_order aw' = (if aw_abs aw client = None then aw_order aw @ [client] else aw_order aw)"
    and "r \<in> {Inr (), Inl kCapacityExceeded, Inl kOutOfMemory}"
    and "aw_room E (Suc n) aw \<Longrightarrow> r = Inr () \<and> aw_room E n aw'"
proof -
  have "aw_inv E aw' \<and>
    aw_abs aw' = (if r = Inr () then aw_join (aw_abs aw) (client, \<lparr>ae_clock = clock, ae_state = state\<rparr>) else aw_abs aw) \<and>
    (r = Inr () \<longrightarrow> aw_order aw' = (if aw_abs aw client = None then aw_order aw @ [client] else aw_order aw)) \<and>
    r \<in> {Inr (), Inl kCapacityExceeded, Inl kOutOfMemory} \<and>
    (aw_room E (Suc n) aw \<longrightarrow> r = Inr () \<and> aw_room E n aw')"
  proof -
    obtain c a1 where clone: "clone_view (he_alloc E) state a = (c, a1)" by (metis surj_pair)
    have owned: "c = None \<or> c = Some state" using clone_view_Some [of "he_alloc E" state a] clone by (cases c) auto
    have total: "aw_room E n aw \<Longrightarrow> c = Some state" for n
      using clone_view_total [OF _ clone] by (simp add: aw_room_def hm_room_def)
    have less: "aw_room E (Suc n) aw \<Longrightarrow> aw_room E n aw" by (simp add: aw_room_def hm_room_def)
    show ?thesis
    proof (cases "aw_abs aw client")
      case (Some hit)
      have run: "(r, aw', a') = (if clock \<le> ae_clock hit then (Inr (), aw, a)
          else case c of None \<Rightarrow> (Inl kOutOfMemory, aw, a1)
            | Some owned \<Rightarrow> (Inr (), aw\<lparr>aw_table := hm_assign E client \<lparr>ae_clock = clock, ae_state = owned\<rparr> (aw_table aw)\<rparr>, a1))"
        using run Some aw_get_abs [OF inv] clone by (simp add: aw_merge_remote_def cong: if_cong)
      show ?thesis
        using run Some owned inv total less aw_assign_spec [OF inv Some refl, of "\<lparr>ae_clock = clock, ae_state = state\<rparr>" n]
        by (cases c) (auto simp: aw_join_def split: if_splits)
    next
      case None
      have run: "(r, aw', a') = (if length (aw_order aw) \<ge> aw_kMaxClients then (Inl kCapacityExceeded, aw, a)
          else case c of None \<Rightarrow> (Inl kOutOfMemory, aw, a1)
            | Some owned \<Rightarrow> aw_insert_new E client \<lparr>ae_clock = clock, ae_state = owned\<rparr> (aw, a1))"
        using run None aw_get_abs [OF inv] clone by (simp add: aw_merge_remote_def cong: if_cong)
      show ?thesis
      proof (cases "length (aw_order aw) \<ge> aw_kMaxClients \<or> c = None")
        case True
        moreover have "\<not> aw_room E (Suc n) aw" if "length (aw_order aw) \<ge> aw_kMaxClients" using that by (simp add: aw_room_def)
        ultimately show ?thesis using run None inv total by (auto split: if_splits)
      next
        case False
        then have "aw_insert_new E client \<lparr>ae_clock = clock, ae_state = state\<rparr> (aw, a1) = (r, aw', a')"
          using run owned by auto
        then show ?thesis
          using aw_insert_new_spec [OF inv None, of "\<lparr>ae_clock = clock, ae_state = state\<rparr>" a1 r aw' a' n] False None
          by (auto simp: aw_join_def)
      qed
    qed
  qed
  then show "aw_inv E aw'"
    "aw_abs aw' = (if r = Inr () then aw_join (aw_abs aw) (client, \<lparr>ae_clock = clock, ae_state = state\<rparr>) else aw_abs aw)"
    "r = Inr () \<Longrightarrow> aw_order aw' = (if aw_abs aw client = None then aw_order aw @ [client] else aw_order aw)"
    "r \<in> {Inr (), Inl kCapacityExceeded, Inl kOutOfMemory}"
    "aw_room E (Suc n) aw \<Longrightarrow> r = Inr () \<and> aw_room E n aw'"
    by blast+
qed

section \<open>The wire format\<close>

definition record_bytes :: "aw_record \<Rightarrow> bytes" where
  "record_bytes r = varint_bytes (fst r) @ varint_bytes (ae_clock (snd r)) @ prefixed_bytes (ae_state (snd r))"

definition aw_bytes :: "aw_record list \<Rightarrow> bytes" where
  "aw_bytes rs = varint_bytes (of_nat (length rs)) @ concat (map record_bytes rs)"

text \<open>A message: at most 4096 records, states of a size the address space holds.\<close>

definition aw_message :: "aw_record list \<Rightarrow> bool" where
  "aw_message rs \<longleftrightarrow> length rs \<le> aw_kMaxClients \<and> (\<forall>r \<in> set rs. length (ae_state (snd r)) < 2 ^ 64)"

definition aw_merge :: "(u64, 'a) hm_env \<Rightarrow> aw_record \<Rightarrow> (awareness \<times> 'a, unit) op" where
  "aw_merge E r = aw_merge_remote E (fst r) (ae_clock (snd r)) (ae_state (snd r))"

lemma aw_encode_appends: "w_appends (aw_encode_all E aw) (aw_bytes (aw_items E aw))"
proof -
  have "aw_bytes (aw_items E aw) = varint_bytes (of_nat (length (aw_order aw))) @
      concat (map (\<lambda>c. record_bytes (c, the (hm_get E c (aw_table aw)))) (aw_order aw))"
    by (simp add: aw_bytes_def aw_items_def comp_def)
  then show ?thesis
    unfolding aw_encode_all_def Let_def
    by (auto simp: record_bytes_def intro!: w_appends_try w_appends_foreach w_appends_intros)
qed

lemma aw_apply_bytes:
  assumes "aw_message rs"
  shows "aw_apply E (aw_bytes rs) st = yforeach (aw_merge E) rs st"
proof -
  let ?body = "ytry (yfst r_varint_u64) (\<lambda>client. ytry (yfst r_varint_u64) (\<lambda>clock.
      ytry (yfst r_length_prefixed) (\<lambda>state. ysnd (aw_merge_remote E client clock state))))"
  let ?fin = "\<lambda>_ (r, st). if \<not> r_eof r then (Inl kCorruptInput, r, st) else (Inr (), r, st)"
  let ?n = "varint_bytes (of_nat (length rs))" and ?bs = "concat (map record_bytes rs)"
  have feeds: "r_feeds (yloop (length rs) ?body) ?bs (yforeach (aw_merge E) rs)"
  proof (rule r_feeds_loop)
    fix r
    assume "r \<in> set rs"
    then have "length (ae_state (snd r)) < 2 ^ 64" using assms by (simp add: aw_message_def)
    then show "r_feeds ?body (record_bytes r) (aw_merge E r)"
      unfolding record_bytes_def aw_merge_def
      by (intro r_feeds_parse [OF r_parses_varint_u64] r_feeds_parse_end [OF r_parses_length_prefixed] r_feeds_snd)
  qed
  have n: "unat (of_nat (length rs) :: u64) = length rs" "length rs \<le> aw_kMaxClients"
    using assms by (simp_all add: aw_message_def aw_kMaxClients_def unat_of_nat_small)
  have head: "yfst r_varint_u64 (reader_of (?n @ ?bs), st) =
      (Inr (of_nat (length rs)), \<lparr>r_view = ?n @ ?bs, r_pos = length ?n\<rparr>, st)"
    using r_parses_whole [OF r_parses_varint_u64, of "of_nat (length rs)" ?bs] by (simp add: yfst_def)
  obtain res st' where run: "yforeach (aw_merge E) rs st = (res, st')" by (metis surj_pair)
  show ?thesis
  proof (cases res)
    case (Inl e)
    then obtain r' where "yloop (length rs) ?body (\<lparr>r_view = ?n @ ?bs @ [], r_pos = length ?n\<rparr>, st) = (Inl e, r', st')"
      using r_feeds_fail [OF feeds, of st e st' ?n "[]"] run by blast
    then show ?thesis using head run n Inl by (simp add: aw_apply_def aw_bytes_def op_simps)
  next
    case (Inr x)
    then have "yloop (length rs) ?body (\<lparr>r_view = ?n @ ?bs @ [], r_pos = length ?n\<rparr>, st) =
        (Inr x, \<lparr>r_view = ?n @ ?bs @ [], r_pos = length ?n + length ?bs\<rparr>, st')"
      using r_feeds_ok [OF feeds, of st x st' ?n "[]"] run by blast
    then show ?thesis using head run n Inr by (simp add: aw_apply_def aw_bytes_def op_simps r_eof_def)
  qed
qed

section \<open>Merging many records\<close>

lemma aw_merge_all:
  assumes "aw_inv E aw" and "yforeach (aw_merge E) rs (aw, a) = (r, aw', a')"
  shows "aw_inv E aw' \<and> (r = Inr () \<longrightarrow> aw_abs aw' = foldl aw_join (aw_abs aw) rs) \<and>
    (r = Inr () \<longrightarrow> distinct (map fst rs) \<longrightarrow> (\<forall>c \<in> fst ` set rs. aw_abs aw c = None) \<longrightarrow>
      aw_order aw' = aw_order aw @ map fst rs) \<and>
    (aw_room E (length rs) aw \<longrightarrow> r = Inr ())"
  using assms
proof (induction rs arbitrary: aw a)
  case Nil
  then show ?case by (simp add: op_simps)
next
  case (Cons x rs)
  obtain r1 aw1 a1 where step: "aw_merge E x (aw, a) = (r1, aw1, a1)" by (metis prod.collapse)
  note spec = aw_merge_spec [OF Cons.prems(1) step [unfolded aw_merge_def]]
  show ?case
  proof (cases "r1 = Inr ()")
    case True
    then have "yforeach (aw_merge E) rs (aw1, a1) = (r, aw', a')" using Cons.prems(2) step by (simp add: op_simps)
    note IH = Cons.IH [OF spec(1) this]
    have abs: "aw_abs aw1 = aw_join (aw_abs aw) x" using spec(2) True by (cases x; cases "snd x") simp
    have "aw_order aw' = aw_order aw @ map fst (x # rs)"
      if "r = Inr ()" "distinct (map fst (x # rs))" "\<forall>c \<in> fst ` set (x # rs). aw_abs aw c = None"
    proof -
      have "\<forall>c \<in> fst ` set rs. aw_abs aw1 c = None" using that(2,3) by (auto simp: abs aw_join_def image_iff)
      then show ?thesis using IH that spec(3) True by simp
    qed
    then show ?thesis using IH abs spec(5) [of "length rs"] by simp
  next
    case False
    then obtain e where "r1 = Inl e" by (cases r1) auto
    then have "r = r1" "aw' = aw1" using Cons.prems(2) step by (simp_all add: op_simps)
    then show ?thesis using False spec(1) spec(5) [of "length rs"] by auto
  qed
qed

text \<open>What a map that has joined the records \<open>rs\<close> holds.\<close>

definition aw_newest :: "aw_record set \<Rightarrow> (u64 \<Rightarrow> aw_entry option) \<Rightarrow> bool" where
  "aw_newest S m \<longleftrightarrow> (\<forall>c. case m c of
     None \<Rightarrow> c \<notin> fst ` S
   | Some e \<Rightarrow> (c, e) \<in> S \<and> (\<forall>e'. (c, e') \<in> S \<longrightarrow> ae_clock e' \<le> ae_clock e))"

lemma aw_newest_join: "aw_newest S m \<Longrightarrow> aw_newest (insert r S) (aw_join m r)"
proof -
  assume new: "aw_newest S m"
  obtain c e where r: "r = (c, e)" by (metis surj_pair)
  show ?thesis
    unfolding aw_newest_def
  proof
    fix d
    have d: "case m d of None \<Rightarrow> d \<notin> fst ` S | Some e \<Rightarrow> (d, e) \<in> S \<and> (\<forall>e'. (d, e') \<in> S \<longrightarrow> ae_clock e' \<le> ae_clock e)"
      using new by (simp add: aw_newest_def)
    show "case aw_join m r d of None \<Rightarrow> d \<notin> fst ` insert r S
      | Some e \<Rightarrow> (d, e) \<in> insert r S \<and> (\<forall>e'. (d, e') \<in> insert r S \<longrightarrow> ae_clock e' \<le> ae_clock e)"
    proof (cases "m d")
      case None
      then show ?thesis using d r by (cases "d = c") (force simp: aw_join_def split: option.splits)+
    next
      case (Some x)
      then show ?thesis using d r by (cases "d = c") (auto simp: aw_join_def split: option.splits)
    qed
  qed
qed

lemma aw_newest_foldl: "aw_newest S m \<Longrightarrow> aw_newest (S \<union> set rs) (foldl aw_join m rs)"
proof (induction rs arbitrary: S m)
  case (Cons r rs)
  from Cons.IH [OF aw_newest_join [OF Cons.prems]] show ?case by simp
qed simp

text \<open>A client never publishes two states under one clock.\<close>

definition aw_consistent :: "aw_record set \<Rightarrow> bool" where
  "aw_consistent S \<longleftrightarrow> (\<forall>c e e'. (c, e) \<in> S \<longrightarrow> (c, e') \<in> S \<longrightarrow> ae_clock e = ae_clock e' \<longrightarrow> e = e')"

lemma aw_newest_unique:
  assumes "aw_newest S m" and "aw_newest S m'" and "aw_consistent S"
  shows "m = m'"
proof
  fix c
  have "case m c of None \<Rightarrow> c \<notin> fst ` S | Some e \<Rightarrow> (c, e) \<in> S \<and> (\<forall>e'. (c, e') \<in> S \<longrightarrow> ae_clock e' \<le> ae_clock e)"
    "case m' c of None \<Rightarrow> c \<notin> fst ` S | Some e \<Rightarrow> (c, e) \<in> S \<and> (\<forall>e'. (c, e') \<in> S \<longrightarrow> ae_clock e' \<le> ae_clock e)"
    using assms(1,2) by (simp_all add: aw_newest_def)
  then show "m c = m' c"
    using assms(3) unfolding aw_consistent_def
    by (cases "m c"; cases "m' c") (force intro: antisym)+
qed

text \<open>Applying messages one after the other.\<close>

lemma yforeach_append: "yforeach f (xs @ ys) s = ytry (yforeach f xs) (\<lambda>_. yforeach f ys) s"
  by (induction xs arbitrary: s) (auto simp: op_simps split: prod.splits sum.splits)

lemma aw_apply_all:
  "\<forall>rs \<in> set ms. aw_message rs \<Longrightarrow> yforeach (\<lambda>rs. aw_apply E (aw_bytes rs)) ms st = yforeach (aw_merge E) (concat ms) st"
proof (induction ms arbitrary: st)
  case (Cons rs ms)
  then show ?case
    by (simp add: yforeach_append op_simps aw_apply_bytes split: prod.splits sum.splits)
qed simp

section \<open>Properties\<close>

text \<open>
C35: Presence converges: two peers that have applied messages with the same records, in any order, split
and repeated in any way, hold the same map, as long as no client published two states under one clock.
\<close>

theorem awareness_convergence:
  assumes "\<forall>rs \<in> set ms. aw_message rs" and "\<forall>rs \<in> set ms'. aw_message rs"
    and "yforeach (\<lambda>rs. aw_apply E (aw_bytes rs)) ms (aw_empty, a) = (Inr (), aw, b)"
    and "yforeach (\<lambda>rs. aw_apply E' (aw_bytes rs)) ms' (aw_empty, a') = (Inr (), aw', b')"
    and "set (concat ms) = set (concat ms')" and "aw_consistent (set (concat ms))"
  shows "aw_get E c aw = aw_get E' c aw'"
proof -
  have run: "yforeach (aw_merge E) (concat ms) (aw_empty, a) = (Inr (), aw, b)"
    "yforeach (aw_merge E') (concat ms') (aw_empty, a') = (Inr (), aw', b')"
    using assms(3,4) unfolding aw_apply_all [OF assms(1)] aw_apply_all [OF assms(2)] .
  note all = aw_merge_all [OF aw_inv_empty(1) run(1)] aw_merge_all [OF aw_inv_empty(1) run(2)]
  have "aw_newest {} Map.empty" by (simp add: aw_newest_def)
  then have new: "aw_newest (set rs) (foldl aw_join Map.empty rs)" for rs
    using aw_newest_foldl [of "{}" Map.empty rs] by simp
  have "aw_newest (set (concat ms)) (aw_abs aw)" "aw_newest (set (concat ms')) (aw_abs aw')"
    using all new [of "concat ms"] new [of "concat ms'"] by (simp_all add: aw_inv_empty(2) del: set_concat)
  then have "aw_abs aw = aw_abs aw'"
    unfolding assms(5) [symmetric] by (rule aw_newest_unique [OF _ _ assms(6)])
  then show ?thesis using all aw_get_abs unfolding aw_get_def by metis
qed

definition demo_record :: "u64 \<Rightarrow> u64 \<Rightarrow> aw_record" where
  "demo_record c k = (c, \<lparr>ae_clock = k, ae_state = [1]\<rparr>)"

definition demo_aw :: "aw_record list list \<Rightarrow> unit result \<times> awareness \<times> u64" where
  "demo_aw ms = yforeach (\<lambda>rs. aw_apply bump_env (aw_bytes rs)) ms (aw_empty, 64)"

lemma demo_aw_ok:
  assumes "\<forall>rs \<in> set ms. aw_message rs" and "length (concat ms) \<le> aw_kMaxClients"
  shows "\<exists>aw b. demo_aw ms = (Inr (), aw, b)"
proof -
  obtain r aw b where run: "yforeach (aw_merge bump_env) (concat ms) (aw_empty, 64) = (r, aw, b)" by (metis prod.collapse)
  then show ?thesis
    using aw_merge_all [OF aw_inv_empty(1) run] aw_room_empty [OF bump_env_total assms(2)]
    by (auto simp: demo_aw_def aw_apply_all [OF assms(1)])
qed

theorem awareness_convergence_witness:
  "aw_get bump_env 5 (fst (snd (demo_aw [[demo_record 5 1, demo_record 7 1], [demo_record 5 2]]))) =
   aw_get bump_env 5 (fst (snd (demo_aw [[demo_record 5 2], [demo_record 5 1], [demo_record 7 1, demo_record 5 2]])))"
proof -
  let ?ms = "[[demo_record 5 1, demo_record 7 1], [demo_record 5 2]]"
  let ?ms' = "[[demo_record 5 2], [demo_record 5 1], [demo_record 7 1, demo_record 5 2]]"
  have msg: "\<forall>rs \<in> set ?ms. aw_message rs" "\<forall>rs \<in> set ?ms'. aw_message rs"
    by (simp_all add: aw_message_def demo_record_def aw_kMaxClients_def)
  obtain aw b aw' b' where run: "demo_aw ?ms = (Inr (), aw, b)" "demo_aw ?ms' = (Inr (), aw', b')"
    using demo_aw_ok [OF msg(1)] demo_aw_ok [OF msg(2)] by (auto simp: aw_kMaxClients_def)
  have cons: "aw_consistent (set (concat ?ms))" by (auto simp: aw_consistent_def demo_record_def)
  have same: "set (concat ?ms) = set (concat ?ms')" by auto
  from awareness_convergence [OF msg run [unfolded demo_aw_def] same cons] show ?thesis by (simp add: run)
qed

text \<open>
C36: A peer that joins catches up with one message: what \<open>encode_all\<close> writes, applied to an empty
presence map, succeeds unless memory runs out and restores every client's clock and state, clients
in the same order.
\<close>

theorem awareness_bootstrap:
  assumes "aw_inv E aw" and "length (aw_bytes (aw_items E aw)) \<le> length buf"
    and "\<forall>c e. aw_get E c aw = Some e \<longrightarrow> length (ae_state e) < 2 ^ 64" and "alloc_total (he_alloc E')"
  shows "\<exists>w aw' a'. aw_encode_all E aw (writer_of buf) = (Inr (), w) \<and>
    aw_apply E' (w_out w) (aw_empty, a) = (Inr (), aw', a') \<and>
    aw_order aw' = aw_order aw \<and> (\<forall>c. aw_get E' c aw' = aw_get E c aw)"
proof -
  let ?rs = "aw_items E aw"
  have fst: "map fst ?rs = aw_order aw" by (simp add: aw_items_def comp_def)
  then have dist: "distinct (map fst ?rs)" using assms(1) by (simp add: aw_inv_def tracks_def)
  have rec: "(c, e) \<in> set ?rs \<longleftrightarrow> aw_abs aw c = Some e" for c e
    using aw_known [OF assms(1), of c] aw_get_abs [OF assms(1), of c] by (auto simp: aw_items_def)
  have msg: "aw_message ?rs"
  proof -
    have "length (ae_state e) < 2 ^ 64" if "(c, e) \<in> set ?rs" for c e
      using that assms(3) aw_get_abs [OF assms(1), of c] unfolding rec aw_get_def by auto
    moreover have "length ?rs \<le> aw_kMaxClients" using assms(1) by (simp add: aw_items_def aw_inv_def)
    ultimately show ?thesis by (auto simp: aw_message_def)
  qed
  obtain w where w: "aw_encode_all E aw (writer_of buf) = (Inr (), w)" "w_out w = aw_bytes ?rs"
    by (rule w_appends_fits [OF aw_encode_appends w_wf_writer_of, of E aw buf]) (use assms(2) in auto)
  obtain r aw' a' where run: "yforeach (aw_merge E') ?rs (aw_empty, a) = (r, aw', a')" by (metis prod.collapse)
  note all = aw_merge_all [OF aw_inv_empty(1) run]
  have r: "r = Inr ()"
    using all aw_room_empty [OF assms(4), of "length ?rs"] msg by (simp add: aw_message_def)
  have order: "aw_order aw' = aw_order aw" using all r dist fst aw_inv_empty(2,3) by simp
  have "aw_newest (set ?rs) (aw_abs aw')"
    using all r aw_inv_empty(2) aw_newest_foldl [of "{}" Map.empty ?rs] by (simp add: aw_newest_def)
  moreover have "aw_newest (set ?rs) (aw_abs aw)"
    by (auto simp: aw_newest_def rec image_iff split: option.split)
  moreover have "aw_consistent (set ?rs)" by (auto simp: aw_consistent_def rec)
  ultimately have "aw_abs aw' = aw_abs aw" by (rule aw_newest_unique)
  then show ?thesis
    using w run r order aw_get_abs [OF assms(1)] aw_get_abs [of E' aw'] all aw_apply_bytes [OF msg, of E' "(aw_empty, a)"]
    by (auto simp: aw_get_def)
qed

theorem awareness_bootstrap_witness:
  "\<exists>w aw' a'. aw_encode_all bump_env aw_empty (writer_of [0, 0]) = (Inr (), w) \<and>
    aw_apply bump_env (w_out w) (aw_empty, 0) = (Inr (), aw', a') \<and> aw_order aw' = []"
proof -
  have "length (aw_bytes (aw_items bump_env aw_empty)) \<le> length [0, 0 :: u8]"
    by (simp add: aw_items_def aw_bytes_def aw_empty_def varint_bytes.simps)
  moreover have "aw_get bump_env c aw_empty = None" for c
    using aw_get_abs [OF aw_inv_empty(1), of bump_env c] aw_inv_empty(2) by (simp add: aw_get_def)
  ultimately show ?thesis
    using awareness_bootstrap [OF aw_inv_empty(1) _ _ bump_env_total, of bump_env "[0, 0]" 0] aw_inv_empty(3)
    by (auto simp: aw_inv_empty(3))
qed

end
