(* ===== verification/Ycpp_Envelope.thy ===== *)
theory Ycpp_Envelope
  imports Ycpp_Codec
begin

text \<open>
  The framed messages of ycpp_envelope.h: a kind, a request id and a length-prefixed payload.
  \<open>decode_envelope\<close> fills the fields of its out parameter as it goes, so after an error the
  envelope may be partly overwritten; the model runs it on the envelope as a state.
\<close>

section \<open>The code\<close>

datatype message_kind =
    kSyncStep1
  | kSyncStep2
  | kSyncUpdate
  | kAwarenessUpdate
  | kAuthChallenge
  | kAuthReply
  | kCustomRequest
  | kCustomReply
  | kCustomEvent

fun message_byte :: "message_kind \<Rightarrow> u8" where
  "message_byte kSyncStep1 = 0x01"
| "message_byte kSyncStep2 = 0x02"
| "message_byte kSyncUpdate = 0x03"
| "message_byte kAwarenessUpdate = 0x10"
| "message_byte kAuthChallenge = 0x20"
| "message_byte kAuthReply = 0x21"
| "message_byte kCustomRequest = 0x80"
| "message_byte kCustomReply = 0x81"
| "message_byte kCustomEvent = 0x82"

text \<open>The cast from the raw byte, \<open>None\<close> for a value that is no enumerator.\<close>

definition message_kinds :: "message_kind list" where
  "message_kinds = [kSyncStep1, kSyncStep2, kSyncUpdate, kAwarenessUpdate, kAuthChallenge, kAuthReply,
     kCustomRequest, kCustomReply, kCustomEvent]"

definition message_of_byte :: "u8 \<Rightarrow> message_kind option" where
  "message_of_byte raw = List.find (\<lambda>k. message_byte k = raw) message_kinds"

definition message_kind_is_known :: "u8 \<Rightarrow> bool" where
  "message_kind_is_known raw \<longleftrightarrow> message_of_byte raw \<noteq> None"

fun message_kind_name :: "message_kind \<Rightarrow> string" where
  "message_kind_name kSyncStep1 = ''sync_step1''"
| "message_kind_name kSyncStep2 = ''sync_step2''"
| "message_kind_name kSyncUpdate = ''sync_update''"
| "message_kind_name kAwarenessUpdate = ''awareness_update''"
| "message_kind_name kAuthChallenge = ''auth_challenge''"
| "message_kind_name kAuthReply = ''auth_reply''"
| "message_kind_name kCustomRequest = ''custom_request''"
| "message_kind_name kCustomReply = ''custom_reply''"
| "message_kind_name kCustomEvent = ''custom_event''"

record envelope =
  env_kind :: message_kind
  env_request_id :: u64
  env_payload :: bytes

definition encode_envelope :: "message_kind \<Rightarrow> u64 \<Rightarrow> bytes \<Rightarrow> (writer, unit) op" where
  "encode_envelope kind request_id payload =
     ytry (w_u8 (message_byte kind)) (\<lambda>_.
       ytry (w_varint_u64 request_id) (\<lambda>_. w_length_prefixed payload))"

definition decode_envelope :: "bytes \<Rightarrow> (envelope, unit) op" where
  "decode_envelope bs out =
     (case ytry (yfst r_u8) (\<lambda>raw_kind.
        (case message_of_byte raw_kind of
           None \<Rightarrow> yfail kUnsupportedFormat
         | Some kind \<Rightarrow>
             ytry (\<lambda>(r, out). (Inr (), r, out\<lparr>env_kind := kind\<rparr>)) (\<lambda>_.
             ytry (yfst r_varint_u64) (\<lambda>request_id.
             ytry (\<lambda>(r, out). (Inr (), r, out\<lparr>env_request_id := request_id\<rparr>)) (\<lambda>_.
             ytry (yfst r_length_prefixed) (\<lambda>payload.
             ytry (\<lambda>(r, out). (Inr (), r, out\<lparr>env_payload := payload\<rparr>)) (\<lambda>_ (r, out).
               if \<not> r_eof r then (Inl kCorruptInput, r, out) else (Inr (), r, out)))))))) (reader_of bs, out) of
        (res, _, out) \<Rightarrow> (res, out))"

section \<open>The frame\<close>

definition envelope_bytes :: "envelope \<Rightarrow> bytes" where
  "envelope_bytes e = [message_byte (env_kind e)] @ varint_bytes (env_request_id e) @ prefixed_bytes (env_payload e)"

lemma message_of_byte_byte [simp]: "message_of_byte (message_byte k) = Some k"
  by (cases k) (simp_all add: message_of_byte_def message_kinds_def)

lemma message_byte_of_byte: "message_of_byte raw = Some k \<Longrightarrow> message_byte k = raw"
  by (auto simp: message_of_byte_def find_Some_iff)

lemma encode_envelope_appends:
  "w_appends (encode_envelope (env_kind e) (env_request_id e) (env_payload e)) (envelope_bytes e)"
  unfolding encode_envelope_def envelope_bytes_def by (intro w_appends_try w_appends_intros)

lemma decode_envelope_frame:
  assumes "length (env_payload e) < 2 ^ 64"
  shows "decode_envelope (envelope_bytes e @ rest) out = (if rest = [] then Inr () else Inl kCorruptInput, e)"
proof -
  obtain k i p where e: "e = \<lparr>env_kind = k, env_request_id = i, env_payload = p\<rparr>" by (cases e) auto
  let ?v = "envelope_bytes e @ rest"
  have v: "?v = [message_byte k] @ varint_bytes i @ prefixed_bytes p @ rest" by (simp add: envelope_bytes_def e)
  have "r_u8 (reader_of ?v) = (Inr (message_byte k), \<lparr>r_view = ?v, r_pos = 1\<rparr>)"
    using r_parses_whole [OF r_parses_u8] by (simp add: v)
  moreover have "r_varint_u64 \<lparr>r_view = ?v, r_pos = 1\<rparr> = (Inr i, \<lparr>r_view = ?v, r_pos = 1 + length (varint_bytes i)\<rparr>)"
    using r_parsesD [OF r_parses_varint_u64, of "[message_byte k]" i "prefixed_bytes p @ rest"] by (simp add: v)
  moreover have "r_length_prefixed \<lparr>r_view = ?v, r_pos = 1 + length (varint_bytes i)\<rparr> =
      (Inr p, \<lparr>r_view = ?v, r_pos = length (envelope_bytes e)\<rparr>)"
    using r_parsesD [OF r_parses_length_prefixed, of p "message_byte k # varint_bytes i" rest] assms
    by (simp add: v e envelope_bytes_def)
  ultimately show ?thesis
    by (simp add: decode_envelope_def op_simps r_eof_def e)
qed

section \<open>Properties\<close>

text \<open>
An envelope survives the wire: written to any buffer it fits, it decodes to the same kind, request id
and payload; and the frame is exact, any byte behind it is rejected as corrupt input.
\<close>

theorem envelope_roundtrip:
  assumes "length (env_payload e) < 2 ^ 64" and "length (envelope_bytes e) \<le> length buf"
  shows "\<exists>w. encode_envelope (env_kind e) (env_request_id e) (env_payload e) (writer_of buf) = (Inr (), w) \<and>
    decode_envelope (w_out w) out = (Inr (), e) \<and>
    (rest \<noteq> [] \<longrightarrow> fst (decode_envelope (w_out w @ rest) out) = Inl kCorruptInput)"
proof -
  obtain w where w: "encode_envelope (env_kind e) (env_request_id e) (env_payload e) (writer_of buf) = (Inr (), w)"
      "w_out w = envelope_bytes e"
    by (rule w_appends_fits [OF encode_envelope_appends w_wf_writer_of, of e buf]) (use assms(2) in auto)
  then show ?thesis
    using decode_envelope_frame [OF assms(1), of "[]" out] decode_envelope_frame [OF assms(1), of rest out] by simp
qed

definition demo_envelope :: envelope where
  "demo_envelope = \<lparr>env_kind = kCustomRequest, env_request_id = 300, env_payload = [1, 2]\<rparr>"

theorem envelope_roundtrip_witness:
  "\<exists>w. encode_envelope kCustomRequest 300 [1, 2] (writer_of (replicate 6 0)) = (Inr (), w) \<and>
    decode_envelope (w_out w) demo_envelope = (Inr (), demo_envelope) \<and>
    fst (decode_envelope (w_out w @ [9]) demo_envelope) = Inl kCorruptInput"
proof -
  have "length (envelope_bytes demo_envelope) \<le> length (replicate 6 (0 :: u8))"
    by (simp add: envelope_bytes_def demo_envelope_def prefixed_bytes_def varint_bytes.simps)
  from envelope_roundtrip [OF _ this, where rest = "[9]" and out = demo_envelope] show ?thesis by (simp add: demo_envelope_def)
qed

end
