(* ===== verification/Ycpp_Protocol.thy ===== *)
theory Ycpp_Protocol
  imports Ycpp_Doc Ycpp_Envelope
begin

text \<open>
  The sync protocol of ycpp_protocol.h over envelopes: the messages a peer emits, and what it does
  with one it receives.  The staging buffers on the stack start with contents that do not matter,
  here zeros.
\<close>

section \<open>The code\<close>

definition kStep1Staging :: nat where
  "kStep1Staging = 131072"

definition kStep2Scratch :: nat where
  "kStep2Scratch = 16384"

text \<open>The state vector is built with a scratch allocator, whose state starts as \<open>b\<close>.\<close>

definition emit_sync_step1 :: "(u64, 'a) hm_env \<Rightarrow> (u64, 'b) hm_env \<Rightarrow> 'a doc \<Rightarrow> 'b \<Rightarrow> u64 \<Rightarrow> (writer, unit) op" where
  "emit_sync_step1 E E' d b request_id =
     ytry (w_u8 (message_byte kSyncStep1)) (\<lambda>_.
     ytry (w_varint_u64 request_id) (\<lambda>_ w.
       case doc_state_vector E E' d (sv_empty, b) of
         (Inl e, _) \<Rightarrow> (Inl e, w)
       | (Inr _, sv, b) \<Rightarrow>
           (case sv_encode E' sv (writer_of (replicate kStep1Staging 0)) of
              (Inl e, _) \<Rightarrow> (Inl e, w)
            | (Inr _, sw) \<Rightarrow> w_length_prefixed (w_out sw) w)))"

definition emit_sync_step2 ::
    "(u64, 'a) hm_env \<Rightarrow> 'a doc \<Rightarrow> ((u64, 'b) hm_env \<times> state_vector) option \<Rightarrow> u64 \<Rightarrow> (writer, unit) op" where
  "emit_sync_step2 E d peer_sv request_id =
     ytry (w_u8 (message_byte kSyncStep2)) (\<lambda>_.
     ytry (w_varint_u64 request_id) (\<lambda>_ w.
       case encode_diff_v1 E d peer_sv (writer_of (replicate kStep2Scratch 0)) of
         (Inl e, _) \<Rightarrow> (Inl e, w)
       | (Inr _, sw) \<Rightarrow> w_length_prefixed (w_out sw) w))"

definition emit_sync_update :: "bytes \<Rightarrow> u64 \<Rightarrow> (writer, unit) op" where
  "emit_sync_update update_v1 request_id = encode_envelope kSyncUpdate request_id update_v1"

text \<open>The peer's state vector is a possibly null out parameter, with the state of its allocator.\<close>

definition apply_sync_message ::
    "(u64, 'a) hm_env \<Rightarrow> envelope \<Rightarrow> ('a doc \<times> (state_vector \<times> 'a) option, unit) pop" where
  "apply_sync_message E env st =
     (let (dst, peer) = st in
      case env_kind env of
        kSyncStep1 \<Rightarrow>
          (case peer of
             None \<Rightarrow> Some (Inr (), dst, None)
           | Some sv \<Rightarrow> (case sv_decode E (reader_of (env_payload env), sv) of (r, _, sv) \<Rightarrow> Some (r, dst, Some sv)))
      | kSyncStep2 \<Rightarrow> map_option (\<lambda>(r, dst). (r, dst, peer)) (apply_update_v1 E (env_payload env) dst)
      | kSyncUpdate \<Rightarrow> map_option (\<lambda>(r, dst). (r, dst, peer)) (apply_update_v1 E (env_payload env) dst)
      | _ \<Rightarrow> Some (Inl kUnsupportedFormat, dst, peer))"

end
