(* ===== verification/Ycpp_Diff.thy ===== *)
theory Ycpp_Diff
  imports Ycpp_Doc
begin

text \<open>
  What \<open>encode_diff_v1\<close> of ycpp_doc.h sends and what \<open>decode_update_v1\<close> of ycpp_update.h makes of
  it: the update a document writes for a peer decodes to exactly the structs the peer's state
  vector lacks, client by client and in clock order, and to the whole delete set.
\<close>

section \<open>The bytes of an update\<close>

definition item_bytes :: "item \<Rightarrow> bytes" where
  "item_bytes it = flagged_bytes (item_flag it) (wire_struct it)"

definition group_bytes :: "item_heap \<Rightarrow> u64 \<times> addr list \<Rightarrow> bytes" where
  "group_bytes h g = varint_bytes (of_nat (length (snd g))) @ varint_bytes (fst g) @
     varint_bytes (id_clock (it_id (h (hd (snd g))))) @ concat (map (\<lambda>p. item_bytes (h p)) (snd g))"

definition diff_bytes :: "item_heap \<Rightarrow> (u64 \<times> addr list) list \<Rightarrow> (u64 \<times> delete_range list) list \<Rightarrow> bytes" where
  "diff_bytes h gs ps = varint_bytes (of_nat (length gs)) @ concat (map (group_bytes h) gs) @ ds_bytes ps"

text \<open>The items of each client that a peer lacks, clients with none left out.\<close>

definition emits :: "item_heap \<Rightarrow> u64 \<Rightarrow> addr list \<Rightarrow> addr list" where
  "emits h since items = dropWhile (\<lambda>p. id_clock (it_id (h p)) < since) items"

definition diff_groups :: "item_heap \<Rightarrow> (u64 \<Rightarrow> u64) \<Rightarrow> (u64 \<times> addr list) list \<Rightarrow> (u64 \<times> addr list) list" where
  "diff_groups h since clients = filter (\<lambda>g. snd g \<noteq> []) (map (\<lambda>(c, items). (c, emits h (since c) items)) clients)"

lemma diff_groups_simps:
  "diff_groups h since [] = []"
  "diff_groups h since ((c, items) # clients) =
     (if emits h (since c) items = [] then [] else [(c, emits h (since c) items)]) @ diff_groups h since clients"
  by (simp_all add: diff_groups_def)

lemma emits_subset: "set (emits h since items) \<subseteq> set items"
  by (auto simp: emits_def dest: set_dropWhileD)

section \<open>Encoding\<close>

lemma encode_client_appends:
  assumes "\<forall>p \<in> set items. struct_wf (wire_struct (h p))"
  shows "w_appends (encode_client h since c items)
    (concat (map (group_bytes h) (if emits h since items = [] then [] else [(c, emits h since items)])))"
proof (cases "emits h since items = []")
  case True
  then show ?thesis by (simp add: encode_client_def emits_def w_appends_return)
next
  case False
  have "w_appends (yforeach (\<lambda>p. write_struct (h p)) (emits h since items))
      (concat (map (\<lambda>p. item_bytes (h p)) (emits h since items)))"
    by (rule w_appends_foreach) (use assms emits_subset w_appends_struct in \<open>fastforce simp: item_bytes_def\<close>)
  then show ?thesis
    using False by (auto simp: encode_client_def emits_def [symmetric] group_bytes_def Let_def
      intro!: w_appends_try w_appends_intros)
qed

lemma w_appends_clients:
  assumes "\<forall>(c, items) \<in> set clients. \<forall>p \<in> set items. struct_wf (wire_struct (h p))"
  shows "w_appends (yforeach (\<lambda>(c, items). encode_client h (since c) c items) clients)
    (concat (map (group_bytes h) (diff_groups h since clients)))"
  using assms
proof (induction clients)
  case Nil
  then show ?case by (simp add: diff_groups_simps w_appends_return)
next
  case (Cons g clients)
  obtain c items where g: "g = (c, items)" by fastforce
  have "w_appends (encode_client h (since c) c items)
      (concat (map (group_bytes h) (if emits h (since c) items = [] then [] else [(c, emits h (since c) items)])))"
    by (rule encode_client_appends) (use Cons.prems g in auto)
  from w_appends_try [OF this, of "\<lambda>_. yforeach (\<lambda>(c, items). encode_client h (since c) c items) clients"] Cons
  show ?case by (simp add: g diff_groups_simps)
qed

lemma diff_group_count:
  "length (filter (\<lambda>(client, items). \<exists>p \<in> set items. id_clock (it_id (h p)) \<ge> since client) clients) =
     length (diff_groups h since clients)"
  by (induction clients) (auto simp: diff_groups_simps emits_def dropWhile_eq_Nil_conv not_less)

text \<open>The items of a store, and a store whose items the wire format can express.\<close>

definition doc_wire_ok :: "(u64, 'a) hm_env \<Rightarrow> 'a doc \<Rightarrow> bool" where
  "doc_wire_ok E d \<longleftrightarrow>
     (\<forall>(c, items) \<in> set (ss_items E (d_store d)). \<forall>p \<in> set items. struct_wf (wire_struct (d_heap d p)))"

definition doc_diff :: "(u64, 'a) hm_env \<Rightarrow> 'a doc \<Rightarrow> (u64 \<Rightarrow> u64) \<Rightarrow> bytes" where
  "doc_diff E d since =
     diff_bytes (d_heap d) (diff_groups (d_heap d) since (ss_items E (d_store d))) (ds_items E (d_deletes d))"

lemma encode_diff_appends:
  assumes "doc_wire_ok E d"
  shows "w_appends (encode_diff_v1 E d since) (doc_diff E d (since_clock since))"
proof -
  have "w_appends (yforeach (\<lambda>(c, items). encode_client (d_heap d) (since_clock since c) c items) (ss_items E (d_store d)))
      (concat (map (group_bytes (d_heap d)) (diff_groups (d_heap d) (since_clock since) (ss_items E (d_store d)))))"
    by (rule w_appends_clients) (use assms in \<open>simp add: doc_wire_ok_def\<close>)
  then show ?thesis
    by (auto simp: encode_diff_v1_def doc_diff_def diff_bytes_def Let_def diff_group_count
      intro!: w_appends_try w_appends_intros ds_encode_appends)
qed

section \<open>Decoding\<close>

lemma ytry_assoc: "ytry (ytry m k) l = ytry m (\<lambda>x. ytry (k x) l)"
  by (rule ext) (simp add: ytry_def split: prod.split sum.split)

lemma item_parses:
  assumes "struct_wf (wire_struct it)" and "it_id it = Id client clock"
  shows "r_parses (decode_one_struct client clock) (item_bytes it) (wire_struct it)"
proof -
  have "item_flag it = (s_parent_sub (wire_struct it) \<noteq> [])" if "has_parent (wire_struct it)"
    using that wire_struct_parent [of it] by (simp add: item_flag_def)
  from r_parses_flagged [OF assms(1) this] show ?thesis by (simp add: item_bytes_def assms(2))
qed

lemma decode_structs_feeds:
  assumes "\<forall>p \<in> set ps. struct_wf (wire_struct (h p))"
    and "clock_chain client clock (map (\<lambda>p. wire_struct (h p)) ps)"
  shows "r_feeds (decode_structs al (length ps) client clock) (concat (map (\<lambda>p. item_bytes (h p)) ps))
    (yforeach (\<lambda>p. du_push al (wire_struct (h p))) ps)"
  using assms
proof (induction ps arbitrary: clock)
  case Nil
  then show ?case by (simp add: r_feeds_return)
next
  case (Cons p ps)
  have wf: "struct_wf (wire_struct (h p))" and id: "it_id (h p) = Id client clock" using Cons.prems by auto
  have len: "it_length (h p) \<noteq> 0" using wf by (simp add: struct_wf_def payload_wf_def)
  have rest: "r_feeds (decode_structs al (length ps) client (clock + it_length (h p)))
      (concat (map (\<lambda>p. item_bytes (h p)) ps)) (yforeach (\<lambda>p. du_push al (wire_struct (h p))) ps)"
    by (rule Cons.IH) (use Cons.prems in auto)
  have "r_feeds (ytry (ysnd (du_push al (wire_struct (h p))))
        (\<lambda>_. decode_structs al (length ps) client (clock + it_length (h p))))
      ([] @ concat (map (\<lambda>p. item_bytes (h p)) ps))
      (ytry (du_push al (wire_struct (h p))) (\<lambda>_. yforeach (\<lambda>p. du_push al (wire_struct (h p))) ps))"
    by (rule r_feeds_try [OF r_feeds_snd rest])
  then show ?case
    unfolding list.map concat.simps decode_structs.simps yforeach.simps list.size(4) One_nat_def add_Suc_right add_0_right
    by (intro r_feeds_parse [OF item_parses [OF wf id]]) (simp add: len)
qed

lemma decode_client_feeds:
  assumes "\<forall>p \<in> set (snd g). struct_wf (wire_struct (h p))"
    and "clock_chain (fst g) (id_clock (it_id (h (hd (snd g))))) (map (\<lambda>p. wire_struct (h p)) (snd g))"
    and "length (snd g) \<le> unat kMaxStructsPerClient"
  shows "r_feeds (decode_client E) (group_bytes h g) (yforeach (\<lambda>p. du_push (he_alloc E) (wire_struct (h p))) (snd g))"
proof -
  have max: "unat kMaxStructsPerClient = 2 ^ 24" by (simp add: kMaxStructsPerClient_def push_bit_eq_mult)
  have n: "unat (of_nat (length (snd g)) :: u64) = length (snd g)"
    using assms(3) by (simp add: unat_of_nat_small max)
  then have "\<not> of_nat (length (snd g)) > kMaxStructsPerClient"
    using assms(3) by (simp add: word_less_nat_alt)
  then show ?thesis
    unfolding decode_client_def group_bytes_def
    by (intro r_feeds_parse [OF r_parses_varint_u64])
      (use decode_structs_feeds [OF assms(1,2)] in \<open>auto simp: n intro!: r_feeds_parse [OF r_parses_varint_u64]\<close>)
qed

text \<open>The pushes of all groups.\<close>

definition push_groups :: "'a allocator \<Rightarrow> item_heap \<Rightarrow> (u64 \<times> addr list) list \<Rightarrow> (decoded_update \<times> 'a, unit) op" where
  "push_groups al h = yforeach (\<lambda>g. yforeach (\<lambda>p. du_push al (wire_struct (h p))) (snd g))"

definition put_delete_set :: "(u64, 'a) hm_env \<Rightarrow> (u64 \<times> delete_range list) list \<Rightarrow> (decoded_update \<times> 'a, unit) op" where
  "put_delete_set E ps st =
     (case ds_add_all E ps (du_delete_set (fst st), snd st) of (r, ds, a) \<Rightarrow> (r, (fst st)\<lparr>du_delete_set := ds\<rparr>, a))"

lemma du_decode_delete_set_feeds:
  assumes "r_feeds (ds_decode E) bs (ds_add_all E ps)"
  shows "r_feeds (du_decode_delete_set E) bs (put_delete_set E ps)"
  unfolding r_feeds_def
proof (intro allI)
  fix pre rest and t :: "decoded_update \<times> 'a"
  let ?r = "\<lparr>r_view = pre @ bs @ rest, r_pos = length pre\<rparr>"
  obtain du a where t: "t = (du, a)" by fastforce
  obtain r ds a' where run: "ds_add_all E ps (du_delete_set du, a) = (r, ds, a')" by (metis prod.collapse)
  show "case put_delete_set E ps t of
       (Inr x, t') \<Rightarrow> du_decode_delete_set E (?r, t) = (Inr x, \<lparr>r_view = pre @ bs @ rest, r_pos = length pre + length bs\<rparr>, t')
     | (Inl e, t') \<Rightarrow> \<exists>r'. du_decode_delete_set E (?r, t) = (Inl e, r', t')"
  proof (cases r)
    case (Inl e)
    then show ?thesis using r_feeds_fail [OF assms, of "(du_delete_set du, a)" e "(ds, a')" pre rest] run
      by (auto simp: put_delete_set_def du_decode_delete_set_def t)
  next
    case (Inr x)
    then show ?thesis using r_feeds_ok [OF assms, of "(du_delete_set du, a)" x "(ds, a')" pre rest] run
      by (simp add: put_delete_set_def du_decode_delete_set_def t)
  qed
qed

lemma decode_update_feeds:
  assumes "\<forall>g \<in> set gs. (\<forall>p \<in> set (snd g). struct_wf (wire_struct (h p))) \<and>
      clock_chain (fst g) (id_clock (it_id (h (hd (snd g))))) (map (\<lambda>p. wire_struct (h p)) (snd g)) \<and>
      length (snd g) \<le> unat kMaxStructsPerClient"
    and "length gs \<le> unat kMaxClientsPerUpdate" and "r_feeds (ds_decode E) (ds_bytes ps) (ds_add_all E ps)"
    and "ytry (push_groups (he_alloc E) h gs) (\<lambda>_. put_delete_set E ps) st = (Inr (), st')"
  shows "decode_update_v1 E (diff_bytes h gs ps) st = (Inr (), st')"
proof -
  let ?k = "\<lambda>n. if n > kMaxClientsPerUpdate then yfail kCapacityExceeded
       else ytry (yloop (unat n) (decode_client E)) (\<lambda>_. du_decode_delete_set E)"
  let ?eof = "\<lambda>_ (r, st). if \<not> r_eof r then (Inl kCorruptInput, r, st) else (Inr (), r, st)"
  have body: "decode_update_body E = ytry (ytry (yfst r_varint_u64) ?k) ?eof"
    unfolding decode_update_body_def ytry_assoc
    by (rule arg_cong [of _ _ "ytry (yfst r_varint_u64)"]) (auto simp: fun_eq_iff ytry_def yfail_def split: prod.splits sum.splits)
  have n: "unat (of_nat (length gs) :: u64) = length gs"
    using assms(2) by (simp add: unat_of_nat_small kMaxClientsPerUpdate_def)
  then have le: "\<not> of_nat (length gs) > kMaxClientsPerUpdate" using assms(2) by (simp add: word_less_nat_alt)
  have "r_feeds (yloop (length gs) (decode_client E)) (concat (map (group_bytes h) gs)) (push_groups (he_alloc E) h gs)"
    unfolding push_groups_def by (rule r_feeds_loop) (use assms(1) in \<open>auto intro: decode_client_feeds\<close>)
  from r_feeds_try [OF this du_decode_delete_set_feeds [OF assms(3)]]
  have "r_feeds (ytry (yfst r_varint_u64) ?k) (diff_bytes h gs ps)
      (ytry (push_groups (he_alloc E) h gs) (\<lambda>_. put_delete_set E ps))"
    unfolding diff_bytes_def by (intro r_feeds_parse [OF r_parses_varint_u64]) (simp add: n le)
  from r_feeds_whole [OF this assms(4), of "[]"] show ?thesis
    by (simp add: decode_update_v1_def body ytry_Inr r_eof_def)
qed

text \<open>With memory for the asking and at most \<open>2^26\<close> structs every push succeeds.\<close>

lemma du_push_room:
  assumes "alloc_total al" and "length (du_structs du) < kMaxStructs"
  shows "\<exists>du' a'. du_push al s (du, a) = (Inr (), du', a') \<and> du_structs du' = du_structs du @ [s] \<and>
    du_delete_set du' = du_delete_set du"
proof -
  obtain r du' a' where run: "du_push al s (du, a) = (r, du', a')" by (metis prod.collapse)
  obtain r1 d1 a1 where cap: "du_ensure_cap al (length (du_structs du) + 1) (du, a) = (r1, d1, a1)"
    by (metis prod.collapse)
  have "r1 = Inr ()"
    using cap assms by (auto simp: du_ensure_cap_def Let_def dest: alloc_totalD split: if_splits prod.splits)
  then have "r = Inr ()" using run cap by (simp add: du_push_def op_simps)
  then show ?thesis using run du_push_spec [OF run] by auto
qed

lemma du_push_all:
  assumes "alloc_total al" and "length (du_structs du) + length ps \<le> kMaxStructs"
  shows "\<exists>du' a'. yforeach (\<lambda>p. du_push al (f p)) ps (du, a) = (Inr (), du', a') \<and>
    du_structs du' = du_structs du @ map f ps \<and> du_delete_set du' = du_delete_set du"
  using assms(2)
proof (induction ps arbitrary: du a)
  case Nil
  then show ?case by (simp add: op_simps)
next
  case (Cons p ps)
  obtain du1 a1 where 1: "du_push al (f p) (du, a) = (Inr (), du1, a1)" "du_structs du1 = du_structs du @ [f p]"
    "du_delete_set du1 = du_delete_set du"
    using du_push_room [OF assms(1), of du "f p" a] Cons.prems by auto
  then show ?case using Cons.IH [of du1 a1] Cons.prems by (auto simp: ytry_Inr)
qed

lemma push_groups_all:
  assumes "alloc_total al" and "length (du_structs du) + length (concat (map snd gs)) \<le> kMaxStructs"
  shows "\<exists>du' a'. push_groups al h gs (du, a) = (Inr (), du', a') \<and>
    du_structs du' = du_structs du @ map (\<lambda>p. wire_struct (h p)) (concat (map snd gs)) \<and> du_delete_set du' = du_delete_set du"
  using assms(2)
proof (induction gs arbitrary: du a)
  case Nil
  then show ?case by (simp add: push_groups_def op_simps)
next
  case (Cons g gs)
  obtain du1 a1 where "yforeach (\<lambda>p. du_push al (wire_struct (h p))) (snd g) (du, a) = (Inr (), du1, a1)"
    "du_structs du1 = du_structs du @ map (\<lambda>p. wire_struct (h p)) (snd g)" "du_delete_set du1 = du_delete_set du"
    using du_push_all [OF assms(1), of du "snd g" "\<lambda>p. wire_struct (h p)" a] Cons.prems by auto
  then show ?case using Cons.IH [of du1 a1] Cons.prems by (auto simp: push_groups_def ytry_Inr)
qed

section \<open>Dense runs\<close>

lemma dense_next:
  assumes d: "dense h c ps" and i: "Suc i < length ps"
  shows "id_clock (it_id (h (ps ! Suc i))) = id_clock (it_id (h (ps ! i))) + it_length (h (ps ! i))"
proof -
  have "span h (take (Suc i) ps) < 2 ^ 64" using d span_take_le [of h "Suc i" ps] by (auto simp: dense_def)
  moreover have "item_start (h (ps ! Suc i)) = item_start (h (ps ! i)) + item_width (h (ps ! i))"
    using denseD(3) [OF d i] denseD(3) [OF d, of i] i span_take_Suc [of i ps h] by simp
  moreover have "item_start (h (ps ! Suc i)) = span h (take (Suc i) ps)" by (rule denseD(3) [OF d i])
  ultimately show ?thesis
    by (simp add: item_start_def item_width_def word_unat_eq_iff unat_word_ariths)
qed

lemma dense_chain:
  assumes d: "dense h c ps"
  shows "i < length ps \<Longrightarrow> clock_chain c (id_clock (it_id (h (ps ! i)))) (map (\<lambda>p. wire_struct (h p)) (drop i ps))"
proof (induction "length ps - i" arbitrary: i)
  case (Suc n)
  have c: "it_id (h (ps ! i)) = Id c (id_clock (it_id (h (ps ! i))))"
    using denseD(1) [OF d Suc.prems] by (metis yid.collapse)
  show ?case
  proof (cases "Suc i < length ps")
    case True
    then show ?thesis
      using Suc.hyps(1) [of "Suc i"] Suc.hyps(2) dense_next [OF d True] c
      by (simp add: Cons_nth_drop_Suc [OF Suc.prems, symmetric])
  next
    case False
    then show ?thesis using c by (simp add: Cons_nth_drop_Suc [OF Suc.prems, symmetric])
  qed
qed simp

lemma dense_sorted: "dense h c ps \<Longrightarrow> sorted_wrt (\<lambda>p q. id_clock (it_id (h p)) \<le> id_clock (it_id (h q))) ps"
  by (auto simp: sorted_wrt_iff_nth_less word_le_nat_alt denseD(3) [unfolded item_start_def] intro: span_take_mono)

lemma emits_filter:
  assumes "dense h c ps"
  shows "emits h since ps = filter (\<lambda>p. since \<le> id_clock (it_id (h p))) ps"
proof -
  have "dropWhile (\<lambda>p. f p < since) xs = filter (\<lambda>p. since \<le> f p) xs"
    if "sorted_wrt (\<lambda>p q. f p \<le> f q) xs" for xs :: "addr list" and f :: "addr \<Rightarrow> u64"
    using that
  proof (induction xs)
    case (Cons x xs)
    have "filter (\<lambda>p. since \<le> f p) xs = xs" if "since \<le> f x"
      using Cons.prems that by (auto simp: filter_id_conv intro: order.trans)
    then show ?case using Cons by (auto simp: not_less)
  qed simp
  from this [OF dense_sorted [OF assms]] show ?thesis by (simp add: emits_def)
qed

lemma emits_chain:
  assumes "dense h c ps" and "emits h since ps \<noteq> []"
  shows "clock_chain c (id_clock (it_id (h (hd (emits h since ps))))) (map (\<lambda>p. wire_struct (h p)) (emits h since ps))"
proof -
  obtain i where e: "emits h since ps = drop i ps" unfolding emits_def dropWhile_eq_drop by blast
  then have "i < length ps" using assms(2) by simp
  then show ?thesis using dense_chain [OF assms(1)] by (simp add: e hd_drop_conv_nth)
qed

section \<open>The store\<close>

lemma ss_items_dense:
  assumes "ss_inv E h ss" and "(c, ps) \<in> set (ss_items E ss)"
  shows "dense h c ps" and "ps = ss_ptrs ss c"
proof -
  have "c \<in> set (ss_order ss)" "ps = iv_data (the (hm_abs (ss_table ss) c))"
    using assms by (auto simp: ss_items_def ss_find_vec_abs)
  moreover have "c \<in> dom (hm_abs (ss_table ss))" using calculation(1) assms(1) by (simp add: ss_inv_def tracks_def)
  ultimately show "ps = ss_ptrs ss c" by (auto simp: ss_ptrs_def)
  then show "dense h c ps" using assms(1) by (simp add: ss_inv_def)
qed

lemma ss_items_length: "ss_inv E h ss \<Longrightarrow> length (ss_items E ss) \<le> kMaxClients"
  by (simp add: ss_items_def ss_inv_def)

text \<open>The structs a peer with the given clocks lacks.\<close>

definition missing :: "item_heap \<Rightarrow> (u64 \<Rightarrow> u64) \<Rightarrow> u64 \<times> addr list \<Rightarrow> decoded_struct list" where
  "missing h since g = map (\<lambda>p. wire_struct (h p)) (filter (\<lambda>p. since (fst g) \<le> id_clock (it_id (h p))) (snd g))"

lemma groups_missing:
  assumes "\<forall>(c, ps) \<in> set clients. dense h c ps"
  shows "map (\<lambda>p. wire_struct (h p)) (concat (map snd (diff_groups h since clients))) = concat (map (missing h since) clients)"
  using assms by (induction clients) (auto simp: diff_groups_simps missing_def emits_filter)

lemma length_diff_groups: "length (diff_groups h since clients) \<le> length clients"
  unfolding diff_groups_def using length_filter_le by (rule order.trans) simp

lemma diff_groups_bound: "length (concat (map snd (diff_groups h since clients))) \<le> length (concat (map snd clients))"
proof (induction clients)
  case (Cons g clients)
  obtain c items where "g = (c, items)" by fastforce
  moreover have "length (emits h (since c) items) \<le> length items" by (simp add: emits_def length_dropWhile_le)
  ultimately show ?case using Cons.IH by (auto simp: diff_groups_simps)
qed (simp add: diff_groups_simps)

lemma w_appends_out:
  assumes "w_appends m bs" and "m (writer_of buf) = (Inr (), w)"
  shows "w_out w = bs" and "length bs \<le> length buf"
proof -
  have "length bs \<le> length buf"
  proof (rule ccontr)
    assume full: "\<not> length bs \<le> length buf"
    show False
      by (rule w_appends_full [OF assms(1) w_wf_writer_of, of buf]) (use assms(2) full in auto)
  qed
  then show len: "length bs \<le> length buf" .
  have "length bs \<le> w_remaining (writer_of buf)" using len by simp
  then obtain w' where "m (writer_of buf) = (Inr (), w')" "w_out w' = w_out (writer_of buf) @ bs"
    using w_appends_fits [OF assms(1) w_wf_writer_of] by metis
  then show "w_out w = bs" using assms(2) by simp
qed

lemma doc_diff_decodes:
  assumes "ss_inv E (d_heap d) (d_store d)" and "ds_inv E (d_deletes d)" and "doc_wire_ok E d"
    and "alloc_total (he_alloc E')" and "length (concat (map snd (ss_items E (d_store d)))) \<le> unat kMaxStructsPerClient"
    and "length (concat (map snd (ds_items E (d_deletes d)))) \<le> kMaxPerClientRanges"
  shows "\<exists>du a'. decode_update_v1 E' (doc_diff E d since) (du_empty, a) = (Inr (), du, a') \<and>
    du_structs du = concat (map (missing (d_heap d) (since)) (ss_items E (d_store d))) \<and>
    ds_abs (du_delete_set du) = ds_abs (d_deletes d)"
proof -
  define h where "h = d_heap d"
  define gs where "gs = diff_groups h (since) (ss_items E (d_store d))"
  define ps where "ps = ds_items E (d_deletes d)"
  note dense = ss_items_dense(1) [OF assms(1)]
  have total: "length (concat (map snd gs)) \<le> unat kMaxStructsPerClient"
    unfolding gs_def using diff_groups_bound assms(5) by (rule order.trans)
  have n: "length gs \<le> unat kMaxClientsPerUpdate"
    using ss_items_length [OF assms(1)] length_diff_groups [of h "since" "ss_items E (d_store d)"]
    by (simp add: gs_def kMaxClients_def kMaxClientsPerUpdate_def)
  have out: "doc_diff E d since = diff_bytes h gs ps" by (simp add: doc_diff_def h_def gs_def ps_def)
  have gs: "\<forall>g \<in> set gs. (\<forall>p \<in> set (snd g). struct_wf (wire_struct (h p))) \<and>
      clock_chain (fst g) (id_clock (it_id (h (hd (snd g))))) (map (\<lambda>p. wire_struct (h p)) (snd g)) \<and>
      length (snd g) \<le> unat kMaxStructsPerClient"
  proof
    fix g assume g: "g \<in> set gs"
    then obtain c items where i: "(c, items) \<in> set (ss_items E (d_store d))" "g = (c, emits h (since c) items)"
      "snd g \<noteq> []" by (auto simp: gs_def diff_groups_def)
    have "length (snd g) \<le> length (concat (map snd gs))" using g by (induction gs) auto
    then show "(\<forall>p \<in> set (snd g). struct_wf (wire_struct (h p))) \<and>
      clock_chain (fst g) (id_clock (it_id (h (hd (snd g))))) (map (\<lambda>p. wire_struct (h p)) (snd g)) \<and>
      length (snd g) \<le> unat kMaxStructsPerClient"
      using emits_chain [OF dense [OF i(1)]] emits_subset i assms(3) total
      by (fastforce simp: doc_wire_ok_def h_def)
  qed
  note items = ds_items_abs [OF assms(2)]
  have each: "length rs \<le> length (concat (map snd qs))" if "(c, rs) \<in> set qs"
    for c and rs :: "delete_range list" and qs :: "(u64 \<times> delete_range list) list"
    using that by (induction qs) auto
  have feeds: "r_feeds (ds_decode E') (ds_bytes ps) (ds_add_all E' ps)"
    by (rule ds_decode_feeds)
      (use items(2,3) assms(6) each in \<open>fastforce simp: ps_def list_all_iff dr_wf_def kMaxClients_def kMaxPerClientRanges_def\<close>)+
  obtain du1 a1 where push: "push_groups (he_alloc E') h gs (du_empty, a) = (Inr (), du1, a1)"
    "du_structs du1 = map (\<lambda>p. wire_struct (h p)) (concat (map snd gs))" "du_delete_set du1 = ds_empty"
    using push_groups_all [OF assms(4), of du_empty gs h a] total
    by (auto simp: du_empty_def kMaxStructs_def kMaxStructsPerClient_def push_bit_eq_mult)
  obtain r ds a2 where run: "ds_add_all E' ps (ds_empty, a1) = (r, ds, a2)" by (metis prod.collapse)
  have ds: "r = Inr () \<and> ds_abs ds = ds_abs (d_deletes d)"
    using ds_add_all_spec [OF ds_inv_empty(1) _ run, of 0 0] items assms(6)
      ds_room_empty [OF assms(4), of "length ps" "length (concat (map snd ps))"]
    by (simp add: ps_def ds_inv_empty(2))
  then have "decode_update_v1 E' (diff_bytes h gs ps) (du_empty, a) = (Inr (), du1\<lparr>du_delete_set := ds\<rparr>, a2)"
    by (intro decode_update_feeds [OF gs n feeds]) (simp add: ytry_apply push(1) put_delete_set_def push(3) run)
  moreover have "du_structs du1 = concat (map (missing h (since)) (ss_items E (d_store d)))"
    unfolding push(2) gs_def by (rule groups_missing) (use dense in \<open>auto simp: h_def\<close>)
  ultimately show ?thesis using ds by (simp add: out h_def)
qed

section \<open>Properties\<close>

text \<open>
C14: The heart of synchronisation: when a document writes the update for a peer into a buffer it fits
in, the peer's decoder accepts it and delivers exactly the structs whose clocks the peer has not
reached, client by client in clock order, and a delete set with the same identifiers.
\<close>

theorem diff_roundtrip:
  assumes "ss_inv E (d_heap d) (d_store d)" and "ds_inv E (d_deletes d)" and "doc_wire_ok E d"
    and "encode_diff_v1 E d since (writer_of buf) = (Inr (), w)"
    and "alloc_total (he_alloc E')" and "length (concat (map snd (ss_items E (d_store d)))) \<le> unat kMaxStructsPerClient"
    and "length (concat (map snd (ds_items E (d_deletes d)))) \<le> kMaxPerClientRanges"
  shows "\<exists>du a'. decode_update_v1 E' (w_out w) (du_empty, a) = (Inr (), du, a') \<and>
    du_structs du = concat (map (missing (d_heap d) (since_clock since)) (ss_items E (d_store d))) \<and>
    ds_abs (du_delete_set du) = ds_abs (d_deletes d)"
  unfolding w_appends_out(1) [OF encode_diff_appends [OF assms(3)] assms(4)]
  by (rule doc_diff_decodes [OF assms(1-3,5-7)])

text \<open>A document of client 7 with one deleted run of three clocks.\<close>

definition demo_run :: item where
  "demo_run = item_default\<lparr>it_id := Id 7 0, it_length := 3, it_content_kind := kDeleted,
     it_parent_ref := kRootName, it_parent_name := [116]\<rparr>"

lemma demo_run_wf: "struct_wf (wire_struct demo_run)"
proof -
  have "r_parses (read_content_payload kDeleted) (varint_bytes 3 @ []) (3, [])"
    unfolding read_content_payload.simps by (rule r_parses_try [OF r_parses_varint_u64]) (simp add: r_parses_return)
  then have "payload_wf kDeleted 3 []" by (simp add: payload_wf_def)
  then show ?thesis
    by (simp add: struct_wf_def parent_wf_def kind_named_def wire_struct_def demo_run_def item_default_def Let_def has_parent_def)
qed

lemma demo_doc:
  assumes id: "it_id x = Id 7 0" and len: "0 < it_length x"
  obtains d :: "u64 doc" where "ss_inv bump_env (d_heap d) (d_store d)" and "d_heap d = (\<lambda>_. x)" and "d_deletes d = ds_empty"
    and "ss_ptrs (d_store d) = (\<lambda>_. [])(7 := [1])" and "d_client_id d = 7"
proof -
  obtain r ss a where run: "ss_append bump_env (\<lambda>_. x) 1 (ss_empty, 0) = (r, ss, a)" by (metis prod.collapse)
  have pre: "0 < it_length x" "item_start x + item_width x < 2 ^ 64" "it_id x = Id 7 0"
    using id len unat_u64 [of "it_length x"] by (simp_all add: item_start_def item_width_def)
  have "hm_room bump_env 1 (ss_table ss_empty)"
    by (simp add: hm_room_def bump_env_total ss_empty_def hm_empty_def kMaxCap_def)
  then have "r = Inr ()"
    using ss_append_spec(6) [OF ss_inv_empty(1) run pre(1,2)] pre(3)
    by (simp add: ss_inv_empty(2) kMaxPerClientItems_def kMaxClients_def item_start_def) (simp add: ss_empty_def)
  then have "ss_inv bump_env (\<lambda>_. x) ss" "ss_ptrs ss = (\<lambda>_. [])(7 := [1])"
    using ss_append_spec(1,2) [OF ss_inv_empty(1) run pre(1,2)] pre(3) by (auto simp: ss_inv_empty(2) fun_eq_iff)
  then show ?thesis
    using that [of "(doc_new 7 (0 :: u64))\<lparr>d_heap := (\<lambda>_. x), d_store := ss\<rparr>"]
    by (simp add: doc_new_def)
qed

lemma demo_doc_wire:
  fixes d :: "u64 doc"
  assumes "ss_inv bump_env (d_heap d) (d_store d)" and "d_heap d = (\<lambda>_. x)" and "struct_wf (wire_struct x)"
    and "ss_ptrs (d_store d) = (\<lambda>_. [])(7 := [1])"
  shows "doc_wire_ok bump_env d"
    and "length (concat (map snd (ss_items bump_env (d_store d)))) \<le> unat kMaxStructsPerClient"
    and "(7, [1]) \<in> set (ss_items bump_env (d_store d))"
proof -
  note items = ss_items_dense(2) [OF assms(1)]
  show "doc_wire_ok bump_env d" using assms(3) by (auto simp: doc_wire_ok_def assms(2))
  have "length (concat (map snd gs)) \<le> length gs" if "\<forall>(c, ps) \<in> set gs. length ps \<le> 1" for gs :: "(u64 \<times> addr list) list"
    using that by (induction gs) auto
  then have "length (concat (map snd (ss_items bump_env (d_store d)))) \<le> kMaxClients"
    using items assms(4) ss_items_length [OF assms(1)] by (fastforce intro: order.trans)
  then show "length (concat (map snd (ss_items bump_env (d_store d)))) \<le> unat kMaxStructsPerClient"
    by (simp add: kMaxClients_def kMaxStructsPerClient_def push_bit_eq_mult)
  have "7 \<in> set (ss_order (d_store d))"
    using assms(1,4) by (auto simp: ss_inv_def tracks_def ss_ptrs_def fun_upd_def split: option.splits dest!: fun_cong [of _ _ 7])
  then show "(7, [1]) \<in> set (ss_items bump_env (d_store d))"
    using items [of 7] assms(4) by (force simp: ss_items_def)
qed

theorem diff_roundtrip_witness:
  "\<exists>(d :: u64 doc) buf w du a'. ss_ptrs (d_store d) 7 = [1] \<and>
    encode_diff_v1 bump_env d (None :: ((u64, u64) hm_env \<times> state_vector) option) (writer_of buf) = (Inr (), w) \<and>
    decode_update_v1 bump_env (w_out w) (du_empty, 0) = (Inr (), du, a') \<and> wire_struct demo_run \<in> set (du_structs du)"
proof (rule demo_doc [of demo_run])
  fix d :: "u64 doc"
  assume d: "ss_inv bump_env (d_heap d) (d_store d)" "d_heap d = (\<lambda>_. demo_run)" "d_deletes d = ds_empty"
    "ss_ptrs (d_store d) = (\<lambda>_. [])(7 := [1])"
  note wire = demo_doc_wire [OF d(1,2) demo_run_wf d(4)]
  have dels: "ds_inv bump_env (d_deletes d)" "ds_items bump_env (d_deletes d) = []"
    by (simp_all add: d(3) ds_inv_empty) (simp add: ds_items_def ds_empty_def)
  define buf where "buf = replicate (length (doc_diff bump_env d (since_clock (None :: ((u64, u64) hm_env \<times> state_vector) option)))) (0 :: u8)"
  obtain w where w: "encode_diff_v1 bump_env d (None :: ((u64, u64) hm_env \<times> state_vector) option) (writer_of buf) = (Inr (), w)"
    by (rule w_appends_fits [OF encode_diff_appends [OF wire(1), of None] w_wf_writer_of, of buf]) (auto simp: buf_def)
  have "wire_struct demo_run \<in>
      set (concat (map (missing (d_heap d) (since_clock (None :: ((u64, u64) hm_env \<times> state_vector) option))) (ss_items bump_env (d_store d))))"
    using wire(3) by (force simp: missing_def since_clock_def d(2))
  moreover obtain du a' where "decode_update_v1 bump_env (w_out w) (du_empty, 0) = (Inr (), du, a')"
    "du_structs du = concat (map (missing (d_heap d) (since_clock (None :: ((u64, u64) hm_env \<times> state_vector) option))) (ss_items bump_env (d_store d)))"
    using diff_roundtrip [OF d(1) dels(1) wire(1) w bump_env_total wire(2), of 0] dels(2) by auto
  ultimately show ?thesis using w d(4) by (intro exI [of _ d] exI [of _ buf] exI [of _ w] exI [of _ du] exI [of _ a']) simp
qed (simp_all add: demo_run_def)

end
