(* ===== verification/Ycpp_Sync.thy ===== *)
theory Ycpp_Sync
  imports Ycpp_Protocol Ycpp_Diff
begin

text \<open>
  The sync protocol end to end: a peer's first message tells the clocks of its store, the answer
  carries exactly what it lacks, and the limits of the staging buffers.
\<close>

section \<open>The state vector of a document\<close>

lemma yforeach_map: "yforeach f (map g xs) = yforeach (\<lambda>x. f (g x)) xs"
  by (induction xs) simp_all

lemma ss_state_unknown:
  assumes "ss_inv E h ss" and "c \<notin> set (ss_order ss)"
  shows "ss_state E h c ss = 0"
proof -
  have "hm_abs (ss_table ss) c = None" using assms unfolding ss_inv_def tracks_def by blast
  then show ?thesis by (simp add: ss_state_def ss_find_vec_abs [OF assms(1)])
qed

lemma sv_set_fresh:
  assumes "alloc_total (he_alloc E)" and "distinct (map fst ps)" and "length ps \<le> kMaxClients"
  shows "\<exists>sv a'. yforeach (\<lambda>(client, clock). sv_set E client clock) ps (sv_empty, a) = (Inr (), sv, a') \<and>
    sv_inv E sv \<and> sv_abs sv = map_of ps \<and> length (sv_order sv) = length ps"
proof -
  obtain r sv a' where run: "yforeach (\<lambda>(client, clock). sv_set E client clock) ps (sv_empty, a) = (r, sv, a')"
    by (metis prod.collapse)
  note all = sv_set_all [OF sv_inv_empty(1) run]
  have "r = Inr ()" by (rule all(4)) (rule sv_room_empty [OF assms(1,3)])
  moreover have "map_of (rev ps) = map_of ps" using assms(2) by (subst map_of_inject_set) (simp_all add: rev_map [symmetric])
  moreover have "sv_order sv = map fst ps"
    using all(3) \<open>r = Inr ()\<close> assms(2) by (simp add: sv_inv_empty(2)) (simp add: sv_empty_def)
  ultimately show ?thesis using run all(1,2) by (simp add: sv_inv_empty(2))
qed

lemma doc_state_vector_ok:
  assumes inv: "ss_inv E (d_heap d) (d_store d)" and total: "alloc_total (he_alloc E')"
  shows "\<exists>sv a'. doc_state_vector E E' d (sv_empty, a) = (Inr (), sv, a') \<and> sv_inv E' sv \<and>
    (\<forall>c. sv_get E' c sv = ss_state E (d_heap d) c (d_store d)) \<and> length (sv_order sv) \<le> kMaxClients"
proof -
  let ?ps = "map (\<lambda>c. (c, ss_state E (d_heap d) c (d_store d))) (ss_order (d_store d))"
  have "doc_state_vector E E' d = yforeach (\<lambda>(client, clock). sv_set E' client clock) ?ps"
    by (simp add: doc_state_vector_def ss_items_def yforeach_map)
  moreover have "distinct (map fst ?ps)" "length ?ps \<le> kMaxClients"
    using inv by (auto simp: ss_inv_def tracks_def comp_def)
  ultimately obtain sv a' where sv: "doc_state_vector E E' d (sv_empty, a) = (Inr (), sv, a')" "sv_inv E' sv"
    "sv_abs sv = map_of ?ps" "length (sv_order sv) \<le> kMaxClients"
    using sv_set_fresh [OF total, of ?ps a] by auto
  have "sv_get E' c sv = ss_state E (d_heap d) c (d_store d)" for c
    using ss_state_unknown [OF inv, of c] by (simp add: sv_get_abs [OF sv(2)] sv(3) map_of_map_restrict restrict_map_def)
  then show ?thesis using sv by blast
qed

section \<open>The messages\<close>

definition sync_frame :: "message_kind \<Rightarrow> u64 \<Rightarrow> bytes \<Rightarrow> envelope" where
  "sync_frame kind i view = \<lparr>env_kind = kind, env_request_id = i, env_payload = view\<rparr>"

lemma w_appends_frame:
  "w_appends (ytry (w_u8 (message_byte kind)) (\<lambda>_. ytry (w_varint_u64 i) (\<lambda>_. w_length_prefixed view)))
     (envelope_bytes (sync_frame kind i view))"
  unfolding envelope_bytes_def sync_frame_def envelope.select_convs by (intro w_appends_try w_appends_intros)

text \<open>The first message: 81,930 bytes are enough for any state vector, so the staging buffer never overflows.\<close>

lemma emit_step1_appends:
  assumes inv: "ss_inv E (d_heap d) (d_store d)" and total: "alloc_total (he_alloc E')"
  shows "\<exists>sv. sv_inv E' sv \<and> (\<forall>c. sv_get E' c sv = ss_state E (d_heap d) c (d_store d)) \<and>
    length (sv_bytes (sv_items E' sv)) \<le> 81930 \<and>
    w_appends (emit_sync_step1 E E' d b i) (envelope_bytes (sync_frame kSyncStep1 i (sv_bytes (sv_items E' sv))))"
proof -
  obtain sv b' where sv: "doc_state_vector E E' d (sv_empty, b) = (Inr (), sv, b')" "sv_inv E' sv"
    "\<forall>c. sv_get E' c sv = ss_state E (d_heap d) c (d_store d)" "length (sv_order sv) \<le> kMaxClients"
    using doc_state_vector_ok [OF assms, of b] by blast
  have len: "length (sv_bytes (sv_items E' sv)) \<le> 81930"
    using length_sv_bytes [of "sv_items E' sv"] sv(4) by (simp add: sv_items_def kMaxClients_def)
  then have fit: "length (sv_bytes (sv_items E' sv)) \<le> kStep1Staging" by (simp add: kStep1Staging_def)
  obtain w where w: "sv_encode E' sv (writer_of (replicate kStep1Staging 0)) = (Inr (), w)" "w_out w = sv_bytes (sv_items E' sv)"
    by (rule w_appends_fits [OF sv_encode_appends w_wf_writer_of, of E' sv "replicate kStep1Staging 0"])
      (use fit in auto)
  have "emit_sync_step1 E E' d b i = ytry (w_u8 (message_byte kSyncStep1))
      (\<lambda>_. ytry (w_varint_u64 i) (\<lambda>_. w_length_prefixed (sv_bytes (sv_items E' sv))))"
    by (simp add: emit_sync_step1_def sv(1) w)
  then show ?thesis using sv len w_appends_frame [of kSyncStep1] by (intro exI [of _ sv]) simp
qed

text \<open>The answer: it succeeds exactly while the update fits the 16 KiB scratch buffer.\<close>

lemma emit_step2_appends:
  assumes "doc_wire_ok E d" and "length (doc_diff E d (since_clock peer)) \<le> kStep2Scratch"
  shows "w_appends (emit_sync_step2 E d peer i) (envelope_bytes (sync_frame kSyncStep2 i (doc_diff E d (since_clock peer))))"
proof -
  obtain w where w: "encode_diff_v1 E d peer (writer_of (replicate kStep2Scratch 0)) = (Inr (), w)"
    "w_out w = doc_diff E d (since_clock peer)"
    by (rule w_appends_fits [OF encode_diff_appends [OF assms(1), of peer] w_wf_writer_of, of "replicate kStep2Scratch 0"])
      (use assms(2) in auto)
  have "emit_sync_step2 E d peer i = ytry (w_u8 (message_byte kSyncStep2))
      (\<lambda>_. ytry (w_varint_u64 i) (\<lambda>_. w_length_prefixed (doc_diff E d (since_clock peer))))"
    by (simp add: emit_sync_step2_def w)
  then show ?thesis using w_appends_frame [of kSyncStep2] by simp
qed

lemma emit_step2_full:
  assumes "doc_wire_ok E d" and "\<not> length (doc_diff E d (since_clock peer)) \<le> kStep2Scratch" and "w_wf w"
  shows "fst (emit_sync_step2 E d peer i w) = Inl kOutOfBounds"
proof -
  obtain sw where full: "encode_diff_v1 E d peer (writer_of (replicate kStep2Scratch 0)) = (Inl kOutOfBounds, sw)"
    by (rule w_appends_full [OF encode_diff_appends [OF assms(1), of peer] w_wf_writer_of, of "replicate kStep2Scratch 0"])
      (use assms(2) in auto)
  have res: "m w = (Inr (), snd (m w)) \<and> w_wf (snd (m w)) \<or> fst (m w) = Inl kOutOfBounds"
    if "w_appends m bs" "w_wf w" for m bs w
    using that by (cases "m w") (auto simp: w_appends_def split: if_splits dest!: spec [of _ w])
  show ?thesis
    using res [OF w_appends_u8 assms(3), of "message_byte kSyncStep2"]
      res [OF w_appends_varint_u64, of "snd (w_u8 (message_byte kSyncStep2) w)" i]
    by (auto simp: emit_sync_step2_def ytry_def full split: prod.splits sum.splits)
qed

lemma emit_step2_fits:
  assumes "doc_wire_ok E d" and "w_wf w" and "emit_sync_step2 E d peer i w = (Inr (), w')"
  shows "length (doc_diff E d (since_clock peer)) \<le> kStep2Scratch"
  using emit_step2_full [OF assms(1) _ assms(2), of peer i] assms(3) by fastforce

text \<open>Receiving a first message fills an empty state vector with the clocks of the sender.\<close>

lemma sv_payload_decodes:
  assumes "sv_inv E sv" and "alloc_total (he_alloc E')"
  shows "\<exists>r sv' a'. sv_decode E' (reader_of (sv_bytes (sv_items E sv)), sv_empty, a) = (Inr (), r, sv', a') \<and>
    sv_inv E' sv' \<and> (\<forall>c. sv_get E' c sv' = sv_get E c sv)"
proof -
  note items = sv_items_abs [OF assms(1)]
  have fst: "distinct (map fst (sv_items E sv))" "length (sv_items E sv) \<le> kMaxClients"
    using items(2) assms(1) by (auto simp: sv_inv_def) (metis length_map)
  obtain sv' a' where sv': "yforeach (\<lambda>(client, clock). sv_set E' client clock) (sv_items E sv) (sv_empty, a) = (Inr (), sv', a')"
    "sv_inv E' sv'" "sv_abs sv' = sv_abs sv"
    using sv_set_fresh [OF assms(2) fst, of a] items(1) by auto
  then show ?thesis
    using r_feeds_whole [OF sv_decode_feeds [OF fst(2)] sv'(1), of "[]"] assms(1) by (auto simp: sv_get_abs)
qed

section \<open>Properties\<close>

text \<open>
C15: The handshake brings exactly what is missing: peer \<open>p\<close> sends its first message to \<open>q\<close>, \<open>q\<close> receives
it and answers, and what \<open>p\<close> decodes from the answer are the structs of \<open>q\<close> whose clocks \<open>p\<close> has not
reached, with the deletions of \<open>q\<close>.
\<close>

theorem sync_handshake:
  assumes "ss_inv E (d_heap p) (d_store p)" and "ss_inv F (d_heap q) (d_store q)" and "ds_inv F (d_deletes q)"
    and "doc_wire_ok F q" and "alloc_total (he_alloc E)" and "alloc_total (he_alloc E')" and "alloc_total (he_alloc F)"
    and "length (concat (map snd (ss_items F (d_store q)))) \<le> unat kMaxStructsPerClient"
    and "length (concat (map snd (ds_items F (d_deletes q)))) \<le> kMaxPerClientRanges"
    and "emit_sync_step1 E E' p b i (writer_of buf) = (Inr (), w)"
  shows "\<exists>env sv a1. decode_envelope (w_out w) out = (Inr (), env) \<and>
    apply_sync_message F env (q, Some (sv_empty, a0)) = Some (Inr (), q, Some (sv, a1)) \<and>
    (\<forall>j buf' w'. emit_sync_step2 F q (Some (F, sv)) j (writer_of buf') = (Inr (), w') \<longrightarrow>
      (\<exists>du a'. decode_envelope (w_out w') out =
          (Inr (), sync_frame kSyncStep2 j (doc_diff F q (since_clock (Some (F, sv))))) \<and>
        decode_update_v1 E (doc_diff F q (since_clock (Some (F, sv)))) (du_empty, a) = (Inr (), du, a') \<and>
        du_structs du = concat (map (missing (d_heap q) (\<lambda>c. ss_state E (d_heap p) c (d_store p))) (ss_items F (d_store q))) \<and>
        ds_abs (du_delete_set du) = ds_abs (d_deletes q)))"
proof -
  obtain sv1 where sv1: "sv_inv E' sv1" "\<forall>c. sv_get E' c sv1 = ss_state E (d_heap p) c (d_store p)"
    "length (sv_bytes (sv_items E' sv1)) \<le> 81930"
    "w_appends (emit_sync_step1 E E' p b i) (envelope_bytes (sync_frame kSyncStep1 i (sv_bytes (sv_items E' sv1))))"
    using emit_step1_appends [OF assms(1,6)] by blast
  define view where "view = sv_bytes (sv_items E' sv1)"
  have "decode_envelope (w_out w) out = (Inr (), sync_frame kSyncStep1 i view)"
    using decode_envelope_frame [of "sync_frame kSyncStep1 i view" "[]" out] sv1(3)
    by (simp add: w_appends_out(1) [OF sv1(4) assms(10)] sync_frame_def view_def)
  moreover obtain r sv a1 where sv: "sv_decode F (reader_of view, sv_empty, a0) = (Inr (), r, sv, a1)"
    "\<forall>c. sv_get F c sv = sv_get E' c sv1"
    using sv_payload_decodes [OF sv1(1) assms(7), where a = a0] by (auto simp: view_def)
  moreover have since: "since_clock (Some (F, sv)) = (\<lambda>c. ss_state E (d_heap p) c (d_store p))"
    using sv(2) sv1(2) by (simp add: since_clock_def fun_eq_iff)
  moreover have "decode_envelope (w_out w') out = (Inr (), sync_frame kSyncStep2 j (doc_diff F q (since_clock (Some (F, sv)))))"
    if run: "emit_sync_step2 F q (Some (F, sv)) j (writer_of buf') = (Inr (), w')" for j buf' w'
  proof -
    have fits: "length (doc_diff F q (since_clock (Some (F, sv)))) \<le> kStep2Scratch"
      by (rule emit_step2_fits [OF assms(4) w_wf_writer_of run])
    then have "length (doc_diff F q (since_clock (Some (F, sv)))) < 2 ^ 64" by (simp add: kStep2Scratch_def)
    then show ?thesis
      using decode_envelope_frame [of "sync_frame kSyncStep2 j (doc_diff F q (since_clock (Some (F, sv))))" "[]" out]
      by (simp add: w_appends_out(1) [OF emit_step2_appends [OF assms(4) fits] run]) (simp add: sync_frame_def)
  qed
  moreover note doc_diff_decodes [OF assms(2-4,5,8,9), of "since_clock (Some (F, sv))" a]
  ultimately show ?thesis
    by (intro exI [of _ "sync_frame kSyncStep1 i view"] exI [of _ sv] exI [of _ a1])
      (simp add: apply_sync_message_def sync_frame_def)
qed

text \<open>An empty peer asks the document with one deleted run.\<close>

theorem sync_handshake_witness:
  "\<exists>(q :: u64 doc) buf w env sv a1. ss_ptrs (d_store q) 7 = [1] \<and>
    emit_sync_step1 bump_env bump_env (doc_new 9 (0 :: u64)) 0 5 (writer_of buf) = (Inr (), w) \<and>
    decode_envelope (w_out w) demo_envelope = (Inr (), env) \<and>
    apply_sync_message bump_env env (q, Some (sv_empty, 0)) = Some (Inr (), q, Some (sv, a1))"
proof (rule demo_doc [of demo_run])
  fix q :: "u64 doc"
  assume q: "ss_inv bump_env (d_heap q) (d_store q)" "d_heap q = (\<lambda>_. demo_run)" "d_deletes q = ds_empty"
    "ss_ptrs (d_store q) = (\<lambda>_. [])(7 := [1])"
  let ?p = "doc_new 9 (0 :: u64)"
  note wire = demo_doc_wire [OF q(1,2) demo_run_wf q(4)]
  have dels: "ds_inv bump_env (d_deletes q)" "ds_items bump_env (d_deletes q) = []"
    by (simp_all add: q(3) ds_inv_empty) (simp add: ds_items_def ds_empty_def)
  have p: "ss_inv bump_env (d_heap ?p) (d_store ?p)" by (simp add: doc_new_def ss_inv_empty)
  obtain bs where bs: "w_appends (emit_sync_step1 bump_env bump_env ?p 0 5) bs"
    using emit_step1_appends [OF p bump_env_total] by blast
  obtain w where w: "emit_sync_step1 bump_env bump_env ?p 0 5 (writer_of (replicate (length bs) 0)) = (Inr (), w)"
    by (rule w_appends_fits [OF bs w_wf_writer_of, of "replicate (length bs) 0"]) auto
  have "length (concat (map snd (ds_items bump_env (d_deletes q)))) \<le> kMaxPerClientRanges" by (simp add: dels(2))
  from sync_handshake [OF p q(1) dels(1) wire(1) bump_env_total bump_env_total bump_env_total wire(2) this w,
      where out = demo_envelope and ?a0.0 = 0 and a = 0]
  obtain env sv a1 where "decode_envelope (w_out w) demo_envelope = (Inr (), env)"
    "apply_sync_message bump_env env (q, Some (sv_empty, 0)) = Some (Inr (), q, Some (sv, a1))" by blast
  moreover have "ss_ptrs (d_store q) 7 = [1]" by (simp add: q(4))
  ultimately show ?thesis using w by blast
qed (simp_all add: demo_run_def)

text \<open>
C16: The answer of the protocol is staged in 16 KiB: a peer that lacks more than that is never served, the
message fails with \<open>kOutOfBounds\<close> whatever room the caller's writer has.
\<close>

theorem sync_step2_too_large:
  assumes "doc_wire_ok E d" and "16384 < length (doc_diff E d (since_clock peer))" and "w_wf w"
  shows "fst (emit_sync_step2 E d peer i w) = Inl kOutOfBounds"
  by (rule emit_step2_full) (use assms in \<open>simp_all add: kStep2Scratch_def\<close>)

text \<open>One binary value of 20,000 bytes.\<close>

definition demo_blob :: item where
  "demo_blob = demo_run\<lparr>it_length := 1, it_content_kind := kBinary, it_content_view := replicate 20000 0\<rparr>"

lemma demo_blob_wf: "struct_wf (wire_struct demo_blob)" "20000 \<le> length (item_bytes demo_blob)"
proof -
  define view :: bytes where "view = replicate 20000 0"
  have len: "length view = 20000" unfolding view_def by (rule length_replicate)
  have "r_parses (read_content_payload kBinary) (prefixed_bytes view @ []) (1, view)"
    unfolding read_content_payload.simps
    by (rule r_parses_try [OF r_parses_length_prefixed]) (simp_all add: r_parses_return len)
  then have "payload_wf kBinary 1 view" by (simp add: payload_wf_def)
  then show "struct_wf (wire_struct demo_blob)"
    by (simp add: struct_wf_def parent_wf_def kind_named_def wire_struct_def demo_blob_def view_def [symmetric]
        demo_run_def item_default_def Let_def has_parent_def)
  show "20000 \<le> length (item_bytes demo_blob)"
    by (simp add: item_bytes_def flagged_bytes_def demo_blob_def view_def [symmetric] prefixed_bytes_def len)
qed

lemma doc_diff_length:
  assumes "(c, items) \<in> set (ss_items E (d_store d))" and "p \<in> set items"
  shows "length (item_bytes (d_heap d p)) \<le> length (doc_diff E d (\<lambda>_. 0))"
proof -
  have in_sum: "length (f x) \<le> length (concat (map f xs))" if "x \<in> set xs" for f :: "'b \<Rightarrow> bytes" and x xs
    using that by (induction xs) auto
  have "(c, items) \<in> set (diff_groups (d_heap d) (\<lambda>_. 0) (ss_items E (d_store d)))"
    using assms by (force simp: diff_groups_def emits_def)
  from in_sum [OF this, of "group_bytes (d_heap d)"] in_sum [OF assms(2), of "\<lambda>p. item_bytes (d_heap d p)"]
  show ?thesis by (simp add: group_bytes_def doc_diff_def diff_bytes_def)
qed

theorem sync_step2_too_large_witness:
  "\<exists>d :: u64 doc. ss_ptrs (d_store d) 7 = [1] \<and>
    fst (emit_sync_step2 bump_env d (None :: ((u64, u64) hm_env \<times> state_vector) option) 5
      (writer_of (replicate 100000 0))) = Inl kOutOfBounds"
proof (rule demo_doc [of demo_blob])
  fix d :: "u64 doc"
  assume d: "ss_inv bump_env (d_heap d) (d_store d)" "d_heap d = (\<lambda>_. demo_blob)" "d_deletes d = ds_empty"
    "ss_ptrs (d_store d) = (\<lambda>_. [])(7 := [1])"
  note wire = demo_doc_wire [OF d(1,2) demo_blob_wf(1) d(4)]
  have "16384 < length (doc_diff bump_env d (since_clock (None :: ((u64, u64) hm_env \<times> state_vector) option)))"
    using doc_diff_length [OF wire(3), of 1] demo_blob_wf(2) by (simp add: since_clock_def [abs_def] d(2))
  from sync_step2_too_large [OF wire(1) this w_wf_writer_of, of 5 "replicate 100000 0"] show ?thesis
    by (intro exI [of _ d]) (simp only: d(4) fun_upd_same)
qed (simp_all add: demo_blob_def demo_run_def)

end
