(* ===== verification/Ycpp_Requests.thy ===== *)
theory Ycpp_Requests
  imports Ycpp_Doc
begin

text \<open>
  What the components ask of the allocator.  Every request of the code is sane in the sense of the
  allocator's contract: capacities are clipped before they are multiplied, and copies are as long as
  the bytes they copy.  So whatever survives sane requests survives every operation.
\<close>

section \<open>Sane requests\<close>

definition survives :: "'a allocator \<Rightarrow> ('a \<Rightarrow> bool) \<Rightarrow> bool" where
  "survives al P \<longleftrightarrow> (\<forall>n align a. sane_request n align \<longrightarrow> P a \<longrightarrow> P (snd (al n align a)))"

lemma survivesD: "survives al P \<Longrightarrow> sane_request n align \<Longrightarrow> P a \<Longrightarrow> al n align a = (r, a') \<Longrightarrow> P a'"
  unfolding survives_def by (metis snd_conv)

definition env_sane :: "('k, 'a) hm_env \<Rightarrow> bool" where
  "env_sane E \<longleftrightarrow> he_entry_bytes E \<le> 2 ^ 20 \<and> (\<exists>k < 12. he_entry_align E = 2 ^ k)"

lemma sane_small: "n \<le> 2 ^ 61 \<Longrightarrow> k < 12 \<Longrightarrow> sane_request (of_nat n) (2 ^ k)"
  using unat_of_nat_small [of n] by (auto simp: sane_request_def)

lemma sane_bytes: "n \<le> 2 ^ 61 \<Longrightarrow> sane_request (of_nat n) 1"
  using sane_small [of n 0] by simp

lemma sane_words: "n \<le> 2 ^ 61 \<Longrightarrow> sane_request (of_nat n) 8"
  using sane_small [of n 3] by simp

lemma clone_view_survives:
  assumes "survives al P" and "length v \<le> 2 ^ 61" and "P a" and "clone_view al v a = (w, a')"
  shows "P a'"
  using assms(3,4) survivesD [OF assms(1) sane_bytes [OF assms(2)] assms(3)]
  by (auto simp: clone_view_def split: if_splits option.splits prod.splits)

lemma survives_clipped:
  assumes "survives al P" and "P a" and "al (of_nat (w * (if n > c then c else n))) 8 a = (r, a')" and "w \<le> 2 ^ 20" and "c \<le> 2 ^ 26"
  shows "P a'"
proof -
  have "w * (if n > c then c else n) \<le> 2 ^ 20 * 2 ^ 26" using assms(4,5) by (intro mult_le_mono) auto
  then show ?thesis using survivesD [OF assms(1) sane_words assms(2,3)] by simp
qed

section \<open>Tables\<close>

lemma hm_rehash_survives:
  assumes "survives (he_alloc E) P" and "env_sane E" and "P a" and "hm_rehash_to E n (m, a) = (ok, m', a')"
  shows "P a'"
proof (cases "n > kMaxCap")
  case True
  then show ?thesis using assms(3,4) by (simp add: hm_rehash_to_def)
next
  case False
  obtain c a1 where 1: "he_alloc E (of_nat n) 1 a = (c, a1)" by fastforce
  obtain e a2 where 2: "he_alloc E (of_nat (he_entry_bytes E * n)) (of_nat (he_entry_align E)) a1 = (e, a2)" by fastforce
  have n: "n \<le> 2 ^ 24" using False by (simp add: kMaxCap_def)
  have "he_entry_bytes E * n \<le> 2 ^ 20 * 2 ^ 24"
    using assms(2) n by (intro mult_le_mono) (simp_all add: env_sane_def)
  moreover obtain k where "k < 12" "he_entry_align E = 2 ^ k" using assms(2) by (auto simp: env_sane_def)
  ultimately have sane: "sane_request (of_nat (he_entry_bytes E * n)) (of_nat (he_entry_align E))"
    using sane_small [of "he_entry_bytes E * n" k] by simp
  have "P a1" by (rule survivesD [OF assms(1) sane_bytes assms(3) 1]) (use n in simp)
  then have "P a2" by (rule survivesD [OF assms(1) sane _ 2])
  then show ?thesis using assms(4) False 1 2 by (auto simp: hm_rehash_to_def split: if_splits)
qed

lemma hm_insert_survives:
  assumes "survives (he_alloc E) P" and "env_sane E" and "P a" and "hm_insert E k v (m, a) = (r, m', a')"
  shows "P a'"
proof -
  obtain ok1 m1 a1 where 1: "(if hm_cap m = 0 then hm_rehash_to E kMinCap (m, a) else (True, m, a)) = (ok1, m1, a1)"
    by (metis prod.collapse)
  obtain ok2 m2 a2 where 2: "(if hm_needs_grow m1 then hm_rehash_to E (hm_cap m1 * 2) (m1, a1) else (True, m1, a1)) = (ok2, m2, a2)"
    by (metis prod.collapse)
  have p1: "P a1" using 1 assms(3) hm_rehash_survives [OF assms(1-3)] by (auto split: if_splits)
  then have "P a2" using 2 hm_rehash_survives [OF assms(1,2)] by (auto split: if_splits)
  then show ?thesis using assms(4) 1 2 p1 by (auto simp: hm_insert_def Let_def split: if_splits prod.splits)
qed

lemma hm_add_survives:
  assumes "survives (he_alloc E) P" and "env_sane E" and "P a" and "hm_add E k v (m, a) = (r, m', a')"
  shows "P a'"
proof -
  obtain x m1 a1 where "hm_insert E k v (m, a) = (x, m1, a1)" by (metis prod.collapse)
  then show ?thesis using hm_insert_survives [OF assms(1-3)] assms(4) by (auto simp: hm_add_def split: option.splits)
qed

section \<open>The store, the delete set, the registries\<close>

lemma ss_ensure_cap_survives:
  assumes P: "survives al P" and a: "P a" and run: "ss_ensure_cap al need (vec, a) = (r, vec', a')"
  shows "P a'"
proof (cases "need \<le> iv_cap vec \<or> need > kMaxPerClientItems")
  case True
  then show ?thesis using run a by (auto simp: ss_ensure_cap_def split: if_splits)
next
  case False
  let ?n = "round_up_loop (if iv_cap vec = 0 then ss_kInitialPerClientCap else iv_cap vec * 2) need"
  obtain fresh a1 where al: "al (of_nat (8 * (if ?n > kMaxPerClientItems then kMaxPerClientItems else ?n))) 8 a = (fresh, a1)" by fastforce
  have "P a1" by (rule survives_clipped [OF P a al]) (simp_all add: kMaxPerClientItems_def)
  then show ?thesis using run False al by (auto simp: ss_ensure_cap_def Let_def simp del: of_nat_mult split: if_splits)
qed

lemma ds_ensure_cap_survives:
  assumes P: "survives al P" and a: "P a" and run: "ds_ensure_cap al need (vec, a) = (r, vec', a')"
  shows "P a'"
proof (cases "need \<le> cv_cap vec \<or> need > kMaxPerClientRanges")
  case True
  then show ?thesis using run a by (auto simp: ds_ensure_cap_def split: if_splits)
next
  case False
  let ?n = "round_up_loop (if cv_cap vec = 0 then kInitialPerClientCap else cv_cap vec * 2) need"
  obtain fresh a1 where al: "al (of_nat (16 * (if ?n > kMaxPerClientRanges then kMaxPerClientRanges else ?n))) 8 a = (fresh, a1)" by fastforce
  have "P a1" by (rule survives_clipped [OF P a al]) (simp_all add: kMaxPerClientRanges_def)
  then show ?thesis using run False al by (auto simp: ds_ensure_cap_def Let_def simp del: of_nat_mult split: if_splits)
qed

lemma ss_append_survives:
  assumes P: "survives (he_alloc E) P" and E: "env_sane E" and a: "P a" and run: "ss_append E h p (ss, a) = (r, ss', a')"
  shows "P a'"
proof -
  let ?c = "id_client (it_id (h p))"
  obtain v ss1 a1 where 1: "ss_get_or_create E ?c (ss, a) = (v, ss1, a1)" by (metis prod.collapse)
  obtain ok t a2 where add: "hm_add E ?c \<lparr>iv_data = [], iv_cap = 0\<rparr> (ss_table ss, a) = (ok, t, a2)" by (metis prod.collapse)
  have p1: "P a1"
    using 1 add hm_add_survives [OF P E a add] a by (auto simp: ss_get_or_create_def Let_def split: option.splits if_splits)
  show ?thesis
  proof (cases v)
    case None
    then show ?thesis using run 1 p1 by (auto simp: ss_append_def Let_def)
  next
    case (Some vec)
    obtain r2 vec2 a3 where 2: "ss_append_vec (he_alloc E) h p (vec, a1) = (r2, vec2, a3)" by (metis prod.collapse)
    obtain r3 vec3 a4 where 3: "ss_ensure_cap (he_alloc E) (length (iv_data vec) + 1) (vec, a1) = (r3, vec3, a4)"
      by (metis prod.collapse)
    have "P a4" by (rule ss_ensure_cap_survives [OF P p1 3])
    then have "P a3" using 2 3 p1 by (auto simp: ss_append_vec_def Let_def op_simps split: if_splits sum.splits)
    then show ?thesis using run 1 2 Some by (auto simp: ss_append_def Let_def split: sum.splits)
  qed
qed

lemma ds_add_survives:
  assumes P: "survives (he_alloc E) P" and E: "env_sane E" and a: "P a" and run: "ds_add E c clk len (ds, a) = (r, ds', a')"
  shows "P a'"
proof -
  obtain v ds1 a1 where 1: "ds_get_or_create E c (ds, a) = (v, ds1, a1)" by (metis prod.collapse)
  obtain ok t a2 where add: "hm_add E c \<lparr>cv_data = [], cv_cap = 0\<rparr> (ds_table ds, a) = (ok, t, a2)" by (metis prod.collapse)
  have p1: "P a1"
    using 1 add hm_add_survives [OF P E a add] a by (auto simp: ds_get_or_create_def Let_def split: option.splits if_splits)
  show ?thesis
  proof (cases v)
    case None
    then show ?thesis using run 1 p1 by (auto simp: ds_add_def)
  next
    case (Some vec)
    obtain r2 vec2 a3 where 2: "ds_insert_range (he_alloc E) clk len (vec, a1) = (r2, vec2, a3)" by (metis prod.collapse)
    obtain r3 vec3 a4 where 3: "ds_ensure_cap (he_alloc E) (length (cv_data vec) + 1) (vec, a1) = (r3, vec3, a4)"
      by (metis prod.collapse)
    have "P a4" by (rule ds_ensure_cap_survives [OF P p1 3])
    then have "P a3" using 2 3 p1 by (auto simp: ds_insert_range_def Let_def op_simps split: if_splits sum.splits)
    then show ?thesis using run 1 2 Some by (auto simp: ds_add_def)
  qed
qed

lemma length_prefixed_within:
  assumes "r_length_prefixed r = (Inr bs, r')"
  shows "length bs \<le> length (r_view r)"
proof -
  obtain len r1 where 1: "r_varint_u64 r = (Inr len, r1)"
    and 2: "(if unat len > r_remaining r1 then (Inl kOutOfBounds, r1)
      else (Inr (take (unat len) (drop (r_pos r1) (r_view r1))), r1\<lparr>r_pos := r_pos r1 + unat len\<rparr>)) = (Inr bs, r')"
    using assms unfolding r_length_prefixed_def by (rule ytry_InrE)
  have "r_view r1 = r_view r" using 1 by (auto simp: r_varint_u64_def split: prod.splits sum.splits)
  then show ?thesis using 2 by (auto split: if_splits)
qed

lemma sd_install_survives:
  assumes P: "survives (he_alloc E) P" and E: "env_sane E" and len: "length cv \<le> 2 ^ 61"
    and a: "P a" and run: "sd_install E i cv (sd, a) = (r, sd', a')"
  shows "P a'"
proof -
  obtain x rd where x: "r_length_prefixed (reader_of cv) = (x, rd)" by (metis surj_pair)
  show ?thesis
  proof (cases x)
    case (Inl e)
    then show ?thesis using run x a by (simp add: sd_install_def)
  next
    case (Inr guid)
    have g: "length guid \<le> 2 ^ 61" using length_prefixed_within [OF x [unfolded Inr]] len by (simp add: reader_of_def)
    obtain w1 a1 where 1: "clone_view (he_alloc E) guid a = (w1, a1)" by (metis surj_pair)
    obtain w2 a2 where 2: "clone_view (he_alloc E) (drop (r_pos rd) cv) a1 = (w2, a2)" by (metis surj_pair)
    have p2: "P a2"
      using clone_view_survives [OF P g a 1] clone_view_survives [OF P _ _ 2] len by simp
    show ?thesis
      using run x Inr 1 2 p2 hm_add_survives [OF P E p2]
      by (auto simp: sd_install_def Let_def split: if_splits prod.splits)
  qed
qed

lemma ym_integrate_survives:
  assumes "survives (he_alloc E) P" and "env_sane E" and "P a" and "ym_integrate E by_id h p (m, a) = (l, m', a')"
  shows "P a'"
proof -
  obtain x m1 a1 where ins: "hm_insert E (it_parent_sub (h p)) (Some p) (m, a) = (x, m1, a1)" by (metis prod.collapse)
  have "P a1" by (rule hm_insert_survives [OF assms(1-3) ins])
  then show ?thesis using assms(3,4) ins by (auto simp: ym_integrate_def Let_def split: option.splits if_splits)
qed

section \<open>Decoding\<close>

lemma du_ensure_cap_survives:
  assumes P: "survives al P" and a: "P a" and run: "du_ensure_cap al need (du, a) = (r, du', a')"
  shows "P a'"
proof (cases "need \<le> du_cap du \<or> need > kMaxStructs")
  case True
  then show ?thesis using run a by (auto simp: du_ensure_cap_def split: if_splits)
next
  case False
  let ?n = "round_up_loop (if du_cap du = 0 then kInitialCap else du_cap du * 2) need"
  obtain fresh a1 where al: "al (of_nat (136 * (if ?n > kMaxStructs then kMaxStructs else ?n))) 8 a = (fresh, a1)" by fastforce
  have "P a1" by (rule survives_clipped [OF P a al]) (simp_all add: kMaxStructs_def)
  then show ?thesis using run False al by (auto simp: du_ensure_cap_def Let_def simp del: of_nat_mult split: if_splits)
qed

lemma du_push_survives:
  assumes P: "survives al P" and a: "P a" and run: "du_push al s (du, a) = (r, du', a')"
  shows "P a'"
proof -
  obtain r1 du1 a1 where cap: "du_ensure_cap al (length (du_structs du) + 1) (du, a) = (r1, du1, a1)" by (metis prod.collapse)
  have "P a1" by (rule du_ensure_cap_survives [OF P a cap])
  then show ?thesis using run cap by (auto simp: du_push_def op_simps split: sum.splits)
qed

lemma ykeeps_du_push: "survives al P \<Longrightarrow> ykeeps (\<lambda>st. P (snd st)) (du_push al s)"
  unfolding ykeeps_def using du_push_survives by (metis prod.collapse)

lemma ykeeps_ds_add: "survives (he_alloc E) P \<Longrightarrow> env_sane E \<Longrightarrow> ykeeps (\<lambda>st. P (snd st)) (ds_add E c clk len)"
  unfolding ykeeps_def using ds_add_survives by (metis prod.collapse)

lemma ykeeps_yfst: "ykeeps (\<lambda>st. Q (snd st)) (yfst m)"
  by (simp add: ykeeps_def yfst_def split: prod.split)

lemma ykeeps_ysnd: "ykeeps Q m \<Longrightarrow> ykeeps (\<lambda>st. Q (snd st)) (ysnd m)"
  using ykeeps_snd [of Q m "\<lambda>_. True"] by simp

lemma ykeeps_decode_structs:
  "survives al P \<Longrightarrow> ykeeps (\<lambda>st. P (snd (snd st))) (decode_structs al n client clock)"
  by (induction n arbitrary: clock)
    (auto intro!: ykeeps_intros ykeeps_yfst [where Q = "\<lambda>st. P (snd st)"] ykeeps_ysnd [where Q = "\<lambda>st. P (snd st)"] ykeeps_du_push)

lemma ykeeps_ds_decode:
  "survives (he_alloc E) P \<Longrightarrow> env_sane E \<Longrightarrow> ykeeps (\<lambda>st. P (snd (snd st))) (ds_decode E)"
  unfolding ds_decode_def
  by (intro ykeeps_intros ykeeps_yfst [where Q = "\<lambda>st. P (snd st)"] ykeeps_ysnd [where Q = "\<lambda>st. P (snd st)"] ykeeps_ds_add) auto

lemma decode_update_survives:
  assumes P: "survives (he_alloc E) P" and E: "env_sane E" and a: "P a" and run: "decode_update_v1 E bs (du, a) = (r, du', a')"
  shows "P a'"
proof -
  have "ykeeps (\<lambda>st. P (snd (snd st))) (du_decode_delete_set E)"
    unfolding ykeeps_def
  proof (intro allI impI)
    fix st :: "reader \<times> decoded_update \<times> 'a" assume "P (snd (snd st))"
    then show "P (snd (snd (snd (du_decode_delete_set E st))))"
      by (cases st) (auto simp: du_decode_delete_set_def split: prod.split dest!: ykeepsD [OF ykeeps_ds_decode [OF P E], rotated])
  qed
  moreover have "ykeeps (\<lambda>st. P (snd (snd st))) (decode_client E)"
    unfolding decode_client_def
    by (intro ykeeps_intros ykeeps_yfst [where Q = "\<lambda>st. P (snd st)"] ykeeps_decode_structs P)
  moreover have "ykeeps (\<lambda>st. P (snd (snd st))) (\<lambda>(r, st). if \<not> r_eof r then (Inl kCorruptInput, r, st) else (Inr (), r, st))"
    by (simp add: ykeeps_def split: prod.split)
  ultimately have "ykeeps (\<lambda>st. P (snd (snd st))) (decode_update_body E)"
    unfolding decode_update_body_def
    by (intro ykeeps_intros ykeeps_yfst [where Q = "\<lambda>st. P (snd st)"])
  from ykeepsD [OF this, of "(reader_of bs, du, a)"] show ?thesis
    using a run by (auto simp: decode_update_v1_def split: prod.splits)
qed

end
