(* ===== verification/Ycpp_DocInv.thy ===== *)
theory Ycpp_DocInv
  imports Ycpp_Requests
begin

text \<open>
  The invariant of a document, and that every operation of ycpp_doc.h keeps it.  It says who owns
  what: the item slots handed out by the pool are exactly the items of the store and those a running
  operation holds, the map and sequence slots are exactly the values of the tables of roots, and every
  pointer of the document (links, first items, heads) leads to an item of the store.
\<close>

section \<open>The invariant\<close>

text \<open>The links of the items of \<open>S\<close> stay in \<open>S\<close>.\<close>

definition links_in :: "item_heap \<Rightarrow> addr set \<Rightarrow> bool" where
  "links_in h S \<longleftrightarrow> (\<forall>p \<in> S. set_option (it_left (h p)) \<subseteq> S \<and> set_option (it_right (h p)) \<subseteq> S)"

text \<open>The map of a root: a table whose heads are items of \<open>S\<close>.\<close>

definition map_ok :: "(u64, 'a) hm_env \<Rightarrow> addr set \<Rightarrow> ymap \<Rightarrow> bool" where
  "map_ok E S m \<longleftrightarrow> hm_inv (view_env E 24) m \<and> (\<forall>v \<in> ran (hm_abs m). set_option v \<subseteq> S)"

text \<open>A table of roots owns the slots of its pool, one for each name.\<close>

definition table_ok :: "(u64, 'a) hm_env \<Rightarrow> slot_type \<Rightarrow> (bytes, addr) hashmap \<Rightarrow> pool \<Rightarrow> bool" where
  "table_ok E T t pl \<longleftrightarrow> hm_inv (view_env E 24) t \<and> pool_used T pl = ran (hm_abs t) \<and> inj_on (hm_abs t) (dom (hm_abs t))"

definition pools_ok :: "('a \<Rightarrow> bool) \<Rightarrow> ('a \<Rightarrow> nat set) \<Rightarrow> 'a doc \<Rightarrow> bool" where
  "pools_ok ok taken d \<longleftrightarrow> ok (d_alloc d) \<and> pool_inv taken item_slot (d_item_pool d, d_alloc d) \<and>
     pool_inv taken map_slot (d_map_pool d, d_alloc d) \<and> pool_inv taken array_slot (d_array_pool d, d_alloc d)"

text \<open>Names and values that can exist in memory.\<close>

abbreviation addressable :: "bytes \<Rightarrow> bool" where
  "addressable v \<equiv> length v \<le> 2 ^ 61"

text \<open>An item whose clocks do not wrap.\<close>

definition item_fits :: "item \<Rightarrow> bool" where
  "item_fits x \<longleftrightarrow> 0 < it_length x \<and> item_start x + item_width x < 2 ^ 64 \<and> addressable (it_parent_name x)"

text \<open>
  The items: \<open>H\<close> are the slots that the running operation holds and has not yet
  installed, \<open>lo\<close> is a clock the document has reached.
\<close>

definition items_ok :: "(u64, 'a) hm_env \<Rightarrow> u64 \<Rightarrow> addr set \<Rightarrow> 'a doc \<Rightarrow> bool" where
  "items_ok E lo H d \<longleftrightarrow> ss_inv E (d_heap d) (d_store d) \<and> links_in (d_heap d) (ss_addrs (d_store d)) \<and>
     (\<forall>p \<in> ss_addrs (d_store d). item_fits (d_heap d p)) \<and>
     pool_used item_slot (d_item_pool d) = ss_addrs (d_store d) \<union> H \<and> H \<inter> ss_addrs (d_store d) = {} \<and>
     lo \<le> d_next_clock d \<and> d_next_clock d \<le> ss_state E (d_heap d) (d_client_id d) (d_store d)"

definition roots_ok :: "(u64, 'a) hm_env \<Rightarrow> 'a doc \<Rightarrow> bool" where
  "roots_ok E d \<longleftrightarrow> table_ok E map_slot (d_roots d) (d_map_pool d) \<and> table_ok E array_slot (d_arrays d) (d_array_pool d) \<and>
     (\<forall>m \<in> ran (hm_abs (d_roots d)). map_ok E (ss_addrs (d_store d)) (d_map_heap d m)) \<and>
     (\<forall>arr \<in> ran (hm_abs (d_arrays d)). set_option (d_array_heap d arr) \<subseteq> ss_addrs (d_store d))"

definition doc_ok :: "('a \<Rightarrow> bool) \<Rightarrow> ('a \<Rightarrow> nat set) \<Rightarrow> (u64, 'a) hm_env \<Rightarrow> u64 \<Rightarrow> addr set \<Rightarrow> 'a doc \<Rightarrow> bool" where
  "doc_ok ok taken E lo H d \<longleftrightarrow> pools_ok ok taken d \<and> items_ok E lo H d \<and> roots_ok E d \<and>
     ds_inv E (d_deletes d) \<and> sd_inv (view_env E 64) (d_sub_docs d)"

text \<open>What the allocator's state becomes by further requests.\<close>

definition later :: "('a \<Rightarrow> bool) \<Rightarrow> ('a \<Rightarrow> nat set) \<Rightarrow> 'a \<Rightarrow> 'a \<Rightarrow> bool" where
  "later ok taken a a' \<longleftrightarrow> ok a' \<and> taken a \<subseteq> taken a'"

text \<open>What opening a root by name does to its table and to the objects of the table.\<close>

definition opens :: "bytes \<Rightarrow> 'b \<Rightarrow> (bytes, addr) hashmap \<times> (addr \<Rightarrow> 'b) \<Rightarrow> (bytes, addr) hashmap \<times> (addr \<Rightarrow> 'b) \<Rightarrow> bool" where
  "opens name init st st' \<longleftrightarrow> hm_abs (fst st') = hm_abs (fst st) \<and> snd st' = snd st \<or>
     (\<exists>p. hm_abs (fst st) name = None \<and> p \<notin> ran (hm_abs (fst st)) \<and>
        hm_abs (fst st') = (hm_abs (fst st))(name \<mapsto> p) \<and> snd st' = (snd st)(p := init))"

section \<open>Frame lemmas\<close>

lemma pool_inv_later: "pool_inv taken T (pl, a) \<Longrightarrow> taken a \<subseteq> taken a' \<Longrightarrow> pool_inv taken T (pl, a')"
  by (fastforce simp: pool_inv_def)

lemma pools_ok_later: "pools_ok ok taken d \<Longrightarrow> later ok taken (d_alloc d) a' \<Longrightarrow> pools_ok ok taken (d\<lparr>d_alloc := a'\<rparr>)"
  by (auto simp: pools_ok_def later_def intro: pool_inv_later)

lemma doc_ok_alloc: "doc_ok ok taken E lo H d \<Longrightarrow> later ok taken (d_alloc d) a' \<Longrightarrow> doc_ok ok taken E lo H (d\<lparr>d_alloc := a'\<rparr>)"
  by (simp add: doc_ok_def pools_ok_later items_ok_def roots_ok_def)

lemma doc_ok_deletes: "doc_ok ok taken E lo H d \<Longrightarrow> ds_inv E ds \<Longrightarrow> doc_ok ok taken E lo H (d\<lparr>d_deletes := ds\<rparr>)"
  by (simp add: doc_ok_def pools_ok_def items_ok_def roots_ok_def)

lemma doc_ok_sub_docs: "doc_ok ok taken E lo H d \<Longrightarrow> sd_inv (view_env E 64) sd \<Longrightarrow> doc_ok ok taken E lo H (d\<lparr>d_sub_docs := sd\<rparr>)"
  by (simp add: doc_ok_def pools_ok_def items_ok_def roots_ok_def)

lemma ss_state_cong:
  assumes "ss_inv E h ss" and "\<And>p. p \<in> ss_addrs ss \<Longrightarrow> it_id (h' p) = it_id (h p) \<and> it_length (h' p) = it_length (h p)"
  shows "ss_state E h' c ss = ss_state E h c ss"
proof -
  have "span h' (ss_ptrs ss c) = span h (ss_ptrs ss c)"
    using dense_cong [of "ss_ptrs ss c" h' h c] assms(2) by (auto simp: ss_addrs_def)
  moreover have "ss_inv E h' ss" using ss_inv_cong [of ss h' h E] assms by simp
  ultimately show ?thesis by (metis assms(1) ss_state_span word_unat_eq_iff)
qed

text \<open>A heap that keeps identifiers and lengths of the store, and whose links stay in it.\<close>

lemma doc_ok_heap:
  assumes d: "doc_ok ok taken E lo H d"
    and same: "\<And>p. p \<in> ss_addrs (d_store d) \<Longrightarrow> it_id (h p) = it_id (d_heap d p) \<and> it_length (h p) = it_length (d_heap d p) \<and>
      it_parent_name (h p) = it_parent_name (d_heap d p)"
    and links: "links_in h (ss_addrs (d_store d))"
  shows "doc_ok ok taken E lo H (d\<lparr>d_heap := h\<rparr>)"
proof -
  have inv: "ss_inv E (d_heap d) (d_store d)" using d by (simp add: doc_ok_def items_ok_def)
  then have "ss_inv E h (d_store d)" using ss_inv_cong [of "d_store d" h "d_heap d" E] same by simp
  moreover have "item_fits (h p) = item_fits (d_heap d p)" if "p \<in> ss_addrs (d_store d)" for p
    using same [OF that] by (simp add: item_fits_def item_start_def item_width_def)
  moreover have "ss_state E h c (d_store d) = ss_state E (d_heap d) c (d_store d)" for c
    by (rule ss_state_cong [OF inv]) (use same in simp)
  ultimately show ?thesis
    using d links by (simp add: doc_ok_def pools_ok_def items_ok_def roots_ok_def)
qed

lemma doc_ok_write_held:
  assumes "doc_ok ok taken E lo H d" and "p \<notin> ss_addrs (d_store d)"
  shows "doc_ok ok taken E lo H (d\<lparr>d_heap := (d_heap d)(p := x)\<rparr>)"
  by (rule doc_ok_heap [OF assms(1)]) (use assms in \<open>auto simp: doc_ok_def items_ok_def links_in_def\<close>)

text \<open>Changing flags or content of an item leaves identifiers, lengths and links alone.\<close>

lemma doc_ok_retouch:
  assumes "doc_ok ok taken E lo H d"
    and "it_id x = it_id (d_heap d p)" "it_length x = it_length (d_heap d p)"
    and "it_left x = it_left (d_heap d p)" "it_right x = it_right (d_heap d p)"
    and "it_parent_name x = it_parent_name (d_heap d p)"
  shows "doc_ok ok taken E lo H (d\<lparr>d_heap := (d_heap d)(p := x)\<rparr>)"
  by (rule doc_ok_heap [OF assms(1)]) (use assms in \<open>auto simp: doc_ok_def items_ok_def links_in_def\<close>)

lemma doc_ok_array:
  assumes "doc_ok ok taken E lo H d" and "set_option v \<subseteq> ss_addrs (d_store d)"
  shows "doc_ok ok taken E lo H (d\<lparr>d_array_heap := (d_array_heap d)(arr := v)\<rparr>)"
  using assms by (auto simp: doc_ok_def pools_ok_def items_ok_def roots_ok_def)

lemma doc_ok_map:
  assumes "doc_ok ok taken E lo H d" and "map_ok E (ss_addrs (d_store d)) v"
  shows "doc_ok ok taken E lo H (d\<lparr>d_map_heap := (d_map_heap d)(m := v)\<rparr>)"
  using assms by (auto simp: doc_ok_def pools_ok_def items_ok_def roots_ok_def)

lemma doc_ok_release:
  assumes "doc_ok ok taken E lo H d" and "p \<in> H"
  shows "doc_ok ok taken E lo (H - {p}) (doc_release_item p d)"
proof -
  have p: "p \<in> pool_used item_slot (d_item_pool d)" "pool_inv taken item_slot (d_item_pool d, d_alloc d)"
    using assms by (auto simp: doc_ok_def items_ok_def pools_ok_def)
  show ?thesis
    using assms pool_release_spec [OF p(2,1)]
    by (auto simp: doc_ok_def pools_ok_def items_ok_def roots_ok_def doc_release_item_def)
qed

lemma dense_span_less: "ss_inv E h ss \<Longrightarrow> span h (ss_ptrs ss c) < 2 ^ 64"
  by (simp add: ss_inv_def dense_def)

section \<open>Links\<close>

text \<open>What rewrites links inside \<open>S\<close> only.\<close>

definition relinks :: "addr set \<Rightarrow> item_heap \<Rightarrow> item_heap \<Rightarrow> bool" where
  "relinks S h h' \<longleftrightarrow> links_in h' S \<and> (\<forall>q. same_content (h' q) (h q))"

lemma relinks_refl: "links_in h S \<Longrightarrow> relinks S h h"
  by (simp add: relinks_def)

lemma relinks_trans: "relinks S h1 h2 \<Longrightarrow> relinks S h2 h3 \<Longrightarrow> relinks S h1 h3"
  unfolding relinks_def by (blast intro: same_content_trans)

lemma links_in_set:
  assumes "links_in h S" and "set_option v \<subseteq> S"
  shows "links_in (set_left p v h) S" "links_in (set_right p v h) S"
    "links_in (set_left_opt x v h) S" "links_in (set_right_opt x v h) S"
  using assms by (auto simp: links_in_def set_left_opt_def set_right_opt_def split: option.split if_splits)

lemma links_inD: "links_in h S \<Longrightarrow> p \<in> S \<Longrightarrow> set_option (it_left (h p)) \<subseteq> S \<and> set_option (it_right (h p)) \<subseteq> S"
  by (simp add: links_in_def)

lemma links_in_right: "links_in h S \<Longrightarrow> p \<in> S \<Longrightarrow> it_right (h p) = Some q \<Longrightarrow> q \<in> S"
  by (auto simp: links_in_def)

lemma mv_relink_links:
  "mv_relink h s after na = Some h' \<Longrightarrow> links_in h S \<longrightarrow> set_option s \<subseteq> S \<longrightarrow> set_option na \<subseteq> S \<longrightarrow> relinks S h h'"
proof (erule mv_relink.raw_induct [rotated], intro impI)
  fix mv h s after na h'
  assume IH: "\<And>h s after na h'. mv h s after na = Some h' \<Longrightarrow>
      links_in h S \<longrightarrow> set_option s \<subseteq> S \<longrightarrow> set_option na \<subseteq> S \<longrightarrow> relinks S h h'"
    and run: "(case s of None \<Rightarrow> Some h | Some c \<Rightarrow> if s = after then Some h
      else let next = it_right (h c) in if next = after \<or> next = None
        then Some (set_left_opt na (Some c) (set_right c na h)) else mv h next after na) = Some h'"
    and links: "links_in h S" and s: "set_option s \<subseteq> S" and na: "set_option na \<subseteq> S"
  show "relinks S h h'"
  proof (cases s)
    case None
    then show ?thesis using run links by (simp add: relinks_refl)
  next
    case (Some c)
    then have c: "c \<in> S" using s by simp
    have "relinks S h (set_left_opt na (Some c) (set_right c na h))"
      using links_in_set(3) [OF links_in_set(2) [OF links na], of "Some c"] c
      unfolding relinks_def by (auto intro: same_content_trans [OF same_content_set(3) same_content_set(2)])
    then show ?thesis
      using run Some links links_inD [OF links c] na IH [of h "it_right (h c)" after na h']
      by (auto simp: Let_def relinks_refl split: if_splits)
  qed
qed

lemma apply_move_links:
  assumes run: "apply_move by_id mv op h = Some (r, h')" and links: "links_in h S"
    and by_id: "\<And>i. set_option (by_id i) \<subseteq> S" and mv: "mv \<in> S"
  shows "relinks S h h'"
proof (cases "by_id (mv_start_id op)")
  case None
  then show ?thesis using run links by (simp add: apply_move_def relinks_refl)
next
  case (Some src)
  then have src: "src \<in> S" using by_id [of "mv_start_id op"] by simp
  define after where "after = by_id (mv_end_id op)"
  define h1 where "h1 = set_left_opt after (it_left (h src)) (set_right_opt (it_left (h src)) after h)"
  define h2 where "h2 = set_right mv (Some src) (set_left src (Some mv) h1)"
  have after: "set_option after \<subseteq> S" using by_id by (simp add: after_def)
  have h1: "links_in h1 S" unfolding h1_def
    by (intro links_in_set links after) (use links_inD [OF links src] in simp_all)
  have h2: "links_in h2 S" unfolding h2_def by (intro links_in_set h1) (use mv src in simp_all)
  have "same_content (h2 q) (h q)" for q
    unfolding h2_def h1_def by (rule same_content_trans [OF same_content_set(2) same_content_trans [OF same_content_set(1)
        same_content_trans [OF same_content_set(3) same_content_set(4)]]])
  then have "relinks S h h2" using h2 by (simp add: relinks_def)
  moreover obtain h3 where "mv_relink h2 (Some src) after (it_right (h1 mv)) = Some h3" "h' = h3"
    using run Some by (auto simp: apply_move_def Let_def after_def h1_def h2_def)
  moreover have "set_option (it_right (h1 mv)) \<subseteq> S" using links_inD [OF h1 mv] by simp
  ultimately show ?thesis using mv_relink_links [of h2 "Some src" after "it_right (h1 mv)" h3 S] h2 src
    by (auto intro: relinks_trans)
qed

lemma ya_scan_in:
  assumes links: "links_in h S"
  shows "ya_scan by_id h p right cur left before conf = Inr l \<Longrightarrow> set_option cur \<subseteq> S \<Longrightarrow> set_option left \<subseteq> S \<Longrightarrow>
    set_option l \<subseteq> S"
proof (induction "kMaxConflict - length before" arbitrary: cur left before conf rule: less_induct)
  case less
  show ?case
  proof (cases "cur = None \<or> cur = right \<or> length before \<ge> kMaxConflict")
    case True
    then show ?thesis using less.prems by (subst (asm) ya_scan.simps) (auto split: option.splits if_splits)
  next
    case False
    then obtain c where c: "cur = Some c" "cur \<noteq> right" "length before < kMaxConflict" by auto
    have on: "ya_scan by_id h p right (it_right (h c)) left' (before @ [c]) conf' = Inr l \<Longrightarrow>
        set_option left' \<subseteq> S \<Longrightarrow> set_option l \<subseteq> S" for left' conf'
      using less.hyps [of "before @ [c]" "it_right (h c)"] c less.prems(2) links_inD [OF links, of c] by simp
    have "c \<in> S" using c less.prems(2) by simp
    with less.prems(1,3) c show ?thesis
      by (subst (asm) ya_scan.simps) (simp add: Let_def split: if_splits; use on in force)
  qed
qed

lemma ya_splice_links:
  assumes "ya_splice p left (h, start) = (h', start')" and "links_in h S" and "p \<in> S"
    and "set_option left \<subseteq> S" and "set_option start \<subseteq> S"
  shows "relinks S h h'" and "set_option start' \<subseteq> S"
proof -
  define follows where "follows = (case left of Some l \<Rightarrow> it_right (h l) | None \<Rightarrow> start)"
  have nx: "set_option follows \<subseteq> S"
    using assms(4,5) by (auto simp: follows_def split: option.splits dest: links_in_right [OF assms(2)])
  define h1 where "h1 = set_right_opt left (Some p) (set_left p left (set_right p follows h))"
  have h1: "links_in h1 S" unfolding h1_def by (intro links_in_set assms(2,4) nx) (use assms(3) in simp)
  have h': "h' = set_left_opt (it_right (h1 p)) (Some p) h1" "start' = (if left = None then Some p else start)"
    using assms(1) by (auto simp: ya_splice_def Let_def h1_def follows_def set_left_opt_def set_right_opt_def set_left_def
        set_right_def split: option.splits)
  show "set_option start' \<subseteq> S" using h'(2) assms(3,5) by simp
  have "same_content (h' q) (h q)" for q
    unfolding h'(1) h1_def by (rule same_content_trans [OF same_content_set(3) same_content_trans [OF same_content_set(4)
        same_content_trans [OF same_content_set(1) same_content_set(2)]]])
  moreover have "links_in h' S" unfolding h'(1) by (intro links_in_set h1) (use assms(3) in simp)
  ultimately show "relinks S h h'" by (simp add: relinks_def)
qed

lemma ya_integrate_links:
  assumes run: "ya_integrate E ss p (h, start) = (r, h', start')" and links: "links_in h S" and p: "p \<in> S"
    and by_id: "\<And>i. set_option (ss_find_by_id E h i ss) \<subseteq> S" and start: "set_option start \<subseteq> S"
  shows "relinks S h h'" and "set_option start' \<subseteq> S"
proof -
  let ?by = "\<lambda>i. ss_find_by_id E h i ss"
  let ?left = "if is_valid (it_origin_left (h p)) then ?by (it_origin_left (h p)) else None"
  let ?right = "if is_valid (it_origin_right (h p)) then ?by (it_origin_right (h p)) else None"
  let ?cur = "case ?left of Some l \<Rightarrow> it_right (h l) | None \<Rightarrow> start"
  have left: "set_option ?left \<subseteq> S" using by_id by simp
  have cur: "set_option ?cur \<subseteq> S"
    using by_id [of "it_origin_left (h p)"] start by (auto split: option.split dest: links_in_right [OF links])
  have "relinks S h h' \<and> set_option start' \<subseteq> S"
  proof (cases "ya_scan ?by h p ?right ?cur ?left [] []")
    case (Inl e)
    then show ?thesis using run links start by (simp add: ya_integrate_def relinks_refl)
  next
    case (Inr l)
    have "set_option l \<subseteq> S" by (rule ya_scan_in [OF links Inr cur left])
    moreover have "ya_splice p l (h, start) = (h', start')" using run Inr by (simp add: ya_integrate_def)
    ultimately show ?thesis using ya_splice_links [OF _ links p _ start] by blast
  qed
  then show "relinks S h h'" "set_option start' \<subseteq> S" by blast+
qed

lemma map_ok_empty: "map_ok E S hm_empty"
  by (simp add: map_ok_def hm_core_empty)

lemma ym_integrate_ok:
  assumes m: "map_ok E S m" and p: "p \<in> S" and run: "ym_integrate (view_env E 24) by_id h p (m, a) = (l, m', a')"
  shows "map_ok E S m'" and "set_option l \<subseteq> S"
proof -
  let ?k = "it_parent_sub (h p)" and ?E = "view_env E 24"
  have inv: "hm_inv ?E m" and vals: "\<And>v k. hm_abs m k = Some v \<Longrightarrow> set_option v \<subseteq> S"
    using m by (auto simp: map_ok_def ran_def)
  have get: "hm_get ?E ?k m = hm_abs m ?k" by (rule hm_get_abs [OF hm_inv_core [OF inv]])
  obtain x m1 a1 where ins: "hm_insert ?E ?k (Some p) (m, a) = (x, m1, a1)" by (metis prod.collapse)
  have "hm_inv ?E m1 \<and> (\<forall>k v. hm_abs m1 k = Some v \<longrightarrow> set_option v \<subseteq> S)"
    by (rule hm_insert_spec [OF inv, of ?k "Some p" a]) (use ins vals p in \<open>auto split: if_splits\<close>)
  then have m1: "map_ok E S m1" by (auto simp: map_ok_def ran_def)
  have m2: "map_ok E S (hm_assign ?E ?k (Some p) m)"
    using hm_assign_spec [OF inv, where k = ?k and v = "Some p"] vals p by (auto simp: map_ok_def ran_def split: if_splits)
  have "map_ok E S m' \<and> set_option l \<subseteq> S"
    using run m m1 m2 p get ins vals [of ?k] by (auto simp: ym_integrate_def Let_def split: option.splits if_splits)
  then show "map_ok E S m'" "set_option l \<subseteq> S" by blast+
qed

section \<open>Operations under the contract of the allocator\<close>

lemma env_sane_view: "env_sane E \<Longrightarrow> n \<le> 2 ^ 20 \<Longrightarrow> env_sane (view_env E n)"
  by (auto simp: env_sane_def view_env_def intro: exI [of _ 3])

lemma view_env_alloc [simp]: "he_alloc (view_env E n) = he_alloc E"
  by (simp add: view_env_def)

locale doc_env = region_alloc ok taken "he_alloc E"
  for ok :: "'a \<Rightarrow> bool" and taken :: "'a \<Rightarrow> nat set" and E :: "(u64, 'a) hm_env" +
  assumes env: "env_sane E"
begin

lemma survives_later: "survives (he_alloc E) (later ok taken a)"
  unfolding survives_def
proof (intro allI impI)
  fix n align b assume sane: "sane_request n align" and b: "later ok taken a b"
  obtain r b' where al: "he_alloc E n align b = (r, b')" by fastforce
  have "ok b" "taken a \<subseteq> taken b" using b by (simp_all add: later_def)
  with alloc_keeps [OF _ sane al] alloc_mono [OF _ sane al]
  show "later ok taken a (snd (he_alloc E n align b))" by (simp add: later_def al)
qed

lemma later_refl: "doc_ok ok taken E lo H d \<Longrightarrow> later ok taken (d_alloc d) (d_alloc d)"
  by (simp add: later_def doc_ok_def pools_ok_def)

lemma sane_view: "env_sane (view_env E 24)" "env_sane (view_env E 64)"
  using env by (simp_all add: env_sane_view)

lemma survives_view: "survives (he_alloc (view_env E n)) (later ok taken a)"
  using survives_later by simp

lemma later_insert: "later ok taken a a \<Longrightarrow> hm_insert (view_env E 24) k v (m, a) = (r, m', a') \<Longrightarrow> later ok taken a a'"
  by (rule hm_insert_survives [OF survives_view sane_view(1)])

lemma doc_clone_ok:
  assumes "doc_ok ok taken E lo H d" and "length v \<le> 2 ^ 61" and "doc_clone E v d = (r, d')"
  shows "doc_ok ok taken E lo H d'" and "\<exists>a. d' = d\<lparr>d_alloc := a\<rparr>" and "r = None \<or> r = Some v"
proof -
  obtain w a where c: "clone_view (he_alloc E) v (d_alloc d) = (w, a)" by fastforce
  then have *: "r = w" "d' = d\<lparr>d_alloc := a\<rparr>" using assms(3) by (simp_all add: doc_clone_def)
  then show "\<exists>a. d' = d\<lparr>d_alloc := a\<rparr>" by blast
  have "later ok taken (d_alloc d) a"
    by (rule clone_view_survives [OF survives_later assms(2) later_refl [OF assms(1)] c])
  then show "doc_ok ok taken E lo H d'" using doc_ok_alloc [OF assms(1)] * by simp
  show "r = None \<or> r = Some v" using clone_view_Some [of "he_alloc E" v "d_alloc d"] c * by (cases w) auto
qed

lemma doc_acquire_ok:
  assumes d: "doc_ok ok taken E lo H d" and run: "doc_acquire_item E d = (r, d')"
  shows "r = None \<Longrightarrow> doc_ok ok taken E lo H d'"
    and "r = Some p \<Longrightarrow> doc_ok ok taken E lo (insert p H) d' \<and> p \<notin> H \<and> p \<notin> ss_addrs (d_store d) \<and>
      d_heap d' = (d_heap d)(p := item_default)"
    and "\<exists>pl a h. d' = d\<lparr>d_item_pool := pl, d_alloc := a, d_heap := h\<rparr>"
proof -
  obtain it pl a where acq: "pool_acquire item_slot (he_alloc E) (d_item_pool d, d_alloc d) = (it, pl, a)" by (metis prod.collapse)
  have ok: "ok (d_alloc d)" and inv: "pool_inv taken item_slot (d_item_pool d, d_alloc d)"
    using d by (simp_all add: doc_ok_def pools_ok_def)
  note spec = pool_acquire_spec [OF ok inv acq]
  let ?h = "case it of None \<Rightarrow> d_heap d | Some p \<Rightarrow> (d_heap d)(p := item_default)"
  have d': "r = it" "d' = d\<lparr>d_item_pool := pl, d_alloc := a, d_heap := ?h\<rparr>"
    using run acq by (auto simp: doc_acquire_item_def)
  then show "\<exists>pl a h. d' = d\<lparr>d_item_pool := pl, d_alloc := a, d_heap := h\<rparr>" by blast
  have later: "later ok taken (d_alloc d) a" using spec(1,2) by (simp add: later_def)
  have d1: "doc_ok ok taken E lo H (d\<lparr>d_alloc := a\<rparr>)" by (rule doc_ok_alloc [OF d later])
  show "doc_ok ok taken E lo H d'" if "r = None"
    using d1 spec(3) spec(5) d' that by simp
  show "doc_ok ok taken E lo (insert p H) d' \<and> p \<notin> H \<and> p \<notin> ss_addrs (d_store d) \<and> d_heap d' = (d_heap d)(p := item_default)"
    if r: "r = Some p"
  proof -
    have p: "p \<notin> pool_used item_slot (d_item_pool d)" "pool_used item_slot pl = insert p (pool_used item_slot (d_item_pool d))"
      using spec(4) [of p] r d'(1) by auto
    have used: "pool_used item_slot (d_item_pool d) = ss_addrs (d_store d) \<union> H" using d by (simp add: doc_ok_def items_ok_def)
    have "doc_ok ok taken E lo H (d\<lparr>d_alloc := a, d_heap := (d_heap d)(p := item_default)\<rparr>)"
      using doc_ok_write_held [OF d1, of p item_default] p(1) used by simp
    then have "doc_ok ok taken E lo (insert p H) (d\<lparr>d_alloc := a, d_heap := (d_heap d)(p := item_default), d_item_pool := pl\<rparr>)"
      using spec(3) p used by (auto simp: doc_ok_def pools_ok_def items_ok_def roots_ok_def)
    moreover have "d' = d\<lparr>d_alloc := a, d_heap := (d_heap d)(p := item_default), d_item_pool := pl\<rparr>"
      using d'(2) r by (simp add: d'(1))
    ultimately show ?thesis using p used by simp
  qed
qed

lemma doc_delete_ok:
  assumes d: "doc_ok ok taken E lo H d" and wf: "dr_wf \<lparr>dr_clock_start = clk, dr_length = len\<rparr>"
    and run: "doc_delete E c clk len d = (r, d')"
  shows "doc_ok ok taken E lo H d'" and "\<exists>ds a. d' = d\<lparr>d_deletes := ds, d_alloc := a\<rparr>"
proof -
  obtain r1 ds a where add: "ds_add E c clk len (d_deletes d, d_alloc d) = (r1, ds, a)" by (metis prod.collapse)
  have d': "d' = d\<lparr>d_deletes := ds, d_alloc := a\<rparr>" using run add by (simp add: doc_delete_def)
  then show "\<exists>ds a. d' = d\<lparr>d_deletes := ds, d_alloc := a\<rparr>" by blast
  have inv: "ds_inv E (d_deletes d)" using d by (simp add: doc_ok_def)
  have "later ok taken (d_alloc d) a" by (rule ds_add_survives [OF survives_later env later_refl [OF d] add])
  from doc_ok_deletes [OF doc_ok_alloc [OF d this] ds_add_spec(1) [OF inv wf add]]
  have "doc_ok ok taken E lo H (d\<lparr>d_alloc := a, d_deletes := ds\<rparr>)" .
  moreover have "d' = d\<lparr>d_alloc := a, d_deletes := ds\<rparr>" using d' by simp
  ultimately show "doc_ok ok taken E lo H d'" by simp
qed

text \<open>Installing a held item into the store.\<close>

lemma doc_append_ok:
  assumes d: "doc_ok ok taken E lo H d" and p: "p \<in> H" and fits: "item_fits (d_heap d p)"
    and links: "it_left (d_heap d p) = None" "it_right (d_heap d p) = None"
    and run: "doc_append E p d = (r, d')"
  shows "doc_ok ok taken E lo (if r = Inr () then H - {p} else H) d'"
    and "\<exists>ss a. d' = d\<lparr>d_store := ss, d_alloc := a\<rparr>"
    and "ss_addrs (d_store d') = (if r = Inr () then insert p (ss_addrs (d_store d)) else ss_addrs (d_store d))"
proof -
  obtain r1 ss a where app: "ss_append E (d_heap d) p (d_store d, d_alloc d) = (r1, ss, a)" by (metis prod.collapse)
  have d': "r = r1" "d' = d\<lparr>d_store := ss, d_alloc := a\<rparr>" using run app by (simp_all add: doc_append_def)
  then show "\<exists>ss a. d' = d\<lparr>d_store := ss, d_alloc := a\<rparr>" by blast
  let ?c = "id_client (it_id (d_heap d p))" and ?S = "ss_addrs (d_store d)"
  have inv: "ss_inv E (d_heap d) (d_store d)" using d by (simp add: doc_ok_def items_ok_def)
  have itfits: "item_fits (d_heap d p)" by (fact fits)
  have fits: "0 < it_length (d_heap d p)" "item_start (d_heap d p) + item_width (d_heap d p) < 2 ^ 64"
    using fits by (simp_all add: item_fits_def)
  note spec = ss_append_spec [OF inv app fits]
  show addrs: "ss_addrs (d_store d') = (if r = Inr () then insert p ?S else ?S)"
    using spec(2) d' by (auto simp: ss_addrs_def split: if_splits)
  have "later ok taken (d_alloc d) a" by (rule ss_append_survives [OF survives_later env later_refl [OF d] app])
  then have d1: "doc_ok ok taken E lo H (d\<lparr>d_alloc := a\<rparr>)" by (rule doc_ok_alloc [OF d])
  have "span (d_heap d) (ss_ptrs (d_store d) c) \<le> span (d_heap d) (ss_ptrs ss c)" for c
    using spec(2) by simp
  then have state: "ss_state E (d_heap d) c (d_store d) \<le> ss_state E (d_heap d) c ss" for c
    using ss_state_span [OF inv, of c] ss_state_span [OF spec(1), of c] by (simp add: word_le_nat_alt)
  have "links_in (d_heap d) (ss_addrs ss)"
    using d addrs d' links by (auto simp: doc_ok_def items_ok_def links_in_def split: if_splits)
  moreover have "d_next_clock d \<le> ss_state E (d_heap d) (d_client_id d) ss"
    using d state by (auto simp: doc_ok_def items_ok_def intro: order_trans)
  moreover have "map_ok E (ss_addrs ss) m" if "map_ok E ?S m" for m
    using that addrs d' by (auto simp: map_ok_def split: if_splits)
  moreover have "?S \<subseteq> ss_addrs ss" using addrs d' by auto
  ultimately have "doc_ok ok taken E lo (if r = Inr () then H - {p} else H) (d\<lparr>d_alloc := a, d_store := ss\<rparr>)"
    using d1 spec(1) addrs d' p itfits by (auto simp: doc_ok_def pools_ok_def items_ok_def roots_ok_def)
  moreover have "d' = d\<lparr>d_alloc := a, d_store := ss\<rparr>" using d' by simp
  ultimately show "doc_ok ok taken E lo (if r = Inr () then H - {p} else H) d'" by simp
qed

lemma bump_clock_ok:
  assumes d: "doc_ok ok taken E lo H d" and p: "p \<in> ss_addrs (d_store d)"
  shows "doc_ok ok taken E lo H (bump_clock_for p d)" and "\<exists>c. bump_clock_for p d = d\<lparr>d_next_clock := c\<rparr>"
proof -
  let ?x = "d_heap d p" and ?c = "id_client (it_id (d_heap d p))"
  let ?e = "id_clock (it_id ?x) + run_length ?x"
  have inv: "ss_inv E (d_heap d) (d_store d)" using d by (simp add: doc_ok_def items_ok_def)
  note s = ss_in_addrs [OF inv p]
  have "?e \<le> ss_state E (d_heap d) ?c (d_store d)"
    using s ss_state_span [OF inv, of ?c] dense_span_less [OF inv, of ?c]
    by (simp add: run_length_def item_start_def item_width_def word_le_nat_alt unat_word_ariths)
  then show "doc_ok ok taken E lo H (bump_clock_for p d)"
    using d by (auto simp: bump_clock_for_def Let_def doc_ok_def pools_ok_def items_ok_def roots_ok_def)
  have "d = d\<lparr>d_next_clock := d_next_clock d\<rparr>" by simp
  then show "\<exists>c. bump_clock_for p d = d\<lparr>d_next_clock := c\<rparr>"
    unfolding bump_clock_for_def Let_def by (metis (no_types))
qed

lemma install_bare_ok:
  assumes d: "doc_ok ok taken E lo H d" and p: "p \<in> H" and fits: "item_fits (d_heap d p)"
    and links: "it_left (d_heap d p) = None" "it_right (d_heap d p) = None"
    and run: "install_bare E p d = (r, d')"
  shows "doc_ok ok taken E lo (H - {p}) d'"
proof -
  obtain r1 d1 where app: "doc_append E p d = (r1, d1)" by fastforce
  note a = doc_append_ok [OF d p fits links app]
  show ?thesis
    using run app a(1,3) doc_ok_release [of ok taken E lo H d1 p] bump_clock_ok(1) [of lo "H - {p}" d1 p] p
    by (cases r1) (auto simp: install_bare_def)
qed

text \<open>A name and a fresh slot enter a table of roots.\<close>

lemma table_insert:
  assumes t: "table_ok E T t pl" and new: "hm_abs t name = None"
    and p: "p \<notin> pool_used T pl" "pool_used T pl' = insert p (pool_used T pl)"
    and run: "hm_insert (view_env E 24) name p (t, a) = (Some (i, inserted), t', a')"
  shows "inserted" and "table_ok E T t' pl'" and "hm_abs t' = (hm_abs t)(name \<mapsto> p)"
proof -
  have inv: "hm_inv (view_env E 24) t" using t by (simp add: table_ok_def)
  have *: "inserted \<and> hm_inv (view_env E 24) t' \<and> hm_abs t' = (hm_abs t)(name \<mapsto> p)"
    by (rule hm_insert_spec [OF inv, of name p a]) (use run new in auto)
  then show "inserted" "hm_abs t' = (hm_abs t)(name \<mapsto> p)" by simp_all
  have "p \<notin> ran (hm_abs t)" using t p by (simp add: table_ok_def)
  then have "inj_on (hm_abs t') (dom (hm_abs t'))"
    using t * new by (auto simp: table_ok_def inj_on_def dom_def ran_def)
  then show "table_ok E T t' pl'" using t * p new by (simp add: table_ok_def)
qed

lemma root_slot:
  assumes ok: "ok a" and inv: "pool_inv taken T (pl, a)" and t: "table_ok E T t pl" and new: "hm_abs t name = None"
    and acq: "pool_acquire T (he_alloc E) (pl, a) = (Some p, pl', a1)"
    and ins: "hm_insert (view_env E 24) name p (t, a1) = (Some (i, inserted), t', a2)"
  shows "inserted" and "later ok taken a a2" and "pool_inv taken T (pl', a2)" and "table_ok E T t' pl'"
    and "ran (hm_abs t') = insert p (ran (hm_abs t))" and "hm_abs t' = (hm_abs t)(name \<mapsto> p)" and "p \<notin> ran (hm_abs t)"
proof -
  note spec = pool_acquire_spec [OF ok inv acq]
  have p: "p \<notin> pool_used T pl" "pool_used T pl' = insert p (pool_used T pl)" using spec(4) by auto
  note tab = table_insert [OF t new p ins]
  show "inserted" "table_ok E T t' pl'" "hm_abs t' = (hm_abs t)(name \<mapsto> p)" by (fact tab)+
  show "p \<notin> ran (hm_abs t)" using p(1) t by (simp add: table_ok_def)
  show "ran (hm_abs t') = insert p (ran (hm_abs t))" using tab(3) new by (simp add: ran_map_upd)
  have "later ok taken a1 a2" by (rule later_insert [OF _ ins]) (use spec(1) in \<open>simp add: later_def\<close>)
  then show "later ok taken a a2" "pool_inv taken T (pl', a2)"
    using spec(2) pool_inv_later [OF spec(3)] by (auto simp: later_def)
qed

lemma acquire_later:
  assumes "doc_ok ok taken E lo H d" and "pool_inv taken T (pl, d_alloc d)"
    and "pool_acquire T (he_alloc E) (pl, d_alloc d) = (None, pl', a)"
  shows "pl' = pl" and "doc_ok ok taken E lo H (d\<lparr>d_alloc := a\<rparr>)"
proof -
  have "ok (d_alloc d)" using assms(1) by (simp add: doc_ok_def pools_ok_def)
  note spec = pool_acquire_spec [OF this assms(2,3)]
  show "pl' = pl" using spec(5) by simp
  show "doc_ok ok taken E lo H (d\<lparr>d_alloc := a\<rparr>)" using doc_ok_alloc [OF assms(1)] spec(1,2) by (simp add: later_def)
qed

lemma get_or_create_map_ok:
  assumes d: "doc_ok ok taken E lo H d" and len: "length name \<le> 2 ^ 61" and run: "get_or_create_map E name d = Some (r, d')"
  shows "doc_ok ok taken E lo H d' \<and> d_heap d' = d_heap d \<and> d_store d' = d_store d \<and> d_client_id d' = d_client_id d \<and>
    d_next_clock d' = d_next_clock d \<and> set_option r \<subseteq> ran (hm_abs (d_roots d')) \<and>
    opens name hm_empty (d_roots d, d_map_heap d) (d_roots d', d_map_heap d') \<and> set_option r \<subseteq> set_option (hm_abs (d_roots d') name) \<and>
    d_arrays d' = d_arrays d \<and> d_array_heap d' = d_array_heap d \<and> d_deletes d' = d_deletes d"
proof -
  have t: "table_ok E map_slot (d_roots d) (d_map_pool d)" using d by (simp add: doc_ok_def roots_ok_def)
  then have inv: "hm_inv (view_env E 24) (d_roots d)" by (simp add: table_ok_def)
  have get: "hm_get (view_env E 24) name (d_roots d) = hm_abs (d_roots d) name" by (rule hm_get_abs [OF hm_inv_core [OF inv]])
  obtain owned d1 where clone: "doc_clone E name d = (owned, d1)" by fastforce
  note c = doc_clone_ok [OF d len clone]
  obtain a1 where d1: "d1 = d\<lparr>d_alloc := a1\<rparr>" using c(2) by blast
  obtain s pl a2 where acq: "pool_acquire map_slot (he_alloc E) (d_map_pool d, a1) = (s, pl, a2)" by (metis prod.collapse)
  have a1: "ok a1" "pool_inv taken map_slot (d_map_pool d, a1)" using c(1) d1 by (simp_all add: doc_ok_def pools_ok_def)
  consider (known) m where "hm_abs (d_roots d) name = Some m" | (no_copy) "hm_abs (d_roots d) name = None" "owned = None"
    | (no_slot) "hm_abs (d_roots d) name = None" "owned = Some name" "s = None"
    | (slot) m where "hm_abs (d_roots d) name = None" "owned = Some name" "s = Some m"
    using c(3) by (metis option.exhaust)
  then show ?thesis
  proof cases
    case known
    then show ?thesis using run d get by (auto simp: get_or_create_map_def ran_def opens_def)
  next
    case no_copy
    then show ?thesis using run get clone c(1) d1 by (auto simp: get_or_create_map_def opens_def)
  next
    case no_slot
    have "d_map_pool d1 = d_map_pool d" "d_alloc d1 = a1" by (simp_all add: d1)
    note no = acquire_later [OF c(1), of map_slot "d_map_pool d" pl a2, unfolded this, OF a1(2) acq [unfolded no_slot(3)]]
    have "d' = d\<lparr>d_map_pool := d_map_pool d, d_alloc := a2\<rparr>" "r = None"
      using run no_slot get clone d1 acq no(1) by (simp_all add: get_or_create_map_def)
    then show ?thesis using no(2) d1 by (simp add: opens_def)
  next
    case (slot m)
    obtain x t' a3 where ins: "hm_insert (view_env E 24) name m (d_roots d, a2) = (x, t', a3)" by (metis prod.collapse)
    obtain i inserted where x: "x = Some (i, inserted)"
      using run slot get clone d1 acq ins by (cases x) (auto simp: get_or_create_map_def Let_def)
    note root = root_slot [OF a1 t slot(1) acq [unfolded slot(3)] ins [unfolded x]]
    have d': "r = Some m" "d' = d\<lparr>d_alloc := a3, d_map_pool := pl, d_map_heap := (d_map_heap d)(m := hm_empty), d_roots := t'\<rparr>"
      using run slot get clone d1 acq ins x root(1) by (auto simp: get_or_create_map_def Let_def)
    have "doc_ok ok taken E lo H d'"
      using doc_ok_alloc [OF c(1), of a3] root(2-5) d1 map_ok_empty [of E "ss_addrs (d_store d)"]
      by (auto simp: d'(2) doc_ok_def pools_ok_def items_ok_def roots_ok_def)
    moreover have "opens name hm_empty (d_roots d, d_map_heap d) (d_roots d', d_map_heap d')"
      using slot(1) root(6,7) d' by (auto simp: opens_def)
    ultimately show ?thesis using d' root(5,6) by simp
  qed
qed

lemma get_or_create_array_ok:
  assumes d: "doc_ok ok taken E lo H d" and len: "length name \<le> 2 ^ 61" and run: "get_or_create_array E name d = Some (r, d')"
  shows "doc_ok ok taken E lo H d' \<and> d_heap d' = d_heap d \<and> d_store d' = d_store d \<and> d_client_id d' = d_client_id d \<and>
    d_next_clock d' = d_next_clock d \<and> set_option r \<subseteq> ran (hm_abs (d_arrays d')) \<and>
    opens name None (d_arrays d, d_array_heap d) (d_arrays d', d_array_heap d') \<and> set_option r \<subseteq> set_option (hm_abs (d_arrays d') name) \<and>
    d_roots d' = d_roots d \<and> d_map_heap d' = d_map_heap d \<and> d_deletes d' = d_deletes d"
proof -
  have t: "table_ok E array_slot (d_arrays d) (d_array_pool d)" using d by (simp add: doc_ok_def roots_ok_def)
  then have inv: "hm_inv (view_env E 24) (d_arrays d)" by (simp add: table_ok_def)
  have get: "hm_get (view_env E 24) name (d_arrays d) = hm_abs (d_arrays d) name" by (rule hm_get_abs [OF hm_inv_core [OF inv]])
  obtain owned d1 where clone: "doc_clone E name d = (owned, d1)" by fastforce
  note c = doc_clone_ok [OF d len clone]
  obtain a1 where d1: "d1 = d\<lparr>d_alloc := a1\<rparr>" using c(2) by blast
  obtain s pl a2 where acq: "pool_acquire array_slot (he_alloc E) (d_array_pool d, a1) = (s, pl, a2)" by (metis prod.collapse)
  have a1: "ok a1" "pool_inv taken array_slot (d_array_pool d, a1)" using c(1) d1 by (simp_all add: doc_ok_def pools_ok_def)
  consider (known) m where "hm_abs (d_arrays d) name = Some m" | (no_copy) "hm_abs (d_arrays d) name = None" "owned = None"
    | (no_slot) "hm_abs (d_arrays d) name = None" "owned = Some name" "s = None"
    | (slot) m where "hm_abs (d_arrays d) name = None" "owned = Some name" "s = Some m"
    using c(3) by (metis option.exhaust)
  then show ?thesis
  proof cases
    case known
    then show ?thesis using run d get by (auto simp: get_or_create_array_def ran_def opens_def)
  next
    case no_copy
    then show ?thesis using run get clone c(1) d1 by (auto simp: get_or_create_array_def opens_def)
  next
    case no_slot
    have "d_array_pool d1 = d_array_pool d" "d_alloc d1 = a1" by (simp_all add: d1)
    note no = acquire_later [OF c(1), of array_slot "d_array_pool d" pl a2, unfolded this, OF a1(2) acq [unfolded no_slot(3)]]
    have "d' = d\<lparr>d_array_pool := d_array_pool d, d_alloc := a2\<rparr>" "r = None"
      using run no_slot get clone d1 acq no(1) by (simp_all add: get_or_create_array_def)
    then show ?thesis using no(2) d1 by (simp add: opens_def)
  next
    case (slot m)
    obtain x t' a3 where ins: "hm_insert (view_env E 24) name m (d_arrays d, a2) = (x, t', a3)" by (metis prod.collapse)
    obtain i inserted where x: "x = Some (i, inserted)"
      using run slot get clone d1 acq ins by (cases x) (auto simp: get_or_create_array_def Let_def)
    note root = root_slot [OF a1 t slot(1) acq [unfolded slot(3)] ins [unfolded x]]
    have d': "r = Some m" "d' = d\<lparr>d_alloc := a3, d_array_pool := pl, d_array_heap := (d_array_heap d)(m := None), d_arrays := t'\<rparr>"
      using run slot get clone d1 acq ins x root(1) by (auto simp: get_or_create_array_def Let_def)
    have "doc_ok ok taken E lo H d'"
      using doc_ok_alloc [OF c(1), of a3] root(2-5) d1
      by (auto simp: d'(2) doc_ok_def pools_ok_def items_ok_def roots_ok_def)
    moreover have "opens name None (d_arrays d, d_array_heap d) (d_arrays d', d_array_heap d')"
      using slot(1) root(6,7) d' by (auto simp: opens_def)
    ultimately show ?thesis using d' root(5,6) by simp
  qed
qed

lemma doc_find_in: "doc_ok ok taken E lo H d \<Longrightarrow> set_option (doc_find E d i) \<subseteq> ss_addrs (d_store d)"
  using ss_find_spec(1) [of E "d_heap d" "d_store d" i]
  by (auto simp: doc_find_def doc_ok_def items_ok_def ss_addrs_def)

lemma doc_ok_relinks:
  assumes "doc_ok ok taken E lo H d" and "relinks (ss_addrs (d_store d)) (d_heap d) h"
  shows "doc_ok ok taken E lo H (d\<lparr>d_heap := h\<rparr>)"
proof (rule doc_ok_heap [OF assms(1)])
  show "it_id (h p) = it_id (d_heap d p) \<and> it_length (h p) = it_length (d_heap d p) \<and>
      it_parent_name (h p) = it_parent_name (d_heap d p)" for p
    using assms(2) same_contentD(1,4,10) [of "h p" "d_heap d p"] by (simp add: relinks_def)
  show "links_in h (ss_addrs (d_store d))" using assms(2) by (simp add: relinks_def)
qed

lemma stored_range_wf:
  assumes "doc_ok ok taken E lo H d" and "p \<in> ss_addrs (d_store d)"
  shows "dr_wf \<lparr>dr_clock_start = id_clock (it_id (d_heap d p)), dr_length = run_length (d_heap d p)\<rparr>"
proof -
  have inv: "ss_inv E (d_heap d) (d_store d)" using assms(1) by (simp add: doc_ok_def items_ok_def)
  show ?thesis
    using ss_in_addrs [OF inv assms(2)] dense_span_less [OF inv, of "id_client (it_id (d_heap d p))"]
    by (auto simp: dr_wf_def dr_stop_def dr_start_def run_length_def item_start_def item_width_def)
qed

lemma bump_stored_ok: "doc_ok ok taken E lo H d \<Longrightarrow> p \<in> ss_addrs (d_store d) \<Longrightarrow> doc_ok ok taken E lo H (bump_clock_for p d)"
  by (rule bump_clock_ok(1))

lemma install_into_map_ok:
  assumes d: "doc_ok ok taken E lo H d" and p: "p \<in> H" and fits: "item_fits (d_heap d p)"
    and links: "it_left (d_heap d p) = None" "it_right (d_heap d p) = None"
    and m: "m \<in> ran (hm_abs (d_roots d))" and run: "install_into_map E p m d = (r, d')"
  shows "doc_ok ok taken E lo (H - {p}) d'"
proof -
  obtain r1 d1 where app: "doc_append E p d = (r1, d1)" by fastforce
  note a = doc_append_ok [OF d p fits links app]
  have d1: "d_roots d1 = d_roots d" "d_heap d1 = d_heap d" using a(2) by auto
  show ?thesis
  proof (cases r1)
    case (Inl e)
    then have "doc_ok ok taken E lo H d1" using a(1) by simp
    from doc_ok_release [OF this p] show ?thesis using run app Inl by (simp add: install_into_map_def)
  next
    case (Inr u)
    let ?S = "ss_addrs (d_store d1)"
    have ok1: "doc_ok ok taken E lo (H - {p}) d1" and pS: "p \<in> ?S" using a Inr by auto
    obtain l mm b where ym: "ym_integrate (view_env E 24) (doc_find E d1) (d_heap d1) p (d_map_heap d1 m, d_alloc d1) = (l, mm, b)"
      by (metis prod.collapse)
    have "map_ok E ?S (d_map_heap d1 m)" using ok1 m d1 by (auto simp: doc_ok_def roots_ok_def)
    note ym_ok = ym_integrate_ok [OF this pS ym]
    have "later ok taken (d_alloc d1) b"
      by (rule ym_integrate_survives [OF survives_view sane_view(1) later_refl [OF ok1] ym])
    from doc_ok_map [OF doc_ok_alloc [OF ok1 this], of mm m] ym_ok(1)
    have "doc_ok ok taken E lo (H - {p}) (d1\<lparr>d_alloc := b, d_map_heap := (d_map_heap d1)(m := mm)\<rparr>)" by simp
    moreover define d2 where "d2 = d1\<lparr>d_map_heap := (d_map_heap d1)(m := mm), d_alloc := b\<rparr>"
    moreover have "d2 = d1\<lparr>d_alloc := b, d_map_heap := (d_map_heap d1)(m := mm)\<rparr>" by (simp add: d2_def)
    ultimately have ok2: "doc_ok ok taken E lo (H - {p}) d2" by (simp only:)
    have pS2: "p \<in> ss_addrs (d_store d2)" using pS by (simp add: d2_def)
    show ?thesis
    proof (cases l)
      case None
      then show ?thesis using run app Inr ym bump_stored_ok [OF ok2 pS2] by (simp add: install_into_map_def Let_def d2_def)
    next
      case (Some q)
      define d3 where "d3 = d2\<lparr>d_heap := (d_heap d2)(q := set_deleted (d_heap d2 q))\<rparr>"
      have ok3: "doc_ok ok taken E lo (H - {p}) d3" unfolding d3_def by (rule doc_ok_retouch [OF ok2]) simp_all
      have q: "q \<in> ss_addrs (d_store d3)" using ym_ok(2) Some by (simp add: d3_def d2_def)
      obtain r4 d4 where del: "doc_delete E (id_client (it_id (d_heap d3 q))) (id_clock (it_id (d_heap d3 q))) (run_length (d_heap d3 q)) d3 = (r4, d4)"
        by fastforce
      note ok4 = doc_delete_ok [OF ok3 stored_range_wf [OF ok3 q] del]
      have pS4: "p \<in> ss_addrs (d_store d4)" using ok4(2) pS2 by (auto simp: d3_def)
      have "(r, d') = (case r4 of Inl e \<Rightarrow> (Inl e, d4) | Inr _ \<Rightarrow> (Inr (), bump_clock_for p d4))"
        using run app Inr ym Some del by (simp add: install_into_map_def Let_def d2_def d3_def ytry_apply)
      then show ?thesis using ok4(1) bump_stored_ok [OF ok4(1) pS4] by (auto split: sum.splits)
    qed
  qed
qed

lemma doc_apply_move_ok:
  assumes d: "doc_ok ok taken E lo H d" and p: "p \<in> ss_addrs (d_store d)" and run: "doc_apply_move E p d = Some (r, d')"
  shows "doc_ok ok taken E lo H d' \<and> d_store d' = d_store d"
proof (cases "it_content_kind (d_heap d p) = kMove \<and> (\<exists>mv. decode_move (it_content_view (d_heap d p)) = Inr mv)")
  case False
  then show ?thesis using run d by (auto simp: doc_apply_move_def split: if_splits sum.splits)
next
  case True
  then obtain mv where mv: "decode_move (it_content_view (d_heap d p)) = Inr mv" by blast
  obtain x h where am: "apply_move (doc_find E d) p mv (d_heap d) = Some (x, h)" "d' = d\<lparr>d_heap := h\<rparr>"
    using run True mv by (auto simp: doc_apply_move_def split: option.splits prod.splits)
  have "links_in (d_heap d) (ss_addrs (d_store d))" using d by (simp add: doc_ok_def items_ok_def)
  from apply_move_links [OF am(1) this doc_find_in [OF d] p] show ?thesis using doc_ok_relinks [OF d] am(2) by simp
qed

lemma install_into_array_ok:
  assumes d: "doc_ok ok taken E lo H d" and p: "p \<in> H" and fits: "item_fits (d_heap d p)"
    and links: "it_left (d_heap d p) = None" "it_right (d_heap d p) = None"
    and arr: "arr \<in> ran (hm_abs (d_arrays d))" and run: "install_into_array E p arr d = Some (r, d')"
  shows "doc_ok ok taken E lo (H - {p}) d'"
proof -
  obtain r1 d1 where app: "doc_append E p d = (r1, d1)" by fastforce
  note a = doc_append_ok [OF d p fits links app]
  have d1: "d_arrays d1 = d_arrays d" using a(2) by auto
  show ?thesis
  proof (cases r1)
    case (Inl e)
    then have "doc_ok ok taken E lo H d1" using a(1) by simp
    from doc_ok_release [OF this p] show ?thesis using run app Inl by (simp add: install_into_array_def)
  next
    case (Inr u)
    let ?S = "ss_addrs (d_store d1)"
    have ok1: "doc_ok ok taken E lo (H - {p}) d1" and pS: "p \<in> ?S" using a Inr by auto
    obtain r2 h start where ya: "ya_integrate E (d_store d1) p (d_heap d1, d_array_heap d1 arr) = (r2, h, start)"
      by (metis prod.collapse)
    have "links_in (d_heap d1) ?S" "set_option (d_array_heap d1 arr) \<subseteq> ?S"
      using ok1 arr d1 by (auto simp: doc_ok_def items_ok_def roots_ok_def)
    note links' = ya_integrate_links [OF ya this(1) pS doc_find_in [OF ok1, unfolded doc_find_def] this(2)]
    define d2 where "d2 = d1\<lparr>d_heap := h, d_array_heap := (d_array_heap d1)(arr := start)\<rparr>"
    have ok2: "doc_ok ok taken E lo (H - {p}) d2"
      using doc_ok_array [OF doc_ok_relinks [OF ok1 links'(1)], of start arr] links'(2) by (simp add: d2_def)
    have pS2: "p \<in> ss_addrs (d_store d2)" using pS by (simp add: d2_def)
    show ?thesis
    proof (cases r2)
      case (Inl e)
      then show ?thesis using run app Inr ya ok2 by (simp add: install_into_array_def d2_def)
    next
      case (Inr v)
      then have "ptry (doc_apply_move E p) (\<lambda>_ d. Some (Inr (), bump_clock_for p d)) d2 = Some (r, d')"
        using run app \<open>r1 = Inr u\<close> ya by (simp add: install_into_array_def d2_def)
      then obtain r3 d3 where mv: "doc_apply_move E p d2 = Some (r3, d3)"
          "d' = (case r3 of Inl e \<Rightarrow> d3 | Inr _ \<Rightarrow> bump_clock_for p d3)"
        by (auto simp: ptry_def split: option.splits prod.splits sum.splits)
      note ok3 = doc_apply_move_ok [OF ok2 pS2 mv(1)]
      then show ?thesis using mv(2) pS2 bump_stored_ok [of lo "H - {p}" d3 p] by (auto split: sum.splits)
    qed
  qed
qed

end

end
