(* ===== verification/Ycpp_Undo.thy ===== *)
theory Ycpp_Undo
  imports Ycpp_Doc
begin

unbundle bit_operations_syntax

text \<open>
  The undo manager of ycpp_undo.h on a document: stacks of frames, each the clock range a capture
  window covered, bounded by 256 frames, and the flag updates of undo and redo.
\<close>

section \<open>The code\<close>

definition kMaxFrames :: nat where
  "kMaxFrames = 256"

definition kMaxTrackedOrigins :: nat where
  "kMaxTrackedOrigins = 32"

record frame =
  f_origin :: u64
  f_client :: u64
  f_start :: u64
  f_end :: u64

text \<open>The two stacks grow to the right; \<open>undo_top_\<close> and \<open>redo_top_\<close> are their lengths.\<close>

record undo_manager =
  um_undo :: "frame list"
  um_redo :: "frame list"
  um_tracked :: "u64 list"
  um_open_origin :: u64
  um_open_active :: bool
  um_pre_clock :: u64

definition um_new :: undo_manager where
  "um_new = \<lparr>um_undo = [], um_redo = [], um_tracked = [], um_open_origin = 0, um_open_active = False, um_pre_clock = 0\<rparr>"

definition um_is_tracked :: "u64 \<Rightarrow> undo_manager \<Rightarrow> bool" where
  "um_is_tracked origin um \<longleftrightarrow> origin \<in> set (um_tracked um)"

definition um_track :: "u64 \<Rightarrow> (undo_manager, unit) op" where
  "um_track origin um =
     (if um_is_tracked origin um then (Inr (), um)
      else if length (um_tracked um) \<ge> kMaxTrackedOrigins then (Inl kCapacityExceeded, um)
      else (Inr (), um\<lparr>um_tracked := um_tracked um @ [origin]\<rparr>))"

definition um_capture_begin :: "u64 \<Rightarrow> (undo_manager \<times> 'a doc, unit) op" where
  "um_capture_begin origin st =
     (let (um, d) = st in
      if um_open_active um then (Inl kAlreadyExists, um, d)
      else if \<not> um_is_tracked origin um then (Inl kInvalidArgument, um, d)
      else (Inr (), um\<lparr>um_open_origin := origin, um_open_active := True, um_pre_clock := d_next_clock d\<rparr>, d))"

definition um_capture_end :: "(undo_manager \<times> 'a doc, unit) op" where
  "um_capture_end st =
     (let (um, d) = st in
      if \<not> um_open_active um then (Inl kInvalidArgument, um, d)
      else
        let after_clock = d_next_clock d;
            um = um\<lparr>um_open_active := False\<rparr>
        in if after_clock = um_pre_clock um then (Inr (), um, d)
           else
             let stack = (if length (um_undo um) \<ge> kMaxFrames then tl (um_undo um) else um_undo um);
                 f = \<lparr>f_origin = um_open_origin um, f_client = d_client_id d, f_start = um_pre_clock um, f_end = after_clock\<rparr>
             in (Inr (), um\<lparr>um_undo := stack @ [f], um_redo := []\<rparr>, d))"

definition um_can_undo :: "undo_manager \<Rightarrow> bool" where
  "um_can_undo um \<longleftrightarrow> um_undo um \<noteq> []"

definition um_can_redo :: "undo_manager \<Rightarrow> bool" where
  "um_can_redo um \<longleftrightarrow> um_redo um \<noteq> []"

definition um_undo_depth :: "undo_manager \<Rightarrow> nat" where
  "um_undo_depth um = length (um_undo um)"

definition um_redo_depth :: "undo_manager \<Rightarrow> nat" where
  "um_redo_depth um = length (um_redo um)"

definition clear_deleted :: "item \<Rightarrow> item" where
  "clear_deleted it = it\<lparr>it_flags := it_flags it AND NOT kFlagDeleted\<rparr>"

text \<open>The loop over the clocks from \<open>start\<close> up to, and without, \<open>e\<close>; both are words, so it ends.\<close>

definition mark_range_flag :: "(u64, 'a) hm_env \<Rightarrow> u64 \<Rightarrow> u64 \<Rightarrow> u64 \<Rightarrow> bool \<Rightarrow> 'a doc \<Rightarrow> 'a doc" where
  "mark_range_flag E client start e flag d =
     fold (\<lambda>k d. case doc_find E d (Id client (of_nat k)) of
        None \<Rightarrow> d
      | Some p \<Rightarrow> d\<lparr>d_heap := (d_heap d)(p := (if flag then set_deleted else clear_deleted) (d_heap d p))\<rparr>)
       [unat start..<unat e] d"

definition um_do_undo :: "(u64, 'a) hm_env \<Rightarrow> (undo_manager \<times> 'a doc, unit) op" where
  "um_do_undo E st =
     (let (um, d) = st in
      if um_undo um = [] then (Inl kNotFound, um, d)
      else
        let f = last (um_undo um);
            um = um\<lparr>um_undo := butlast (um_undo um)\<rparr>;
            d = mark_range_flag E (f_client f) (f_start f) (f_end f) True d
        in (case doc_delete E (f_client f) (f_start f) (f_end f - f_start f) d of
              (Inl e, d) \<Rightarrow> (Inl e, um, d)
            | (Inr _, d) \<Rightarrow>
                (Inr (), if length (um_redo um) < kMaxFrames then um\<lparr>um_redo := um_redo um @ [f]\<rparr> else um, d)))"

definition um_do_redo :: "(u64, 'a) hm_env \<Rightarrow> (undo_manager \<times> 'a doc, unit) op" where
  "um_do_redo E st =
     (let (um, d) = st in
      if um_redo um = [] then (Inl kNotFound, um, d)
      else
        let f = last (um_redo um);
            um = um\<lparr>um_redo := butlast (um_redo um)\<rparr>;
            d = mark_range_flag E (f_client f) (f_start f) (f_end f) False d
        in (Inr (), if length (um_undo um) < kMaxFrames then um\<lparr>um_undo := um_undo um @ [f]\<rparr> else um, d))"

end
