(* ===== verification/Ycpp_DocOps.thy ===== *)
theory Ycpp_DocOps
  imports Ycpp_DocInv Ycpp_Undo
begin

text \<open>
  Every public operation of a document keeps its invariant: local edits, the application of updates
  from any source, compaction, undo and redo.
\<close>

section \<open>What the operations are given\<close>

text \<open>The clocks of a local edit must not wrap.\<close>

definition edit_fits :: "u64 \<Rightarrow> bytes \<Rightarrow> bool" where
  "edit_fits clk value \<longleftrightarrow> unat clk + unat (if utf16_length_of_utf8 value = 0 then 1 else utf16_length_of_utf8 value) < 2 ^ 64"

definition struct_fits :: "decoded_struct \<Rightarrow> bool" where
  "struct_fits s \<longleftrightarrow> 0 < s_length s \<and> unat (id_clock (s_id s)) + unat (s_length s) < 2 ^ 64 \<and>
     addressable (s_parent_name s) \<and> addressable (s_parent_sub s) \<and> addressable (s_content_view s)"

text \<open>An update that decodes to structs and deleted ranges whose clocks do not wrap.\<close>

definition update_fits :: "(u64, 'a) hm_env \<Rightarrow> bytes \<Rightarrow> 'a \<Rightarrow> bool" where
  "update_fits E bs a \<longleftrightarrow>
     (case decode_update_v1 E bs (du_empty, a) of
        (Inl e, _) \<Rightarrow> True
      | (Inr _, du, _) \<Rightarrow> length (du_structs du) \<le> 2 ^ 61 \<and> list_all struct_fits (du_structs du) \<and>
          list_all (\<lambda>(c, rs). list_all dr_wf rs) (ds_items E (du_delete_set du)))"

text \<open>An item the running operation holds, ready to be installed.\<close>

definition ready :: "addr \<Rightarrow> 'a doc \<Rightarrow> bool" where
  "ready p d \<longleftrightarrow> item_fits (d_heap d p) \<and> it_left (d_heap d p) = None \<and> it_right (d_heap d p) = None \<and>
     addressable (it_content_view (d_heap d p))"
lemma struct_item_fits: "struct_fits s \<Longrightarrow> item_fits (struct_item s)"
  by (auto simp: struct_fits_def item_fits_def struct_item_def item_start_def item_width_def)

lemma local_item_fits: "edit_fits (d_next_clock d) value \<Longrightarrow> addressable name \<Longrightarrow> item_fits (local_item d l r name key value)"
  by (simp add: edit_fits_def item_fits_def local_item_def Let_def item_start_def item_width_def word_less_nat_alt unat_gt_0)

lemma item_default_links: "it_left item_default = None" "it_right item_default = None"
  by (simp_all add: item_default_def)

lemma local_item_links: "it_left (local_item d l r name key value) = None" "it_right (local_item d l r name key value) = None"
  by (simp_all add: local_item_def Let_def item_default_links)

lemma struct_item_links: "it_left (struct_item s) = None" "it_right (struct_item s) = None"
  by (simp_all add: struct_item_def item_default_links)

lemma inherit_loop_name:
  "(\<And>i p. by_id i = Some p \<Longrightarrow> addressable (it_parent_name (h p))) \<Longrightarrow> addressable (it_parent_name x) \<Longrightarrow>
     addressable (it_parent_name (inherit_loop n by_id h c x))"
  by (induction n arbitrary: c) (auto simp: Let_def split: option.split)

lemma fold_keeps: "(\<And>x s. P s \<Longrightarrow> P (f x s)) \<Longrightarrow> P s \<Longrightarrow> P (fold f xs s)"
  by (induction xs arbitrary: s) auto

lemma ptry_cases [consumes 1, case_names fails runs]:
  assumes "ptry m k s = Some (r, s')"
  obtains e where "m s = Some (Inl e, s')" and "r = Inl e"
  | x t where "m s = Some (Inr x, t)" and "k x t = Some (r, s')"
  using assms by (auto simp: ptry_def split: option.splits prod.splits sum.splits)

text \<open>Inheriting the parent touches nothing else.\<close>

lemma inherit_loop_fields:
  "it_id (inherit_loop n by_id h c x) = it_id x \<and> it_length (inherit_loop n by_id h c x) = it_length x \<and>
   it_left (inherit_loop n by_id h c x) = it_left x \<and> it_right (inherit_loop n by_id h c x) = it_right x \<and>
   it_content_view (inherit_loop n by_id h c x) = it_content_view x"
  by (induction n arbitrary: c) (auto simp: Let_def split: option.split)

lemma inherit_fields:
  "it_id (inherit_parent_from_origin by_id h x) = it_id x" "it_length (inherit_parent_from_origin by_id h x) = it_length x"
  "it_left (inherit_parent_from_origin by_id h x) = it_left x" "it_right (inherit_parent_from_origin by_id h x) = it_right x"
  "it_content_view (inherit_parent_from_origin by_id h x) = it_content_view x"
  using inherit_loop_fields [of kMaxParentHops by_id h "some_origin x" x]
  by (simp_all add: inherit_parent_from_origin_def)

lemma ya_at_loop_in:
  "ya_at_loop h s cursor i = Some r \<Longrightarrow> links_in h S \<longrightarrow> set_option s \<subseteq> S \<longrightarrow> set_option r \<subseteq> S"
proof (erule ya_at_loop.raw_induct [rotated], intro impI)
  fix at h s cursor i r
  assume IH: "\<And>h s cursor i r. at h s cursor i = Some r \<Longrightarrow> links_in h S \<longrightarrow> set_option s \<subseteq> S \<longrightarrow> set_option r \<subseteq> S"
    and run: "(case s of None \<Rightarrow> Some None | Some p \<Rightarrow>
      if deleted (h p) then at h (it_right (h p)) cursor i
      else if cursor = i then Some (Some p) else at h (it_right (h p)) (cursor + 1) i) = Some r"
    and links: "links_in h S" and s: "set_option s \<subseteq> S"
  show "set_option r \<subseteq> S"
  proof (cases s)
    case None
    then show ?thesis using run by simp
  next
    case (Some p)
    then have "set_option (it_right (h p)) \<subseteq> S" using links_inD [OF links, of p] s by simp
    then show ?thesis using run Some s IH links by (auto split: if_splits)
  qed
qed

section \<open>Local edits\<close>

context doc_env
begin

lemma emit_array_item_ok:
  assumes d: "doc_ok ok taken E lo {} d" and arr: "arr \<in> ran (hm_abs (d_arrays d))"
    and len: "addressable name" "addressable value" "edit_fits (d_next_clock d) value"
    and run: "emit_array_item E arr name ol orr value d = Some (r, d')"
  shows "doc_ok ok taken E lo {} d'"
proof -
  obtain it d1 where acq: "doc_acquire_item E d = (it, d1)" by fastforce
  note A = doc_acquire_ok [OF d acq]
  show ?thesis
  proof (cases it)
    case None
    then show ?thesis using run acq A(1) by (simp add: emit_array_item_def)
  next
    case (Some p)
    have d1: "doc_ok ok taken E lo {p} d1" "p \<notin> ss_addrs (d_store d)" using A(2) [OF Some] by auto
    obtain n d2 where c1: "doc_clone E name d1 = (n, d2)" by fastforce
    note C1 = doc_clone_ok [OF d1(1) len(1) c1]
    obtain v d3 where c2: "doc_clone E value d2 = (v, d3)" by fastforce
    note C2 = doc_clone_ok [OF C1(1) len(2) c2]
    have frame: "d_store d3 = d_store d" "d_arrays d3 = d_arrays d" "d_next_clock d3 = d_next_clock d"
      using A(3) C1(2) C2(2) by auto
    show ?thesis
    proof (cases "n = None \<or> v = None")
      case True
      then have "d' = doc_release_item p d3" using run acq Some c1 c2 by (auto simp: emit_array_item_def)
      then show ?thesis using doc_ok_release [OF C2(1), of p] by simp
    next
      case False
      then have nv: "n = Some name" "v = Some value" using C1(3) C2(3) by auto
      let ?x = "local_item d3 ol orr name [] value"
      define d4 where "d4 = d3\<lparr>d_heap := (d_heap d3)(p := ?x)\<rparr>"
      have d4: "doc_ok ok taken E lo {p} d4" "d_heap d4 p = ?x" "arr \<in> ran (hm_abs (d_arrays d4))"
        using doc_ok_write_held [OF C2(1), of p ?x] d1(2) frame arr by (simp_all add: d4_def)
      have "ptry (install_into_array E p arr) (\<lambda>_ d. Some (Inr (it_id (d_heap d p)), d)) d4 = Some (r, d')"
        using run acq Some c1 c2 nv by (simp add: emit_array_item_def Let_def d4_def)
      then obtain r5 where "install_into_array E p arr d4 = Some (r5, d')"
        by (auto simp: ptry_def split: option.splits prod.splits sum.splits)
      from install_into_array_ok [OF d4(1) _ _ _ _ d4(3) this] show ?thesis
        using len(1,3) frame by (simp add: d4(2) local_item_fits local_item_links)
    qed
  qed
qed

lemma text_append_ok:
  assumes d: "doc_ok ok taken E lo {} d" and len: "addressable name" "addressable value" "edit_fits (d_next_clock d) value"
    and run: "text_append E name value d = Some (r, d')"
  shows "doc_ok ok taken E lo {} d'"
proof -
  obtain x d1 where goc: "get_or_create_array E name d = Some (x, d1)"
    using run by (auto simp: text_append_def split: option.splits)
  note G = get_or_create_array_ok [OF d len(1) goc]
  show ?thesis
  proof (cases x)
    case None
    then show ?thesis using run goc G by (simp add: text_append_def)
  next
    case (Some arr)
    then obtain tail where "emit_array_item E arr name
        (case tail of None \<Rightarrow> kInvalidId | Some p \<Rightarrow> last_clock_id (d_heap d1 p)) kInvalidId value d1 = Some (r, d')"
      using run goc by (auto simp: text_append_def Let_def split: option.splits)
    from emit_array_item_ok [OF _ _ len(1,2) _ this] show ?thesis using G Some len(3) by simp
  qed
qed

lemma array_insert_at_ok:
  assumes d: "doc_ok ok taken E lo {} d" and len: "addressable name" "addressable value" "edit_fits (d_next_clock d) value"
    and run: "array_insert_at E name index value d = Some (r, d')"
  shows "doc_ok ok taken E lo {} d'"
proof -
  obtain x d1 where goc: "get_or_create_array E name d = Some (x, d1)"
    using run by (auto simp: array_insert_at_def split: option.splits)
  note G = get_or_create_array_ok [OF d len(1) goc]
  show ?thesis
  proof (cases x)
    case None
    then show ?thesis using run goc G by (simp add: array_insert_at_def)
  next
    case (Some arr)
    then have "d' = d1 \<or> (\<exists>ol orr. emit_array_item E arr name ol orr value d1 = Some (r, d'))"
      using run goc by (auto simp: array_insert_at_def Let_def split: option.splits sum.splits if_splits)
    then show ?thesis
    proof
      assume "\<exists>ol orr. emit_array_item E arr name ol orr value d1 = Some (r, d')"
      then obtain ol orr where "emit_array_item E arr name ol orr value d1 = Some (r, d')" by blast
      from emit_array_item_ok [OF _ _ len(1,2) _ this] show ?thesis using G Some len(3) by simp
    qed (use G in simp)
  qed
qed

lemma array_delete_at_ok:
  assumes d: "doc_ok ok taken E lo {} d" and len: "addressable name"
    and run: "array_delete_at E name index d = Some (r, d')"
  shows "doc_ok ok taken E lo {} d'"
proof -
  obtain x d1 where goc: "get_or_create_array E name d = Some (x, d1)"
    using run by (auto simp: array_delete_at_def split: option.splits)
  note G = get_or_create_array_ok [OF d len goc]
  consider "x = None \<or> (\<exists>arr. x = Some arr \<and> ya_at (d_heap d1) (d_array_heap d1 arr) index = Some None)"
    | arr p where "x = Some arr" "ya_at (d_heap d1) (d_array_heap d1 arr) index = Some (Some p)"
    using run goc by (auto simp: array_delete_at_def split: option.splits)
  then show ?thesis
  proof cases
    case 1
    then show ?thesis using run goc G by (auto simp: array_delete_at_def)
  next
    case 2
    have "links_in (d_heap d1) (ss_addrs (d_store d1))" "set_option (d_array_heap d1 arr) \<subseteq> ss_addrs (d_store d1)"
      using G 2(1) by (auto simp: doc_ok_def items_ok_def roots_ok_def)
    then have p: "p \<in> ss_addrs (d_store d1)"
      using ya_at_loop_in [OF 2(2) [unfolded ya_at_def], of "ss_addrs (d_store d1)"] by simp
    define d2 where "d2 = d1\<lparr>d_heap := (d_heap d1)(p := set_deleted (d_heap d1 p))\<rparr>"
    have d2: "doc_ok ok taken E lo {} d2" unfolding d2_def by (rule doc_ok_retouch) (use G in simp_all)
    have p2: "p \<in> ss_addrs (d_store d2)" using p by (simp add: d2_def)
    have "doc_delete E (id_client (it_id (d_heap d2 p))) (id_clock (it_id (d_heap d2 p))) (run_length (d_heap d2 p)) d2 = (r, d')"
      using run goc 2 by (simp add: array_delete_at_def Let_def d2_def ya_mark_deleted_def)
    from doc_delete_ok(1) [OF d2 stored_range_wf [OF d2 p2] this] show ?thesis .
  qed
qed

lemma map_set_string_ok:
  assumes d: "doc_ok ok taken E lo {} d"
    and len: "addressable name" "addressable key" "addressable value" "edit_fits (d_next_clock d) value"
    and run: "map_set_string E name key value d = Some (r, d')"
  shows "doc_ok ok taken E lo {} d'"
proof -
  obtain x d1 where goc: "get_or_create_map E name d = Some (x, d1)"
    using run by (auto simp: map_set_string_def split: option.splits)
  note G = get_or_create_map_ok [OF d len(1) goc]
  obtain it d2 where acq: "doc_acquire_item E d1 = (it, d2)" by fastforce
  note A = doc_acquire_ok [OF conjunct1 [OF G] acq]
  consider "x = None" | "x \<noteq> None" "it = None" | m p where "x = Some m" "it = Some p" by auto
  then show ?thesis
  proof cases
    case 1
    then show ?thesis using run goc G by (simp add: map_set_string_def)
  next
    case 2
    then show ?thesis using run goc acq A(1) by (auto simp: map_set_string_def)
  next
    case 3
    have d2: "doc_ok ok taken E lo {p} d2" "p \<notin> ss_addrs (d_store d1)" using A(2) [OF 3(2)] by auto
    obtain n d3 where c1: "doc_clone E name d2 = (n, d3)" by fastforce
    note C1 = doc_clone_ok [OF d2(1) len(1) c1]
    obtain k d4 where c2: "doc_clone E key d3 = (k, d4)" by fastforce
    note C2 = doc_clone_ok [OF C1(1) len(2) c2]
    obtain v d5 where c3: "doc_clone E value d4 = (v, d5)" by fastforce
    note C3 = doc_clone_ok [OF C2(1) len(3) c3]
    have frame: "d_store d5 = d_store d1" "d_roots d5 = d_roots d1" "d_next_clock d5 = d_next_clock d1"
      using A(3) C1(2) C2(2) C3(2) by auto
    show ?thesis
    proof (cases "n = None \<or> k = None \<or> v = None")
      case True
      then have "d' = doc_release_item p d5" using run goc acq 3 c1 c2 c3 by (auto simp: map_set_string_def)
      then show ?thesis using doc_ok_release [OF C3(1), of p] by simp
    next
      case False
      then have nkv: "n = Some name" "k = Some key" "v = Some value" using C1(3) C2(3) C3(3) by auto
      obtain ol where ol: "ytry (install_into_map E p m) (\<lambda>_ d. (Inr (it_id (d_heap d p)), d))
          (d5\<lparr>d_heap := (d_heap d5)(p := local_item d5 ol kInvalidId name key value)\<rparr>) = (r, d')"
        using run goc acq 3 c1 c2 c3 nkv by (simp add: map_set_string_def Let_def)
      define d6 where "d6 = d5\<lparr>d_heap := (d_heap d5)(p := local_item d5 ol kInvalidId name key value)\<rparr>"
      have d6: "doc_ok ok taken E lo {p} d6" "d_heap d6 p = local_item d5 ol kInvalidId name key value" "m \<in> ran (hm_abs (d_roots d6))"
        using doc_ok_write_held [OF C3(1), of p "local_item d5 ol kInvalidId name key value"] d2(2) frame G 3
        by (simp_all add: d6_def)
      obtain r6 where "install_into_map E p m d6 = (r6, d')"
        using ol by (auto simp: ytry_apply d6_def [symmetric] split: prod.splits sum.splits)
      from install_into_map_ok [OF d6(1) _ _ _ _ d6(3) this] show ?thesis
        using len(1,4) frame G by (simp add: d6(2) local_item_fits local_item_links)
    qed
  qed
qed

lemma doc_route_ok:
  assumes d: "doc_ok ok taken E lo {p} d" and ready: "ready p d" and run: "doc_route E p d = Some (r, d')"
  shows "doc_ok ok taken E lo {} d'"
proof -
  let ?x = "d_heap d p"
  have r: "item_fits ?x" "it_left ?x = None" "it_right ?x = None" "addressable (it_parent_name ?x)"
    "addressable (it_content_view ?x)" using ready by (simp_all add: ready_def item_fits_def)
  have rel: "doc_ok ok taken E lo {} (doc_release_item p d1)" if "doc_ok ok taken E lo {p} d1" for d1
    using doc_ok_release [OF that, of p] by simp
  consider (map) "it_parent_ref ?x = kRootName \<and> length (it_parent_sub ?x) > 0 \<and> is_value_kind (it_content_kind ?x)"
    | (array) "it_parent_ref ?x = kRootName \<and> length (it_parent_sub ?x) = 0 \<and> is_sequence_kind (it_content_kind ?x)"
    | (other) "\<not> (it_parent_ref ?x = kRootName \<and> length (it_parent_sub ?x) > 0 \<and> is_value_kind (it_content_kind ?x))"
        "\<not> (it_parent_ref ?x = kRootName \<and> length (it_parent_sub ?x) = 0 \<and> is_sequence_kind (it_content_kind ?x))"
    by blast
  then show ?thesis
  proof cases
    case map
    then obtain m d1 where goc: "get_or_create_map E (it_parent_name ?x) d = Some (m, d1)"
      using run by (auto simp: doc_route_def Let_def split: option.splits)
    note G = get_or_create_map_ok [OF d r(4) goc]
    show ?thesis
    proof (cases m)
      case None
      then have "d' = doc_release_item p d1" using run map goc by (simp add: doc_route_def)
      then show ?thesis using rel G by simp
    next
      case (Some m')
      then have "install_into_map E p m' d1 = (r, d')" using run map goc by (simp add: doc_route_def)
      from install_into_map_ok [OF _ _ _ _ _ _ this] show ?thesis using G r Some by fastforce
    qed
  next
    case array
    then obtain arr d1 where goc: "get_or_create_array E (it_parent_name ?x) d = Some (arr, d1)"
      using run by (auto simp: doc_route_def Let_def split: option.splits)
    note G = get_or_create_array_ok [OF d r(4) goc]
    show ?thesis
    proof (cases arr)
      case None
      then have "d' = doc_release_item p d1" using run array goc by (simp add: doc_route_def)
      then show ?thesis using rel G by simp
    next
      case (Some arr')
      then have "install_into_array E p arr' d1 = Some (r, d')" using run array goc by (simp add: doc_route_def)
      from install_into_array_ok [OF _ _ _ _ _ _ this] show ?thesis using G r Some by fastforce
    qed
  next
    case other
    note run' = run [unfolded doc_route_def Let_def, unfolded if_not_P [OF other(1)] if_not_P [OF other(2)]]
    show ?thesis
    proof (cases "it_content_kind ?x = kDoc")
      case True
      obtain r1 sd a where sd: "sd_install (view_env E 64) (it_id ?x) (it_content_view ?x) (d_sub_docs d, d_alloc d) = (r1, sd, a)"
        by (metis prod.collapse)
      have "sd_inv (view_env E 64) (d_sub_docs d)" using d by (simp add: doc_ok_def)
      note inv = sd_install_inv [OF this sd]
      have "later ok taken (d_alloc d) a"
        by (rule sd_install_survives [OF survives_view sane_view(2) r(5) later_refl [OF d] sd])
      from doc_ok_sub_docs [OF doc_ok_alloc [OF d this] inv]
      have "doc_ok ok taken E lo {p} (d\<lparr>d_alloc := a, d_sub_docs := sd\<rparr>)" .
      moreover define d1 where "d1 = d\<lparr>d_sub_docs := sd, d_alloc := a\<rparr>"
      moreover have "d1 = d\<lparr>d_alloc := a, d_sub_docs := sd\<rparr>" by (simp add: d1_def)
      ultimately have d1: "doc_ok ok taken E lo {p} d1" by (simp only:)
      have "d' = doc_release_item p d1 \<or> install_bare E p d1 = (r, d')"
        using run' True sd by (cases r1) (simp_all add: d1_def)
      then show ?thesis
        using rel [OF d1] install_bare_ok [OF d1, of p r d'] r(1-3) by (auto simp: d1_def)
    next
      case False
      then have "install_bare E p d = (r, d')" using run' by simp
      from install_bare_ok [OF d _ r(1-3) this] show ?thesis by simp
    qed
  qed
qed

lemma apply_one_ok:
  assumes d: "doc_ok ok taken E lo {} d" and fits: "struct_fits s" and run: "apply_one E s d = Some (r, d')"
  shows "doc_ok ok taken E lo {} d'"
proof -
  have len: "addressable (s_parent_name s)" "addressable (s_parent_sub s)" "addressable (s_content_view s)"
    using fits by (simp_all add: struct_fits_def)
  obtain it d1 where acq: "doc_acquire_item E d = (it, d1)" by fastforce
  note A = doc_acquire_ok [OF d acq]
  let ?known = "doc_find E d (s_id s) \<noteq> None"
    and ?left = "s_parent_ref s = kNone \<and> is_valid (s_origin_left s) \<and> doc_find E d (s_origin_left s) = None"
    and ?right = "s_parent_ref s = kNone \<and> is_valid (s_origin_right s) \<and> doc_find E d (s_origin_right s) = None"
  consider "?known \<or> ?left \<or> ?right" | "\<not> (?known \<or> ?left \<or> ?right)" "it = None"
    | p where "\<not> (?known \<or> ?left \<or> ?right)" "it = Some p" by blast
  then show ?thesis
  proof cases
    case 1
    then have "d' = d" using run by (auto simp: apply_one_def split: if_splits)
    then show ?thesis using d by simp
  next
    case 2
    then have "d' = d1" using run acq by (auto simp: apply_one_def split: if_splits)
    then show ?thesis using A(1) 2 by simp
  next
    case 3
    have d1: "doc_ok ok taken E lo {p} d1" "p \<notin> ss_addrs (d_store d)" using A(2) [OF 3(2)] by auto
    obtain n d2 where c1: "doc_clone E (s_parent_name s) d1 = (n, d2)" by fastforce
    note C1 = doc_clone_ok [OF d1(1) len(1) c1]
    obtain k d3 where c2: "doc_clone E (s_parent_sub s) d2 = (k, d3)" by fastforce
    note C2 = doc_clone_ok [OF C1(1) len(2) c2]
    obtain v d4 where c3: "doc_clone E (s_content_view s) d3 = (v, d4)" by fastforce
    note C3 = doc_clone_ok [OF C2(1) len(3) c3]
    have frame: "d_store d4 = d_store d" using A(3) C1(2) C2(2) C3(2) by auto
    show ?thesis
    proof (cases "n = None \<or> k = None \<or> v = None")
      case True
      then have "d' = doc_release_item p d4" using run acq 3 c1 c2 c3 by (auto simp: apply_one_def)
      then show ?thesis using doc_ok_release [OF C3(1), of p] by simp
    next
      case False
      then have nkv: "n = Some (s_parent_name s)" "k = Some (s_parent_sub s)" "v = Some (s_content_view s)"
        using C1(3) C2(3) C3(3) by auto
      define x where "x = (struct_item s)\<lparr>it_parent_name := s_parent_name s, it_parent_sub := s_parent_sub s,
        it_content_view := s_content_view s\<rparr>"
      define d5 where "d5 = d4\<lparr>d_heap := (d_heap d4)(p := x)\<rparr>"
      define y where "y = (if it_parent_ref x = kNone then inherit_parent_from_origin (doc_find E d5) (d_heap d5) x else x)"
      define d6 where "d6 = d5\<lparr>d_heap := (d_heap d5)(p := y)\<rparr>"
      have d5: "doc_ok ok taken E lo {p} d5" unfolding d5_def by (rule doc_ok_write_held [OF C3(1)]) (use d1 frame in simp)
      then have d6: "doc_ok ok taken E lo {p} d6"
        unfolding d6_def by (rule doc_ok_write_held) (use d1 frame in \<open>simp add: d5_def\<close>)
      have x: "item_fits x" "it_left x = None" "it_right x = None" "it_content_view x = s_content_view s"
        using struct_item_fits [OF fits] struct_item_links [of s] len
        by (simp_all add: x_def item_fits_def item_start_def item_width_def)
      have "addressable (it_parent_name (d_heap d5 q))" if "doc_find E d5 i = Some q" for i q
        using d5 doc_find_in [OF d5, of i] that by (auto simp: doc_ok_def items_ok_def item_fits_def)
      then have "addressable (it_parent_name y)"
        using inherit_loop_name [of "doc_find E d5" "d_heap d5" x kMaxParentHops "some_origin x"] x(1)
        by (simp add: y_def inherit_parent_from_origin_def item_fits_def)
      then have y: "item_fits y" "it_left y = None" "it_right y = None" "it_content_view y = s_content_view s"
        using x by (simp_all add: y_def inherit_fields item_fits_def item_start_def item_width_def)
      have "\<not> ?known" "\<not> ?left" "\<not> ?right" using 3(1) by blast+
      then have "doc_route E p d6 = Some (r, d')"
        using run [unfolded apply_one_def] acq 3(2) c1 c2 c3 nkv
        by (simp only: if_False if_not_P)
          (cases "it_parent_ref (struct_item s) = kNone"; simp add: Let_def d6_def d5_def y_def x_def)
      from doc_route_ok [OF d6 _ this] show ?thesis using y len by (simp add: ready_def d6_def)
    qed
  qed
qed

lemma apply_pass_ok:
  "apply_pass E xs d = Some (r, d') \<Longrightarrow> doc_ok ok taken E lo {} d \<Longrightarrow> list_all struct_fits (map fst xs) \<Longrightarrow>
     doc_ok ok taken E lo {} d' \<and> (\<forall>ys b. r = Inr (ys, b) \<longrightarrow> map fst ys = map fst xs)"
proof (induction xs arbitrary: d r d')
  case Nil
  then show ?case by auto
next
  case (Cons x xs)
  have fits: "struct_fits (fst x)" "list_all struct_fits (map fst xs)" using Cons.prems(3) by simp_all
  have on: "doc_ok ok taken E lo {} d2 \<and> (\<forall>ys b. r2 = Inr (ys, b) \<longrightarrow> map fst ys = map fst (x # xs))"
    if run: "ptry (apply_pass E xs) (\<lambda>(ys, progress) d. Some (Inr ((fst x, f) # ys, g progress), d)) d1 = Some (r2, d2)"
      and d1: "doc_ok ok taken E lo {} d1" for d1 r2 d2 f g
    using run
  proof (cases rule: ptry_cases)
    case (fails e)
    then show ?thesis using Cons.IH [OF fails(1) d1 fits(2)] by simp
  next
    case (runs y s)
    then show ?thesis using Cons.IH [OF runs(1) d1 fits(2)] by (cases y) auto
  qed
  obtain s flag where x: "x = (s, flag)" by fastforce
  show ?case
  proof (cases flag)
    case True
    then show ?thesis using Cons.prems(1) x on [of True "\<lambda>b. b" d r d'] Cons.prems(2) by simp
  next
    case False
    then obtain r1 d1 where one: "apply_one E s d = Some (r1, d1)"
      using Cons.prems(1) x by (auto split: option.splits)
    have d1: "doc_ok ok taken E lo {} d1" using apply_one_ok [OF Cons.prems(2) _ one] fits x by simp
    show ?thesis
      using Cons.prems(1) False x one d1 on [of True "\<lambda>b. True" d1 r d'] on [of False "\<lambda>b. b" d1 r d']
      by (auto split: sum.splits if_splits)
  qed
qed

lemma apply_passes_ok:
  "apply_passes E n xs d = Some (r, d') \<Longrightarrow> doc_ok ok taken E lo {} d \<Longrightarrow> list_all struct_fits (map fst xs) \<Longrightarrow>
     doc_ok ok taken E lo {} d'"
proof (induction n arbitrary: xs d)
  case (Suc n)
  show ?case
  proof (cases "remaining xs = 0")
    case False
    then have "ptry (apply_pass E xs) (\<lambda>(ys, progress) d.
        if \<not> progress then Some (Inr ys, d) else apply_passes E n ys d) d = Some (r, d')"
      using Suc.prems(1) by simp
    then show ?thesis
    proof (cases rule: ptry_cases)
      case (fails e)
      then show ?thesis using apply_pass_ok Suc.prems by blast
    next
      case (runs y d1)
      obtain ys b where y: "y = (ys, b)" by fastforce
      have "doc_ok ok taken E lo {} d1" "map fst ys = map fst xs"
        using apply_pass_ok [OF runs(1) Suc.prems(2,3)] y by auto
      then show ?thesis using runs(2) y Suc.IH [of ys d1] Suc.prems(3) by (auto split: if_splits)
    qed
  qed (use Suc.prems in simp)
qed simp

lemma apply_structs_ok:
  assumes d: "doc_ok ok taken E lo {} d" and fits: "list_all struct_fits ss" "length ss \<le> 2 ^ 61"
    and run: "apply_structs E ss d = Some (r, d')"
  shows "doc_ok ok taken E lo {} d'"
proof (cases "length ss = 0")
  case True
  then show ?thesis using run d by (simp add: apply_structs_def)
next
  case False
  obtain flags a where al: "(if length ss \<le> 256 then (Some 0, d_alloc d) else he_alloc E (of_nat (length ss)) 1 (d_alloc d)) = (flags, a)"
    by fastforce
  have "later ok taken (d_alloc d) a"
    using al later_refl [OF d] survivesD [OF survives_later sane_bytes [OF fits(2)] later_refl [OF d]] by (auto split: if_splits)
  note d1 = doc_ok_alloc [OF d this]
  show ?thesis
  proof (cases "flags = None")
    case True
    then show ?thesis using run False al d1 by (simp add: apply_structs_def)
  next
    case some: False
    then obtain fl where "flags = Some fl" by blast
    then have "ptry (apply_passes E (length ss + 1) (map (\<lambda>s. (s, False)) ss))
        (\<lambda>xs d. Some (if remaining xs > 0 then Inl kPendingReference else Inr (), d)) (d\<lparr>d_alloc := a\<rparr>) = Some (r, d')"
      using run False al by (simp add: apply_structs_def)
    then obtain r1 where "apply_passes E (length ss + 1) (map (\<lambda>s. (s, False)) ss) (d\<lparr>d_alloc := a\<rparr>) = Some (r1, d')"
      by (cases rule: ptry_cases) auto
    from apply_passes_ok [OF this d1] show ?thesis using fits(1) by (simp add: comp_def)
  qed
qed

lemma mark_loop_ok:
  assumes "doc_ok ok taken E lo H d" and "\<And>x. it_id (f x) = it_id x \<and> it_length (f x) = it_length x \<and>
      it_left (f x) = it_left x \<and> it_right (f x) = it_right x \<and> it_parent_name (f x) = it_parent_name x"
  shows "doc_ok ok taken E lo H (fold (\<lambda>k d. case doc_find E d (g k) of None \<Rightarrow> d
    | Some p \<Rightarrow> d\<lparr>d_heap := (d_heap d)(p := f (d_heap d p))\<rparr>) ks d)"
  using assms(1)
proof (induction ks arbitrary: d)
  case (Cons k ks)
  have "doc_ok ok taken E lo H (case doc_find E d (g k) of None \<Rightarrow> d
    | Some p \<Rightarrow> d\<lparr>d_heap := (d_heap d)(p := f (d_heap d p))\<rparr>)"
    using Cons.prems assms(2) by (auto split: option.split intro!: doc_ok_retouch)
  then show ?case using Cons.IH by simp
qed simp

lemma apply_deletes_ok:
  assumes "doc_ok ok taken E lo H d" and "list_all (\<lambda>(c, rs). list_all dr_wf rs) rss"
  shows "doc_ok ok taken E lo H (snd (apply_deletes E rss d))"
proof -
  have one: "ykeeps (doc_ok ok taken E lo H) (ytry (doc_delete E c (dr_clock_start x) (dr_length x)) (\<lambda>_ d.
      (Inr (), mark_range_deleted E c (dr_clock_start x) (dr_length x) d)))" if "dr_wf x" for c x
  proof (rule ykeeps_try)
    show "ykeeps (doc_ok ok taken E lo H) (doc_delete E c (dr_clock_start x) (dr_length x))"
      unfolding ykeeps_def
    proof (intro allI impI)
      fix d1 assume d1: "doc_ok ok taken E lo H d1"
      obtain r d2 where del: "doc_delete E c (dr_clock_start x) (dr_length x) d1 = (r, d2)" by fastforce
      have "dr_wf \<lparr>dr_clock_start = dr_clock_start x, dr_length = dr_length x\<rparr>"
        using that by (simp add: dr_wf_def dr_stop_def dr_start_def)
      from doc_delete_ok(1) [OF d1 this del]
      show "doc_ok ok taken E lo H (snd (doc_delete E c (dr_clock_start x) (dr_length x) d1))" by (simp add: del)
    qed
    show "ykeeps (doc_ok ok taken E lo H) (\<lambda>d. (Inr (), mark_range_deleted E c (dr_clock_start x) (dr_length x) d))"
      unfolding ykeeps_def mark_range_deleted_def by (auto intro!: mark_loop_ok)
  qed
  have "ykeeps (doc_ok ok taken E lo H) (apply_deletes E rss)"
    unfolding apply_deletes_def
    by (rule ykeeps_foreach) (use assms(2) one in \<open>auto simp: list_all_iff intro!: ykeeps_foreach\<close>)
  then show ?thesis using assms(1) by (simp add: ykeeps_def)
qed

lemma apply_update_ok:
  assumes d: "doc_ok ok taken E lo {} d" and fits: "update_fits E bs (d_alloc d)" and run: "apply_update_v1 E bs d = Some (r, d')"
  shows "doc_ok ok taken E lo {} d'"
proof -
  obtain r1 du a where dec: "decode_update_v1 E bs (du_empty, d_alloc d) = (r1, du, a)" by (metis prod.collapse)
  have "later ok taken (d_alloc d) a" by (rule decode_update_survives [OF survives_later env later_refl [OF d] dec])
  note d1 = doc_ok_alloc [OF d this]
  show ?thesis
  proof (cases r1)
    case (Inl e)
    then show ?thesis using run dec d1 by (simp add: apply_update_v1_def)
  next
    case (Inr u)
    then have fits: "list_all struct_fits (du_structs du)" "length (du_structs du) \<le> 2 ^ 61"
      "list_all (\<lambda>(c, rs). list_all dr_wf rs) (ds_items E (du_delete_set du))"
      using fits dec by (simp_all add: update_fits_def)
    have "ptry (apply_structs E (du_structs du)) (\<lambda>_ d. Some (apply_deletes E (ds_items E (du_delete_set du)) d))
        (d\<lparr>d_alloc := a\<rparr>) = Some (r, d')"
      using run dec Inr by (simp add: apply_update_v1_def)
    then show ?thesis
    proof (cases rule: ptry_cases)
      case (fails e)
      then show ?thesis using apply_structs_ok [OF d1 fits(1,2)] by blast
    next
      case (runs x d2)
      have "doc_ok ok taken E lo {} d2" by (rule apply_structs_ok [OF d1 fits(1,2) runs(1)])
      from apply_deletes_ok [OF this fits(3)] show ?thesis using runs(2) by simp
    qed
  qed
qed

section \<open>Compaction, undo and redo\<close>

lemma doc_compact_ok:
  assumes "doc_ok ok taken E lo H d"
  shows "doc_ok ok taken E lo H (snd (doc_compact E d))"
proof -
  have one: "doc_ok ok taken E lo H (snd (compact_item E p st))" if "doc_ok ok taken E lo H (snd st)" for p st
    using that by (cases st) (auto simp: compact_item_def Let_def intro!: doc_ok_retouch)
  have "doc_ok ok taken E lo H (snd (fold (\<lambda>(client, items). fold (compact_item E) items) (ss_items E (d_store d)) (0, d)))"
    by (rule fold_keeps [where P = "\<lambda>st. doc_ok ok taken E lo H (snd st)"])
      (use assms one in \<open>auto simp del: split_paired_All intro: fold_keeps [where P = "\<lambda>st. doc_ok ok taken E lo H (snd st)"]\<close>)
  then show ?thesis by (simp add: doc_compact_def)
qed

lemma mark_range_flag_ok: "doc_ok ok taken E lo H d \<Longrightarrow> doc_ok ok taken E lo H (mark_range_flag E c start stop flag d)"
  unfolding mark_range_flag_def by (rule mark_loop_ok) (auto simp: clear_deleted_def)

end

end
