(* ===== verification/Ycpp_DocEdit.thy ===== *)
theory Ycpp_DocEdit
  imports Ycpp_DocOps
begin

text \<open>
  What local edits mean: a document read as plain lists of values by sequence name and plain maps by
  map name and key, and the edits as the usual operations on them.  \<open>holds E d f\<close> says that the
  sequence of each name is the linked list \<open>f name\<close>.
\<close>

section \<open>The document as lists and maps\<close>

definition seq_of :: "(u64, 'a) hm_env \<Rightarrow> 'a doc \<Rightarrow> bytes \<Rightarrow> addr list \<Rightarrow> bool" where
  "seq_of E d name ps \<longleftrightarrow> (case hm_get (view_env E 24) name (d_arrays d) of
     None \<Rightarrow> ps = [] | Some arr \<Rightarrow> dll (d_heap d) (d_array_heap d arr) ps)"

definition head_of :: "(u64, 'a) hm_env \<Rightarrow> 'a doc \<Rightarrow> bytes \<Rightarrow> bytes \<Rightarrow> addr option" where
  "head_of E d name key = (case find_map E name d of None \<Rightarrow> None | Some m \<Rightarrow> ym_raw_head (view_env E 24) key (d_map_heap d m))"

text \<open>An item is in the sequence of its parent, or the head of its key in the map of its parent.\<close>

definition holds :: "(u64, 'a) hm_env \<Rightarrow> 'a doc \<Rightarrow> (bytes \<Rightarrow> addr list) \<Rightarrow> bool" where
  "holds E d f \<longleftrightarrow> (\<forall>name. seq_of E d name (f name)) \<and>
     (\<forall>name. \<forall>p \<in> set (f name). it_parent_name (d_heap d p) = name \<and> it_parent_sub (d_heap d p) = []) \<and>
     (\<forall>name key p. head_of E d name key = Some p \<longrightarrow>
        it_parent_name (d_heap d p) = name \<and> it_parent_sub (d_heap d p) = key \<and> key \<noteq> [])"

definition contents :: "item_heap \<Rightarrow> addr list \<Rightarrow> bytes list" where
  "contents h ps = map (\<lambda>p. it_content_view (h p)) (live h ps)"

record plain =
  pl_seqs :: "bytes \<Rightarrow> bytes list"
  pl_maps :: "bytes \<Rightarrow> bytes \<Rightarrow> bytes option"

definition value_of :: "item_heap \<Rightarrow> addr option \<Rightarrow> bytes option" where
  "value_of h head = (case head of None \<Rightarrow> None | Some p \<Rightarrow> if deleted (h p) then None else Some (it_content_view (h p)))"

definition plain_of :: "(u64, 'a) hm_env \<Rightarrow> 'a doc \<Rightarrow> (bytes \<Rightarrow> addr list) \<Rightarrow> plain" where
  "plain_of E d f = \<lparr>pl_seqs = (\<lambda>name. contents (d_heap d) (f name)),
     pl_maps = (\<lambda>name key. value_of (d_heap d) (head_of E d name key))\<rparr>"

text \<open>One item more, with the next clock of the document, somewhere in one sequence.\<close>

definition inserted :: "(u64, 'a) hm_env \<Rightarrow> 'a doc \<Rightarrow> (bytes \<Rightarrow> addr list) \<Rightarrow> 'a doc \<Rightarrow> (bytes \<Rightarrow> addr list) \<Rightarrow> bool" where
  "inserted E d f d' f' \<longleftrightarrow> (\<exists>name p us vs. f name = us @ vs \<and> f' = f(name := us @ p # vs) \<and>
     p \<notin> ss_addrs (d_store d) \<and> ss_addrs (d_store d') = insert p (ss_addrs (d_store d)) \<and>
     (\<forall>q. q \<noteq> p \<longrightarrow> same_content (d_heap d' q) (d_heap d q)) \<and> \<not> deleted (d_heap d' p) \<and>
     it_id (d_heap d' p) = Id (d_client_id d) (d_next_clock d) \<and>
     unat (d_next_clock d') = unat (d_next_clock d) + item_width (d_heap d' p) \<and>
     d_client_id d' = d_client_id d \<and> head_of E d' = head_of E d)"

section \<open>Lemmas on lists and lookups\<close>

lemma head_of_cong: "d_roots d' = d_roots d \<Longrightarrow> d_map_heap d' = d_map_heap d \<Longrightarrow> head_of E d' = head_of E d"
  by (simp add: head_of_def find_map_def fun_eq_iff split: option.split)

lemma inserted_cong:
  "inserted E d1 f d' f' \<Longrightarrow> d_heap d1 = d_heap d \<Longrightarrow> d_store d1 = d_store d \<Longrightarrow> d_client_id d1 = d_client_id d \<Longrightarrow>
   d_next_clock d1 = d_next_clock d \<Longrightarrow> head_of E d1 = head_of E d \<Longrightarrow> inserted E d f d' f'"
  by (simp add: inserted_def)

lemma contents_append: "contents h (xs @ ys) = contents h xs @ contents h ys"
  by (simp add: contents_def live_def)

lemma contents_cons: "contents h (p # ps) = (if deleted (h p) then [] else [it_content_view (h p)]) @ contents h ps"
  by (simp add: contents_def)

lemma contents_cong:
  "(\<And>p. p \<in> set ps \<Longrightarrow> deleted (h' p) = deleted (h p) \<and> it_content_view (h' p) = it_content_view (h p)) \<Longrightarrow>
     contents h' ps = contents h ps"
  by (induction ps) (auto simp: contents_def)

lemma contents_dead: "live h ps = [] \<Longrightarrow> contents h ps = []"
  by (simp add: contents_def)

lemma chain_in: "chain h s ps \<Longrightarrow> links_in h S \<Longrightarrow> set_option s \<subseteq> S \<Longrightarrow> set ps \<subseteq> S"
proof (induction ps arbitrary: s)
  case (Cons p ps)
  then show ?case using links_inD [of h S p] by auto
qed simp

lemma is_valid_range: "unat (id_clock i) < 2 ^ 64 - 1 \<Longrightarrow> is_valid i"
  by (auto simp: is_valid_def kInvalidId_def unsigned_minus_1_eq_mask mask_eq_exp_minus_1)

lemma ya_splice_content: "ya_splice p left (h, start) = (h', start') \<Longrightarrow> same_content (h' q) (h q)"
  by (auto simp: ya_splice_def Let_def same_content_def split: option.splits if_splits)

lemma ya_integrate_content: "ya_integrate E ss p (h, start) = (r, h', start') \<Longrightarrow> same_content (h' q) (h q)"
  by (auto simp: ya_integrate_def Let_def split: sum.splits dest: ya_splice_content)

text \<open>Lookup depends on the stored items only.\<close>

lemma ss_find_cong:
  assumes inv: "ss_inv E h ss"
    and same: "\<And>p. p \<in> ss_addrs ss \<Longrightarrow> it_id (h' p) = it_id (h p) \<and> it_length (h' p) = it_length (h p)"
  shows "ss_find_by_id E h' i ss = ss_find_by_id E h i ss"
proof -
  have inv': "ss_inv E h' ss" using ss_inv_cong [of ss h' h E] same inv by simp
  show ?thesis
  proof (cases "ss_find_by_id E h i ss")
    case None
    have "ss_state E h' (id_client i) ss = ss_state E h (id_client i) ss" by (rule ss_state_cong [OF inv same])
    then have "span h' (ss_ptrs ss (id_client i)) = span h (ss_ptrs ss (id_client i))"
      using ss_state_span [OF inv] ss_state_span [OF inv'] by metis
    then show ?thesis using None ss_find_spec(2) [OF inv, of i] ss_find_spec(2) [OF inv', of i] by simp
  next
    case (Some p)
    then have p: "p \<in> ss_addrs ss" "item_covers (h p) i" using ss_find_spec(1) [OF inv Some] by (auto simp: ss_addrs_def)
    then have "item_covers (h' p) i" using same [OF p(1)] by (simp add: item_covers_def item_start_def item_width_def)
    then show ?thesis using ss_find_covers [OF inv' p(1)] Some by simp
  qed
qed

text \<open>The identifiers of a stored item lead back to it.\<close>

lemma stored_ids:
  assumes d: "doc_ok ok taken E lo H d" and q: "q \<in> ss_addrs (d_store d)"
  shows "doc_find E d (it_id (d_heap d q)) = Some q" and "is_valid (it_id (d_heap d q))"
    and "doc_find E d (last_clock_id (d_heap d q)) = Some q" and "is_valid (last_clock_id (d_heap d q))"
proof -
  let ?x = "d_heap d q"
  have inv: "ss_inv E (d_heap d) (d_store d)" and fits: "item_fits ?x" using d q by (simp_all add: doc_ok_def items_ok_def)
  have x: "0 < it_length ?x" "unat (id_clock (it_id ?x)) + unat (it_length ?x) < 2 ^ 64"
    using fits by (simp_all add: item_fits_def item_start_def item_width_def)
  have pos: "0 < unat (it_length ?x)" using x(1) by (simp add: unat_gt_0)
  have last: "unat (id_clock (it_id ?x) + it_length ?x - 1) = unat (id_clock (it_id ?x)) + unat (it_length ?x) - 1"
    using x pos by (simp add: unat_sub word_le_nat_alt unat_word_ariths)
  have run: "run_length ?x = it_length ?x" using x(1) by (auto simp: run_length_def)
  have covers: "item_covers ?x (it_id ?x)" "item_covers ?x (last_clock_id ?x)"
    using x pos last by (auto simp: item_covers_def item_start_def item_width_def last_clock_id_def run)
  show "doc_find E d (it_id ?x) = Some q" "doc_find E d (last_clock_id ?x) = Some q"
    using ss_find_covers [OF inv q] covers by (simp_all add: doc_find_def)
  show "is_valid (it_id ?x)" "is_valid (last_clock_id ?x)"
    using x pos last by (auto intro!: is_valid_range simp: last_clock_id_def run)
qed

section \<open>Edits of a sequence\<close>

context doc_env
begin

lemma doc_append_find:
  assumes d: "doc_ok ok taken E lo H d" and p: "p \<in> H" and fits: "item_fits (d_heap d p)"
    and links: "it_left (d_heap d p) = None" "it_right (d_heap d p) = None"
    and run: "doc_append E p d = (r, d')" and q: "doc_find E d i = Some q"
  shows "doc_find E d' i = Some q"
proof -
  note A = doc_append_ok [OF d p fits links run]
  have inv: "ss_inv E (d_heap d) (d_store d)" using d by (simp add: doc_ok_def items_ok_def)
  have heap: "d_heap d' = d_heap d" using A(2) by auto
  have inv': "ss_inv E (d_heap d) (d_store d')" using A(1) heap by (simp add: doc_ok_def items_ok_def)
  have "item_covers (d_heap d q) i" using ss_find_spec(1) [OF inv q [unfolded doc_find_def]] by simp
  moreover have "q \<in> ss_addrs (d_store d')" using A(3) doc_find_in [OF d, of i] q by auto
  ultimately show ?thesis using ss_find_covers [OF inv'] heap by (simp add: doc_find_def)
qed

text \<open>An item that is not a move lands between its origins.\<close>

lemma install_array_lands:
  assumes d: "doc_ok ok taken E lo H d" and p: "p \<in> H" and fits: "item_fits (d_heap d p)"
    and links: "it_left (d_heap d p) = None" "it_right (d_heap d p) = None" and kind: "it_content_kind (d_heap d p) \<noteq> kMove"
    and arr: "arr \<in> ran (hm_abs (d_arrays d))"
    and l: "dll (d_heap d) (d_array_heap d arr) (xs @ ys)"
    and left: "if is_valid (it_origin_left (d_heap d p)) then xs \<noteq> [] \<and> doc_find E d (it_origin_left (d_heap d p)) = Some (last xs) else xs = []"
    and right: "is_valid (it_origin_right (d_heap d p)) \<Longrightarrow> doc_find E d (it_origin_right (d_heap d p)) \<noteq> None"
    and run: "install_into_array E p arr d = Some (Inr (), d')"
  defines "right \<equiv> origin_ptr (doc_find E d) (it_origin_right (d_heap d p))"
  shows "\<exists>zs ws. zone right ys = zs @ ws \<and> dll (d_heap d') (d_array_heap d' arr) (xs @ zs @ p # drop (length zs) ys)"
    and "same_content (d_heap d' q) (d_heap d q)" and "q \<notin> set (xs @ p # ys) \<Longrightarrow> d_heap d' q = d_heap d q"
    and "p \<notin> set (xs @ ys)"
    and "d_arrays d' = d_arrays d \<and> d_roots d' = d_roots d \<and> d_map_heap d' = d_map_heap d \<and>
      (\<exists>v. d_array_heap d' = (d_array_heap d)(arr := v))"
proof -
  let ?x = "d_heap d p"
  have "links_in (d_heap d) (ss_addrs (d_store d))" "set_option (d_array_heap d arr) \<subseteq> ss_addrs (d_store d)"
    "H \<inter> ss_addrs (d_store d) = {}" using d arr by (auto simp: doc_ok_def items_ok_def roots_ok_def)
  then show new: "p \<notin> set (xs @ ys)" using chain_in [OF dll_chain [OF l], of "ss_addrs (d_store d)"] p by blast
  obtain r1 d1 where app: "doc_append E p d = (r1, d1)" by fastforce
  have r1: "r1 = Inr ()" using run app by (cases r1) (auto simp: install_into_array_def)
  note found = doc_append_find [OF d p fits links app]
  obtain ss a where d1: "d1 = d\<lparr>d_store := ss, d_alloc := a\<rparr>" using doc_append_ok(2) [OF d p fits links app] by blast
  obtain r2 h start where ya: "ya_integrate E ss p (d_heap d, d_array_heap d arr) = (r2, h, start)" by (metis prod.collapse)
  have by_id: "origin_ptr (\<lambda>i. ss_find_by_id E (d_heap d) i ss) (it_origin_left ?x) = last_of None xs"
    "origin_ptr (\<lambda>i. ss_find_by_id E (d_heap d) i ss) (it_origin_right ?x) = right"
    using left right found d1 by (auto simp: origin_ptr_def doc_find_def last_of_def right_def split: if_splits)
  have r2: "r2 = Inr ()" using run app r1 d1 ya by (cases r2) (auto simp: install_into_array_def)
  note lands = ya_integrate_lands [OF l new by_id ya]
  have content: "same_content (h q) (d_heap d q)" for q using lands r2 by blast
  have "it_content_kind (h p) \<noteq> kMove" using same_contentD(7) [OF content, of p] kind by simp
  then have d': "d' = bump_clock_for p (d1\<lparr>d_heap := h, d_array_heap := (d_array_heap d)(arr := start)\<rparr>)"
    using run app r1 d1 ya r2 by (simp add: install_into_array_def ptry_def doc_apply_move_def)
  then have out: "d_heap d' = h" "d_array_heap d' = (d_array_heap d)(arr := start)" "d_arrays d' = d_arrays d"
    "d_roots d' = d_roots d" "d_map_heap d' = d_map_heap d"
    by (simp_all add: bump_clock_for_def Let_def d1)
  show "\<exists>zs ws. zone right ys = zs @ ws \<and> dll (d_heap d') (d_array_heap d' arr) (xs @ zs @ p # drop (length zs) ys)"
    "same_content (d_heap d' q) (d_heap d q)" "q \<notin> set (xs @ p # ys) \<Longrightarrow> d_heap d' q = d_heap d q"
    "d_arrays d' = d_arrays d \<and> d_roots d' = d_roots d \<and> d_map_heap d' = d_map_heap d \<and>
      (\<exists>v. d_array_heap d' = (d_array_heap d)(arr := v))"
    using lands r2 out by auto
qed

lemma install_array_adds:
  assumes d: "doc_ok ok taken E lo H d" and p: "p \<in> H" and fits: "item_fits (d_heap d p)"
    and links: "it_left (d_heap d p) = None" "it_right (d_heap d p) = None" and kind: "it_content_kind (d_heap d p) \<noteq> kMove"
    and mine: "it_id (d_heap d p) = Id (d_client_id d) (d_next_clock d)"
    and run: "install_into_array E p arr d = Some (Inr (), d')"
  shows "ss_addrs (d_store d') = insert p (ss_addrs (d_store d))" and "d_client_id d' = d_client_id d"
    and "unat (d_next_clock d') = unat (d_next_clock d) + item_width (d_heap d p)"
proof -
  obtain r1 d1 where app: "doc_append E p d = (r1, d1)" by fastforce
  have r1: "r1 = Inr ()" using run app by (cases r1) (auto simp: install_into_array_def)
  note A = doc_append_ok(2,3) [OF d p fits links app]
  obtain ss a where d1: "d1 = d\<lparr>d_store := ss, d_alloc := a\<rparr>" using A(1) by blast
  obtain r2 h start where ya: "ya_integrate E ss p (d_heap d, d_array_heap d arr) = (r2, h, start)" by (metis prod.collapse)
  have r2: "r2 = Inr ()" using run app r1 d1 ya by (cases r2) (auto simp: install_into_array_def)
  let ?d2 = "d1\<lparr>d_heap := h, d_array_heap := (d_array_heap d)(arr := start)\<rparr>"
  have step: "ptry (doc_apply_move E p) (\<lambda>_ d. Some (Inr (), bump_clock_for p d)) ?d2 = Some (Inr (), d')"
    using run app r1 d1 ya r2 by (simp add: install_into_array_def)
  have "it_content_kind (h p) \<noteq> kMove"
    using ya_integrate_content [OF ya] kind same_contentD(7) by metis
  then have d': "d' = bump_clock_for p ?d2" using step by (simp add: ptry_def doc_apply_move_def)
  have x: "it_id (h p) = it_id (d_heap d p)" "run_length (h p) = it_length (d_heap d p)"
    using same_contentD [OF ya_integrate_content [OF ya], of p] fits by (auto simp: run_length_def item_fits_def)
  have n: "unat (d_next_clock d + it_length (d_heap d p)) = unat (d_next_clock d) + item_width (d_heap d p)"
    using fits mine by (simp add: item_fits_def item_start_def item_width_def unat_word_ariths)
  have "0 < item_width (d_heap d p)" using fits by (auto simp: item_fits_def item_width_def unat_gt_0)
  then have "d_next_clock d < d_next_clock d + it_length (d_heap d p)" using n by (simp add: word_less_nat_alt)
  then show "unat (d_next_clock d') = unat (d_next_clock d) + item_width (d_heap d p)" and "d_client_id d' = d_client_id d"
    using d' x mine d1 n by (simp_all add: bump_clock_for_def Let_def)
  show "ss_addrs (d_store d') = insert p (ss_addrs (d_store d))"
    using A(2) r1 d' d1 by (simp add: bump_clock_for_def Let_def)
qed

text \<open>A local item is installed into a document that differs from the old one by that item.\<close>

lemma emit_installs:
  assumes d: "doc_ok ok taken E lo {} d"
    and len: "addressable name" "addressable value" "edit_fits (d_next_clock d) value"
    and run: "emit_array_item E arr name ol orr value d = Some (Inr i, d')"
  obtains p d4 where "doc_ok ok taken E lo {p} d4" and "p \<notin> ss_addrs (d_store d)"
    and "d_heap d4 = (d_heap d)(p := local_item d ol orr name [] value)" and "\<And>j. doc_find E d4 j = doc_find E d j"
    and "d_store d4 = d_store d" and "d_arrays d4 = d_arrays d" and "d_array_heap d4 = d_array_heap d"
    and "d_roots d4 = d_roots d" and "d_map_heap d4 = d_map_heap d"
    and "d_next_clock d4 = d_next_clock d" and "d_client_id d4 = d_client_id d"
    and "install_into_array E p arr d4 = Some (Inr (), d')"
proof -
  obtain it d1 where acq: "doc_acquire_item E d = (it, d1)" by fastforce
  note A = doc_acquire_ok [OF d acq]
  obtain p where it: "it = Some p" using run acq by (cases it) (auto simp: emit_array_item_def)
  have d1: "doc_ok ok taken E lo {p} d1" "p \<notin> ss_addrs (d_store d)" "d_heap d1 = (d_heap d)(p := item_default)"
    using A(2) [OF it] by auto
  obtain n d2 where c1: "doc_clone E name d1 = (n, d2)" by fastforce
  note C1 = doc_clone_ok [OF d1(1) len(1) c1]
  obtain v d3 where c2: "doc_clone E value d2 = (v, d3)" by fastforce
  note C2 = doc_clone_ok [OF C1(1) len(2) c2]
  have frame: "d_store d3 = d_store d" "d_arrays d3 = d_arrays d" "d_next_clock d3 = d_next_clock d" "d_roots d3 = d_roots d"
    "d_map_heap d3 = d_map_heap d" "d_array_heap d3 = d_array_heap d" "d_heap d3 = (d_heap d)(p := item_default)"
    "d_client_id d3 = d_client_id d"
    using A(3) C1(2) C2(2) d1(3) by auto
  have nv: "n = Some name" "v = Some value"
    using run acq it c1 c2 C1(3) C2(3) by (auto simp: emit_array_item_def)
  let ?x = "local_item d3 ol orr name [] value"
  have x: "?x = local_item d ol orr name [] value" by (simp add: local_item_def frame)
  define d4 where "d4 = d3\<lparr>d_heap := (d_heap d3)(p := ?x)\<rparr>"
  have d4: "doc_ok ok taken E lo {p} d4" "d_heap d4 = (d_heap d)(p := ?x)"
    using doc_ok_write_held [OF C2(1), of p ?x] d1(2) frame by (simp_all add: d4_def)
  have inv: "ss_inv E (d_heap d) (d_store d)" using d by (simp add: doc_ok_def items_ok_def)
  have "d_heap d4 q = d_heap d q" if "q \<in> ss_addrs (d_store d)" for q using that d1(2) d4(2) by auto
  then have "ss_find_by_id E (d_heap d4) j (d_store d) = ss_find_by_id E (d_heap d) j (d_store d)" for j
    by (intro ss_find_cong [OF inv]) simp
  then have find: "doc_find E d4 j = doc_find E d j" for j using frame by (simp add: doc_find_def d4_def)
  have "ptry (install_into_array E p arr) (\<lambda>_ d. Some (Inr (it_id (d_heap d p)), d)) d4 = Some (Inr i, d')"
    using run acq it c1 c2 nv by (simp add: emit_array_item_def Let_def d4_def)
  then have inst: "install_into_array E p arr d4 = Some (Inr (), d')"
    by (auto simp: ptry_def split: option.splits prod.splits sum.splits)
  show ?thesis
  proof (rule that [of p d4])
    show "d_heap d4 = (d_heap d)(p := local_item d ol orr name [] value)" using d4(2) x by simp
  qed (use d4(1) d1(2) find inst frame in \<open>simp_all add: d4_def\<close>)
qed

lemma emit_lands:
  assumes d: "doc_ok ok taken E lo {} d" and arr: "arr \<in> ran (hm_abs (d_arrays d))"
    and l: "dll (d_heap d) (d_array_heap d arr) (xs @ mid @ ys)"
    and len: "addressable name" "addressable value" "edit_fits (d_next_clock d) value"
    and run: "emit_array_item E arr name (case last_of None xs of None \<Rightarrow> kInvalidId | Some q \<Rightarrow> last_clock_id (d_heap d q))
      (case ys of [] \<Rightarrow> kInvalidId | y # _ \<Rightarrow> it_id (d_heap d y)) value d = Some (Inr i, d')"
  obtains p m1 m2 where "mid = m1 @ m2" and "dll (d_heap d') (d_array_heap d' arr) (xs @ m1 @ p # m2 @ ys)"
    and "p \<notin> ss_addrs (d_store d)" and "\<And>q. q \<noteq> p \<Longrightarrow> same_content (d_heap d' q) (d_heap d q)"
    and "it_content_view (d_heap d' p) = value" and "\<not> deleted (d_heap d' p)"
    and "it_parent_name (d_heap d' p) = name" and "it_parent_sub (d_heap d' p) = []"
    and "it_id (d_heap d' p) = Id (d_client_id d) (d_next_clock d)"
    and "ss_addrs (d_store d') = insert p (ss_addrs (d_store d))" and "d_client_id d' = d_client_id d"
    and "unat (d_next_clock d') = unat (d_next_clock d) + item_width (d_heap d' p)"
    and "d_arrays d' = d_arrays d" and "d_roots d' = d_roots d" and "d_map_heap d' = d_map_heap d"
    and "\<And>arr'. arr' \<noteq> arr \<Longrightarrow> d_array_heap d' arr' = d_array_heap d arr'"
    and "\<And>q. q \<notin> set (xs @ mid @ ys) \<Longrightarrow> q \<noteq> p \<Longrightarrow> d_heap d' q = d_heap d q"
proof -
  let ?ol = "case last_of None xs of None \<Rightarrow> kInvalidId | Some q \<Rightarrow> last_clock_id (d_heap d q)"
  let ?or = "case ys of [] \<Rightarrow> kInvalidId | y # _ \<Rightarrow> it_id (d_heap d y)"
  have stored: "set (xs @ mid @ ys) \<subseteq> ss_addrs (d_store d)"
    using chain_in [OF dll_chain [OF l], of "ss_addrs (d_store d)"] d arr by (auto simp: doc_ok_def items_ok_def roots_ok_def)
  let ?x = "local_item d ?ol ?or name [] value"
  obtain p d4 where d4: "doc_ok ok taken E lo {p} d4" "d_heap d4 = (d_heap d)(p := ?x)" "d_array_heap d4 = d_array_heap d"
      and new: "p \<notin> ss_addrs (d_store d)" and find: "\<And>j. doc_find E d4 j = doc_find E d j"
      and frame: "d_store d4 = d_store d" "d_arrays d4 = d_arrays d" "d_roots d4 = d_roots d" "d_map_heap d4 = d_map_heap d"
      "d_next_clock d4 = d_next_clock d" "d_client_id d4 = d_client_id d"
      and inst: "install_into_array E p arr d4 = Some (Inr (), d')"
    by (rule emit_installs [OF d len run]) blast
  have arr4: "arr \<in> ran (hm_abs (d_arrays d4))" using arr frame by simp
  have x: "it_content_kind ?x = kString" "it_origin_left ?x = ?ol" "it_origin_right ?x = ?or" "it_content_view ?x = value"
    "it_parent_name ?x = name" "it_parent_sub ?x = []" "\<not> deleted ?x" "item_fits ?x" "it_left ?x = None" "it_right ?x = None"
    "it_id ?x = Id (d_client_id d) (d_next_clock d)"
    using len by (simp_all add: local_item_fits local_item_links)
      (simp_all add: local_item_def Let_def item_default_def deleted_def)
  have last: "if is_valid ?ol then xs \<noteq> [] \<and> doc_find E d4 ?ol = Some (last xs) else xs = []"
  proof (cases "xs = []")
    case False
    then have "last xs \<in> ss_addrs (d_store d)" using stored by auto
    then show ?thesis using stored_ids(3,4) [OF d] False by (simp add: find last_of_def)
  qed (simp add: is_valid_def)
  have first: "is_valid ?or \<Longrightarrow> doc_find E d4 ?or \<noteq> None" "origin_ptr (doc_find E d4) ?or = (case ys of [] \<Rightarrow> None | y # _ \<Rightarrow> Some y)"
    using stored_ids(1,2) [OF d] stored by (auto simp: find is_valid_def origin_ptr_def split: list.splits)
  have l4: "dll (d_heap d4) (d_array_heap d4 arr) (xs @ mid @ ys)"
    using l stored new d4(2,3) by (subst dll_cong [where h = "d_heap d"]) auto
  have at: "d_heap d4 p = ?x" using d4(2) by simp
  note L = install_array_lands [OF d4(1) _ _ _ _ _ arr4 l4 _ _ inst, unfolded at x(2,3) first(2), OF _ x(8-10) _ last first(1)]
  have zone: "zone (case ys of [] \<Rightarrow> None | y # _ \<Rightarrow> Some y) (mid @ ys) = mid"
  proof (cases ys)
    case Nil
    then show ?thesis by (simp add: zone_def takeWhile_eq_all_conv)
  next
    case (Cons y ys')
    have "y \<notin> set mid" using l Cons by (auto simp: dll_def)
    then show ?thesis using Cons by (auto simp: zone_def takeWhile_append2 takeWhile_tail)
  qed
  obtain zs ws where z: "mid = zs @ ws" "dll (d_heap d') (d_array_heap d' arr) (xs @ zs @ p # drop (length zs) (mid @ ys))"
    using L(1) x(1) zone by auto
  have same: "same_content (d_heap d' q) (d_heap d4 q)" for q using L(2) x(1) by auto
  show ?thesis
  proof (rule that [of zs ws p])
    show "mid = zs @ ws" by (fact z(1))
    show "dll (d_heap d') (d_array_heap d' arr) (xs @ zs @ p # ws @ ys)" using z by simp
    show "p \<notin> ss_addrs (d_store d)" by (fact new)
    show "same_content (d_heap d' q) (d_heap d q)" if "q \<noteq> p" for q using same [of q] that d4(2) by simp
    show "it_content_view (d_heap d' p) = value" "\<not> deleted (d_heap d' p)" "it_parent_name (d_heap d' p) = name"
      "it_parent_sub (d_heap d' p) = []"
      using same_contentD [OF same, of p] at x by simp_all
    have fits: "item_fits (d_heap d4 p)" "it_left (d_heap d4 p) = None" "it_right (d_heap d4 p) = None"
      "it_content_kind (d_heap d4 p) \<noteq> kMove" "it_id (d_heap d4 p) = Id (d_client_id d4) (d_next_clock d4)"
      using x frame by (simp_all add: at)
    note N = install_array_adds [OF d4(1) singletonI fits inst]
    show "it_id (d_heap d' p) = Id (d_client_id d) (d_next_clock d)" using same_contentD(1) [OF same, of p] at x(11) by simp
    show "ss_addrs (d_store d') = insert p (ss_addrs (d_store d))" "d_client_id d' = d_client_id d"
      "unat (d_next_clock d') = unat (d_next_clock d) + item_width (d_heap d' p)"
      using N frame same_contentD(4) [OF same, of p] by (simp_all add: item_width_def)
    show "d_arrays d' = d_arrays d" "d_roots d' = d_roots d" "d_map_heap d' = d_map_heap d"
      "\<And>arr'. arr' \<noteq> arr \<Longrightarrow> d_array_heap d' arr' = d_array_heap d arr'"
      using L(5) x(1) frame d4(3) by auto
    show "\<And>q. q \<notin> set (xs @ mid @ ys) \<Longrightarrow> q \<noteq> p \<Longrightarrow> d_heap d' q = d_heap d q" using L(3) x(1) d4(2) by auto
  qed
qed

end

text \<open>The walk to an index splits the list.\<close>

lemma seek_index_splits:
  "chain h s ps \<Longrightarrow> unat seen + length (live h ps) < 2 ^ 64 \<Longrightarrow> seen \<le> index \<Longrightarrow>
   \<exists>xs mid ys. ps = xs @ mid @ ys \<and> live h mid = [] \<and>
     (if unat (index - seen) < length (live h ps)
      then ys \<noteq> [] \<and> \<not> deleted (h (hd ys)) \<and> length (live h xs) = unat (index - seen) \<and>
        seek_index h s index seen pred = Some (Inr (last_of pred xs, Some (hd ys), index))
      else ys = [] \<and> seek_index h s index seen pred =
        Some (Inr (last_of pred xs, None, seen + of_nat (length (live h ps)))))"
proof (induction ps arbitrary: s seen pred)
  case Nil
  then show ?case by (auto simp: seek_index.simps [of h None])
next
  case (Cons p ps)
  have s: "s = Some p" "chain h (it_right (h p)) ps" using Cons.prems(1) by simp_all
  show ?case
  proof (cases "deleted (h p)")
    case True
    have step: "seek_index h s index seen pred = seek_index h (it_right (h p)) index seen pred"
      using s True by (subst seek_index.simps) simp
    obtain xs mid ys where IH: "ps = xs @ mid @ ys" "live h mid = []"
      "if unat (index - seen) < length (live h ps)
       then ys \<noteq> [] \<and> \<not> deleted (h (hd ys)) \<and> length (live h xs) = unat (index - seen) \<and>
         seek_index h s index seen pred = Some (Inr (last_of pred xs, Some (hd ys), index))
       else ys = [] \<and> seek_index h s index seen pred =
         Some (Inr (last_of pred xs, None, seen + of_nat (length (live h ps))))"
      using Cons.IH [OF s(2), of seen pred] Cons.prems(2,3) True unfolding step by auto
    show ?thesis
    proof (cases "xs = []")
      case True': True
      then show ?thesis using IH True by (intro exI [of _ "[]"] exI [of _ "p # mid"] exI [of _ ys]) auto
    next
      case False
      then have "last_of pred (p # xs) = last_of pred xs" by (simp add: last_of_def)
      then show ?thesis using IH True by (intro exI [of _ "p # xs"] exI [of _ mid] exI [of _ ys]) auto
    qed
  next
    case False
    show ?thesis
    proof (cases "seen = index")
      case True
      then have "seek_index h s index seen pred = Some (Inr (pred, Some p, index))"
        using s False by (subst seek_index.simps) simp
      then show ?thesis using True False by (intro exI [of _ "[]"] exI [of _ "[]"] exI [of _ "p # ps"]) simp
    next
      case neq: False
      have lt: "seen < index" using neq Cons.prems(3) by (simp add: order.strict_iff_order)
      then have le: "seen + 1 \<le> index" by (rule inc_le)
      have c: "unat (seen + 1) = unat seen + 1" using Cons.prems(2) False by (simp add: unat_word_ariths)
      then have len: "unat (seen + 1) + length (live h ps) < 2 ^ 64" using Cons.prems(2) False by simp
      have sub: "unat (index - seen) = Suc (unat (index - (seen + 1)))"
        using lt le c Cons.prems(3) by (simp add: unat_sub word_less_nat_alt)
      have step: "seek_index h s index seen pred = seek_index h (it_right (h p)) index (seen + 1) (Some p)"
        using s False neq le by (subst seek_index.simps) (simp add: leD)
      from Cons.IH [OF s(2) len le, of "Some p"] obtain xs mid ys where "ps = xs @ mid @ ys" "live h mid = []"
        "if unat (index - (seen + 1)) < length (live h ps)
         then ys \<noteq> [] \<and> \<not> deleted (h (hd ys)) \<and> length (live h xs) = unat (index - (seen + 1)) \<and>
           seek_index h s index seen pred = Some (Inr (last_of (Some p) xs, Some (hd ys), index))
         else ys = [] \<and> seek_index h s index seen pred =
           Some (Inr (last_of (Some p) xs, None, seen + 1 + of_nat (length (live h ps))))"
        unfolding step by blast
      then show ?thesis
        using False sub by (intro exI [of _ "p # xs"] exI [of _ mid] exI [of _ ys]) (simp add: add.assoc)
    qed
  qed
qed

lemma live_nth_split:
  "i < length (live h ps) \<Longrightarrow>
   \<exists>xs p ys. ps = xs @ p # ys \<and> \<not> deleted (h p) \<and> length (live h xs) = i \<and> live h ps ! i = p"
proof (induction ps arbitrary: i)
  case (Cons q ps)
  show ?case
  proof (cases "\<not> deleted (h q) \<and> i = 0")
    case True
    then show ?thesis by (intro exI [of _ "[]"]) simp
  next
    case False
    let ?j = "if deleted (h q) then i else i - 1"
    have "?j < length (live h ps)" using Cons.prems False by auto
    then obtain xs p ys where "ps = xs @ p # ys" "\<not> deleted (h p)" "length (live h xs) = ?j" "live h ps ! ?j = p"
      using Cons.IH [of ?j] by blast
    then show ?thesis using False by (intro exI [of _ "q # xs"] exI [of _ p] exI [of _ ys]) (auto split: if_splits)
  qed
qed simp

lemma live_tail_splits:
  "chain h s ps \<Longrightarrow> \<exists>xs mid. ps = xs @ mid \<and> live h mid = [] \<and> live_tail h s tail = Some (last_of tail xs)"
proof (induction ps arbitrary: s tail)
  case Nil
  then show ?case by (simp add: live_tail.simps)
next
  case (Cons p ps)
  have s: "s = Some p" "chain h (it_right (h p)) ps" using Cons.prems by simp_all
  have step: "live_tail h s tail = live_tail h (it_right (h p)) (if \<not> deleted (h p) then Some p else tail)"
    using s by (subst live_tail.simps) simp
  obtain xs mid where IH: "ps = xs @ mid" "live h mid = []"
      "live_tail h s tail = Some (last_of (if \<not> deleted (h p) then Some p else tail) xs)"
    using Cons.IH [OF s(2)] step by metis
  show ?case
  proof (cases "xs = [] \<and> deleted (h p)")
    case True
    then show ?thesis using IH by (intro exI [of _ "[]"] exI [of _ "p # mid"]) simp
  next
    case False
    then have "last_of (if \<not> deleted (h p) then Some p else tail) xs = last_of tail (p # xs)" by (auto simp: last_of_def)
    then show ?thesis using IH by (intro exI [of _ "p # xs"] exI [of _ mid]) simp
  qed
qed

section \<open>Frames\<close>

context doc_env
begin

lemma array_get: "doc_ok ok taken E lo H d \<Longrightarrow> hm_get (view_env E 24) name (d_arrays d) = hm_abs (d_arrays d) name"
  and map_get: "doc_ok ok taken E lo H d \<Longrightarrow> find_map E name d = hm_abs (d_roots d) name"
  by (simp_all add: find_map_def doc_ok_def roots_ok_def table_ok_def hm_get_abs hm_inv_core)

lemma array_inj:
  "doc_ok ok taken E lo H d \<Longrightarrow> hm_abs (d_arrays d) n = Some x \<Longrightarrow> hm_abs (d_arrays d) m = Some x \<Longrightarrow> n = m"
  "doc_ok ok taken E lo H d \<Longrightarrow> hm_abs (d_roots d) n = Some x \<Longrightarrow> hm_abs (d_roots d) m = Some x \<Longrightarrow> n = m"
  by (auto simp: doc_ok_def roots_ok_def table_ok_def inj_on_def dom_def)

lemma seq_in:
  assumes d: "doc_ok ok taken E lo H d" and s: "seq_of E d name ps"
  shows "set ps \<subseteq> ss_addrs (d_store d)"
proof (cases "hm_abs (d_arrays d) name")
  case None
  then show ?thesis using s array_get [OF d] by (simp add: seq_of_def)
next
  case (Some arr)
  then have "set_option (d_array_heap d arr) \<subseteq> ss_addrs (d_store d)" "links_in (d_heap d) (ss_addrs (d_store d))"
    using d by (auto simp: doc_ok_def items_ok_def roots_ok_def intro: ranI)
  then show ?thesis using s Some array_get [OF d] chain_in dll_chain by (fastforce simp: seq_of_def)
qed

lemma head_in:
  assumes d: "doc_ok ok taken E lo H d" and h: "head_of E d name key = Some p"
  shows "p \<in> ss_addrs (d_store d)"
proof -
  obtain m where m: "hm_abs (d_roots d) name = Some m" "ym_raw_head (view_env E 24) key (d_map_heap d m) = Some p"
    using h map_get [OF d] by (auto simp: head_of_def split: option.splits)
  then have ok: "map_ok E (ss_addrs (d_store d)) (d_map_heap d m)" using d by (auto simp: doc_ok_def roots_ok_def intro: ranI)
  then have "hm_abs (d_map_heap d m) key = Some (Some p)"
    using m(2) hm_get_abs [OF hm_inv_core, of "view_env E 24" "d_map_heap d m" key]
    by (auto simp: ym_raw_head_def map_ok_def split: option.splits)
  then show ?thesis using ok by (auto simp: map_ok_def dest: ranI)
qed

text \<open>A change of one sequence that leaves the items of the others alone.\<close>

lemma holds_seq_update:
  assumes d: "doc_ok ok taken E lo H d" and d': "doc_ok ok taken E lo' H' d'" and f: "holds E d f"
    and same: "d_arrays d' = d_arrays d" "d_roots d' = d_roots d" "d_map_heap d' = d_map_heap d"
    and arr: "hm_abs (d_arrays d) name = Some arr"
    and other: "\<And>arr'. arr' \<noteq> arr \<Longrightarrow> d_array_heap d' arr' = d_array_heap d arr'"
    and list: "dll (d_heap d') (d_array_heap d' arr) ps"
    and heap: "\<And>q. q \<in> ss_addrs (d_store d) \<Longrightarrow> q \<notin> set (f name) \<Longrightarrow> d_heap d' q = d_heap d q"
    and fields: "\<And>q. q \<in> set ps \<Longrightarrow> it_parent_name (d_heap d' q) = name \<and> it_parent_sub (d_heap d' q) = []"
  shows "holds E d' (f(name := ps))"
    and "plain_of E d' (f(name := ps)) = (plain_of E d f)\<lparr>pl_seqs := (pl_seqs (plain_of E d f))(name := contents (d_heap d') ps)\<rparr>"
proof -
  have seqs: "seq_of E d n (f n)" "\<forall>p \<in> set (f n). it_parent_name (d_heap d p) = n \<and> it_parent_sub (d_heap d p) = []" for n
    using f by (auto simp: holds_def)
  have heads: "it_parent_name (d_heap d p) = n \<and> it_parent_sub (d_heap d p) = k \<and> k \<noteq> []" if "head_of E d n k = Some p" for n k p
    using f that by (auto simp: holds_def)
  have away: "d_heap d' q = d_heap d q" if "q \<in> set (f n)" "n \<noteq> name" for q n
  proof -
    have "q \<notin> set (f name)" using seqs(2) [of n] seqs(2) [of name] that by auto
    moreover have "q \<in> ss_addrs (d_store d)" using seq_in [OF d seqs(1) [of n]] that(1) by blast
    ultimately show ?thesis using heap by blast
  qed
  have head_eq: "head_of E d' n k = head_of E d n k" for n k by (simp add: head_of_def find_map_def same split: option.split)
  have head_heap: "d_heap d' p = d_heap d p" if "head_of E d n k = Some p" for n k p
  proof -
    have "p \<notin> set (f name)" using heads [OF that] seqs(2) [of name] by auto
    then show ?thesis using heap head_in [OF d that] by blast
  qed
  have "seq_of E d' n ((f(name := ps)) n)" for n
  proof (cases "n = name")
    case True
    then show ?thesis using arr list array_get [OF d'] same by (simp add: seq_of_def)
  next
    case False
    show ?thesis
    proof (cases "hm_abs (d_arrays d) n")
      case None
      then show ?thesis using seqs(1) [of n] False array_get [OF d] array_get [OF d'] same by (simp add: seq_of_def)
    next
      case (Some arr')
      then have "arr' \<noteq> arr" using array_inj(1) [OF d] arr False by blast
      then have "dll (d_heap d) (d_array_heap d' arr') (f n)"
        using seqs(1) [of n] Some array_get [OF d] other by (simp add: seq_of_def)
      then have "dll (d_heap d') (d_array_heap d' arr') (f n)"
        using away [OF _ False] by (subst dll_cong [where h = "d_heap d"]) auto
      then show ?thesis using Some False array_get [OF d'] same by (simp add: seq_of_def)
    qed
  qed
  then show "holds E d' (f(name := ps))"
    using fields seqs(2) away heads head_heap by (auto simp: holds_def head_eq)
  have "contents (d_heap d') (f n) = contents (d_heap d) (f n)" if "n \<noteq> name" for n
    using away [OF _ that] by (intro contents_cong) simp
  moreover have "value_of (d_heap d') (head_of E d n k) = value_of (d_heap d) (head_of E d n k)" for n k
    using head_heap by (auto simp: value_of_def split: option.split)
  ultimately show "plain_of E d' (f(name := ps)) = (plain_of E d f)\<lparr>pl_seqs := (pl_seqs (plain_of E d f))(name := contents (d_heap d') ps)\<rparr>"
    by (auto simp: plain_of_def head_eq fun_eq_iff)
qed

text \<open>Opening a root shows nothing new.\<close>

lemma holds_open_array:
  assumes d: "doc_ok ok taken E lo {} d" and f: "holds E d f" and len: "addressable name"
    and run: "get_or_create_array E name d = Some (r, d')"
  shows "holds E d' f" and "plain_of E d' f = plain_of E d f"
proof -
  note G = get_or_create_array_ok [OF d len run]
  have same: "d_heap d' = d_heap d" "d_roots d' = d_roots d" "d_map_heap d' = d_map_heap d" using G by simp_all
  have d': "doc_ok ok taken E lo {} d'" using G by simp
  have head_eq: "head_of E d' n k = head_of E d n k" for n k
    by (simp add: head_of_def find_map_def same split: option.split)
  have "seq_of E d' n (f n)" for n
  proof -
    have s: "seq_of E d n (f n)" using f by (simp add: holds_def)
    consider "hm_abs (d_arrays d') = hm_abs (d_arrays d)" "d_array_heap d' = d_array_heap d"
      | p where "hm_abs (d_arrays d) name = None" "p \<notin> ran (hm_abs (d_arrays d))"
        "hm_abs (d_arrays d') = (hm_abs (d_arrays d))(name \<mapsto> p)" "d_array_heap d' = (d_array_heap d)(p := None)"
      using G by (auto simp: opens_def)
    then show ?thesis
    proof cases
      case 1
      then show ?thesis using s same array_get [OF d] array_get [OF d'] by (simp add: seq_of_def split: option.splits)
    next
      case 2
      have "arr \<noteq> p" if "hm_abs (d_arrays d) n = Some arr" for arr using 2(2) that by (auto intro: ranI)
      then show ?thesis using 2 s same array_get [OF d] array_get [OF d']
        by (cases "n = name") (auto simp: seq_of_def split: option.splits)
    qed
  qed
  then show "holds E d' f" using f by (simp add: holds_def head_eq same)
  show "plain_of E d' f = plain_of E d f" by (simp add: plain_of_def head_eq same)
qed

lemma holds_open_map:
  assumes d: "doc_ok ok taken E lo {} d" and f: "holds E d f" and len: "addressable name"
    and run: "get_or_create_map E name d = Some (r, d')"
  shows "holds E d' f" and "plain_of E d' f = plain_of E d f"
proof -
  note G = get_or_create_map_ok [OF d len run]
  have same: "d_heap d' = d_heap d" "d_arrays d' = d_arrays d" "d_array_heap d' = d_array_heap d" using G by simp_all
  have d': "doc_ok ok taken E lo {} d'" using G by simp
  have head_eq: "head_of E d' n k = head_of E d n k" for n k
  proof -
    consider "hm_abs (d_roots d') = hm_abs (d_roots d)" "d_map_heap d' = d_map_heap d"
      | p where "hm_abs (d_roots d) name = None" "p \<notin> ran (hm_abs (d_roots d))"
        "hm_abs (d_roots d') = (hm_abs (d_roots d))(name \<mapsto> p)" "d_map_heap d' = (d_map_heap d)(p := hm_empty)"
      using G by (auto simp: opens_def)
    then show ?thesis
    proof cases
      case 1
      then show ?thesis using map_get [OF d] map_get [OF d'] by (simp add: head_of_def split: option.split)
    next
      case 2
      have "m \<noteq> p" if "hm_abs (d_roots d) n = Some m" for m using 2(2) that by (auto intro: ranI)
      then show ?thesis using 2 map_get [OF d] map_get [OF d']
        by (cases "n = name") (auto simp: head_of_def ym_raw_head_def hm_get_abs hm_core_empty split: option.split)
    qed
  qed
  have "seq_of E d' n (f n)" for n
  proof -
    have "seq_of E d n (f n)" using f by (simp add: holds_def)
    then show ?thesis using same by (simp add: seq_of_def split: option.splits)
  qed
  then show "holds E d' f" using f by (simp add: holds_def head_eq same)
  show "plain_of E d' f = plain_of E d f" by (simp add: plain_of_def head_eq same)
qed

end

end
