(* ===== verification/Ycpp_DocRefine.thy ===== *)
theory Ycpp_DocRefine
  imports Ycpp_DocEdit
begin

text \<open>
  The local edits of a document, one by one: an insertion, an append and a deletion change the plain
  list of their sequence as the list operation does, and leave every other sequence and every map
  alone; a key write changes one key.
\<close>

context doc_env
begin

section \<open>Sequence edits refine list edits\<close>

text \<open>A new item between the live items \<open>xs\<close> and \<open>ys\<close>.\<close>

lemma emit_refines:
  assumes d: "doc_ok ok taken E lo {} d" and f: "holds E d f" and arr: "hm_abs (d_arrays d) name = Some arr"
    and l: "f name = xs @ mid @ ys" and mid: "live (d_heap d) mid = []"
    and len: "addressable name" "addressable value" "edit_fits (d_next_clock d) value"
    and run: "emit_array_item E arr name (case last_of None xs of None \<Rightarrow> kInvalidId | Some q \<Rightarrow> last_clock_id (d_heap d q))
      (case ys of [] \<Rightarrow> kInvalidId | y # _ \<Rightarrow> it_id (d_heap d y)) value d = Some (Inr i, d')"
  shows "\<exists>f'. holds E d' f' \<and> plain_of E d' f' = (plain_of E d f)\<lparr>pl_seqs := (pl_seqs (plain_of E d f))(name :=
    contents (d_heap d) xs @ [value] @ contents (d_heap d) ys)\<rparr> \<and> inserted E d f d' f'"
proof -
  have ran: "arr \<in> ran (hm_abs (d_arrays d))" using arr by (rule ranI)
  have seq: "seq_of E d name (f name)" using f by (simp add: holds_def)
  then have list: "dll (d_heap d) (d_array_heap d arr) (xs @ mid @ ys)"
    using arr array_get [OF d] l by (simp add: seq_of_def)
  have stored: "set (xs @ mid @ ys) \<subseteq> ss_addrs (d_store d)" using seq_in [OF d seq] l by simp
  have d': "doc_ok ok taken E lo {} d'" by (rule emit_array_item_ok [OF d ran len run])
  obtain p m1 m2 where m: "mid = m1 @ m2" "dll (d_heap d') (d_array_heap d' arr) (xs @ m1 @ p # m2 @ ys)"
    and p: "p \<notin> ss_addrs (d_store d)" "it_content_view (d_heap d' p) = value" "\<not> deleted (d_heap d' p)"
      "it_parent_name (d_heap d' p) = name" "it_parent_sub (d_heap d' p) = []"
      "it_id (d_heap d' p) = Id (d_client_id d) (d_next_clock d)"
    and adds: "ss_addrs (d_store d') = insert p (ss_addrs (d_store d))" "d_client_id d' = d_client_id d"
      "unat (d_next_clock d') = unat (d_next_clock d) + item_width (d_heap d' p)"
    and same: "\<And>q. q \<noteq> p \<Longrightarrow> same_content (d_heap d' q) (d_heap d q)"
    and tables: "d_arrays d' = d_arrays d" "d_roots d' = d_roots d" "d_map_heap d' = d_map_heap d"
      "\<And>arr'. arr' \<noteq> arr \<Longrightarrow> d_array_heap d' arr' = d_array_heap d arr'"
    and away: "\<And>q. q \<notin> set (xs @ mid @ ys) \<Longrightarrow> q \<noteq> p \<Longrightarrow> d_heap d' q = d_heap d q"
    by (rule emit_lands [OF d ran list len run]) blast
  let ?ps = "xs @ m1 @ p # m2 @ ys"
  have fields: "it_parent_name (d_heap d' q) = name \<and> it_parent_sub (d_heap d' q) = []" if "q \<in> set ?ps" for q
  proof (cases "q = p")
    case False
    then have "q \<in> set (f name)" using that l m(1) by auto
    then show ?thesis using f same_contentD(10,11) [OF same [OF False]] by (simp add: holds_def)
  qed (use p in simp)
  have elsewhere: "d_heap d' q = d_heap d q" if "q \<in> ss_addrs (d_store d)" "q \<notin> set (f name)" for q
    using away [of q] that p(1) l by auto
  note upd = holds_seq_update [OF d d' f tables(1-3) arr tables(4) m(2) elsewhere fields]
  have old: "contents (d_heap d') zs = contents (d_heap d) zs" if "set zs \<subseteq> ss_addrs (d_store d)" for zs
  proof (rule contents_cong)
    fix q assume "q \<in> set zs"
    then have "same_content (d_heap d' q) (d_heap d q)" using that p(1) by (intro same) blast
    then show "deleted (d_heap d' q) = deleted (d_heap d q) \<and> it_content_view (d_heap d' q) = it_content_view (d_heap d q)"
      by (simp add: same_contentD)
  qed
  have "live (d_heap d) m1 = []" "live (d_heap d) m2 = []" using mid m(1) by (simp_all add: live_def)
  then have "contents (d_heap d') ?ps = contents (d_heap d) xs @ [value] @ contents (d_heap d) ys"
    using old [of xs] old [of m1] old [of m2] old [of ys] stored m(1) p(2,3)
    by (simp add: contents_append contents_dead contents_cons)
  moreover have "inserted E d f d' (f(name := ?ps))"
    using p adds same l m(1) head_of_cong [OF tables(2,3)] unfolding inserted_def
    by (intro exI [of _ name] exI [of _ p] exI [of _ "xs @ m1"] exI [of _ "m2 @ ys"]) simp
  ultimately show ?thesis using upd by auto
qed

lemma text_append_refines:
  assumes d: "doc_ok ok taken E lo {} d" and f: "holds E d f"
    and len: "addressable name" "addressable value" "edit_fits (d_next_clock d) value"
    and run: "text_append E name value d = Some (Inr i, d')"
  shows "\<exists>f'. holds E d' f' \<and> plain_of E d' f' =
    (plain_of E d f)\<lparr>pl_seqs := (pl_seqs (plain_of E d f))(name := pl_seqs (plain_of E d f) name @ [value])\<rparr> \<and> inserted E d f d' f'"
proof -
  obtain x d1 where goc: "get_or_create_array E name d = Some (x, d1)"
    using run by (auto simp: text_append_def split: option.splits)
  note G = get_or_create_array_ok [OF d len(1) goc] and H = holds_open_array [OF d f len(1) goc]
  have d1: "doc_ok ok taken E lo {} d1" using G by simp
  obtain arr where x: "x = Some arr" using run goc by (cases x) (auto simp: text_append_def)
  then have arr: "hm_abs (d_arrays d1) name = Some arr" using G by (cases "hm_abs (d_arrays d1) name") auto
  have "seq_of E d1 name (f name)" using H(1) by (simp add: holds_def)
  then have list: "dll (d_heap d1) (d_array_heap d1 arr) (f name)" using arr array_get [OF d1] by (simp add: seq_of_def)
  obtain xs mid where xs: "f name = xs @ mid" "live (d_heap d1) mid = []"
      "live_tail (d_heap d1) (d_array_heap d1 arr) None = Some (last_of None xs)"
    using live_tail_splits [OF dll_chain [OF list]] by blast
  have emit: "emit_array_item E arr name (case last_of None xs of None \<Rightarrow> kInvalidId | Some q \<Rightarrow> last_clock_id (d_heap d1 q))
      (case [] :: addr list of [] \<Rightarrow> kInvalidId | y # _ \<Rightarrow> it_id (d_heap d1 y)) value d1 = Some (Inr i, d')"
    using run goc x xs(3) by (simp add: text_append_def)
  have fits: "edit_fits (d_next_clock d1) value" using G len(3) by simp
  have "d_heap d1 = d_heap d" using G by simp
  then have "pl_seqs (plain_of E d f) name = contents (d_heap d1) xs"
    using xs(1,2) by (simp add: plain_of_def contents_append contents_dead)
  moreover obtain f' where f': "holds E d' f'" "plain_of E d' f' = (plain_of E d1 f)\<lparr>pl_seqs := (pl_seqs (plain_of E d1 f))(name :=
      contents (d_heap d1) xs @ [value] @ contents (d_heap d1) [])\<rparr>" "inserted E d1 f d' f'"
    using emit_refines [OF d1 H(1) arr _ xs(2) len(1,2) fits emit] xs(1) by auto
  moreover have "inserted E d f d' f'" by (rule inserted_cong [OF f'(3)]) (use G head_of_cong [of d1 d E] in simp_all)
  ultimately show ?thesis by (auto simp: H(2) contents_def [where ps = "[]"])
qed

text \<open>
  An insertion splits the visible list at the index; an index past the end appends (the code lets
  the length and, on a list that is not empty, the length plus one through).
\<close>

lemma array_insert_refines:
  assumes d: "doc_ok ok taken E lo {} d" and f: "holds E d f"
    and len: "addressable name" "addressable value" "edit_fits (d_next_clock d) value"
    and small: "length (pl_seqs (plain_of E d f) name) < 2 ^ 64"
    and run: "array_insert_at E name index value d = Some (Inr i, d')"
  shows "\<exists>f'. holds E d' f' \<and> plain_of E d' f' = (plain_of E d f)\<lparr>pl_seqs := (pl_seqs (plain_of E d f))(name :=
    take (unat index) (pl_seqs (plain_of E d f) name) @ [value] @ drop (unat index) (pl_seqs (plain_of E d f) name))\<rparr> \<and> inserted E d f d' f'"
proof -
  obtain x d1 where goc: "get_or_create_array E name d = Some (x, d1)"
    using run by (auto simp: array_insert_at_def split: option.splits)
  note G = get_or_create_array_ok [OF d len(1) goc] and H = holds_open_array [OF d f len(1) goc]
  have d1: "doc_ok ok taken E lo {} d1" using G by simp
  obtain arr where x: "x = Some arr" using run goc by (cases x) (auto simp: array_insert_at_def)
  then have arr: "hm_abs (d_arrays d1) name = Some arr" using G by (cases "hm_abs (d_arrays d1) name") auto
  have "seq_of E d1 name (f name)" using H(1) by (simp add: holds_def)
  then have list: "dll (d_heap d1) (d_array_heap d1 arr) (f name)" using arr array_get [OF d1] by (simp add: seq_of_def)
  have heap: "d_heap d1 = d_heap d" using G by simp
  then have old: "pl_seqs (plain_of E d f) name = contents (d_heap d1) (f name)" by (simp add: plain_of_def)
  have small1: "unat (0 :: u64) + length (live (d_heap d1) (f name)) < 2 ^ 64" using small old by (simp add: contents_def)
  obtain xs mid ys where sp: "f name = xs @ mid @ ys" "live (d_heap d1) mid = []"
    and seek: "if unat index < length (live (d_heap d1) (f name))
      then ys \<noteq> [] \<and> \<not> deleted (d_heap d1 (hd ys)) \<and> length (live (d_heap d1) xs) = unat index \<and>
        seek_index (d_heap d1) (d_array_heap d1 arr) index 0 None = Some (Inr (last_of None xs, Some (hd ys), index))
      else ys = [] \<and> seek_index (d_heap d1) (d_array_heap d1 arr) index 0 None =
        Some (Inr (last_of None xs, None, of_nat (length (live (d_heap d1) (f name)))))"
    using seek_index_splits [OF dll_chain [OF list] small1, of index None] by auto
  let ?ol = "case last_of None xs of None \<Rightarrow> kInvalidId | Some q \<Rightarrow> last_clock_id (d_heap d1 q)"
  let ?or = "case ys of [] \<Rightarrow> kInvalidId | y # _ \<Rightarrow> it_id (d_heap d1 y)"
  have emit: "emit_array_item E arr name ?ol ?or value d1 = Some (Inr i, d')"
    using run goc x seek by (auto simp: array_insert_at_def Let_def neq_Nil_conv split: if_splits)
  have fits: "edit_fits (d_next_clock d1) value" using G len(3) by simp
  have new: "contents (d_heap d1) xs = take (unat index) (contents (d_heap d1) (f name))"
    "contents (d_heap d1) ys = drop (unat index) (contents (d_heap d1) (f name))"
    using seek sp by (auto simp: contents_append contents_dead split: if_splits) (simp_all add: contents_def live_def)
  obtain f' where f': "holds E d' f'" "plain_of E d' f' = (plain_of E d1 f)\<lparr>pl_seqs := (pl_seqs (plain_of E d1 f))(name :=
      contents (d_heap d1) xs @ [value] @ contents (d_heap d1) ys)\<rparr>" "inserted E d1 f d' f'"
    using emit_refines [OF d1 H(1) arr sp len(1,2) fits emit] by blast
  moreover have "inserted E d f d' f'" by (rule inserted_cong [OF f'(3)]) (use G head_of_cong [of d1 d E] in simp_all)
  ultimately show ?thesis using new by (auto simp: H(2) old)
qed

lemma array_delete_refines:
  assumes d: "doc_ok ok taken E lo {} d" and f: "holds E d f" and len: "addressable name"
    and small: "length (pl_seqs (plain_of E d f) name) < 2 ^ 64"
    and run: "array_delete_at E name index d = Some (Inr u, d')"
  shows "unat index < length (pl_seqs (plain_of E d f) name)" and "holds E d' f"
    and "plain_of E d' f = (plain_of E d f)\<lparr>pl_seqs := (pl_seqs (plain_of E d f))(name :=
      take (unat index) (pl_seqs (plain_of E d f) name) @ drop (Suc (unat index)) (pl_seqs (plain_of E d f) name))\<rparr>"
proof -
  obtain x d1 where goc: "get_or_create_array E name d = Some (x, d1)"
    using run by (auto simp: array_delete_at_def split: option.splits)
  note G = get_or_create_array_ok [OF d len goc] and H = holds_open_array [OF d f len goc]
  have d1: "doc_ok ok taken E lo {} d1" using G by simp
  obtain arr where x: "x = Some arr" using run goc by (cases x) (auto simp: array_delete_at_def)
  then have arr: "hm_abs (d_arrays d1) name = Some arr" using G by (cases "hm_abs (d_arrays d1) name") auto
  have seq: "seq_of E d1 name (f name)" using H(1) by (simp add: holds_def)
  then have list: "dll (d_heap d1) (d_array_heap d1 arr) (f name)" using arr array_get [OF d1] by (simp add: seq_of_def)
  have heap: "d_heap d1 = d_heap d" using G by simp
  then have old: "pl_seqs (plain_of E d f) name = contents (d_heap d1) (f name)" by (simp add: plain_of_def)
  have small1: "unat (0 :: u64) + length (live (d_heap d1) (f name)) < 2 ^ 64" using small old by (simp add: contents_def)
  note at = ya_at_chain [OF dll_chain [OF list] small1, of index, simplified]
  have lt: "unat index < length (live (d_heap d1) (f name))"
    using run goc x at by (auto simp: array_delete_at_def ya_at_def split: if_splits)
  then show "unat index < length (pl_seqs (plain_of E d f) name)" using old by (simp add: contents_def)
  obtain xs p ys where sp: "f name = xs @ p # ys" "\<not> deleted (d_heap d1 p)" "length (live (d_heap d1) xs) = unat index"
      "live (d_heap d1) (f name) ! unat index = p"
    using live_nth_split [OF lt] by blast
  then have p: "p \<in> ss_addrs (d_store d1)" using seq_in [OF d1 seq] by auto
  have apart: "p \<notin> set xs" "p \<notin> set ys" using list sp(1) by (auto simp: dll_def)
  define d2 where "d2 = d1\<lparr>d_heap := (d_heap d1)(p := set_deleted (d_heap d1 p))\<rparr>"
  have d2: "doc_ok ok taken E lo {} d2" unfolding d2_def by (rule doc_ok_retouch) (use d1 in simp_all)
  have p2: "p \<in> ss_addrs (d_store d2)" using p by (simp add: d2_def)
  have del: "doc_delete E (id_client (it_id (d_heap d2 p))) (id_clock (it_id (d_heap d2 p))) (run_length (d_heap d2 p)) d2 = (Inr u, d')"
    using run goc x at lt by (simp add: array_delete_at_def Let_def d2_def sp(4) ya_mark_deleted_def ya_at_def)
  note D = doc_delete_ok [OF d2 stored_range_wf [OF d2 p2] del]
  have same: "d_heap d' = (d_heap d1)(p := set_deleted (d_heap d1 p))" "d_arrays d' = d_arrays d1" "d_roots d' = d_roots d1"
    "d_map_heap d' = d_map_heap d1" "d_array_heap d' = d_array_heap d1" "d_store d' = d_store d1"
    using D(2) by (auto simp: d2_def)
  have "dll (d_heap d') (d_array_heap d' arr) (f name)"
    using list same by (subst dll_cong [where h = "d_heap d1"]) (auto simp: set_deleted_def)
  moreover have "it_parent_name (d_heap d' q) = name \<and> it_parent_sub (d_heap d' q) = []" if "q \<in> set (f name)" for q
    using H(1) that same(1) by (auto simp: holds_def set_deleted_def)
  moreover have "d_heap d' q = d_heap d1 q" if "q \<notin> set (f name)" for q using that sp(1) same(1) by auto
  moreover have "doc_ok ok taken E lo {} d'" by (rule array_delete_at_ok [OF d len run])
  ultimately have upd: "holds E d' (f(name := f name))" "plain_of E d' (f(name := f name)) =
      (plain_of E d1 f)\<lparr>pl_seqs := (pl_seqs (plain_of E d1 f))(name := contents (d_heap d') (f name))\<rparr>"
    using holds_seq_update [OF d1 _ H(1) same(2-4) arr, of lo "{}" "f name"] same(5) by simp_all
  then show "holds E d' f" by simp
  have keep: "contents (d_heap d') zs = contents (d_heap d1) zs" if "p \<notin> set zs" for zs
    using that same(1) by (intro contents_cong) auto
  have "length (contents (d_heap d1) xs) = unat index" using sp(3) by (simp add: contents_def)
  then have "contents (d_heap d') (f name) =
      take (unat index) (contents (d_heap d1) (f name)) @ drop (Suc (unat index)) (contents (d_heap d1) (f name))"
    using keep apart sp(2) same(1) by (simp add: sp(1) contents_append contents_cons)
  then show "plain_of E d' f = (plain_of E d f)\<lparr>pl_seqs := (pl_seqs (plain_of E d f))(name :=
      take (unat index) (pl_seqs (plain_of E d f) name) @ drop (Suc (unat index)) (pl_seqs (plain_of E d f) name))\<rparr>"
    using upd(2) by (simp add: H(2) old)
qed

section \<open>Map edits refine map updates\<close>

text \<open>
  An item whose left origin is the head of its key wins.  When the table of heads cannot grow the
  code drops the new key without a status.
\<close>

lemma install_map_lands:
  assumes d: "doc_ok ok taken E lo H d" and p: "p \<in> H" and fits: "item_fits (d_heap d p)"
    and links: "it_left (d_heap d p) = None" "it_right (d_heap d p) = None"
    and m: "m \<in> ran (hm_abs (d_roots d))"
    and prior: "ym_raw_head (view_env E 24) (it_parent_sub (d_heap d p)) (d_map_heap d m) = prior"
    and left: "\<And>q. prior = Some q \<Longrightarrow>
      is_valid (it_origin_left (d_heap d p)) \<and> doc_find E d (it_origin_left (d_heap d p)) = Some q \<and> q \<noteq> p"
    and run: "install_into_map E p m d = (Inr (), d')"
  shows "\<exists>mm. d_map_heap d' = (d_map_heap d)(m := mm) \<and>
      (hm_abs mm = (hm_abs (d_map_heap d m))(it_parent_sub (d_heap d p) \<mapsto> Some p) \<or>
       prior = None \<and> hm_abs mm = hm_abs (d_map_heap d m))"
    and "d_heap d' = (case prior of None \<Rightarrow> d_heap d | Some q \<Rightarrow> (d_heap d)(q := set_deleted (d_heap d q)))"
    and "d_arrays d' = d_arrays d \<and> d_array_heap d' = d_array_heap d \<and> d_roots d' = d_roots d"
proof -
  let ?x = "d_heap d p" and ?V = "view_env E 24"
  let ?k = "it_parent_sub ?x"
  obtain r1 d1 where app: "doc_append E p d = (r1, d1)" by fastforce
  have r1: "r1 = Inr ()" using run app by (cases r1) (auto simp: install_into_map_def)
  note found = doc_append_find [OF d p fits links app]
  obtain ss a where d1: "d1 = d\<lparr>d_store := ss, d_alloc := a\<rparr>" using doc_append_ok(2) [OF d p fits links app] by blast
  have "map_ok E (ss_addrs (d_store d)) (d_map_heap d m)" using d m by (auto simp: doc_ok_def roots_ok_def)
  then have inv: "hm_inv ?V (d_map_heap d m)" by (simp add: map_ok_def)
  have get: "hm_get ?V ?k (d_map_heap d m) = hm_abs (d_map_heap d m) ?k" by (rule hm_get_abs [OF hm_inv_core [OF inv]])
  obtain l mm b where ym: "ym_integrate ?V (doc_find E d1) (d_heap d1) p (d_map_heap d1 m, d_alloc d1) = (l, mm, b)"
    by (metis prod.collapse)
  have wins: "ym_sorts_right_of (doc_find E d1) (d_heap d) q p" if q: "prior = Some q" for q
  proof -
    have "ym_origin_of (doc_find E d1) (d_heap d) p = Some q" using left [OF q] found by (simp add: ym_origin_of_def)
    then have "fst (ym_chain (Suc (Suc 254)) (doc_find E d1) (d_heap d) q (Some p) [])"
      using left [OF q] by (simp only: ym_chain.simps option.case) simp
    moreover have "kMaxOriginChain = Suc (Suc 254)" by (simp add: kMaxOriginChain_def)
    ultimately have "fst (ym_chain kMaxOriginChain (doc_find E d1) (d_heap d) q (Some p) [])" by metis
    then show ?thesis by (auto simp: ym_sorts_right_of_def split: prod.splits)
  qed
  have assign: "hm_abs (hm_assign ?V ?k (Some p) (d_map_heap d m)) = (hm_abs (d_map_heap d m))(?k \<mapsto> Some p)"
    if "hm_abs (d_map_heap d m) ?k \<noteq> None" using hm_assign_spec(2) [OF inv, of ?k "Some p"] that by auto
  have "l = prior \<and> (hm_abs mm = (hm_abs (d_map_heap d m))(?k \<mapsto> Some p) \<or>
       prior = None \<and> hm_abs mm = hm_abs (d_map_heap d m))"
  proof (cases "hm_abs (d_map_heap d m) ?k")
    case None
    obtain x m1 a1 where ins: "hm_insert ?V ?k (Some p) (d_map_heap d m, a) = (x, m1, a1)" by (metis prod.collapse)
    have "hm_abs m1 = (hm_abs (d_map_heap d m))(?k \<mapsto> Some p) \<or> hm_abs m1 = hm_abs (d_map_heap d m)"
      by (rule hm_insert_spec [OF inv, of ?k "Some p" a]) (use ins None in \<open>auto split: if_splits\<close>)
    then show ?thesis using ym prior get None ins d1 by (auto simp: ym_integrate_def ym_raw_head_def)
  next
    case (Some v)
    then show ?thesis using ym prior get wins d1 assign
      by (cases v) (auto simp: ym_integrate_def ym_raw_head_def)
  qed
  then have l: "l = prior" and mm: "hm_abs mm = (hm_abs (d_map_heap d m))(?k \<mapsto> Some p) \<or>
       prior = None \<and> hm_abs mm = hm_abs (d_map_heap d m)" by blast+
  define d2 where "d2 = d1\<lparr>d_map_heap := (d_map_heap d1)(m := mm), d_alloc := b\<rparr>"
  have bump: "d_map_heap (bump_clock_for p e) = d_map_heap e \<and> d_heap (bump_clock_for p e) = d_heap e \<and>
      d_arrays (bump_clock_for p e) = d_arrays e \<and> d_array_heap (bump_clock_for p e) = d_array_heap e \<and>
      d_roots (bump_clock_for p e) = d_roots e" for e :: "'a doc"
    by (simp add: bump_clock_for_def Let_def)
  have del: "d_map_heap e' = d_map_heap e \<and> d_heap e' = d_heap e \<and> d_arrays e' = d_arrays e \<and>
      d_array_heap e' = d_array_heap e \<and> d_roots e' = d_roots e" if "doc_delete E c k n e = (r, e')" for c k n e r e'
    using that by (auto simp: doc_delete_def split: prod.splits)
  have out: "d_map_heap d' = d_map_heap d2 \<and>
      d_heap d' = (case prior of None \<Rightarrow> d_heap d2 | Some q \<Rightarrow> (d_heap d2)(q := set_deleted (d_heap d2 q))) \<and>
      d_arrays d' = d_arrays d2 \<and> d_array_heap d' = d_array_heap d2 \<and> d_roots d' = d_roots d2"
  proof (cases prior)
    case None
    then have "d' = bump_clock_for p d2" using run app r1 ym l by (simp add: install_into_map_def d2_def)
    then show ?thesis using None bump by simp
  next
    case (Some q)
    define d3 where "d3 = d2\<lparr>d_heap := (d_heap d2)(q := set_deleted (d_heap d2 q))\<rparr>"
    obtain r4 d4 where rm: "doc_delete E (id_client (it_id (d_heap d3 q))) (id_clock (it_id (d_heap d3 q))) (run_length (d_heap d3 q)) d3 = (r4, d4)"
      by fastforce
    have "(Inr (), d') = (case r4 of Inl e \<Rightarrow> (Inl e, d4) | Inr _ \<Rightarrow> (Inr (), bump_clock_for p d4))"
      using run app r1 ym l Some rm by (simp add: install_into_map_def Let_def d2_def d3_def ytry_apply)
    then have "d' = bump_clock_for p d4" by (auto split: sum.splits)
    then show ?thesis using Some bump del [OF rm] by (simp add: d3_def)
  qed
  then show "\<exists>mm. d_map_heap d' = (d_map_heap d)(m := mm) \<and>
      (hm_abs mm = (hm_abs (d_map_heap d m))(it_parent_sub (d_heap d p) \<mapsto> Some p) \<or>
       prior = None \<and> hm_abs mm = hm_abs (d_map_heap d m))"
    "d_heap d' = (case prior of None \<Rightarrow> d_heap d | Some q \<Rightarrow> (d_heap d)(q := set_deleted (d_heap d q)))"
    "d_arrays d' = d_arrays d \<and> d_array_heap d' = d_array_heap d \<and> d_roots d' = d_roots d"
    using mm by (auto simp: d2_def d1 split: option.splits)
qed

lemma map_set_refines:
  assumes d: "doc_ok ok taken E lo {} d" and f: "holds E d f" and key: "key \<noteq> []"
    and len: "addressable name" "addressable key" "addressable value" "edit_fits (d_next_clock d) value"
    and run: "map_set_string E name key value d = Some (Inr i, d')"
  shows "holds E d' f" and "plain_of E d' f = (plain_of E d f)\<lparr>pl_maps := (pl_maps (plain_of E d f))(name :=
      (pl_maps (plain_of E d f) name)(key \<mapsto> value))\<rparr> \<or>
    pl_maps (plain_of E d f) name key = None \<and> plain_of E d' f = plain_of E d f"
proof -
  obtain x d1 where goc: "get_or_create_map E name d = Some (x, d1)"
    using run by (auto simp: map_set_string_def split: option.splits)
  note G = get_or_create_map_ok [OF d len(1) goc] and H = holds_open_map [OF d f len(1) goc]
  have d1: "doc_ok ok taken E lo {} d1" using G by simp
  obtain m where x: "x = Some m" using run goc by (cases x) (auto simp: map_set_string_def)
  then have m: "hm_abs (d_roots d1) name = Some m" using G by (cases "hm_abs (d_roots d1) name") auto
  obtain it d2 where acq: "doc_acquire_item E d1 = (it, d2)" by fastforce
  note A = doc_acquire_ok [OF d1 acq]
  obtain p where it: "it = Some p" using run goc x acq by (cases it) (auto simp: map_set_string_def)
  have d2: "doc_ok ok taken E lo {p} d2" "p \<notin> ss_addrs (d_store d1)" "d_heap d2 = (d_heap d1)(p := item_default)"
    using A(2) [OF it] by auto
  obtain n d3 where c1: "doc_clone E name d2 = (n, d3)" by fastforce
  note C1 = doc_clone_ok [OF d2(1) len(1) c1]
  obtain k d4 where c2: "doc_clone E key d3 = (k, d4)" by fastforce
  note C2 = doc_clone_ok [OF C1(1) len(2) c2]
  obtain v d5 where c3: "doc_clone E value d4 = (v, d5)" by fastforce
  note C3 = doc_clone_ok [OF C2(1) len(3) c3]
  have frame: "d_store d5 = d_store d1" "d_roots d5 = d_roots d1" "d_next_clock d5 = d_next_clock d1" "d_arrays d5 = d_arrays d1"
    "d_map_heap d5 = d_map_heap d1" "d_array_heap d5 = d_array_heap d1" "d_heap d5 = (d_heap d1)(p := item_default)"
    using A(3) C1(2) C2(2) C3(2) d2(3) by auto
  have nkv: "n = Some name" "k = Some key" "v = Some value"
    using run goc x acq it c1 c2 c3 C1(3) C2(3) C3(3) by (auto simp: map_set_string_def split: if_splits)
  define prior where "prior = ym_raw_head (view_env E 24) key (d_map_heap d1 m)"
  have head: "head_of E d1 name key = prior" using m map_get [OF d1] by (simp add: head_of_def prior_def)
  have stored: "q \<in> ss_addrs (d_store d1)" "q \<noteq> p" if "prior = Some q" for q
    using head_in [OF d1] head that d2(2) by auto
  let ?ol = "case prior of None \<Rightarrow> kInvalidId | Some q \<Rightarrow> last_clock_id (d_heap d1 q)"
  let ?x = "local_item d5 ?ol kInvalidId name key value"
  have ol: "(case prior of None \<Rightarrow> kInvalidId | Some q \<Rightarrow> last_clock_id (d_heap d5 q)) = ?ol"
    using stored by (auto simp: frame split: option.split)
  define d6 where "d6 = d5\<lparr>d_heap := (d_heap d5)(p := ?x)\<rparr>"
  have d6: "doc_ok ok taken E lo {p} d6" "d_heap d6 p = ?x" "m \<in> ran (hm_abs (d_roots d6))" "d_heap d6 = (d_heap d1)(p := ?x)"
    using doc_ok_write_held [OF C3(1), of p ?x] d2(2) frame ranI [of "hm_abs (d_roots d1)", OF m] by (simp_all add: d6_def)
  have "ytry (install_into_map E p m) (\<lambda>_ d. (Inr (it_id (d_heap d p)), d)) d6 = (Inr i, d')"
    using run goc x acq it c1 c2 c3 nkv ol
    by (simp add: map_set_string_def Let_def d6_def frame(5) prior_def)
  then have inst: "install_into_map E p m d6 = (Inr (), d')"
    by (auto simp: ytry_apply split: prod.splits sum.splits)
  have px: "it_origin_left ?x = ?ol" "it_content_view ?x = value" "it_parent_name ?x = name" "it_parent_sub ?x = key"
    "\<not> deleted ?x" "item_fits ?x" "it_left ?x = None" "it_right ?x = None"
    using len G frame by (simp_all add: local_item_fits local_item_links)
      (simp_all add: local_item_def Let_def item_default_def deleted_def)
  have inv: "ss_inv E (d_heap d1) (d_store d1)" using d1 by (simp add: doc_ok_def items_ok_def)
  have "d_heap d6 q = d_heap d1 q" if "q \<in> ss_addrs (d_store d1)" for q using that d2(2) d6(4) by auto
  then have "ss_find_by_id E (d_heap d6) j (d_store d1) = ss_find_by_id E (d_heap d1) j (d_store d1)" for j
    by (intro ss_find_cong [OF inv]) simp
  then have find: "doc_find E d6 j = doc_find E d1 j" for j using frame by (simp add: doc_find_def d6_def)
  have left: "is_valid ?ol \<and> doc_find E d6 ?ol = Some q \<and> q \<noteq> p" if "prior = Some q" for q
    using stored [OF that] stored_ids(3,4) [OF d1, of q] that by (simp add: find)
  have map6: "d_map_heap d6 m = d_map_heap d1 m" by (simp add: d6_def frame)
  have held: "item_fits (d_heap d6 p)" "it_left (d_heap d6 p) = None" "it_right (d_heap d6 p) = None"
    "ym_raw_head (view_env E 24) (it_parent_sub (d_heap d6 p)) (d_map_heap d6 m) = prior"
    "\<And>q. prior = Some q \<Longrightarrow> is_valid (it_origin_left (d_heap d6 p)) \<and> doc_find E d6 (it_origin_left (d_heap d6 p)) = Some q \<and> q \<noteq> p"
    unfolding d6(2) px map6 by (rule px(6), rule refl, rule refl, rule prior_def [symmetric], rule left)
  note L = install_map_lands [OF d6(1) singletonI held(1-3) d6(3) held(4,5) inst]
  obtain mm where mm: "d_map_heap d' = (d_map_heap d1)(m := mm)"
      "hm_abs mm = (hm_abs (d_map_heap d1 m))(key \<mapsto> Some p) \<or> prior = None \<and> hm_abs mm = hm_abs (d_map_heap d1 m)"
    using L(1) by (auto simp: d6(2) px map6) (auto simp: d6_def frame)
  have tables: "d_arrays d' = d_arrays d1" "d_array_heap d' = d_array_heap d1" "d_roots d' = d_roots d1"
    using L(3) by (simp_all add: d6_def frame)
  have at_p: "d_heap d' p = ?x" using L(2) d6(2) stored(2) by (auto split: option.split)
  have other: "d_heap d' r = (if prior = Some r then set_deleted (d_heap d1 r) else d_heap d1 r)" if "r \<noteq> p" for r
    using L(2) d6(4) that by (auto split: option.split)
  have d': "doc_ok ok taken E lo {} d'" by (rule map_set_string_ok [OF d len run])
  have seqs: "seq_of E d1 n (f n)" "\<forall>q \<in> set (f n). it_parent_name (d_heap d1 q) = n \<and> it_parent_sub (d_heap d1 q) = []" for n
    using H(1) by (auto simp: holds_def)
  have heads: "it_parent_name (d_heap d1 q) = n \<and> it_parent_sub (d_heap d1 q) = k \<and> k \<noteq> []" if "head_of E d1 n k = Some q" for n k q
    using H(1) that by (auto simp: holds_def)
  have fixed: "d_heap d' q = d_heap d1 q" if "q \<in> set (f n)" for n q
  proof -
    have "q \<noteq> p" using seq_in [OF d1 seqs(1) [of n]] that d2(2) by blast
    moreover have "prior \<noteq> Some q" using heads [of name key q] seqs(2) [of n] that head by auto
    ultimately show ?thesis using other by simp
  qed
  have fixed_head: "d_heap d' q = d_heap d1 q" if "head_of E d1 n k = Some q" "n \<noteq> name \<or> k \<noteq> key" for n k q
  proof -
    have "q \<noteq> p" using head_in [OF d1 that(1)] d2(2) by blast
    moreover have "prior \<noteq> Some q" using heads [of name key q] heads [OF that(1)] that(2) head by auto
    ultimately show ?thesis using other by simp
  qed
  have raw: "ym_raw_head (view_env E 24) k (d_map_heap e r) = (case hm_abs (d_map_heap e r) k of None \<Rightarrow> None | Some v \<Rightarrow> v)"
    if "doc_ok ok taken E lo {} e" "r \<in> ran (hm_abs (d_roots e))" for e r k
  proof -
    have "hm_inv (view_env E 24) (d_map_heap e r)" using that by (auto simp: doc_ok_def roots_ok_def map_ok_def)
    then show ?thesis by (simp add: ym_raw_head_def hm_get_abs hm_inv_core)
  qed
  have head': "head_of E d' n k = (if n = name \<and> k = key \<and> hm_abs mm key = Some (Some p) then Some p else head_of E d1 n k)" for n k
  proof (cases "hm_abs (d_roots d1) n")
    case None
    then show ?thesis using m map_get [OF d1] map_get [OF d'] tables by (auto simp: head_of_def)
  next
    case (Some r)
    have "n = name" if "r = m" using array_inj(2) [OF d1 Some, of name] m that by simp
    then have r: "r \<in> ran (hm_abs (d_roots d1))" "r = m \<longleftrightarrow> n = name" using ranI [of "hm_abs (d_roots d1)", OF Some] m Some by auto
    have get: "head_of E d' n k = ym_raw_head (view_env E 24) k (d_map_heap d' r)"
      "head_of E d1 n k = ym_raw_head (view_env E 24) k (d_map_heap d1 r)"
      using Some map_get [OF d1] map_get [OF d'] tables(3) by (simp_all add: head_of_def)
    have old: "head_of E d1 n k = (case hm_abs (d_map_heap d1 r) k of None \<Rightarrow> None | Some v \<Rightarrow> v)"
      unfolding get by (rule raw [OF d1 r(1)])
    have new: "head_of E d' n k = (case hm_abs (((d_map_heap d1)(m := mm)) r) k of None \<Rightarrow> None | Some v \<Rightarrow> v)"
      unfolding get mm(1) [symmetric] by (rule raw [OF d']) (use r(1) tables(3) in simp)
    show ?thesis
    proof (cases "n = name")
      case True
      then have "r = m" using r(2) by simp
      moreover have "hm_abs (d_map_heap d1 m) key \<noteq> Some (Some p)"
        using stored(2) [of p] raw [OF d1, of m key] r(1) \<open>r = m\<close> by (auto simp: prior_def)
      ultimately show ?thesis using mm(2) old new True by (elim disjE) auto
    next
      case False
      then show ?thesis using old new r(2) by simp
    qed
  qed
  have "seq_of E d' n (f n)" for n
  proof (cases "hm_abs (d_arrays d1) n")
    case None
    then show ?thesis using seqs(1) [of n] array_get [OF d1] array_get [OF d'] tables by (simp add: seq_of_def)
  next
    case (Some arr)
    then have "dll (d_heap d1) (d_array_heap d1 arr) (f n)" using seqs(1) [of n] array_get [OF d1] by (simp add: seq_of_def)
    then have "dll (d_heap d') (d_array_heap d' arr) (f n)"
      using fixed [of _ n] tables by (subst dll_cong [where h = "d_heap d1"]) auto
    then show ?thesis using Some array_get [OF d'] tables by (simp add: seq_of_def)
  qed
  moreover have "it_parent_name (d_heap d' q) = n \<and> it_parent_sub (d_heap d' q) = k \<and> k \<noteq> []" if "head_of E d' n k = Some q" for n k q
  proof (cases "q = p")
    case True
    have "head_of E d1 n k \<noteq> Some p" using head_in [OF d1] d2(2) by blast
    then show ?thesis using that head' [of n k] True at_p px key by (auto split: if_splits)
  next
    case False
    then have "head_of E d1 n k = Some q" using that head' [of n k] by (auto split: if_splits)
    then show ?thesis using heads other [OF False] by (auto simp: set_deleted_def)
  qed
  ultimately show "holds E d' f" using seqs(2) fixed by (auto simp: holds_def)
  have lists: "contents (d_heap d') (f n) = contents (d_heap d1) (f n)" for n
    using fixed by (intro contents_cong) auto
  have away: "value_of (d_heap d') (head_of E d1 n k) = value_of (d_heap d1) (head_of E d1 n k)" if "n \<noteq> name \<or> k \<noteq> key" for n k
    using fixed_head [of n k] that by (auto simp: value_of_def split: option.split)
  show "plain_of E d' f = (plain_of E d f)\<lparr>pl_maps := (pl_maps (plain_of E d f))(name :=
      (pl_maps (plain_of E d f) name)(key \<mapsto> value))\<rparr> \<or>
    pl_maps (plain_of E d f) name key = None \<and> plain_of E d' f = plain_of E d f"
  proof (cases "hm_abs mm key = Some (Some p)")
    case True
    have "value_of (d_heap d') (head_of E d' n k) = (if n = name \<and> k = key then Some value else value_of (d_heap d1) (head_of E d1 n k))" for n k
      using away [of n k] by (auto simp: head' True value_of_def at_p px)
    then have "plain_of E d' f = (plain_of E d1 f)\<lparr>pl_maps := (pl_maps (plain_of E d1 f))(name :=
        (pl_maps (plain_of E d1 f) name)(key \<mapsto> value))\<rparr>"
      using lists by (simp add: plain_of_def fun_eq_iff)
    then show ?thesis by (simp add: H(2))
  next
    case False
    then have "prior = None" using mm(2) by auto
    then have none: "head_of E d1 name key = None" using head by simp
    have "value_of (d_heap d') (head_of E d' n k) = value_of (d_heap d1) (head_of E d1 n k)" for n k
      using away [of n k] none by (cases "n = name \<and> k = key") (auto simp: head' False value_of_def)
    then have "plain_of E d' f = plain_of E d1 f" using lists by (simp add: plain_of_def fun_eq_iff)
    moreover have "pl_maps (plain_of E d1 f) name key = None" using none by (simp add: plain_of_def value_of_def)
    ultimately show ?thesis by (simp add: H(2))
  qed
qed

end

end
