(* ===== verification/Ycpp_DocRun.thy ===== *)
theory Ycpp_DocRun
  imports Ycpp_DocOps
begin

text \<open>
  A document in use: any sequence of public operations on a document and the undo manager that
  captures it, with updates from any source in between.  The invariant holds in every state such a
  sequence reaches, on the arena and so on any allocator with its contract.
\<close>

section \<open>Runs\<close>

inductive doc_step :: "(u64, 'a) hm_env \<Rightarrow> undo_manager \<times> 'a doc \<Rightarrow> undo_manager \<times> 'a doc \<Rightarrow> bool" for E where
  open_map: "addressable name \<Longrightarrow> get_or_create_map E name d = Some (r, d') \<Longrightarrow> doc_step E (um, d) (um, d')"
| open_array: "addressable name \<Longrightarrow> get_or_create_array E name d = Some (r, d') \<Longrightarrow> doc_step E (um, d) (um, d')"
| set_key: "addressable name \<Longrightarrow> addressable key \<Longrightarrow> addressable value \<Longrightarrow> edit_fits (d_next_clock d) value \<Longrightarrow>
    map_set_string E name key value d = Some (s, d') \<Longrightarrow> doc_step E (um, d) (um, d')"
| insert_at: "addressable name \<Longrightarrow> addressable value \<Longrightarrow> edit_fits (d_next_clock d) value \<Longrightarrow>
    array_insert_at E name index value d = Some (s, d') \<Longrightarrow> doc_step E (um, d) (um, d')"
| append: "addressable name \<Longrightarrow> addressable value \<Longrightarrow> edit_fits (d_next_clock d) value \<Longrightarrow>
    text_append E name value d = Some (s, d') \<Longrightarrow> doc_step E (um, d) (um, d')"
| delete_at: "addressable name \<Longrightarrow> array_delete_at E name index d = Some (u, d') \<Longrightarrow> doc_step E (um, d) (um, d')"
| update: "update_fits E bs (d_alloc d) \<Longrightarrow> apply_update_v1 E bs d = Some (u, d') \<Longrightarrow> doc_step E (um, d) (um, d')"
| compact: "doc_compact E d = (n, d') \<Longrightarrow> doc_step E (um, d) (um, d')"
| track: "um_track origin um = (u, um') \<Longrightarrow> doc_step E (um, d) (um', d)"
| capture: "um_capture_begin origin (um, d) = (u, um', d') \<Longrightarrow> doc_step E (um, d) (um', d')"
| finish: "um_capture_end (um, d) = (u, um', d') \<Longrightarrow> doc_step E (um, d) (um', d')"
| undo: "um_do_undo E (um, d) = (u, um', d') \<Longrightarrow> doc_step E (um, d) (um', d')"
| redo: "um_do_redo E (um, d) = (u, um', d') \<Longrightarrow> doc_step E (um, d) (um', d')"

text \<open>The frames of the undo manager are ranges of clocks the document has reached.\<close>

definition frames_ok :: "undo_manager \<Rightarrow> u64 \<Rightarrow> bool" where
  "frames_ok um clk \<longleftrightarrow> (\<forall>f \<in> set (um_undo um) \<union> set (um_redo um). f_start f < f_end f \<and> f_end f \<le> clk) \<and>
     (um_open_active um \<longrightarrow> um_pre_clock um \<le> clk)"

lemma frames_ok_later: "frames_ok um c \<Longrightarrow> c \<le> c' \<Longrightarrow> frames_ok um c'"
  by (auto simp: frames_ok_def intro: order_trans)

lemma capture_end_frames:
  assumes "um_capture_end (um, d) = (r, um', d')" and "frames_ok um (d_next_clock d)"
  shows "d' = d" and "frames_ok um' (d_next_clock d)"
proof -
  show "d' = d" using assms(1) by (auto simp: um_capture_end_def Let_def split: if_splits)
  let ?pre = "um_pre_clock um" and ?now = "d_next_clock d"
  have pre: "um_open_active um \<Longrightarrow> ?pre \<le> ?now" and old: "\<forall>f \<in> set (um_undo um). f_start f < f_end f \<and> f_end f \<le> ?now"
    using assms(2) by (auto simp: frames_ok_def)
  have tl: "\<forall>f \<in> set (tl (um_undo um)). f_start f < f_end f \<and> f_end f \<le> ?now"
    using old by (cases "um_undo um") auto
  show "frames_ok um' ?now"
  proof (cases "um_open_active um \<and> ?now \<noteq> ?pre")
    case True
    then have "?pre < ?now" using pre by (auto simp: order.strict_iff_order)
    then show ?thesis using assms(1) True old tl by (auto simp: um_capture_end_def Let_def frames_ok_def split: if_splits)
  next
    case False
    then show ?thesis using assms by (auto simp: um_capture_end_def Let_def frames_ok_def split: if_splits)
  qed
qed

lemma doc_ok_lower: "doc_ok ok taken E lo H d \<Longrightarrow> doc_ok ok taken E (d_next_clock d) H d"
  and doc_ok_zero: "doc_ok ok taken E lo H d \<Longrightarrow> doc_ok ok taken E 0 H d"
  and doc_ok_reached: "doc_ok ok taken E lo H d \<Longrightarrow> lo \<le> d_next_clock d"
  by (auto simp: doc_ok_def items_ok_def)

text \<open>A span of clocks is a range that does not wrap.\<close>

lemma clock_span_wf:
  assumes "s < e"
  shows "dr_wf \<lparr>dr_clock_start = s, dr_length = e - s\<rparr>"
  using assms unat_u64 [of e]
  by (auto simp: dr_wf_def dr_stop_def dr_start_def unat_sub word_less_nat_alt word_le_nat_alt)

lemma set_butlast: "set (butlast xs) \<subseteq> set xs"
  by (auto dest: in_set_butlastD)

context doc_env
begin

lemma undo_ok:
  assumes d: "doc_ok ok taken E (d_next_clock d) {} d" and fr: "frames_ok um (d_next_clock d)"
    and run: "um_do_undo E (um, d) = (r, um', d')"
  shows "doc_ok ok taken E (d_next_clock d) {} d' \<and> frames_ok um' (d_next_clock d)"
proof (cases "um_undo um = []")
  case True
  then show ?thesis using run d fr by (simp add: um_do_undo_def)
next
  case False
  let ?f = "last (um_undo um)"
  have f: "f_start ?f < f_end ?f" "f_end ?f \<le> d_next_clock d" "\<forall>f \<in> set (butlast (um_undo um)). f_start f < f_end f \<and> f_end f \<le> d_next_clock d"
    using fr False set_butlast [of "um_undo um"] by (auto simp: frames_ok_def)
  define d1 where "d1 = mark_range_flag E (f_client ?f) (f_start ?f) (f_end ?f) True d"
  have d1: "doc_ok ok taken E (d_next_clock d) {} d1" unfolding d1_def by (rule mark_range_flag_ok [OF d])
  note wf = clock_span_wf [OF f(1)]
  obtain r2 d2 where del: "doc_delete E (f_client ?f) (f_start ?f) (f_end ?f - f_start ?f) d1 = (r2, d2)" by fastforce
  have "d' = d2" "frames_ok um' (d_next_clock d)"
    using run False del f fr by (auto simp: um_do_undo_def Let_def d1_def [symmetric] frames_ok_def split: sum.splits if_splits)
  then show ?thesis using doc_delete_ok(1) [OF d1 wf del] by simp
qed

lemma redo_ok:
  assumes d: "doc_ok ok taken E (d_next_clock d) {} d" and fr: "frames_ok um (d_next_clock d)"
    and run: "um_do_redo E (um, d) = (r, um', d')"
  shows "doc_ok ok taken E (d_next_clock d) {} d' \<and> frames_ok um' (d_next_clock d)"
proof (cases "um_redo um = []")
  case True
  then show ?thesis using run d fr by (simp add: um_do_redo_def)
next
  case False
  have f: "last (um_redo um) \<in> set (um_redo um)" using False by simp
  show ?thesis
    using run False f fr set_butlast [of "um_redo um"] mark_range_flag_ok [OF d]
    by (auto simp: um_do_redo_def Let_def frames_ok_def split: if_splits)
qed

lemma doc_step_ok:
  assumes "doc_step E s s'" and "doc_ok ok taken E 0 {} (snd s)" and "frames_ok (fst s) (d_next_clock (snd s))"
  shows "doc_ok ok taken E 0 {} (snd s') \<and> frames_ok (fst s') (d_next_clock (snd s'))"
proof -
  have d: "doc_ok ok taken E (d_next_clock (snd s)) {} (snd s)" by (rule doc_ok_lower [OF assms(2)])
  have "doc_ok ok taken E (d_next_clock (snd s)) {} (snd s') \<and> frames_ok (fst s') (d_next_clock (snd s))"
    using assms(1)
  proof cases
    case (open_map name d0 r d' um)
    then show ?thesis using get_or_create_map_ok [of _ _ d0 name r d'] d assms(3) by simp
  next
    case (open_array name d0 r d' um)
    then show ?thesis using get_or_create_array_ok [of _ _ d0 name r d'] d assms(3) by simp
  next
    case (set_key name key "value" d0 s d' um)
    then show ?thesis using map_set_string_ok [OF _ set_key(3-7)] d assms(3) by simp
  next
    case (insert_at name "value" d0 index s d' um)
    then show ?thesis using array_insert_at_ok [OF _ insert_at(3-6)] d assms(3) by simp
  next
    case (append name "value" d0 s d' um)
    then show ?thesis using text_append_ok [OF _ append(3-6)] d assms(3) by simp
  next
    case (delete_at name index d0 u d' um)
    then show ?thesis using array_delete_at_ok [OF _ delete_at(3,4)] d assms(3) by simp
  next
    case (update bs d0 u d' um)
    then show ?thesis using apply_update_ok [OF _ update(3,4)] d assms(3) by simp
  next
    case (compact d0 n d' um)
    then show ?thesis using doc_compact_ok [OF d] assms(3) by simp
  next
    case (track origin um u um' d0)
    then show ?thesis using d assms(3) by (auto simp: um_track_def frames_ok_def split: if_splits)
  next
    case (capture origin um d0 u um' d')
    then show ?thesis using d assms(3) by (auto simp: um_capture_begin_def Let_def frames_ok_def split: if_splits)
  next
    case (finish um d0 u um' d')
    then show ?thesis using d capture_end_frames [of um d0 u um' d'] assms(3) by simp
  next
    case (undo um d0 u um' d')
    then show ?thesis using undo_ok [of d0 um u um' d'] d assms(3) by simp
  next
    case (redo um d0 u um' d')
    then show ?thesis using redo_ok [of d0 um u um' d'] d assms(3) by simp
  qed
  then show ?thesis
    using doc_ok_zero doc_ok_reached frames_ok_later [of "fst s'" "d_next_clock (snd s)" "d_next_clock (snd s')"] by blast
qed

lemma doc_new_ok:
  assumes "ok a"
  shows "doc_ok ok taken E 0 {} (doc_new client a) \<and> frames_ok um_new c"
proof -
  have "pool_inv taken T (pool_new n, a)" if "slot_type_ok T" "slab_ok n" for T n
    using that by (simp add: pool_inv_def pool_new_def pool_used_def pool_slots_def)
  moreover have "slot_type_ok item_slot" "slot_type_ok map_slot" "slot_type_ok array_slot" "slab_ok 256" "slab_ok 8"
    by (auto simp: slot_type_ok_def item_slot_def map_slot_def array_slot_def slab_ok_def intro: exI [of _ 3])
  moreover have "pool_used T (pool_new n) = {}" for T n by (simp add: pool_used_def pool_new_def pool_slots_def)
  moreover have "ss_addrs ss_empty = {}" by (simp add: ss_addrs_def ss_inv_empty)
  ultimately show ?thesis
    using assms by (simp add: doc_ok_def pools_ok_def items_ok_def roots_ok_def table_ok_def doc_new_def
        ss_inv_empty links_in_def hm_core_empty ds_inv_empty sd_inv_empty frames_ok_def um_new_def)
qed

theorem doc_run_ok:
  assumes "(doc_step E)\<^sup>*\<^sup>* (um_new, doc_new client a) s" and "ok a"
  shows "doc_ok ok taken E 0 {} (snd s) \<and> frames_ok (fst s) (d_next_clock (snd s))"
  using assms(1)
proof (induction rule: rtranclp_induct)
  case base
  then show ?case using doc_new_ok [OF assms(2)] by simp
next
  case (step s t)
  then show ?case using doc_step_ok by blast
qed

end

section \<open>On the arena\<close>

text \<open>The tables of the store and of the delete set hold a key and a vector of three words.\<close>

definition arena_env :: "'m mallocator \<Rightarrow> (u64 \<Rightarrow> u64) \<Rightarrow> (u64, arena \<times> 'm) hm_env" where
  "arena_env mal h = \<lparr>he_hash = h, he_alloc = ar_alloc mal, he_entry_bytes = 32, he_entry_align = 8\<rparr>"

interpretation arena_doc: doc_env "arena_inv mal regs" arena_taken "arena_env mal h"
proof unfold_locales
  show "alloc_contract (arena_inv mal regs) arena_taken (he_alloc (arena_env mal h))"
    using arena.contract by (simp add: arena_env_def)
  show "env_sane (arena_env mal h)" by (auto simp: env_sane_def arena_env_def intro: exI [of _ 3])
qed

section \<open>Properties\<close>

definition demo_doc_arena :: "arena \<times> nat" where
  "demo_doc_arena = (arena_new 65536, 8)"

definition demo_doc_env :: "(u64, arena \<times> nat) hm_env" where
  "demo_doc_env = arena_env demo_malloc (\<lambda>k. k)"

lemma demo_doc_arena_ok: "arena_inv demo_malloc (\<lambda>m. {..<m}) demo_doc_arena"
  using demo_malloc_ok by (simp add: demo_doc_arena_def arena_inv_def arena_new_def)

text \<open>Open a sequence by name, and start a capture.\<close>

lemma demo_doc_run:
  obtains um d where "(doc_step demo_doc_env)\<^sup>*\<^sup>* (um_new, doc_new 7 demo_doc_arena) (um, d)"
    and "um_open_active um" and "po_live (d_array_pool d) = 1" and "hm_size (d_arrays d) = 1"
proof -
  have "case get_or_create_array demo_doc_env [104] (doc_new 7 demo_doc_arena) of
      Some (Some arr, d) \<Rightarrow> po_live (d_array_pool d) = 1 \<and> hm_size (d_arrays d) = 1 | _ \<Rightarrow> False" by code_simp
  then obtain arr d where d: "get_or_create_array demo_doc_env [104] (doc_new 7 demo_doc_arena) = Some (Some arr, d)"
      and out: "po_live (d_array_pool d) = 1" "hm_size (d_arrays d) = 1"
    by (auto split: option.splits)
  define um where "um = um_new\<lparr>um_tracked := [3]\<rparr>"
  define um' where "um' = um\<lparr>um_open_origin := 3, um_open_active := True, um_pre_clock := d_next_clock d\<rparr>"
  have "doc_step demo_doc_env (um_new, doc_new 7 demo_doc_arena) (um_new, d)"
    by (rule doc_step.open_array [OF _ d]) simp
  moreover have "doc_step demo_doc_env (um_new, d) (um, d)"
    by (rule doc_step.track [of 3 _ "Inr ()"]) (simp add: um_track_def um_is_tracked_def um_new_def um_def kMaxTrackedOrigins_def)
  moreover have "doc_step demo_doc_env (um, d) (um', d)"
    by (rule doc_step.capture [of 3 _ _ "Inr ()"])
      (simp add: um_capture_begin_def um_is_tracked_def um_def um'_def um_new_def)
  ultimately have "(doc_step demo_doc_env)\<^sup>*\<^sup>* (um_new, doc_new 7 demo_doc_arena) (um', d)"
    by (meson converse_rtranclp_into_rtranclp rtranclp.rtrancl_refl)
  then show ?thesis using that out by (simp add: um'_def)
qed





end
