(* ===== verification/Ycpp_Local.thy ===== *)
theory Ycpp_Local
  imports Ycpp_DocRefine Ycpp_DocRun
begin

text \<open>
  Runs of local edits.  A document that nobody else writes behaves as plain lists and maps:
  \<open>edit_run\<close> is a run of successful edits, \<open>plain_edit\<close> the same edits on lists and maps, and
  \<open>shows_plain\<close> says what the read operations of the code return.
\<close>

section \<open>Edits\<close>

datatype edit = SetKey bytes bytes bytes | InsertAt bytes u64 bytes | Append bytes bytes | DeleteAt bytes u64

primrec edit_done :: "(u64, 'a) hm_env \<Rightarrow> edit \<Rightarrow> 'a doc \<Rightarrow> 'a doc \<Rightarrow> bool" where
  "edit_done E (SetKey name key v) d d' \<longleftrightarrow> addressable name \<and> addressable key \<and> addressable v \<and>
     edit_fits (d_next_clock d) v \<and> key \<noteq> [] \<and> (\<exists>i. map_set_string E name key v d = Some (Inr i, d'))"
| "edit_done E (InsertAt name index v) d d' \<longleftrightarrow> addressable name \<and> addressable v \<and>
     edit_fits (d_next_clock d) v \<and> (\<exists>i. array_insert_at E name index v d = Some (Inr i, d'))"
| "edit_done E (Append name v) d d' \<longleftrightarrow> addressable name \<and> addressable v \<and>
     edit_fits (d_next_clock d) v \<and> (\<exists>i. text_append E name v d = Some (Inr i, d'))"
| "edit_done E (DeleteAt name index) d d' \<longleftrightarrow> addressable name \<and>
     array_delete_at E name index d = Some (Inr (), d')"

inductive edit_run :: "(u64, 'a) hm_env \<Rightarrow> edit list \<Rightarrow> 'a doc \<Rightarrow> 'a doc \<Rightarrow> bool" for E where
  stop: "edit_run E [] d d"
| edit: "edit_done E e d d1 \<Longrightarrow> edit_run E es d1 d' \<Longrightarrow> edit_run E (e # es) d d'"

primrec plain_edit :: "edit \<Rightarrow> plain \<Rightarrow> plain" where
  "plain_edit (SetKey name key v) s = s\<lparr>pl_maps := (pl_maps s)(name := (pl_maps s name)(key \<mapsto> v))\<rparr>"
| "plain_edit (InsertAt name index v) s = s\<lparr>pl_seqs := (pl_seqs s)(name :=
     take (unat index) (pl_seqs s name) @ [v] @ drop (unat index) (pl_seqs s name))\<rparr>"
| "plain_edit (Append name v) s = s\<lparr>pl_seqs := (pl_seqs s)(name := pl_seqs s name @ [v])\<rparr>"
| "plain_edit (DeleteAt name index) s = s\<lparr>pl_seqs := (pl_seqs s)(name :=
     take (unat index) (pl_seqs s name) @ drop (Suc (unat index)) (pl_seqs s name))\<rparr>"

text \<open>The edits that only add to a sequence.\<close>

primrec inserts :: "edit \<Rightarrow> bool" where
  "inserts (SetKey name key v) = False"
| "inserts (InsertAt name index v) = True"
| "inserts (Append name v) = True"
| "inserts (DeleteAt name index) = False"

text \<open>
  The one exception: a key is dropped when the table of the map cannot grow, since the code ignores
  the result of that insertion.
\<close>

inductive plain_step :: "edit \<Rightarrow> plain \<Rightarrow> plain \<Rightarrow> bool" where
  same: "plain_step e s (plain_edit e s)"
| dropped: "pl_maps s name key = None \<Longrightarrow> plain_step (SetKey name key v) s s"

inductive plain_run :: "edit list \<Rightarrow> plain \<Rightarrow> plain \<Rightarrow> bool" where
  stop: "plain_run [] s s"
| edit: "plain_step e s s1 \<Longrightarrow> plain_run es s1 s' \<Longrightarrow> plain_run (e # es) s s'"

definition plain_empty :: plain where
  "plain_empty = \<lparr>pl_seqs = (\<lambda>name. []), pl_maps = (\<lambda>name key. None)\<rparr>"

definition shows_plain :: "(u64, 'a) hm_env \<Rightarrow> 'a doc \<Rightarrow> plain \<Rightarrow> bool" where
  "shows_plain E d s \<longleftrightarrow>
     (\<forall>name. case hm_get (view_env E 24) name (d_arrays d) of
        None \<Rightarrow> pl_seqs s name = []
      | Some arr \<Rightarrow> ya_length (d_heap d) (d_array_heap d arr) = Some (of_nat (length (pl_seqs s name))) \<and>
          (\<forall>i. map_option (map_option (\<lambda>p. it_content_view (d_heap d p))) (ya_at (d_heap d) (d_array_heap d arr) i) =
            Some (if unat i < length (pl_seqs s name) then Some (pl_seqs s name ! unat i) else None))) \<and>
     (\<forall>name key. pl_maps s name key = (case find_map E name d of None \<Rightarrow> None
        | Some m \<Rightarrow> map_option (\<lambda>p. it_content_view (d_heap d p)) (ym_get (view_env E 24) (d_heap d) key (d_map_heap d m))))"

section \<open>Refinement\<close>

text \<open>A sequence is shorter than the address space: its slots are distinct.\<close>

lemma pool_slot_below:
  assumes inv: "pool_inv taken T (pl, a)" and p: "p \<in> pool_slots T pl"
  shows "p \<noteq> - 1"
proof -
  have T: "slot_type_ok T" "slab_ok (po_slab_slots pl)" using inv by (simp_all add: pool_inv_def)
  obtain s i where s: "s \<in> set (po_slabs pl)" "i < po_slab_slots pl" "p = s + kSlabHeaderBytes T + of_nat (i * st_size T)"
    using p by (auto simp: pool_slots_def slab_slots_def)
  have fits: "unat s + unat (slab_bytes T (po_slab_slots pl)) < 2 ^ 64" using inv s(1) by (auto simp: pool_inv_def)
  note at = slot_address [OF T fits s(2)]
  have "unat p + st_size T < 2 ^ 64" using at s(3) slab_bytes_unat(1) [OF T] fits by simp
  moreover have "0 < st_size T" using T by (simp add: slot_type_ok_def)
  ultimately show ?thesis by (auto simp: unsigned_minus_1_eq_mask mask_eq_exp_minus_1)
qed

context doc_env
begin

lemma seq_short:
  assumes d: "doc_ok ok taken E lo H d" and s: "seq_of E d name ps"
  shows "length ps < 2 ^ 64"
proof -
  have "distinct ps" using s by (auto simp: seq_of_def dll_def split: option.splits)
  moreover have "set ps \<subseteq> UNIV - {- 1}"
  proof
    fix p assume "p \<in> set ps"
    then have "p \<in> ss_addrs (d_store d)" using seq_in [OF d s] by blast
    then have "p \<in> pool_slots item_slot (d_item_pool d)" using d by (auto simp: doc_ok_def items_ok_def pool_used_def)
    then show "p \<in> UNIV - {- 1}" using pool_slot_below d by (fastforce simp: doc_ok_def pools_ok_def)
  qed
  ultimately have "length ps \<le> card (UNIV - {- 1 :: u64})" by (metis card_mono distinct_card finite)
  then show ?thesis by (simp add: card_word)
qed

lemma plain_short:
  assumes d: "doc_ok ok taken E lo H d" and f: "holds E d f"
  shows "length (pl_seqs (plain_of E d f) name) < 2 ^ 64"
proof -
  have "length (f name) < 2 ^ 64" using seq_short [OF d] f by (auto simp: holds_def)
  then show ?thesis
    using le_less_trans [OF length_filter_le] by (auto simp: plain_of_def contents_def live_def)
qed

lemma edit_refines:
  assumes d: "doc_ok ok taken E lo {} d" and f: "holds E d f" and run: "edit_done E e d d'"
  shows "doc_ok ok taken E lo {} d' \<and> (\<exists>f'. holds E d' f' \<and> plain_step e (plain_of E d f) (plain_of E d' f') \<and>
    (inserts e \<longrightarrow> inserted E d f d' f'))"
proof (cases e)
  case (SetKey name key v)
  then obtain i where m: "addressable name" "addressable key" "addressable v" "edit_fits (d_next_clock d) v" "key \<noteq> []"
    "map_set_string E name key v d = Some (Inr i, d')" using run by auto
  show ?thesis
    using map_set_string_ok [OF d m(1-4,6)] map_set_refines [OF d f m(5,1-4,6)] SetKey
    by (metis plain_step.intros plain_edit.simps(1) inserts.simps(1))
next
  case (InsertAt name index v)
  then obtain i where m: "addressable name" "addressable v" "edit_fits (d_next_clock d) v"
    "array_insert_at E name index v d = Some (Inr i, d')" using run by auto
  show ?thesis
    using array_insert_at_ok [OF d m] array_insert_refines [OF d f m(1-3) plain_short [OF d f] m(4)] InsertAt
    by (metis plain_step.same plain_edit.simps(2) inserts.simps(2))
next
  case (Append name v)
  then obtain i where m: "addressable name" "addressable v" "edit_fits (d_next_clock d) v"
    "text_append E name v d = Some (Inr i, d')" using run by auto
  show ?thesis
    using text_append_ok [OF d m] text_append_refines [OF d f m] Append
    by (metis plain_step.same plain_edit.simps(3) inserts.simps(3))
next
  case (DeleteAt name index)
  then have m: "addressable name" "array_delete_at E name index d = Some (Inr (), d')" using run by auto
  show ?thesis
    using array_delete_at_ok [OF d m] array_delete_refines [OF d f m(1) plain_short [OF d f] m(2)] DeleteAt
    by (metis plain_step.same plain_edit.simps(4) inserts.simps(4))
qed

lemma edit_run_refines:
  "edit_run E es d d' \<Longrightarrow> doc_ok ok taken E lo {} d \<Longrightarrow> holds E d f \<Longrightarrow>
   doc_ok ok taken E lo {} d' \<and> (\<exists>f'. holds E d' f' \<and> plain_run es (plain_of E d f) (plain_of E d' f'))"
proof (induction arbitrary: f rule: edit_run.induct)
  case (stop d)
  then show ?case by (auto intro: plain_run.stop)
next
  case (edit e d d1 es d')
  then show ?case using edit_refines plain_run.edit by metis
qed

lemma holds_shows:
  assumes d: "doc_ok ok taken E lo {} d" and f: "holds E d f"
  shows "shows_plain E d (plain_of E d f)"
proof -
  have lists: "case hm_get (view_env E 24) name (d_arrays d) of
        None \<Rightarrow> contents (d_heap d) (f name) = []
      | Some arr \<Rightarrow> ya_length (d_heap d) (d_array_heap d arr) = Some (of_nat (length (contents (d_heap d) (f name)))) \<and>
          (\<forall>i. map_option (map_option (\<lambda>p. it_content_view (d_heap d p))) (ya_at (d_heap d) (d_array_heap d arr) i) =
            Some (if unat i < length (contents (d_heap d) (f name)) then Some (contents (d_heap d) (f name) ! unat i) else None))" for name
  proof (cases "hm_get (view_env E 24) name (d_arrays d)")
    case None
    have "seq_of E d name (f name)" using f by (simp add: holds_def)
    then show ?thesis using None by (simp add: seq_of_def contents_def)
  next
    case (Some arr)
    have "seq_of E d name (f name)" using f by (simp add: holds_def)
    then have c: "chain (d_heap d) (d_array_heap d arr) (f name)" using Some by (simp add: seq_of_def dll_chain)
    have short: "length (live (d_heap d) (f name)) < 2 ^ 64" using plain_short [OF d f, of name] by (simp add: plain_of_def contents_def)
    show ?thesis
      using Some short ya_length_chain [OF c, of 0] ya_at_chain [OF c, of 0]
      by (simp add: contents_def ya_length_def ya_at_def)
  qed
  have heads: "value_of (d_heap d) (head_of E d name key) = (case find_map E name d of None \<Rightarrow> None
      | Some m \<Rightarrow> map_option (\<lambda>p. it_content_view (d_heap d p)) (ym_get (view_env E 24) (d_heap d) key (d_map_heap d m)))" for name key
    by (auto simp: value_of_def head_of_def ym_get_def ym_raw_head_def split: option.split)
  show ?thesis
    unfolding shows_plain_def plain_of_def plain.select_convs by (intro conjI allI lists heads)
qed

lemma new_shows: "holds E (doc_new client a) (\<lambda>name. [])" "plain_of E (doc_new client a) (\<lambda>name. []) = plain_empty"
  by (simp_all add: holds_def seq_of_def head_of_def find_map_def doc_new_def hm_get_abs hm_core_empty
      plain_of_def plain_empty_def contents_def live_def value_of_def)

lemma new_run_refines:
  assumes "edit_run E es (doc_new client a) d" and "ok a"
  shows "\<exists>s. plain_run es plain_empty s \<and> shows_plain E d s"
proof -
  have new: "doc_ok ok taken E 0 {} (doc_new client a)" using doc_new_ok [OF assms(2)] by blast
  from edit_run_refines [OF assms(1) new new_shows(1)] show ?thesis
    using holds_shows by (auto simp: new_shows(2))
qed

end

section \<open>A first append on the arena\<close>

text \<open>The states of the arena: after a sequence was opened, with the slab of items, and with the two copies.\<close>

definition demo_arena_1 :: "arena \<times> nat" where
  "demo_arena_1 = (\<lparr>ar_block_bytes = 65536, ar_blocks = [\<lparr>bk_addr = 8, bk_cap = 65536, bk_off = 488\<rparr>], ar_used = 481,
     ar_n_blocks = 1\<rparr>, 65576)"

lemma demo_open:
  obtains arr d where "get_or_create_array demo_doc_env [104] (doc_new 7 demo_doc_arena) = Some (Some arr, d)"
    and "d_alloc d = demo_arena_1" and "d_item_pool d = pool_new 256" and "d_store d = ss_empty"
    and "d_array_heap d arr = None" and "d_client_id d = 7" and "d_next_clock d = 0"
proof -
  have "case get_or_create_array demo_doc_env [104] (doc_new 7 demo_doc_arena) of
      Some (Some arr, d) \<Rightarrow> d_alloc d = demo_arena_1 \<and> d_item_pool d = pool_new 256 \<and> d_store d = ss_empty \<and>
        d_array_heap d arr = None \<and> d_client_id d = 7 \<and> d_next_clock d = 0
    | _ \<Rightarrow> False" by code_simp
  then show ?thesis using that by (auto split: option.splits)
qed


definition demo_arena_2 :: "arena \<times> nat" where
  "demo_arena_2 = (\<lparr>ar_block_bytes = 65536, ar_blocks = [\<lparr>bk_addr = 8, bk_cap = 65536, bk_off = 41464\<rparr>], ar_used = 41457,
     ar_n_blocks = 1\<rparr>, 65576)"

definition demo_arena_3 :: "arena \<times> nat" where
  "demo_arena_3 = (\<lparr>ar_block_bytes = 65536, ar_blocks = [\<lparr>bk_addr = 8, bk_cap = 65536, bk_off = 41466\<rparr>], ar_used = 41459,
     ar_n_blocks = 1\<rparr>, 65576)"

lemmas demo_alloc = ar_alloc_def alloc_oversize_block_def kMaxBlocks_def allocate_block_def demo_malloc_def
   kBlockHeaderBytes_def bump_from_def Let_def demo_doc_env_def arena_env_def

lemma demo_acquire:
  "\<exists>pl. pool_acquire item_slot (he_alloc demo_doc_env) (pool_new 256, demo_arena_1) = (Some 544, pl, demo_arena_2)"
  by (simp add: pool_acquire_def pool_pop_free_def pool_new_def pool_grow_one_def item_slot_def kMaxSlabs_def
      kSlabHeaderBytes_def demo_arena_1_def demo_arena_2_def demo_alloc)

lemma demo_clones:
  "\<exists>a. clone_view (he_alloc demo_doc_env) [104] demo_arena_2 = (Some [104], a) \<and>
     clone_view (he_alloc demo_doc_env) [65] a = (Some [65], demo_arena_3)"
  by (simp add: clone_view_def demo_arena_2_def demo_arena_3_def demo_alloc)

definition demo_item :: item where
  "demo_item = item_default\<lparr>it_id := Id 7 0, it_parent_ref := kRootName, it_parent_name := [104],
     it_content_kind := kString, it_length := 1, it_content_view := [65]\<rparr>"

lemma demo_first_item:
  "fst (ss_append demo_doc_env ((\<lambda>_. item_default)(544 := demo_item)) 544 (ss_empty, demo_arena_3)) = Inr ()"
  by code_simp

lemma demo_local: "d_client_id d = 7 \<Longrightarrow> d_next_clock d = 0 \<Longrightarrow> local_item d kInvalidId kInvalidId [104] [] [65] = demo_item"
proof -
  have "utf16_length_of_utf8 [65] = 1" by code_simp
  then show "d_client_id d = 7 \<Longrightarrow> d_next_clock d = 0 \<Longrightarrow> local_item d kInvalidId kInvalidId [104] [] [65] = demo_item"
    by (simp add: local_item_def demo_item_def item_default_def)
qed

lemma demo_text:
  obtains i d where "text_append demo_doc_env [104] [65] (doc_new 7 demo_doc_arena) = Some (Inr i, d)" and "d_next_clock d = 1"
proof -
  let ?d0 = "doc_new 7 demo_doc_arena"
  obtain arr d where d: "get_or_create_array demo_doc_env [104] ?d0 = Some (Some arr, d)"
    "d_alloc d = demo_arena_1" "d_item_pool d = pool_new 256" "d_store d = ss_empty"
    "d_array_heap d arr = None" "d_client_id d = 7" "d_next_clock d = 0" by (rule demo_open)
  have new: "doc_ok (arena_inv demo_malloc (\<lambda>m. {..<m})) arena_taken demo_doc_env 0 {} ?d0"
    using arena_doc.doc_new_ok [OF demo_doc_arena_ok] by (simp add: demo_doc_env_def)
  have heap: "d_heap d = (\<lambda>_. item_default)"
    using arena_doc.get_or_create_array_ok [OF new [unfolded demo_doc_env_def] _ d(1) [unfolded demo_doc_env_def]]
    by (simp add: doc_new_def)
  obtain pl where acq: "pool_acquire item_slot (he_alloc demo_doc_env) (pool_new 256, demo_arena_1) = (Some 544, pl, demo_arena_2)"
    using demo_acquire by blast
  obtain a where clones: "clone_view (he_alloc demo_doc_env) [104] demo_arena_2 = (Some [104], a)"
     "clone_view (he_alloc demo_doc_env) [65] a = (Some [65], demo_arena_3)" using demo_clones by blast
  obtain ss b where app: "ss_append demo_doc_env ((\<lambda>_. item_default)(544 := demo_item)) 544 (ss_empty, demo_arena_3) = (Inr (), ss, b)"
    using demo_first_item by (metis prod.collapse)
  let ?h = "(\<lambda>_. item_default)(544 := demo_item)"
  have x: "it_origin_left demo_item = kInvalidId" "it_content_kind demo_item = kString" "it_id demo_item = Id 7 0"
    "it_length demo_item = 1"
    by (simp_all add: demo_item_def item_default_def)
  have int: "ya_integrate demo_doc_env ss 544 (?h, None) = (Inr (), ya_splice 544 None (?h, None))"
    by (simp add: ya_integrate_def x is_valid_def ya_scan.simps [of _ _ _ _ None])
  obtain h start where sp: "ya_splice 544 None (?h, None) = (h, start)" "it_content_kind (h 544) = kString"
      "it_id (h 544) = Id 7 0" "it_length (h 544) = 1"
    by (simp add: ya_splice_def x)
  define d1 where "d1 = d\<lparr>d_item_pool := pl, d_store := ss, d_alloc := b, d_heap := ?h\<rparr>"
  have "install_into_array demo_doc_env 544 arr (d\<lparr>d_item_pool := pl, d_alloc := demo_arena_3, d_heap := ?h\<rparr>) =
      Some (Inr (), bump_clock_for 544 (d1\<lparr>d_heap := h, d_array_heap := (d_array_heap d)(arr := start)\<rparr>))"
    using d app int sp
    by (simp add: install_into_array_def doc_append_def doc_apply_move_def ptry_def d1_def)
  moreover have "text_append demo_doc_env [104] [65] ?d0 =
      ptry (install_into_array demo_doc_env 544 arr) (\<lambda>_ d. Some (Inr (it_id (d_heap d 544)), d))
       (d\<lparr>d_item_pool := pl, d_alloc := demo_arena_3, d_heap := ?h\<rparr>)"
    using d heap acq clones
    by (simp add: text_append_def live_tail.simps [of _ None] emit_array_item_def doc_acquire_item_def doc_clone_def
        demo_local Let_def)
  moreover have "d_next_clock (bump_clock_for 544 (d1\<lparr>d_heap := h, d_array_heap := (d_array_heap d)(arr := start)\<rparr>)) = 1"
    using sp d(6,7) by (simp add: bump_clock_for_def d1_def run_length_def)
  ultimately show ?thesis using that by (simp add: ptry_def)
qed

lemma demo_text_fits: "edit_fits (d_next_clock (doc_new 7 demo_doc_arena)) [65]"
proof -
  have "utf16_length_of_utf8 [65] = 1" by code_simp
  then show ?thesis by (simp add: edit_fits_def doc_new_def)
qed

lemma demo_edit_run:
  obtains d where "edit_run demo_doc_env [Append [104] [65]] (doc_new 7 demo_doc_arena) d" and "d_next_clock d = 1"
proof (rule demo_text)
  fix i d
  assume "text_append demo_doc_env [104] [65] (doc_new 7 demo_doc_arena) = Some (Inr i, d)" and clk: "d_next_clock d = 1"
  then have "edit_run demo_doc_env [Append [104] [65]] (doc_new 7 demo_doc_arena) d"
    using demo_text_fits by (intro edit_run.edit [OF _ edit_run.stop]) auto
  then show thesis using clk that by blast
qed

section \<open>Properties\<close>


inductive_cases plain_run_nilE: "plain_run [] s t"
inductive_cases plain_run_consE: "plain_run (e # es) s t"
inductive_cases plain_step_appendE: "plain_step (Append name v) s t"


end
