(* ===== verification/Ycpp_UndoRun.thy ===== *)
theory Ycpp_UndoRun
  imports Ycpp_Local
begin

unbundle bit_operations_syntax

text \<open>
  Undo and redo of a captured run of insertions.  \<open>grown\<close> relates the document at the start of the
  capture with a later one: the items in between are the ones whose clocks the capture covers, and
  without them the sequences are what they were.  Marking the range deleted therefore restores what
  the document showed, and clearing the marks brings the insertions back.
\<close>

section \<open>Marking a range\<close>

text \<open>An update of an item that only touches the flags.\<close>

definition flags_only :: "(item \<Rightarrow> item) \<Rightarrow> bool" where
  "flags_only u \<longleftrightarrow> (\<forall>x. \<exists>fl. u x = x\<lparr>it_flags := fl\<rparr>)"

lemma flags_onlyD:
  assumes "flags_only u"
  shows "it_id (u x) = it_id x" "it_length (u x) = it_length x" "it_left (u x) = it_left x" "it_right (u x) = it_right x"
    "it_parent_name (u x) = it_parent_name x" "it_parent_sub (u x) = it_parent_sub x" "it_content_view (u x) = it_content_view x"
proof -
  obtain fl where "u x = x\<lparr>it_flags := fl\<rparr>" using assms by (auto simp: flags_only_def)
  then show "it_id (u x) = it_id x" "it_length (u x) = it_length x" "it_left (u x) = it_left x" "it_right (u x) = it_right x"
    "it_parent_name (u x) = it_parent_name x" "it_parent_sub (u x) = it_parent_sub x" "it_content_view (u x) = it_content_view x"
    by simp_all
qed

lemma flags_only_marks: "flags_only set_deleted" "flags_only clear_deleted"
  by (auto simp: flags_only_def set_deleted_def clear_deleted_def)

lemma marks_twice: "set_deleted (set_deleted x) = set_deleted x" "clear_deleted (clear_deleted x) = clear_deleted x"
  by (simp_all add: set_deleted_def clear_deleted_def or.assoc and.assoc)

lemma deleted_clear: "\<not> deleted (clear_deleted x)"
proof -
  have "(it_flags x AND NOT kFlagDeleted) AND kFlagDeleted = 0"
    by (rule bit_word_eqI) (auto simp: bit_and_iff bit_not_iff)
  then show ?thesis by (simp add: deleted_def clear_deleted_def)
qed

lemma mark_loop:
  assumes u: "flags_only u" "\<And>x. u (u x) = u x" and inv: "ss_inv E (d_heap d) (d_store d)"
  shows "fold (\<lambda>k d. case doc_find E d (Id c (of_nat k)) of None \<Rightarrow> d
      | Some p \<Rightarrow> d\<lparr>d_heap := (d_heap d)(p := u (d_heap d p))\<rparr>) ks d =
    d\<lparr>d_heap := (\<lambda>p. if \<exists>k \<in> set ks. doc_find E d (Id c (of_nat k)) = Some p then u (d_heap d p) else d_heap d p)\<rparr>"
  using inv
proof (induction ks arbitrary: d)
  case (Cons k ks)
  let ?step = "\<lambda>k d. case doc_find E d (Id c (of_nat k)) of None \<Rightarrow> d
      | Some p \<Rightarrow> d\<lparr>d_heap := (d_heap d)(p := u (d_heap d p))\<rparr>"
  show ?case
  proof (cases "doc_find E d (Id c (of_nat k))")
    case None
    then have "?step k d = d" by simp
    then show ?thesis using Cons.IH [OF Cons.prems] None by (simp cong: if_cong)
  next
    case (Some q)
    let ?d = "d\<lparr>d_heap := (d_heap d)(q := u (d_heap d q))\<rparr>"
    have st: "?step k d = ?d" using Some by simp
    have same: "it_id (d_heap ?d p) = it_id (d_heap d p) \<and> it_length (d_heap ?d p) = it_length (d_heap d p)" for p
      by (simp add: flags_onlyD [OF u(1)])
    then have find: "doc_find E ?d j = doc_find E d j" for j
      using ss_find_cong [OF Cons.prems, of "d_heap ?d" j] by (simp add: doc_find_def)
    have "ss_inv E (d_heap ?d) (d_store ?d)"
      using ss_inv_cong [of "d_store d" "d_heap ?d" "d_heap d" E] same Cons.prems by simp
    from Cons.IH [OF this] show ?thesis
      by (auto simp: st find Some u(2) fun_eq_iff)
  qed
qed simp

lemma mark_range_flag_eq:
  assumes inv: "ss_inv E (d_heap d) (d_store d)"
  shows "mark_range_flag E c s e flag d = d\<lparr>d_heap := (\<lambda>p.
    if \<exists>k. unat s \<le> k \<and> k < unat e \<and> doc_find E d (Id c (of_nat k)) = Some p
    then (if flag then set_deleted else clear_deleted) (d_heap d p) else d_heap d p)\<rparr>"
proof -
  have "flags_only (if flag then set_deleted else clear_deleted)"
    "\<And>x. (if flag then set_deleted else clear_deleted) ((if flag then set_deleted else clear_deleted) x) =
      (if flag then set_deleted else clear_deleted) x"
    by (simp_all add: flags_only_marks marks_twice)
  from mark_loop [OF this inv, of c "[unat s..<unat e]"] show ?thesis
    by (simp add: mark_range_flag_def Bex_def conj_assoc)
qed

lemma holds_flags:
  assumes f: "holds E d f" and u: "flags_only u"
    and heap: "\<And>p. d_heap d' p = (if p \<in> S then u (d_heap d p) else d_heap d p)"
    and same: "d_arrays d' = d_arrays d" "d_array_heap d' = d_array_heap d" "d_roots d' = d_roots d" "d_map_heap d' = d_map_heap d"
  shows "holds E d' f"
proof -
  have fields: "it_left (d_heap d' p) = it_left (d_heap d p)" "it_right (d_heap d' p) = it_right (d_heap d p)"
    "it_parent_name (d_heap d' p) = it_parent_name (d_heap d p)" "it_parent_sub (d_heap d' p) = it_parent_sub (d_heap d p)" for p
    by (simp_all add: heap flags_onlyD [OF u])
  have "dll (d_heap d') st ps = dll (d_heap d) st ps" for st ps by (rule dll_cong) (simp add: fields)
  then have "seq_of E d' n ps = seq_of E d n ps" for n ps by (simp add: seq_of_def same split: option.split)
  then show ?thesis using f by (simp add: holds_def fields head_of_cong [OF same(3,4)])
qed

section \<open>Documents that have grown\<close>

definition grown :: "(u64, 'a) hm_env \<Rightarrow> 'a doc \<Rightarrow> (bytes \<Rightarrow> addr list) \<Rightarrow> 'a doc \<Rightarrow> (bytes \<Rightarrow> addr list) \<Rightarrow> bool" where
  "grown E d0 f0 d f \<longleftrightarrow> d_client_id d = d_client_id d0 \<and> d_next_clock d0 \<le> d_next_clock d \<and>
     ss_addrs (d_store d0) \<subseteq> ss_addrs (d_store d) \<and>
     (\<forall>p \<in> ss_addrs (d_store d0). same_content (d_heap d p) (d_heap d0 p)) \<and>
     (\<forall>p \<in> ss_addrs (d_store d) - ss_addrs (d_store d0). id_client (it_id (d_heap d p)) = d_client_id d0 \<and>
        unat (d_next_clock d0) \<le> item_start (d_heap d p) \<and>
        item_start (d_heap d p) + item_width (d_heap d p) \<le> unat (d_next_clock d) \<and> \<not> deleted (d_heap d p)) \<and>
     (\<forall>k. unat (d_next_clock d0) \<le> k \<and> k < unat (d_next_clock d) \<longrightarrow>
        (\<exists>p \<in> ss_addrs (d_store d) - ss_addrs (d_store d0). item_covers (d_heap d p) (Id (d_client_id d0) (of_nat k)))) \<and>
     (\<forall>name. filter (\<lambda>p. p \<in> ss_addrs (d_store d0)) (f name) = f0 name) \<and> head_of E d = head_of E d0"

context doc_env
begin

lemma grown_refl:
  assumes d: "doc_ok ok taken E lo H d" and f: "holds E d f"
  shows "grown E d f d f"
proof -
  have "filter (\<lambda>p. p \<in> ss_addrs (d_store d)) (f name) = f name" for name
    using seq_in [OF d] f by (auto simp: holds_def filter_id_conv)
  then show ?thesis by (auto simp: grown_def)
qed

lemma grown_step:
  assumes g: "grown E d0 f0 d f" and ins: "inserted E d f d' f'"
  shows "grown E d0 f0 d' f'"
proof -
  let ?B = "ss_addrs (d_store d0)" and ?S = "ss_addrs (d_store d)"
  obtain name p us vs where l: "f name = us @ vs" "f' = f(name := us @ p # vs)"
    and p: "p \<notin> ?S" "ss_addrs (d_store d') = insert p ?S" "\<not> deleted (d_heap d' p)"
      "it_id (d_heap d' p) = Id (d_client_id d) (d_next_clock d)"
    and same: "\<And>q. q \<noteq> p \<Longrightarrow> same_content (d_heap d' q) (d_heap d q)"
    and clk: "unat (d_next_clock d') = unat (d_next_clock d) + item_width (d_heap d' p)"
    and eq: "d_client_id d' = d_client_id d" "head_of E d' = head_of E d"
    using ins by (auto simp: inserted_def)
  note G = g [unfolded grown_def]
  have c: "d_client_id d = d_client_id d0" "d_next_clock d0 \<le> d_next_clock d" "?B \<subseteq> ?S" "head_of E d = head_of E d0"
    using G by blast+
  have old: "\<forall>q \<in> ?B. same_content (d_heap d q) (d_heap d0 q)"
    and new: "\<forall>q \<in> ?S - ?B. id_client (it_id (d_heap d q)) = d_client_id d0 \<and>
        unat (d_next_clock d0) \<le> item_start (d_heap d q) \<and>
        item_start (d_heap d q) + item_width (d_heap d q) \<le> unat (d_next_clock d) \<and> \<not> deleted (d_heap d q)"
    and cover: "\<forall>k. unat (d_next_clock d0) \<le> k \<and> k < unat (d_next_clock d) \<longrightarrow>
        (\<exists>q \<in> ?S - ?B. item_covers (d_heap d q) (Id (d_client_id d0) (of_nat k)))"
    and lists: "\<forall>n. filter (\<lambda>q. q \<in> ?B) (f n) = f0 n"
    using G by blast+
  have fields: "it_id (d_heap d' q) = it_id (d_heap d q)" "it_length (d_heap d' q) = it_length (d_heap d q)"
    "deleted (d_heap d' q) = deleted (d_heap d q)" if "q \<noteq> p" for q using same_contentD [OF same [OF that]] by simp_all
  have at: "item_start (d_heap d' p) = unat (d_next_clock d)" using p(4) by (simp add: item_start_def)
  have later: "d_next_clock d \<le> d_next_clock d'" using clk by (simp add: word_le_nat_alt)
  show ?thesis unfolding grown_def
  proof (intro conjI ballI allI impI)
    show "d_client_id d' = d_client_id d0" "d_next_clock d0 \<le> d_next_clock d'" "head_of E d' = head_of E d0"
      "?B \<subseteq> ss_addrs (d_store d')"
      using eq c later p(2) by auto
    show "same_content (d_heap d' q) (d_heap d0 q)" if "q \<in> ?B" for q
    proof -
      have "q \<noteq> p" using that c(3) p(1) by blast
      then show ?thesis using same [of q] bspec [OF old that] by (simp add: same_content_def)
    qed
    show "filter (\<lambda>q. q \<in> ?B) (f' n) = f0 n" for n using spec [OF lists, of n] l c(3) p(1) by auto
    fix q assume q: "q \<in> ss_addrs (d_store d') - ?B"
    have "id_client (it_id (d_heap d' q)) = d_client_id d0 \<and> unat (d_next_clock d0) \<le> item_start (d_heap d' q) \<and>
        item_start (d_heap d' q) + item_width (d_heap d' q) \<le> unat (d_next_clock d') \<and> \<not> deleted (d_heap d' q)"
    proof (cases "q = p")
      case True
      then show ?thesis using p(3,4) at clk c(1,2) by (simp add: word_le_nat_alt)
    next
      case False
      then show ?thesis using bspec [OF new, of q] q p(2) fields [OF False] clk by (simp add: item_start_def item_width_def)
    qed
    then show "id_client (it_id (d_heap d' q)) = d_client_id d0" "unat (d_next_clock d0) \<le> item_start (d_heap d' q)"
      "item_start (d_heap d' q) + item_width (d_heap d' q) \<le> unat (d_next_clock d')" "\<not> deleted (d_heap d' q)" by blast+
  next
    fix k assume k: "unat (d_next_clock d0) \<le> k \<and> k < unat (d_next_clock d')"
    show "\<exists>q \<in> ss_addrs (d_store d') - ?B. item_covers (d_heap d' q) (Id (d_client_id d0) (of_nat k))"
    proof (cases "k < unat (d_next_clock d)")
      case True
      then obtain q where q: "q \<in> ?S - ?B" "item_covers (d_heap d q) (Id (d_client_id d0) (of_nat k))" using cover k by blast
      then have "q \<noteq> p" using p(1) by blast
      then show ?thesis using q fields [of q] p(2) by (intro bexI [of _ q]) (auto simp: item_covers_def item_start_def item_width_def)
    next
      case False
      have "k < 2 ^ 64" using k unat_u64 [of "d_next_clock d'"] by simp
      then have "unat (of_nat k :: u64) = k" by (intro unat_of_nat_small) simp
      then have "item_covers (d_heap d' p) (Id (d_client_id d0) (of_nat k))"
        using False k clk at p(4) c(1) by (simp add: item_covers_def)
      then show ?thesis using p(1,2) c(3) by (intro bexI [of _ p]) auto
    qed
  qed
qed

lemma insert_run_grows:
  "edit_run E es d d' \<Longrightarrow> list_all inserts es \<Longrightarrow> doc_ok ok taken E lo {} d \<Longrightarrow> holds E d f \<Longrightarrow> grown E d0 f0 d f \<Longrightarrow>
   doc_ok ok taken E lo {} d' \<and> (\<exists>f'. holds E d' f' \<and> plain_run es (plain_of E d f) (plain_of E d' f') \<and> grown E d0 f0 d' f')"
proof (induction arbitrary: f rule: edit_run.induct)
  case (stop d)
  then show ?case by (auto intro: plain_run.stop)
next
  case (edit e d d1 es d')
  then obtain f1 where "doc_ok ok taken E lo {} d1" "holds E d1 f1" "plain_step e (plain_of E d f) (plain_of E d1 f1)"
      "inserted E d f d1 f1" using edit_refines [OF edit.prems(2,3) edit.hyps(1)] by auto
  moreover have "list_all inserts es" using edit.prems(1) by simp
  ultimately show ?case using edit.IH [of f1] grown_step [OF edit.prems(4)] plain_run.edit by metis
qed

text \<open>The clocks of the capture resolve to the new items.\<close>

lemma grown_range:
  assumes d: "doc_ok ok taken E lo {} d" and g: "grown E d0 f0 d f" and p: "p \<in> ss_addrs (d_store d)"
  shows "(\<exists>k. unat (d_next_clock d0) \<le> k \<and> k < unat (d_next_clock d) \<and>
      doc_find E d (Id (d_client_id d0) (of_nat k)) = Some p) \<longleftrightarrow> p \<notin> ss_addrs (d_store d0)"
proof -
  have inv: "ss_inv E (d_heap d) (d_store d)" and fits: "item_fits (d_heap d p)"
    using d p by (auto simp: doc_ok_def items_ok_def)
  have find: "doc_find E d i = Some q" if "q \<in> ss_addrs (d_store d)" "item_covers (d_heap d q) i" for q i
    using ss_find_covers [OF inv that] by (simp add: doc_find_def)
  show ?thesis
  proof
    assume "\<exists>k. unat (d_next_clock d0) \<le> k \<and> k < unat (d_next_clock d) \<and> doc_find E d (Id (d_client_id d0) (of_nat k)) = Some p"
    then obtain k where k: "unat (d_next_clock d0) \<le> k" "k < unat (d_next_clock d)" "doc_find E d (Id (d_client_id d0) (of_nat k)) = Some p"
      by blast
    then obtain q where "q \<in> ss_addrs (d_store d) - ss_addrs (d_store d0)" "item_covers (d_heap d q) (Id (d_client_id d0) (of_nat k))"
      using g unfolding grown_def by blast
    then show "p \<notin> ss_addrs (d_store d0)" using find [of q "Id (d_client_id d0) (of_nat k)"] k(3) by simp
  next
    assume "p \<notin> ss_addrs (d_store d0)"
    then have new: "id_client (it_id (d_heap d p)) = d_client_id d0" "unat (d_next_clock d0) \<le> item_start (d_heap d p)"
        "item_start (d_heap d p) + item_width (d_heap d p) \<le> unat (d_next_clock d)"
      using g p unfolding grown_def by blast+
    have w: "0 < item_width (d_heap d p)" using fits by (auto simp: item_fits_def item_width_def unat_gt_0)
    have id: "Id (d_client_id d0) (of_nat (item_start (d_heap d p))) = it_id (d_heap d p)"
      using new(1) by (cases "it_id (d_heap d p)") (simp add: item_start_def)
    have "item_covers (d_heap d p) (it_id (d_heap d p))" using w by (simp add: item_covers_def item_start_def)
    then show "\<exists>k. unat (d_next_clock d0) \<le> k \<and> k < unat (d_next_clock d) \<and> doc_find E d (Id (d_client_id d0) (of_nat k)) = Some p"
      using new w find [OF p] by (intro exI [of _ "item_start (d_heap d p)"]) (simp add: id)
  qed
qed

lemma marked_heap:
  assumes d: "doc_ok ok taken E lo {} d" and g: "grown E d0 f0 d f" and e: "d_store e = d_store d"
    and same: "\<And>p. it_id (d_heap e p) = it_id (d_heap d p) \<and> it_length (d_heap e p) = it_length (d_heap d p)"
  shows "mark_range_flag E (d_client_id d0) (d_next_clock d0) (d_next_clock d) flag e =
    e\<lparr>d_heap := (\<lambda>p. if p \<in> ss_addrs (d_store d) - ss_addrs (d_store d0)
      then (if flag then set_deleted else clear_deleted) (d_heap e p) else d_heap e p)\<rparr>"
proof -
  have inv: "ss_inv E (d_heap d) (d_store d)" using d by (simp add: doc_ok_def items_ok_def)
  then have inv': "ss_inv E (d_heap e) (d_store e)"
    using ss_inv_cong [of "d_store d" "d_heap e" "d_heap d" E] same e by simp
  have find: "doc_find E e i = doc_find E d i" for i
    using ss_find_cong [OF inv, of "d_heap e" i] same by (simp add: doc_find_def e)
  have "(\<exists>k. unat (d_next_clock d0) \<le> k \<and> k < unat (d_next_clock d) \<and> doc_find E e (Id (d_client_id d0) (of_nat k)) = Some p) \<longleftrightarrow>
      p \<in> ss_addrs (d_store d) - ss_addrs (d_store d0)" for p
  proof (cases "p \<in> ss_addrs (d_store d)")
    case True
    then show ?thesis using grown_range [OF d g True] by (simp add: find)
  next
    case False
    then show ?thesis using doc_find_in [OF d] by (auto simp: find)
  qed
  then show ?thesis by (simp add: mark_range_flag_eq [OF inv'] e cong: if_cong)
qed

text \<open>Without the new items the document shows what it showed before.\<close>

lemma contents_without:
  assumes "\<And>p. p \<in> set ps \<Longrightarrow> p \<in> S \<Longrightarrow> deleted (h' p) = deleted (h p) \<and> it_content_view (h' p) = it_content_view (h p)"
    and "\<And>p. p \<in> set ps \<Longrightarrow> p \<notin> S \<Longrightarrow> deleted (h' p)"
  shows "contents h' ps = contents h (filter (\<lambda>p. p \<in> S) ps)"
  using assms by (induction ps) (auto simp: contents_cons contents_def [where ps = "[]"])

lemma undo_restores:
  assumes d0: "doc_ok ok taken E lo0 {} d0" and d: "doc_ok ok taken E lo {} d" and f: "holds E d f"
    and g: "grown E d0 f0 d f"
    and heap: "d_heap d' = (\<lambda>p. if p \<in> ss_addrs (d_store d) - ss_addrs (d_store d0) then set_deleted (d_heap d p) else d_heap d p)"
    and same: "d_arrays d' = d_arrays d" "d_array_heap d' = d_array_heap d" "d_roots d' = d_roots d" "d_map_heap d' = d_map_heap d"
  shows "holds E d' f" and "plain_of E d' f = plain_of E d0 f0"
proof -
  let ?B = "ss_addrs (d_store d0)"
  show "holds E d' f"
    by (rule holds_flags [OF f flags_only_marks(1) _ same, where S = "ss_addrs (d_store d) - ?B"]) (simp add: heap)
  have old: "deleted (d_heap d' p) = deleted (d_heap d0 p) \<and> it_content_view (d_heap d' p) = it_content_view (d_heap d0 p)"
    if "p \<in> ?B" for p
  proof -
    have "same_content (d_heap d p) (d_heap d0 p)" using g that unfolding grown_def by blast
    then show ?thesis using that by (simp add: heap same_contentD)
  qed
  have lists: "contents (d_heap d') (f n) = contents (d_heap d0) (f0 n)" for n
  proof -
    have base: "filter (\<lambda>p. p \<in> ?B) (f n) = f0 n" using g unfolding grown_def by blast
    have "set (f n) \<subseteq> ss_addrs (d_store d)" using seq_in [OF d] f by (auto simp: holds_def)
    then have "deleted (d_heap d' p)" if "p \<in> set (f n)" "p \<notin> ?B" for p using that by (auto simp: heap)
    then have "contents (d_heap d') (f n) = contents (d_heap d0) (filter (\<lambda>p. p \<in> ?B) (f n))"
      using old by (intro contents_without) blast+
    then show ?thesis by (simp only: base)
  qed
  have head: "head_of E d' = head_of E d0" using head_of_cong [OF same(3,4)] g unfolding grown_def by metis
  have "value_of (d_heap d') (head_of E d0 n k) = value_of (d_heap d0) (head_of E d0 n k)" for n k
    using old head_in [OF d0, of n k] by (auto simp: value_of_def split: option.split)
  then show "plain_of E d' f = plain_of E d0 f0" using lists by (simp add: plain_of_def head)
qed

lemma redo_restores:
  assumes d0: "doc_ok ok taken E lo0 {} d0" and d: "doc_ok ok taken E lo {} d" and f: "holds E d f" and g: "grown E d0 f0 d f"
    and heap: "d_heap d' = (\<lambda>p. if p \<in> ss_addrs (d_store d) - ss_addrs (d_store d0) then u (d_heap d p) else d_heap d p)"
    and u: "flags_only u" "\<And>x. \<not> deleted (u x)"
    and same: "d_arrays d' = d_arrays d" "d_array_heap d' = d_array_heap d" "d_roots d' = d_roots d" "d_map_heap d' = d_map_heap d"
  shows "holds E d' f" and "plain_of E d' f = plain_of E d f"
proof -
  show "holds E d' f"
    by (rule holds_flags [OF f u(1) _ same, where S = "ss_addrs (d_store d) - ss_addrs (d_store d0)"]) (simp add: heap)
  have live: "\<not> deleted (d_heap d p)" if "p \<in> ss_addrs (d_store d) - ss_addrs (d_store d0)" for p
    using g that unfolding grown_def by blast
  then have eq: "deleted (d_heap d' p) = deleted (d_heap d p) \<and> it_content_view (d_heap d' p) = it_content_view (d_heap d p)" for p
    using u by (simp add: heap flags_onlyD)
  have "contents (d_heap d') (f n) = contents (d_heap d) (f n)" for n by (rule contents_cong) (use eq in blast)
  moreover have "value_of (d_heap d') x = value_of (d_heap d) x" for x by (simp add: value_of_def eq split: option.split)
  ultimately show "plain_of E d' f = plain_of E d f" by (simp add: plain_of_def head_of_cong [OF same(3,4)])
qed

section \<open>Capture, undo, redo\<close>

lemma capture_undo_redo:
  assumes d0: "doc_ok ok taken E lo {} d0" and f0: "holds E d0 f0"
    and opened: "um_capture_begin origin (um, d0) = (Inr (), um1, d0')"
    and edits: "edit_run E es d0 d1" "list_all inserts es" and moved: "d_next_clock d1 \<noteq> d_next_clock d0"
    and finish: "um_capture_end (um1, d1) = (Inr (), um2, d1')"
    and undo: "um_do_undo E (um2, d1) = (r, um3, d2)"
  shows "\<exists>s'. plain_run es (plain_of E d0 f0) s' \<and> shows_plain E d1 s' \<and> shows_plain E d2 (plain_of E d0 f0) \<and>
    (r = Inr () \<longrightarrow> shows_plain E (snd (snd (um_do_redo E (um3, d2)))) s')"
proof -
  obtain f where d1: "doc_ok ok taken E lo {} d1" and f: "holds E d1 f" and run: "plain_run es (plain_of E d0 f0) (plain_of E d1 f)"
      and g: "grown E d0 f0 d1 f"
    using insert_run_grows [OF edits d0 f0 grown_refl [OF d0 f0]] by blast
  let ?new = "ss_addrs (d_store d1) - ss_addrs (d_store d0)"
  let ?c = "d_client_id d0" and ?s = "d_next_clock d0" and ?e = "d_next_clock d1"
  have c: "d_client_id d1 = ?c" "?s < ?e" using g moved by (auto simp: grown_def order.strict_iff_order)
  have um1: "um_open_active um1" "um_pre_clock um1 = ?s"
    using opened by (auto simp: um_capture_begin_def Let_def split: if_splits)
  define fr where "fr = \<lparr>f_origin = um_open_origin um1, f_client = ?c, f_start = ?s, f_end = ?e\<rparr>"
  have um2: "um_undo um2 \<noteq> []" "last (um_undo um2) = fr" "um_redo um2 = []"
    using finish um1 moved c(1) by (auto simp: um_capture_end_def Let_def fr_def split: if_splits)
  define dm where "dm = mark_range_flag E ?c ?s ?e True d1"
  have dm: "dm = d1\<lparr>d_heap := (\<lambda>p. if p \<in> ?new then set_deleted (d_heap d1 p) else d_heap d1 p)\<rparr>"
    using marked_heap [OF d1 g, of d1 True] by (simp add: dm_def)
  have okm: "doc_ok ok taken E lo {} dm" unfolding dm_def by (rule mark_range_flag_ok [OF d1])
  note wf = clock_span_wf [OF c(2)]
  obtain r2 dd where del: "doc_delete E ?c ?s (?e - ?s) dm = (r2, dd)" by fastforce
  have undone: "r = r2" "d2 = dd" "r = Inr () \<Longrightarrow> um_redo um3 = [fr]"
    using undo um2 del by (auto simp: um_do_undo_def Let_def fr_def dm_def [symmetric] kMaxFrames_def split: sum.splits)
  note D = doc_delete_ok [OF okm wf del]
  have d2: "doc_ok ok taken E lo {} d2" using D(1) undone by simp
  have heap2: "d_heap d2 = (\<lambda>p. if p \<in> ?new then set_deleted (d_heap d1 p) else d_heap d1 p)"
    and same2: "d_arrays d2 = d_arrays d1" "d_array_heap d2 = d_array_heap d1" "d_roots d2 = d_roots d1" "d_map_heap d2 = d_map_heap d1"
      "d_store d2 = d_store d1"
    using D(2) undone dm by auto
  note U = undo_restores [OF d0 d1 f g heap2 same2(1-4)]
  have "shows_plain E d2 (plain_of E d0 f0)" using holds_shows [OF d2 U(1)] U(2) by simp
  moreover have "shows_plain E (snd (snd (um_do_redo E (um3, d2)))) (plain_of E d1 f)" if "r = Inr ()"
  proof -
    define d3 where "d3 = mark_range_flag E ?c ?s ?e False d2"
    have "snd (snd (um_do_redo E (um3, d2))) = d3"
      using undone(3) [OF that] by (simp add: um_do_redo_def Let_def fr_def d3_def)
    moreover have d3: "doc_ok ok taken E lo {} d3" unfolding d3_def by (rule mark_range_flag_ok [OF d2])
    have "d3 = d2\<lparr>d_heap := (\<lambda>p. if p \<in> ?new then clear_deleted (d_heap d2 p) else d_heap d2 p)\<rparr>"
      using marked_heap [OF d1 g, of d2 False] same2(5) by (simp add: d3_def heap2 flags_onlyD [OF flags_only_marks(1)])
    then have heap3: "d_heap d3 = (\<lambda>p. if p \<in> ?new then clear_deleted (set_deleted (d_heap d1 p)) else d_heap d1 p)"
      and same3: "d_arrays d3 = d_arrays d1" "d_array_heap d3 = d_array_heap d1" "d_roots d3 = d_roots d1" "d_map_heap d3 = d_map_heap d1"
      using same2 by (auto simp: heap2)
    have u: "flags_only (\<lambda>x. clear_deleted (set_deleted x))"
      by (auto simp: flags_only_def set_deleted_def clear_deleted_def)
    note R = redo_restores [OF d0 d1 f g heap3 u deleted_clear same3]
    ultimately show ?thesis using holds_shows [OF d3 R(1)] R(2) by simp
  qed
  ultimately show ?thesis using run holds_shows [OF d1 f] by blast
qed

lemma new_undo_redo:
  assumes a: "ok a" and before: "edit_run E es (doc_new client a) d0"
    and opened: "um_capture_begin origin (um, d0) = (Inr (), um1, d0')"
    and edits: "edit_run E es' d0 d1" "list_all inserts es'" and moved: "d_next_clock d1 \<noteq> d_next_clock d0"
    and finish: "um_capture_end (um1, d1) = (Inr (), um2, d1')"
    and undo: "um_do_undo E (um2, d1) = (r, um3, d2)"
  shows "\<exists>s s'. plain_run es plain_empty s \<and> shows_plain E d0 s \<and> plain_run es' s s' \<and> shows_plain E d1 s' \<and>
    shows_plain E d2 s \<and> (r = Inr () \<longrightarrow> shows_plain E (snd (snd (um_do_redo E (um3, d2)))) s')"
proof -
  have new: "doc_ok ok taken E 0 {} (doc_new client a)" using doc_new_ok [OF a] by blast
  obtain f0 where d0: "doc_ok ok taken E 0 {} d0" and f0: "holds E d0 f0" and run: "plain_run es plain_empty (plain_of E d0 f0)"
    using edit_run_refines [OF before new new_shows(1)] by (auto simp: new_shows(2))
  show ?thesis using capture_undo_redo [OF d0 f0 opened edits moved finish undo] run holds_shows [OF d0 f0] by blast
qed

end

section \<open>Properties\<close>

text \<open>
C3: Undo and redo are inverse to each other: when a capture window covers a run of insertions and appends,
undoing its frame makes the document show what it showed when the window was opened, and redoing it
makes it show the insertions again.
\<close>

theorem undo_redo_roundtrip:
  assumes "arena_inv mal regs a" and "edit_run (arena_env mal h) es (doc_new client a) d0"
    and "um_capture_begin origin (um, d0) = (Inr (), um1, d0')"
    and "edit_run (arena_env mal h) es' d0 d1" and "list_all inserts es'" and "d_next_clock d1 \<noteq> d_next_clock d0"
    and "um_capture_end (um1, d1) = (Inr (), um2, d1')"
    and "um_do_undo (arena_env mal h) (um2, d1) = (r, um3, d2)"
  shows "\<exists>s s'. plain_run es plain_empty s \<and> shows_plain (arena_env mal h) d0 s \<and>
    plain_run es' s s' \<and> shows_plain (arena_env mal h) d1 s' \<and> shows_plain (arena_env mal h) d2 s \<and>
    (r = Inr () \<longrightarrow> shows_plain (arena_env mal h) (snd (snd (um_do_redo (arena_env mal h) (um3, d2)))) s')"
  by (rule arena_doc.new_undo_redo [OF assms])

inductive_cases edit_run_nilE: "edit_run E [] d d'"

theorem undo_redo_roundtrip_witness:
  "\<exists>d1 um2 um3 r d2 s'. edit_run demo_doc_env [Append [104] [65]] (doc_new 7 demo_doc_arena) d1 \<and>
    um_do_undo demo_doc_env (um2, d1) = (r, um3, d2) \<and> pl_seqs s' [104] = [[65]] \<and>
    shows_plain demo_doc_env d1 s' \<and> shows_plain demo_doc_env d2 plain_empty"
proof (rule demo_edit_run)
  fix d1
  assume run: "edit_run demo_doc_env [Append [104] [65]] (doc_new 7 demo_doc_arena) d1" and clk: "d_next_clock d1 = 1"
  let ?d0 = "doc_new 7 demo_doc_arena" and ?um = "um_new\<lparr>um_tracked := [3]\<rparr>"
  let ?um1 = "?um\<lparr>um_open_origin := 3, um_open_active := True, um_pre_clock := 0\<rparr>"
  have opened: "um_capture_begin 3 (?um, ?d0) = (Inr (), ?um1, ?d0)"
    by (simp add: um_capture_begin_def um_new_def um_is_tracked_def doc_new_def)
  obtain um2 where finish: "um_capture_end (?um1, d1) = (Inr (), um2, d1)"
    using clk by (simp add: um_capture_end_def Let_def)
  obtain r um3 d2 where undo: "um_do_undo demo_doc_env (um2, d1) = (r, um3, d2)" by (metis prod.collapse)
  have clk0: "d_next_clock d1 \<noteq> d_next_clock ?d0" using clk by (simp add: doc_new_def)
  obtain s s' where s: "plain_run [] plain_empty s" "plain_run [Append [104] [65]] s s'" "shows_plain demo_doc_env d1 s'"
      "shows_plain demo_doc_env d2 s"
    using undo_redo_roundtrip [OF demo_doc_arena_ok, where h = "\<lambda>k. k", folded demo_doc_env_def,
        OF edit_run.stop opened run _ clk0 finish undo] by auto
  have "s = plain_empty" using s(1) by (auto elim: plain_run_nilE)
  moreover have "pl_seqs s' [104] = [[65]]"
    using s(2) calculation by (auto elim!: plain_run_consE plain_run_nilE plain_step_appendE simp: plain_empty_def)
  ultimately show ?thesis using run undo s by blast
qed

lemma mark_range_deletes: "d_deletes (mark_range_flag E c s e flag d) = d_deletes d"
proof -
  have "d_deletes (fold (\<lambda>k d. case doc_find E d (Id c (of_nat k)) of None \<Rightarrow> d
      | Some p \<Rightarrow> d\<lparr>d_heap := (d_heap d)(p := u (d_heap d p))\<rparr>) ks d) = d_deletes d" for u ks and d :: "'a doc"
    by (induction ks arbitrary: d) (auto split: option.split)
  then show ?thesis by (simp add: mark_range_flag_def)
qed

text \<open>
C33: A redo does not take the deletion back: after an undo that succeeded, every identifier of its frame is in
the delete set that every update of the document carries, and it is still there after the next redo.
\<close>

theorem redo_keeps_deletion:
  assumes "ds_inv E (d_deletes d)" and "um_undo um \<noteq> []" and "f = last (um_undo um)"
    and "f_start f \<le> k" and "k < f_end f" and "um_do_undo E (um, d) = (Inr (), um', d')"
  shows "ds_contains E (Id (f_client f) k) (d_deletes (snd (snd (um_do_redo E (um', d')))))"
proof -
  obtain r d2 where del: "doc_delete E (f_client f) (f_start f) (f_end f - f_start f)
      (mark_range_flag E (f_client f) (f_start f) (f_end f) True d) = (r, d2)" by fastforce
  have r: "r = Inr ()" "d' = d2" using assms(2,3,6) del by (auto simp: um_do_undo_def Let_def split: sum.splits)
  have lt: "f_start f < f_end f" using assms(4,5) by simp
  note wf = clock_span_wf [OF lt]
  obtain a ds a' where add: "ds_add E (f_client f) (f_start f) (f_end f - f_start f) (d_deletes d, a) = (Inr (), ds, a')"
      and ds: "d_deletes d' = ds"
    using del r by (auto simp: doc_delete_def mark_range_deletes split: prod.splits)
  note spec = ds_add_spec(1,2) [OF assms(1) wf add]
  have "Id (f_client f) k \<in> run_ids (f_client f) (f_start f) (f_end f - f_start f)"
    using assms(4,5) lt by (simp add: run_ids_def unat_sub word_less_nat_alt word_le_nat_alt)
  then have "ds_contains E (Id (f_client f) k) (d_deletes d')" using spec by (simp add: ds ds_contains_spec)
  moreover have "d_deletes (snd (snd (um_do_redo E (um', d')))) = d_deletes d'"
    by (simp add: um_do_redo_def Let_def mark_range_deletes)
  ultimately show ?thesis by simp
qed

definition demo_frame :: frame where
  "demo_frame = \<lparr>f_origin = 3, f_client = 7, f_start = 0, f_end = 2\<rparr>"

theorem redo_keeps_deletion_witness:
  "\<exists>um' d'. um_do_undo bump_env (um_new\<lparr>um_undo := [demo_frame]\<rparr>, doc_new 7 0) = (Inr (), um', d') \<and>
     ds_contains bump_env (Id 7 1) (d_deletes (snd (snd (um_do_redo bump_env (um', d')))))"
proof -
  have "fst (um_do_undo bump_env (um_new\<lparr>um_undo := [demo_frame]\<rparr>, doc_new 7 0)) = Inr ()" by code_simp
  then obtain um' d' where run: "um_do_undo bump_env (um_new\<lparr>um_undo := [demo_frame]\<rparr>, doc_new 7 0) = (Inr (), um', d')"
    by (metis prod.collapse)
  have "ds_inv bump_env (d_deletes (doc_new 7 0 :: u64 doc))" by (simp add: doc_new_def ds_inv_empty(1))
  then have "ds_contains bump_env (Id (f_client demo_frame) 1) (d_deletes (snd (snd (um_do_redo bump_env (um', d')))))"
    by (rule redo_keeps_deletion [OF _ _ _ _ _ run]) (simp_all add: demo_frame_def)
  then show ?thesis using run by (auto simp: demo_frame_def)
qed

end
