(* ===== verification/Ycpp_Cli.thy ===== *)
theory Ycpp_Cli
  imports Ycpp_DocRun Ycpp_Diff Ycpp_YText
begin

text \<open>
  The interop command line tool (ycpp_cli.cpp) and the entry points for C strings that it uses, with
  the accessors of views.  Input and output are explicit: standard input is the list of the results
  of the calls of \<open>fread\<close>, and a command yields its exit code with what it wrote.  A C string is the
  memory behind its pointer, null as \<open>None\<close>.  An outcome of \<open>None\<close> is a command that does not return:
  it waits for input, an update makes it loop, or an assertion stops it.
\<close>

section \<open>Views\<close>

text \<open>The accessors of \<open>ByteView\<close> assert their bounds.\<close>

definition bv_empty :: "bytes \<Rightarrow> bool" where
  "bv_empty v \<longleftrightarrow> length v = 0"

definition bv_at :: "nat \<Rightarrow> bytes \<Rightarrow> u8 option" where
  "bv_at i v = (if i < length v then Some (v ! i) else None)"

definition bv_slice :: "nat \<Rightarrow> nat \<Rightarrow> bytes \<Rightarrow> bytes option" where
  "bv_slice off n v = (if off \<le> length v then if n \<le> length v - off then Some (take n (drop off v)) else None else None)"

definition bv_drop_front :: "nat \<Rightarrow> bytes \<Rightarrow> bytes option" where
  "bv_drop_front n v = (if n \<le> length v then Some (drop n v) else None)"

lemma bv_slice_drop_front: "bv_slice off n v = Option.bind (bv_drop_front off v) (bv_slice 0 n)"
  by (auto simp: bv_slice_def bv_drop_front_def)

lemma bv_at_slice: "bv_slice off n v = Some w \<Longrightarrow> i < n \<Longrightarrow> bv_at i w = bv_at (off + i) v"
  by (auto simp: bv_slice_def bv_at_def split: if_splits)

section \<open>C strings\<close>

primrec cstr_length :: "bytes \<Rightarrow> nat" where
  "cstr_length [] = 0"
| "cstr_length (b # m) = (if b \<noteq> 0 then cstr_length m + 1 else 0)"

definition cstr_view :: "bytes option \<Rightarrow> bytes" where
  "cstr_view s = (case s of None \<Rightarrow> [] | Some m \<Rightarrow> take (cstr_length m) m)"

lemma cstr_view_bytes: "0 \<notin> set v \<Longrightarrow> cstr_view (Some (v @ 0 # rest)) = v"
proof -
  have "0 \<notin> set v \<Longrightarrow> cstr_length (v @ 0 # rest) = length v" by (induction v) auto
  then show "0 \<notin> set v \<Longrightarrow> cstr_view (Some (v @ 0 # rest)) = v" by (simp add: cstr_view_def)
qed

definition find_map_c :: "(u64, 'a) hm_env \<Rightarrow> bytes option \<Rightarrow> 'a doc \<Rightarrow> addr option" where
  "find_map_c E name d = (if name = None then None else find_map E (cstr_view name) d)"

definition get_or_create_map_c :: "(u64, 'a) hm_env \<Rightarrow> bytes option \<Rightarrow> 'a doc \<Rightarrow> (addr option \<times> 'a doc) option" where
  "get_or_create_map_c E name d =
     (case name of None \<Rightarrow> Some (None, d) | Some m \<Rightarrow> get_or_create_map E (take (cstr_length m) m) d)"

definition get_or_create_array_c :: "(u64, 'a) hm_env \<Rightarrow> bytes option \<Rightarrow> 'a doc \<Rightarrow> (addr option \<times> 'a doc) option" where
  "get_or_create_array_c E name d = get_or_create_array E (cstr_view name) d"

text \<open>A \<open>YText\<close> is the pointer to its array; its constructor asserts that it is not null.\<close>

definition get_or_create_text :: "(u64, 'a) hm_env \<Rightarrow> bytes \<Rightarrow> 'a doc \<Rightarrow> (addr \<times> 'a doc) option" where
  "get_or_create_text E name d =
     (case get_or_create_array E name d of Some (Some arr, d) \<Rightarrow> Some (arr, d) | _ \<Rightarrow> None)"

definition get_or_create_text_c :: "(u64, 'a) hm_env \<Rightarrow> bytes option \<Rightarrow> 'a doc \<Rightarrow> (addr \<times> 'a doc) option" where
  "get_or_create_text_c E name d =
     (case get_or_create_array_c E name d of Some (Some arr, d) \<Rightarrow> Some (arr, d) | _ \<Rightarrow> None)"

definition map_set_string_c :: "(u64, 'a) hm_env \<Rightarrow> bytes option \<Rightarrow> bytes option \<Rightarrow> bytes option \<Rightarrow> ('a doc, yid) pop" where
  "map_set_string_c E root key v = map_set_string E (cstr_view root) (cstr_view key) (cstr_view v)"

definition array_insert_at_c :: "(u64, 'a) hm_env \<Rightarrow> bytes option \<Rightarrow> u64 \<Rightarrow> bytes option \<Rightarrow> ('a doc, yid) pop" where
  "array_insert_at_c E root index v = array_insert_at E (cstr_view root) index (cstr_view v)"

definition text_append_c :: "(u64, 'a) hm_env \<Rightarrow> bytes option \<Rightarrow> bytes option \<Rightarrow> ('a doc, yid) pop" where
  "text_append_c E root v = text_append E (cstr_view root) (cstr_view v)"

definition array_delete_at_c :: "(u64, 'a) hm_env \<Rightarrow> bytes option \<Rightarrow> u64 \<Rightarrow> ('a doc, unit) pop" where
  "array_delete_at_c E root index = array_delete_at E (cstr_view root) index"

section \<open>The tool\<close>

text \<open>A call of \<open>fread\<close>: the bytes it read, and \<open>feof\<close> and \<open>ferror\<close> after it.\<close>

type_synonym input = "(bytes \<times> bool \<times> bool) list"

fun read_all_stdin :: "input \<Rightarrow> bytes \<Rightarrow> (bool \<times> bytes) option" where
  "read_all_stdin [] out = None"
| "read_all_stdin ((chunk, eof, err) # rest) out =
     (let out = (if length chunk > 0 then out @ chunk else out) in
      if length chunk < 4096 then
        if eof then Some (True, out)
        else if err then Some (False, out)
        else read_all_stdin rest out
      else read_all_stdin rest out)"

record cli_result =
  cr_exit :: nat
  cr_out :: bytes
  cr_err :: bytes

definition text_bytes :: "string \<Rightarrow> bytes" where
  "text_bytes s = map of_char s"

definition new_line :: bytes where
  "new_line = [10]"

definition cli_fail :: "nat \<Rightarrow> bytes \<Rightarrow> cli_result" where
  "cli_fail code msg = \<lparr>cr_exit = code, cr_out = [], cr_err = msg @ new_line\<rparr>"

definition cli_client :: u64 where
  "cli_client = 0xC0FFEE"

text \<open>The part all commands begin with: read, and apply to a fresh document.\<close>

definition cli_load :: "(u64, 'a) hm_env \<Rightarrow> 'a \<Rightarrow> input \<Rightarrow> (cli_result + 'a doc) option" where
  "cli_load E a inp =
     (case read_all_stdin inp [] of
        None \<Rightarrow> None
      | Some (False, _) \<Rightarrow> Some (Inl (cli_fail 1 (text_bytes ''ycpp_cli: stdin read error'')))
      | Some (True, bs) \<Rightarrow>
          (case apply_update_v1 E bs (doc_new cli_client a) of
             None \<Rightarrow> None
           | Some (Inl s, d) \<Rightarrow> Some (Inl (cli_fail 1 (text_bytes (''ycpp_cli: apply failed: '' @ status_name s))))
           | Some (Inr _, d) \<Rightarrow> Some (Inr d)))"

definition kEmitBytes :: nat where
  "kEmitBytes = 2 ^ 20"

definition do_apply_and_emit :: "(u64, 'a) hm_env \<Rightarrow> 'a \<Rightarrow> input \<Rightarrow> cli_result option" where
  "do_apply_and_emit E a inp =
     (case cli_load E a inp of
        None \<Rightarrow> None
      | Some (Inl r) \<Rightarrow> Some r
      | Some (Inr d) \<Rightarrow>
          (case encode_diff_v1 E d (None :: ((u64, 'a) hm_env \<times> state_vector) option) (writer_of (replicate kEmitBytes 0)) of
             (Inl es, w) \<Rightarrow> Some (cli_fail 1 (text_bytes (''ycpp_cli: encode failed: '' @ status_name es)))
           | (Inr _, w) \<Rightarrow> Some \<lparr>cr_exit = 0, cr_out = w_out w, cr_err = []\<rparr>))"

definition do_list_map :: "(u64, 'a) hm_env \<Rightarrow> 'a \<Rightarrow> bytes list \<Rightarrow> input \<Rightarrow> cli_result option" where
  "do_list_map E a argv inp =
     (if length argv < 4 then Some (cli_fail 1 (text_bytes ''usage: ycpp_cli list-map <root> <key>''))
      else
        let root = argv ! 2; key = argv ! 3 in
        (case cli_load E a inp of
           None \<Rightarrow> None
         | Some (Inl r) \<Rightarrow> Some r
         | Some (Inr d) \<Rightarrow>
             (case get_or_create_map_c E (Some root) d of
                None \<Rightarrow> None
              | Some (None, d) \<Rightarrow>
                  Some (cli_fail 2 (text_bytes ''ycpp_cli: no map root '' @ [39] @ cstr_view (Some root) @ [39]))
              | Some (Some m, d) \<Rightarrow>
                  (case ym_get (view_env E 24) (d_heap d) (take (cstr_length key) key) (d_map_heap d m) of
                     None \<Rightarrow> Some (cli_fail 2 (text_bytes ''ycpp_cli: key '' @ [39] @ cstr_view (Some key) @ [39] @
                       text_bytes '' not present''))
                   | Some it \<Rightarrow> Some \<lparr>cr_exit = 0, cr_out = it_content_view (d_heap d it), cr_err = []\<rparr>))))"

definition do_dump_text :: "(u64, 'a) hm_env \<Rightarrow> 'a \<Rightarrow> bytes list \<Rightarrow> input \<Rightarrow> cli_result option" where
  "do_dump_text E a argv inp =
     (if length argv < 3 then Some (cli_fail 1 (text_bytes ''usage: ycpp_cli dump-text <root>''))
      else
        let root = argv ! 2 in
        (case cli_load E a inp of
           None \<Rightarrow> None
         | Some (Inl r) \<Rightarrow> Some r
         | Some (Inr d) \<Rightarrow>
             (case get_or_create_text_c E (Some root) d of
                None \<Rightarrow> None
              | Some (arr, d) \<Rightarrow>
                  map_option (\<lambda>out. \<lparr>cr_exit = 0, cr_out = out, cr_err = []\<rparr>)
                    (yt_for_each_chunk (\<lambda>b out. if length b > 0 then out @ b else out) (d_heap d) (d_array_heap d arr) []))))"

text \<open>\<open>strcmp\<close> compares up to the terminators.\<close>

definition is_command :: "bytes \<Rightarrow> string \<Rightarrow> bool" where
  "is_command arg name \<longleftrightarrow> cstr_view (Some arg) = text_bytes name"

definition cli_main :: "(u64, 'a) hm_env \<Rightarrow> 'a \<Rightarrow> bytes list \<Rightarrow> input \<Rightarrow> cli_result option" where
  "cli_main E a argv inp =
     (if length argv < 2 then Some (cli_fail 1 (text_bytes ''usage: ycpp_cli <apply-and-emit|list-map|dump-text> [args]''))
      else if is_command (argv ! 1) ''apply-and-emit'' then do_apply_and_emit E a inp
      else if is_command (argv ! 1) ''list-map'' then do_list_map E a argv inp
      else if is_command (argv ! 1) ''dump-text'' then do_dump_text E a argv inp
      else Some (cli_fail 1 (text_bytes ''ycpp_cli: unknown command '' @ [39] @ cstr_view (Some (argv ! 1)) @ [39])))"

section \<open>What it prints\<close>

lemma read_all_stdin_spec:
  "read_all_stdin inp out = Some (ok, bs) \<Longrightarrow>
   \<exists>n. bs = out @ concat (map fst (take n inp)) \<and> 0 < n \<and> n \<le> length inp \<and>
     (ok \<longleftrightarrow> fst (snd (inp ! (n - 1)))) \<and> length (fst (inp ! (n - 1))) < 4096"
proof (induction inp arbitrary: out)
  case (Cons c rest)
  obtain chunk eof err where c: "c = (chunk, eof, err)" by (metis prod.collapse)
  let ?out = "if length chunk > 0 then out @ chunk else out"
  have out: "?out = out @ chunk" by simp
  show ?case
  proof (cases "length chunk < 4096 \<and> (eof \<or> err)")
    case True
    then show ?thesis using Cons.prems out by (intro exI [of _ 1]) (auto simp: c Let_def split: if_splits)
  next
    case False
    then have "read_all_stdin rest ?out = Some (ok, bs)" using Cons.prems by (auto simp: c Let_def split: if_splits)
    from Cons.IH [OF this] obtain n where n: "bs = ?out @ concat (map fst (take n rest))" "0 < n" "n \<le> length rest"
      "ok \<longleftrightarrow> fst (snd (rest ! (n - 1)))" "length (fst (rest ! (n - 1))) < 4096" by blast
    then show ?thesis using out by (intro exI [of _ "Suc n"]) (simp add: c nth_Cons')
  qed
qed simp

context doc_env
begin

lemma cli_load_ok:
  assumes "ok a" and "read_all_stdin inp [] = Some (True, bs)" and "update_fits E bs a" and "cli_load E a inp = Some (Inr d)"
  shows "doc_ok ok taken E 0 {} d"
proof -
  have new: "doc_ok ok taken E 0 {} (doc_new cli_client a)" using doc_new_ok [OF assms(1)] by blast
  have "apply_update_v1 E bs (doc_new cli_client a) = Some (Inr (), d)"
    using assms(2,4) by (auto simp: cli_load_def split: option.splits sum.splits)
  from apply_update_ok [OF new _ this] show ?thesis using assms(3) by (simp add: doc_new_def)
qed

end

lemma emit_result:
  assumes load: "cli_load E a inp = Some (Inr d)" and wire: "doc_wire_ok E d"
  shows "do_apply_and_emit E a inp = Some (if length (doc_diff E d (\<lambda>_. 0)) \<le> kEmitBytes
    then \<lparr>cr_exit = 0, cr_out = doc_diff E d (\<lambda>_. 0), cr_err = []\<rparr>
    else cli_fail 1 (text_bytes (''ycpp_cli: encode failed: '' @ status_name kOutOfBounds)))"
proof -
  let ?none = "None :: ((u64, 'a) hm_env \<times> state_vector) option" and ?w = "writer_of (replicate kEmitBytes 0)"
  have "since_clock ?none = (\<lambda>_. 0)" by (rule ext) (simp add: since_clock_def)
  then have app: "w_appends (encode_diff_v1 E d ?none) (doc_diff E d (\<lambda>_. 0))"
    using encode_diff_appends [OF wire, of ?none] by simp
  show ?thesis
  proof (cases "length (doc_diff E d (\<lambda>_. 0)) \<le> kEmitBytes")
    case True
    then have "length (doc_diff E d (\<lambda>_. 0)) \<le> w_remaining ?w" by simp
    from w_appends_fits [OF app w_wf_writer_of this] obtain w where
      "encode_diff_v1 E d ?none ?w = (Inr (), w)" "w_out w = doc_diff E d (\<lambda>_. 0)" by auto
    then show ?thesis using True load by (simp add: do_apply_and_emit_def)
  next
    case False
    then have "\<not> length (doc_diff E d (\<lambda>_. 0)) \<le> w_remaining ?w" by simp
    from w_appends_full [OF app w_wf_writer_of this] obtain w where "encode_diff_v1 E d ?none ?w = (Inl kOutOfBounds, w)" by auto
    then show ?thesis using False load by (simp add: do_apply_and_emit_def)
  qed
qed

text \<open>What \<open>dump-text\<close> prints of a well-formed list.\<close>

lemma dump_prints:
  assumes "chain h s ps"
  shows "yt_for_each_chunk (\<lambda>b out. if length b > 0 then out @ b else out) h s [] =
    Some (concat (map (\<lambda>p. it_content_view (h p)) (live h ps)))"
proof -
  have "fold (\<lambda>(p, i) out. if length (it_content_view (h p)) > 0 then out @ it_content_view (h p) else out) (zip qs js) out =
      out @ concat (map (\<lambda>p. it_content_view (h p)) qs)" if "length js = length qs" for qs out and js :: "u64 list"
    using that by (induction qs arbitrary: js out) (auto simp: length_Suc_conv)
  note this [of "map (\<lambda>i. 0 + of_nat i) [0..<length (live h ps)]" "live h ps" "[]"]
  moreover note ya_for_each_chain [OF assms, of "\<lambda>p i out. if length (it_content_view (h p)) > 0
    then out @ it_content_view (h p) else out" 0 "[]"]
  ultimately show ?thesis by (simp add: yt_for_each_chunk_def ya_for_each_def)
qed


definition demo_input :: input where
  "demo_input = [([0], False, False), ([0], True, False)]"

lemma demo_load:
  obtains d where "cli_load demo_doc_env demo_doc_arena demo_input = Some (Inr d)" and "d_store d = ss_empty" and "d_deletes d = ds_empty"
proof -
  have "case cli_load demo_doc_env demo_doc_arena demo_input of
      Some (Inr d) \<Rightarrow> d_store d = ss_empty \<and> d_deletes d = ds_empty | _ \<Rightarrow> False" by code_simp
  then show ?thesis using that by (auto split: option.splits sum.splits)
qed


end
