(* ===== verification/Spec2Isabelle.thy ===== *)
theory Spec2Isabelle
  imports Ycpp_Tombstones Ycpp_Encode Ycpp_Ring Ycpp_Awareness Ycpp_Sync Ycpp_UndoRun Ycpp_Cli
begin

text \<open>
  A verification development for ycpp, a header-only C++20 implementation of the Yjs CRDT
  (\<open>include/ycpp/\<close>) with its interop command line tool (\<open>tools/yjs_interop/ycpp_cli.cpp\<close>).  Every
  definition translates the C++ function of the same or a similar name; this header says how the
  parts fit together, which theory models which file, and what the theorems show.

  \<^bold>\<open>The program.\<close>  A \<open>Doc\<close> (\<open>ycpp_doc.h\<close>) owns an arena, pools of items, maps and sequences, a
  \<open>StructStore\<close> with every item it has ever seen, a \<open>DeleteSet\<close>, and tables from names to root maps
  and root sequences.  A local edit takes an item from the pool, appends it to the store and lets the
  \<open>YMap\<close> or \<open>YArray\<close> of its parent integrate it.  An update from another replica is decoded
  (\<open>ycpp_update.h\<close>), its structs take the same way in several passes until nothing more fits, and its
  delete set is applied.  To answer a peer, \<open>encode_diff_v1\<close> writes the items beyond the peer's state
  vector; the protocol (\<open>ycpp_protocol.h\<close>) wraps this in envelopes.  Around it stand the undo manager,
  awareness, moves, sub-documents, and a ring buffer between two threads.

  \<^bold>\<open>Conventions.\<close>  A \<open>uint64_t\<close> in arithmetic is a 64-bit word and wraps; sizes of containers and
  buffer positions are natural numbers; a \<open>ByteView\<close> is the list of its bytes.  A \<open>Status\<close> is the
  left side of a sum; an operation maps a state to a result and a state (\<open>op\<close>), and \<open>ytry\<close> is the
  early return of \<open>YCPP_TRY\<close>.  Items live in a heap from addresses to records, and a pointer is an
  address or \<open>None\<close>.  Loops over links that nothing in the code bounds are partial functions
  (\<open>pop\<close>): \<open>None\<close> is a call that does not return, so a statement about \<open>Some\<close> includes termination.
  \<open>std::malloc\<close>, the hash function and the allocator are parameters, with what the code may assume of
  them as named hypotheses (\<open>malloc_ok\<close>, \<open>alloc_contract\<close>, \<open>alloc_total\<close>).

  \<^bold>\<open>Theories and files.\<close>
  \<^item> \<open>Ycpp_Prelude\<close>: \<open>ycpp_status.h\<close>, results and operations, lemmas on lists, words, binary search.
  \<^item> \<open>Ycpp_Varint\<close>, \<open>Ycpp_Reader\<close>, \<open>Ycpp_Writer\<close>: the files of the same names, with \<open>r_parses\<close> and
    \<open>w_appends\<close> as what a decoder and an encoder promise; \<open>Ycpp_Codec\<close> is the locale that joins the two.
  \<^item> \<open>Ycpp_Id\<close>, \<open>Ycpp_Item\<close>, \<open>Ycpp_Unicode\<close>: identifiers with their order as a \<open>linorder\<close>, items and
    their flags, the length of UTF-8 in UTF-16 units.
  \<^item> \<open>Ycpp_HashMap\<close>: \<open>ycpp_hashmap.h\<close>, refined to finite maps (\<open>hm_abs\<close>), and the locale of tables
    that their clients use; \<open>Ycpp_StateVector\<close>, \<open>Ycpp_DeleteSet\<close>, \<open>Ycpp_StructStore\<close>, \<open>Ycpp_SubDoc\<close>,
    \<open>Ycpp_Awareness\<close> build on it.
  \<^item> \<open>Ycpp_Arena\<close>, \<open>Ycpp_Pool\<close>: \<open>ycpp_arena.h\<close> and \<open>ycpp_pool.h\<close> with the contract of allocators;
    \<open>Ycpp_Requests\<close> shows that every request of the program respects it.
  \<^item> \<open>Ycpp_Update\<close>, \<open>Ycpp_Encode\<close>, \<open>Ycpp_Diff\<close>: the decoder of \<open>ycpp_update.h\<close> and the encoder of
    \<open>ycpp_doc.h\<close>, first struct by struct, then for whole updates.
  \<^item> \<open>Ycpp_YArray\<close>: \<open>ycpp_yarray.h\<close> and the list relation \<open>dll\<close>; \<open>Ycpp_Yata\<close>: the order in which integration
    arranges a list, as lexicographic sort keys (\<open>rank\<close>, \<open>path\<close>), and the conflict scan as the search
    for a key; \<open>Ycpp_Forest\<close>: these keys from the items alone; \<open>Ycpp_Replica\<close>, \<open>Ycpp_Converge\<close>: replicas that
    grow item by item, and their convergence; \<open>Ycpp_Tombstones\<close>: where convergence ends.
  \<^item> \<open>Ycpp_YMap\<close>, \<open>Ycpp_YText\<close>, \<open>Ycpp_Move\<close>: the files of the same names.
  \<^item> \<open>Ycpp_Doc\<close>: \<open>ycpp_doc.h\<close> and the stubs of \<open>ycpp_update_v2.h\<close>.  \<open>Ycpp_DocInv\<close> states the
    invariant \<open>doc_ok\<close>, \<open>Ycpp_DocOps\<close> shows that every public operation keeps it, \<open>Ycpp_DocRun\<close> runs
    any operations in any order (\<open>doc_step\<close>).
  \<^item> \<open>Ycpp_DocEdit\<close>, \<open>Ycpp_DocRefine\<close>, \<open>Ycpp_Local\<close>: documents as plain lists and maps, edit by edit and
    for whole runs of local edits (\<open>edit_run\<close>, \<open>plain_run\<close>, \<open>shows_plain\<close>).
  \<^item> \<open>Ycpp_Undo\<close>, \<open>Ycpp_UndoRun\<close>: \<open>ycpp_undo.h\<close>, and undo as the inverse of a captured run.
  \<^item> \<open>Ycpp_Envelope\<close>, \<open>Ycpp_Protocol\<close>, \<open>Ycpp_Sync\<close>: envelopes, messages, the handshake end to end.
  \<^item> \<open>Ycpp_Ring\<close>: \<open>ycpp_ring.h\<close> as sequential code and as interleaved accesses of two threads.
  \<^item> \<open>Ycpp_Cli\<close>: the command line tool, \<open>ycpp_byteview.h\<close>, the overloads for C strings.

  \<^bold>\<open>What is shown.\<close>  Replicas that integrate the same list items, appended or inserted between neighbours,
  or the same map items, in any order end in the same state; integration places an item between
  its origins.  Every run of public
  operations, with updates from any source, keeps the invariant of the document, and no item slot is
  leaked, shared or reachable after release.  Local edits are exactly the edits of plain lists and
  maps; undo and redo of a captured run of insertions are inverse to each other.  What is encoded
  decodes to the same (varints, structs, delete sets, state vectors, envelopes, awareness, whole
  updates), the decoder is bounded by its input, and a sync handshake delivers what the peer lacks.
  The hash map, the delete set and the ring refine maps, sets and queues; the arena and the pool hand
  out disjoint memory.  Where the code fails its purpose the failure is a theorem: a move into itself
  loops, an insertion next to a deleted item makes replicas diverge, an answer above 16 KiB is refused, a wrapped range is lost, format items leak into the text, a
  huge request succeeds, a redo leaves its deletion behind.

  \<^bold>\<open>Interfaces.\<close>  Encoders and decoders meet in the locale of \<open>Ycpp_Codec\<close>; clients of a hash map use
  the locale of \<open>Ycpp_HashMap\<close>; the classes that allocate rest on the locale of \<open>Ycpp_Arena\<close> with the
  laws of \<open>alloc_contract\<close>; \<open>doc_env\<close> of \<open>Ycpp_DocInv\<close> extends it by what a document needs.  Each is
  interpreted on the definitions of the code, \<open>doc_env\<close> on the arena.

  \<^bold>\<open>Bounds.\<close>  The loops with a bound in the code keep it as fuel: 256 conflicting items in
  \<open>YArray::integrate\<close>, 256 origins in \<open>YMap\<close>, 1024 hops to inherit a parent, 64 levels of \<open>any\<close> values,
  10 bytes of a varint, and as many probes as a hash map has slots.  Running out is what the code does
  at that point, so no theorem needs more.  The passes over an update are as many as it has structs,
  plus one, since each pass but the last installs one.  Theorems about growth carry the bounds of the
  code: \<open>2^24\<close> slots of a table, 4096 clients, \<open>2^20\<close> deleted ranges of a client, 4096 slabs and blocks.
  \<open>addressable\<close> excludes views above \<open>2^61\<close> bytes; \<open>edit_fits\<close> and \<open>update_fits\<close> exclude clocks that
  would wrap.

  \<^bold>\<open>Not modelled.\<close>  Deleted copy operations, destructors (all storage belongs to the arena), static
  assertions, iterators over containers beyond the visits the program makes, and one-line accessors of
  a field, which the record selectors are.  Memory that was never written is given the value the
  constructor of its type leaves.  The weak memory model is not: the ring is interleaved access by
  access, in the order its acquire and release operations force.  The tests define no behaviour.
  \<open>ycpp.h\<close> only includes the other headers.  Convergence of lists is claimed for items whose right origin
  is nothing, a sibling, or no descendant of the left origin (\<open>right_ok\<close>), and whose origins are ends of
  whole items; \<open>array_insert_at\<close> next to a deleted item leaves this class.  Convergence of moves
  is not claimed: a move of a range that changes meanwhile depends on the order of arrival.
\<close>

end
